(* ===== verification/Prelude.thy ===== *)
theory Prelude
  imports Main "HOL-Library.Sublist" "HOL-Library.List_Lexorder" "HOL-Library.Char_ord"
begin

text \<open>
  What the components share: the part of the Go string library the sources use
  (\<open>strings.TrimSpace\<close>, \<open>strings.ToLower\<close>, \<open>strings.Contains\<close>, \<open>strings.Split\<close>, decimal
  printing and reading), the combinators in which validators are written, and generic
  lemmas on lists. A Go string is a list of bytes, so \<^typ>\<open>string\<close> (a list of
  \<^typ>\<open>char\<close>) is used for it as it is.

  Validators of the source return \<open>error\<close>; here they return an option, \<^const>\<open>None\<close> for
  \<open>nil\<close>. \<open>checks\<close> is the chain of early returns, \<open>fails_if\<close> one guarded return.
  Functions that return a value and an error are sums, with \<^const>\<open>Inl\<close> for the error.
\<close>

named_theorems go_simps \<open>unfolding rules of the Go library functions\<close>
named_theorems check_simps \<open>rules that take validator chains apart\<close>

section \<open>Validator chains\<close>

text \<open>
  \<open>fmt.Errorf(format, args...)\<close>: the error is its format and the texts put into it. The
  context that \<open>fmt.Errorf("...: %w", err)\<close> adds around an error on its way up is left out.
\<close>

datatype go_error = Errorf string "string list"

abbreviation Error :: "string \<Rightarrow> go_error" where
  "Error s \<equiv> Errorf s []"

definition fails_if :: "bool \<Rightarrow> 'e \<Rightarrow> 'e option" where
  "fails_if b e = (if b then Some e else None)"

fun checks :: "'e option list \<Rightarrow> 'e option" where
  "checks [] = None"
| "checks (Some e # _) = Some e"
| "checks (None # xs) = checks xs"

fun first_err :: "('a \<Rightarrow> 'e option) \<Rightarrow> 'a list \<Rightarrow> 'e option" where
  "first_err f [] = None"
| "first_err f (x # xs) = (case f x of Some e \<Rightarrow> Some e | None \<Rightarrow> first_err f xs)"

lemma fails_if_None [simp, check_simps]: "fails_if b e = None \<longleftrightarrow> \<not> b"
  by (simp add: fails_if_def)

lemma fails_if_Some [simp]: "fails_if b e = Some x \<longleftrightarrow> b \<and> x = e"
  by (auto simp: fails_if_def)

lemma checks_Cons: "checks (x # xs) = (case x of Some e \<Rightarrow> Some e | None \<Rightarrow> checks xs)"
  by (cases x) simp_all

lemma checks_None [check_simps]: "checks xs = None \<longleftrightarrow> (\<forall>x \<in> set xs. x = None)"
  by (induction xs) (auto simp: checks_Cons split: option.splits)

lemma first_err_None [check_simps]: "first_err f xs = None \<longleftrightarrow> (\<forall>x \<in> set xs. f x = None)"
  by (induction xs) (auto split: option.splits)

lemma first_err_cong [fundef_cong]:
  "xs = ys \<Longrightarrow> (\<And>x. x \<in> set ys \<Longrightarrow> f x = g x) \<Longrightarrow> first_err f xs = first_err g ys"
  by (induction xs arbitrary: ys) (auto split: option.splits)

text \<open>Mapping a fallible function over a list stops at the first error, as the loops do.\<close>

fun traverse :: "('a \<Rightarrow> 'e + 'b) \<Rightarrow> 'a list \<Rightarrow> 'e + 'b list" where
  "traverse f [] = Inr []"
| "traverse f (x # xs) =
     (case f x of Inl e \<Rightarrow> Inl e
      | Inr y \<Rightarrow> (case traverse f xs of Inl e \<Rightarrow> Inl e | Inr ys \<Rightarrow> Inr (y # ys)))"

lemma traverse_cong [fundef_cong]:
  "xs = ys \<Longrightarrow> (\<And>x. x \<in> set ys \<Longrightarrow> f x = g x) \<Longrightarrow> traverse f xs = traverse g ys"
proof (induction xs arbitrary: ys)
  case Nil
  then show ?case by simp
next
  case (Cons x xs)
  then have "f x = g x" and "traverse f xs = traverse g xs" by auto
  with Cons.prems(1) show ?case by (auto split: sum.splits)
qed

lemma traverse_Inr_iff:
  "traverse f xs = Inr ys \<longleftrightarrow> list_all2 (\<lambda>x y. f x = Inr y) xs ys"
proof (induction xs arbitrary: ys)
  case Nil
  then show ?case by (auto simp: list_all2_Nil)
next
  case (Cons x xs)
  then show ?case
    by (cases "f x"; cases "traverse f xs") (auto simp: list_all2_Cons1 simp flip: Cons.IH)
qed

lemma traverse_fixed: "(\<And>x. x \<in> set xs \<Longrightarrow> f x = Inr x) \<Longrightarrow> traverse f xs = Inr xs"
  by (simp add: traverse_Inr_iff list_all2_same)

lemma traverse_set:
  "traverse f xs = Inr ys \<Longrightarrow> y \<in> set ys \<Longrightarrow> \<exists>x \<in> set xs. f x = Inr y"
  by (fastforce simp: traverse_Inr_iff list_all2_conv_all_nth in_set_conv_nth)

section \<open>White space\<close>

text \<open>
  The UTF-8 encodings of the code points for which \<open>unicode.IsSpace\<close> holds. Both ends are
  trimmed by whole encodings: no encoding is a proper suffix of an encoding of another rune,
  so looking at the end of the byte list finds the rune that \<open>DecodeLastRune\<close> finds.
\<close>

definition space_runes :: "string list" where
  "space_runes =
     [[CHR 0x09], [CHR 0x0A], [CHR 0x0B], [CHR 0x0C], [CHR 0x0D], [CHR 0x20],
      [CHR 0xC2, CHR 0x85], [CHR 0xC2, CHR 0xA0], [CHR 0xE1, CHR 0x9A, CHR 0x80],
      [CHR 0xE2, CHR 0x80, CHR 0x80], [CHR 0xE2, CHR 0x80, CHR 0x81],
      [CHR 0xE2, CHR 0x80, CHR 0x82], [CHR 0xE2, CHR 0x80, CHR 0x83],
      [CHR 0xE2, CHR 0x80, CHR 0x84], [CHR 0xE2, CHR 0x80, CHR 0x85],
      [CHR 0xE2, CHR 0x80, CHR 0x86], [CHR 0xE2, CHR 0x80, CHR 0x87],
      [CHR 0xE2, CHR 0x80, CHR 0x88], [CHR 0xE2, CHR 0x80, CHR 0x89],
      [CHR 0xE2, CHR 0x80, CHR 0x8A], [CHR 0xE2, CHR 0x80, CHR 0xA8],
      [CHR 0xE2, CHR 0x80, CHR 0xA9], [CHR 0xE2, CHR 0x80, CHR 0xAF],
      [CHR 0xE2, CHR 0x81, CHR 0x9F], [CHR 0xE3, CHR 0x80, CHR 0x80]]"

definition strip_one :: "string list \<Rightarrow> string \<Rightarrow> string option" where
  "strip_one es s =
     map_option (\<lambda>e. drop (length e) s) (find (\<lambda>e. e \<noteq> [] \<and> prefix e s) es)"

lemma strip_one_shorter: "strip_one es s = Some r \<Longrightarrow> length r < length s"
  by (auto simp: strip_one_def find_Some_iff prefix_def)

lemma strip_one_suffix: "strip_one es s = Some r \<Longrightarrow> suffix r s"
  by (auto simp: strip_one_def suffix_drop)

lemma strip_one_None: "strip_one es s = None \<longleftrightarrow> (\<forall>e \<in> set es. e = [] \<or> \<not> prefix e s)"
  by (auto simp: strip_one_def find_None_iff)

function strip_all :: "string list \<Rightarrow> string \<Rightarrow> string" where
  "strip_all es s = (case strip_one es s of None \<Rightarrow> s | Some r \<Rightarrow> strip_all es r)"
  by pat_completeness auto
termination
  by (relation "measure (length \<circ> snd)") (auto dest: strip_one_shorter)

declare strip_all.simps [simp del]

definition TrimSpace :: "string \<Rightarrow> string" where
  "TrimSpace s = rev (strip_all (map rev space_runes) (rev (strip_all space_runes s)))"

lemma strip_all_stop: "strip_one es (strip_all es s) = None"
proof (induction es s rule: strip_all.induct)
  case (1 es s)
  then show ?case
    by (cases "strip_one es s") (simp_all add: strip_all.simps [of es s])
qed

lemma strip_all_id: "strip_one es s = None \<Longrightarrow> strip_all es s = s"
  by (simp add: strip_all.simps)

lemma strip_all_suffix: "suffix (strip_all es s) s"
proof (induction es s rule: strip_all.induct)
  case (1 es s)
  show ?case
  proof (cases "strip_one es s")
    case None
    then show ?thesis by (simp add: strip_all_id)
  next
    case (Some r)
    with 1 have "suffix (strip_all es r) r" by simp
    with Some show ?thesis
      by (simp add: strip_all.simps [of es s])
        (blast intro: suffix_order.order_trans strip_one_suffix)
  qed
qed

lemma strip_one_None_prefix:
  "strip_one es s = None \<Longrightarrow> prefix t s \<Longrightarrow> strip_one es t = None"
  unfolding strip_one_None by (meson prefix_order.order_trans)

text \<open>Trimming once is enough: the right end is trimmed off a string with a clean left end.\<close>

lemma TrimSpace_idem [simp]: "TrimSpace (TrimSpace s) = TrimSpace s"
proof -
  let ?l = "strip_all space_runes s"
  let ?r = "strip_all (map rev space_runes) (rev ?l)"
  have "prefix (rev ?r) ?l"
    using strip_all_suffix [of "map rev space_runes" "rev ?l"] by (simp add: suffix_to_prefix)
  then have "strip_one space_runes (rev ?r) = None"
    using strip_all_stop strip_one_None_prefix by blast
  then show ?thesis
    by (simp add: TrimSpace_def strip_all_id strip_all_stop)
qed

lemma TrimSpace_Nil [simp]: "TrimSpace [] = []"
  by (simp add: TrimSpace_def strip_all_id strip_one_None prefix_def)

text \<open>Identifier characters are no white space, so identifiers are not changed by trimming.\<close>

definition token_char :: "char \<Rightarrow> bool" where
  "token_char ch \<longleftrightarrow>
     (CHR ''a'' \<le> ch \<and> ch \<le> CHR ''z'') \<or> (CHR ''A'' \<le> ch \<and> ch \<le> CHR ''Z'') \<or>
     (CHR ''0'' \<le> ch \<and> ch \<le> CHR ''9'') \<or>
     ch = CHR ''-'' \<or> ch = CHR ''_'' \<or> ch = CHR ''.'' \<or> ch = CHR '':'' \<or> ch = CHR ''/''"


definition token_string :: "string \<Rightarrow> bool" where
  "token_string s \<longleftrightarrow> (\<forall>ch \<in> set s. token_char ch)"

lemma space_bytes_no_token:
  "\<forall>e \<in> set space_runes. \<not> token_char (hd e) \<and> \<not> token_char (last e)"
  by code_simp

lemma space_runes_nonempty: "[] \<notin> set space_runes"
  by (simp add: space_runes_def)

lemma strip_one_hd:
  assumes "\<forall>e \<in> set es. e \<noteq> [] \<longrightarrow> \<not> P (hd e)" and "s \<noteq> [] \<longrightarrow> P (hd s)"
  shows "strip_one es s = None"
  unfolding strip_one_None using assms by (auto simp: prefix_def)

lemma TrimSpace_ends:
  assumes "s \<noteq> [] \<Longrightarrow> token_char (hd s) \<and> token_char (last s)"
  shows "TrimSpace s = s"
proof -
  have l: "strip_one space_runes s = None"
    by (rule strip_one_hd [where P = token_char]) (use space_bytes_no_token assms in auto)
  have "strip_one (map rev space_runes) (rev s) = None"
    by (rule strip_one_hd [where P = token_char])
      (use space_bytes_no_token assms in \<open>auto simp: hd_rev\<close>)
  with l show ?thesis by (simp add: TrimSpace_def strip_all_id)
qed

lemma TrimSpace_token [simp]: "token_string s \<Longrightarrow> TrimSpace s = s"
  by (rule TrimSpace_ends) (auto simp: token_string_def)

section \<open>Case, substrings, splitting\<close>

text \<open>
  \<open>strings.ToLower\<close> as far as ASCII can tell: the letters \<open>A\<close>--\<open>Z\<close>, and the two code points
  outside ASCII whose lower case is an ASCII letter (U+0130 and U+212A). The sources only
  compare lowered text with ASCII text, for which the other code points make no difference.
\<close>

definition lower_char :: "char \<Rightarrow> char" where
  "lower_char ch =
     (if CHR ''A'' \<le> ch \<and> ch \<le> CHR ''Z'' then char_of (of_char ch + 32 :: nat) else ch)"

fun ToLower :: "string \<Rightarrow> string" where
  "ToLower (a # b # c # s) =
     (if a = CHR 0xC4 \<and> b = CHR 0xB0 then CHR ''i'' # ToLower (c # s)
      else if a = CHR 0xE2 \<and> b = CHR 0x84 \<and> c = CHR 0xAA then CHR ''k'' # ToLower s
      else lower_char a # ToLower (b # c # s))"
| "ToLower [a, b] =
     (if a = CHR 0xC4 \<and> b = CHR 0xB0 then [CHR ''i''] else [lower_char a, lower_char b])"
| "ToLower [a] = [lower_char a]"
| "ToLower [] = []"

definition small_letter :: "char \<Rightarrow> bool" where
  "small_letter ch \<longleftrightarrow> CHR ''a'' \<le> ch \<and> ch \<le> CHR ''z''"

lemma lower_char_small: "\<not> small_letter (lower_char ch) \<Longrightarrow> lower_char ch = ch"
  by (auto simp: lower_char_def less_eq_char_def small_letter_def)

lemma lower_char_idem [simp]: "lower_char (lower_char ch) = lower_char ch"
  by (auto simp: lower_char_def less_eq_char_def)

lemma letters_small_letter [simp]: "small_letter CHR ''i''" "small_letter CHR ''k''" "\<not> small_letter (CHR 0xC4)" "\<not> small_letter (CHR 0xB0)" 
  "\<not> small_letter (CHR 0xE2)" "\<not> small_letter (CHR 0x84)" "\<not> small_letter (CHR 0xAA)"
  by code_simp+

lemma ToLower_unfold:
  "ToLower (a # s) =
     (if prefix [CHR 0xC4, CHR 0xB0] (a # s) then CHR ''i'' # ToLower (drop 1 s)
      else if prefix [CHR 0xE2, CHR 0x84, CHR 0xAA] (a # s) then CHR ''k'' # ToLower (drop 2 s)
      else lower_char a # ToLower s)"
  by (cases "a # s" rule: ToLower.cases) auto

lemma ToLower_first:
  assumes "ToLower s = x # t" and "\<not> small_letter x"
  shows "\<exists>s'. s = x # s' \<and> t = ToLower s'"
  using assms by (cases s) (auto simp: ToLower_unfold simp del: ToLower.simps(1-3) split: if_splits
      dest: sym [OF lower_char_small])

lemma ToLower_big: "\<forall>ch \<in> set (ToLower s). \<not> small_letter ch \<Longrightarrow> ToLower s = s"
  using lower_char_small
  by (induction s) (auto simp: ToLower_unfold simp del: ToLower.simps(1-3) split: if_splits)

text \<open>Lowering moves no byte outside the letters, so it neither makes nor breaks white space.\<close>

lemma prefix_ToLower:
  "prefix e (ToLower s) \<Longrightarrow> \<forall>ch \<in> set e. \<not> small_letter ch \<Longrightarrow> prefix e s"
proof (induction e arbitrary: s)
  case (Cons x e)
  then obtain t where "ToLower s = x # t" and "prefix e t" by (cases "ToLower s") auto
  with Cons.prems(2) ToLower_first [of s x t] Cons.IH show ?case by auto
qed simp

lemma suffix_ToLower:
  "suffix e (ToLower s) \<Longrightarrow> \<forall>ch \<in> set e. \<not> small_letter ch \<Longrightarrow> suffix e s"
proof (induction "length s" arbitrary: s rule: less_induct)
  case less
  show ?case
  proof (cases s)
    case (Cons a r)
    have IH: "suffix e (ToLower (drop n r)) \<Longrightarrow> suffix e s" for n
    proof -
      assume "suffix e (ToLower (drop n r))"
      with less.hyps [of "drop n r"] less.prems(2) Cons have "suffix e (drop n r)" by simp
      with suffix_drop [of n r] Cons show "suffix e s"
        by (auto intro: suffix_ConsI suffix_order.order_trans)
    qed
    have "e = ToLower s \<or> suffix e (ToLower (drop 0 r)) \<or> suffix e (ToLower (drop 1 r)) \<or>
        suffix e (ToLower (drop 2 r))"
      using less.prems(1) by (auto simp: Cons ToLower_unfold suffix_Cons simp del: ToLower.simps(1-3) split: if_splits)
    with IH [of 0] IH [of 1] IH [of 2] ToLower_big [of s] less.prems(2) show ?thesis by auto
  qed (use less.prems in simp)
qed

lemma ToLower_idem [simp]: "ToLower (ToLower s) = ToLower s"
proof (induction "length s" arbitrary: s rule: less_induct)
  case less
  show ?case
  proof (cases s)
    case (Cons a r)
    have IH: "ToLower (ToLower (drop n r)) = ToLower (drop n r)" for n
      using less.hyps [of "drop n r"] Cons by simp
    have ik: "lower_char CHR ''i'' = CHR ''i''" "lower_char CHR ''k'' = CHR ''k''" by code_simp+
    have "ToLower s = CHR ''i'' # ToLower (drop 1 r) \<or> ToLower s = CHR ''k'' # ToLower (drop 2 r) \<or>
        ToLower s = lower_char a # ToLower (drop 0 r)"
      by (simp add: Cons ToLower_unfold del: ToLower.simps(1-3))
    then have "\<exists>y n. ToLower s = y # ToLower (drop n r) \<and> lower_char y = y"
    proof (elim disjE)
      assume h: "ToLower s = CHR ''i'' # ToLower (drop 1 r)"
      show ?thesis by (rule exI [of _ "CHR ''i''"], rule exI [of _ 1]) (use h ik in simp)
    next
      assume h: "ToLower s = CHR ''k'' # ToLower (drop 2 r)"
      show ?thesis by (rule exI [of _ "CHR ''k''"], rule exI [of _ 2]) (use h ik in simp)
    next
      assume h: "ToLower s = lower_char a # ToLower (drop 0 r)"
      show ?thesis by (rule exI [of _ "lower_char a"], rule exI [of _ 0]) (use h in simp)
    qed
    then obtain y n where yu: "ToLower s = y # ToLower (drop n r)" and y: "lower_char y = y" by blast
    have "\<not> prefix [CHR 0xC4, CHR 0xB0] (ToLower s)"
    proof
      assume p: "prefix [CHR 0xC4, CHR 0xB0] (ToLower s)"
      then have "prefix [CHR 0xC4, CHR 0xB0] (a # r)"
        unfolding Cons by (rule prefix_ToLower) simp
      then have "ToLower s = CHR ''i'' # ToLower (drop 1 r)"
        unfolding Cons ToLower_unfold [of a r] by (rule if_P)
      with p show False by simp
    qed
    moreover have "\<not> prefix [CHR 0xE2, CHR 0x84, CHR 0xAA] (ToLower s)"
    proof
      assume p: "prefix [CHR 0xE2, CHR 0x84, CHR 0xAA] (ToLower s)"
      then have q: "prefix [CHR 0xE2, CHR 0x84, CHR 0xAA] (a # r)"
        unfolding Cons by (rule prefix_ToLower) simp
      then have "\<not> prefix [CHR 0xC4, CHR 0xB0] (a # r)" by auto
      with q have "ToLower s = CHR ''k'' # ToLower (drop 2 r)"
        unfolding Cons ToLower_unfold [of a r] by (simp only: if_True if_False)
      with p show False by simp
    qed
    ultimately have e: "ToLower (ToLower s) = lower_char y # ToLower (ToLower (drop n r))"
      by (simp only: yu ToLower_unfold [of y "ToLower (drop n r)"] if_False)
    show ?thesis by (subst e) (simp only: IH y yu)
  qed simp
qed

lemma space_bytes_big: "\<forall>e \<in> set space_runes. \<forall>ch \<in> set e. \<not> small_letter ch"
  by code_simp

lemma TrimSpace_lower [simp]: "TrimSpace (ToLower (TrimSpace s)) = ToLower (TrimSpace s)"
proof -
  let ?t = "TrimSpace s"
  have l: "strip_one space_runes (ToLower t) = None" if "strip_one space_runes t = None" for t
    using that space_bytes_big prefix_ToLower unfolding strip_one_None by blast
  have r: "strip_one (map rev space_runes) (rev (ToLower t)) = None"
    if "strip_one (map rev space_runes) (rev t) = None" for t
    using that space_bytes_big suffix_ToLower unfolding strip_one_None by (auto simp: suffix_to_prefix)
  have "strip_one (map rev space_runes) (rev ?t) = None" by (simp add: TrimSpace_def strip_all_stop)
  moreover have "prefix ?t (strip_all space_runes s)"
    using strip_all_suffix [of "map rev space_runes" "rev (strip_all space_runes s)"]
    by (simp add: TrimSpace_def suffix_to_prefix)
  then have "strip_one space_runes ?t = None"
    using strip_all_stop strip_one_None_prefix by blast
  ultimately show ?thesis
    using l r by (simp add: TrimSpace_def [of "ToLower ?t"] strip_all_id)
qed

fun contains_str :: "string \<Rightarrow> string \<Rightarrow> bool" where
  "contains_str [] sub \<longleftrightarrow> sub = []"
| "contains_str (a # s) sub \<longleftrightarrow> prefix sub (a # s) \<or> contains_str s sub"

lemma contains_str_iff: "contains_str s sub \<longleftrightarrow> (\<exists>u v. s = u @ sub @ v)"
proof (induction s)
  case Nil
  then show ?case by auto
next
  case (Cons a s)
  have "(\<exists>u v. a # s = u @ sub @ v) \<longleftrightarrow>
        prefix sub (a # s) \<or> (\<exists>u v. s = u @ sub @ v)"
    by (auto simp: prefix_def Cons_eq_append_conv)
  with Cons show ?case by simp
qed

fun split_on :: "char \<Rightarrow> string \<Rightarrow> string list" where
  "split_on sep [] = [[]]"
| "split_on sep (a # s) =
     (if a = sep then [] # split_on sep s
      else (case split_on sep s of [] \<Rightarrow> [[a]] | p # ps \<Rightarrow> (a # p) # ps))"

fun join_with :: "string \<Rightarrow> string list \<Rightarrow> string" where
  "join_with sep [] = []"
| "join_with sep [p] = p"
| "join_with sep (p # q # ps) = p @ sep @ join_with sep (q # ps)"

lemma split_on_nonempty [simp]: "split_on sep s \<noteq> []"
  by (induction s) (auto split: list.splits)

lemma split_on_no_sep: "p \<in> set (split_on sep s) \<Longrightarrow> sep \<notin> set p"
  by (induction s arbitrary: p) (fastforce split: list.splits if_splits)+

lemma split_on_single: "sep \<notin> set p \<Longrightarrow> split_on sep p = [p]"
  by (induction p) auto

lemma split_on_append: "sep \<notin> set p \<Longrightarrow> split_on sep (p @ sep # s) = p # split_on sep s"
  by (induction p) auto

lemma split_join: 
  "ps \<noteq> [] \<Longrightarrow> \<forall>p \<in> set ps. sep \<notin> set p \<Longrightarrow> split_on sep (join_with [sep] ps) = ps"
  by (induction "[sep]" ps rule: join_with.induct) (auto simp: split_on_single split_on_append)

section \<open>Decimal numbers\<close>

definition digit_char :: "nat \<Rightarrow> char" where
  "digit_char d = char_of (48 + d)"

definition is_digit :: "char \<Rightarrow> bool" where
  "is_digit ch \<longleftrightarrow> CHR ''0'' \<le> ch \<and> ch \<le> CHR ''9''"

definition digit_val :: "char \<Rightarrow> nat" where
  "digit_val ch = of_char ch - 48"

fun show_nat :: "nat \<Rightarrow> string" where
  "show_nat n = (if n < 10 then [digit_char n] else show_nat (n div 10) @ [digit_char (n mod 10)])"

declare show_nat.simps [simp del]

definition read_num :: "string \<Rightarrow> int" where
  "read_num s = foldl (\<lambda>n ch. 10 * n + int (digit_val ch)) 0 s"

function show_pos :: "int \<Rightarrow> string" where
  "show_pos i =
     (if i < 10 then [digit_char (nat i)] else show_pos (i div 10) @ [digit_char (nat (i mod 10))])"
  by pat_completeness auto
termination
  by (relation "measure nat") auto

declare show_pos.simps [simp del]

definition show_int :: "int \<Rightarrow> string" where
  "show_int i = (if i < 0 then CHR ''-'' # show_pos (- i) else show_pos i)"

lemma show_pos_int [simp]: "show_pos (int n) = show_nat n"
proof (induction n rule: show_nat.induct)
  case (1 n)
  have "int n div 10 = int (n div 10)" "nat (int n mod 10) = n mod 10" by (auto simp: nat_mod_as_int)
  with 1 show ?case
    by (cases "n < 10") (simp_all add: show_nat.simps [of n] show_pos.simps [of "int n"])
qed

lemma show_int_nat [simp]: "show_int (int n) = show_nat n"
  by (simp add: show_int_def)

text \<open>\<open>strconv.Atoi\<close>: an optional sign, at least one digit, and the range of \<open>int64\<close>.\<close>

definition in_int64 :: "int \<Rightarrow> bool" where
  "in_int64 v \<longleftrightarrow> - (2 ^ 63) \<le> v \<and> v < 2 ^ 63"

fun split_sign :: "string \<Rightarrow> bool \<times> string" where
  "split_sign [] = (False, [])"
| "split_sign (ch # s) =
     (if ch = CHR ''-'' then (True, s) else if ch = CHR ''+'' then (False, s) else (False, ch # s))"

definition Atoi :: "string \<Rightarrow> int option" where
  "Atoi s =
     (case split_sign s of (neg, ds) \<Rightarrow>
        if ds = [] \<or> \<not> list_all is_digit ds then None
        else (let v = (if neg then - read_num ds else read_num ds)
              in if in_int64 v then Some v else None))"

lemma of_char_digit: "d < 10 \<Longrightarrow> (of_char (digit_char d) :: nat) = 48 + d"
  by (simp add: digit_char_def)

lemma digit_val_char [simp]: "d < 10 \<Longrightarrow> digit_val (digit_char d) = d"
  by (simp add: digit_val_def of_char_digit)

lemma digit_char_0: "digit_char 0 = CHR ''0''"
  by code_simp

lemma is_digit_iff: "is_digit ch \<longleftrightarrow> 48 \<le> (of_char ch :: nat) \<and> (of_char ch :: nat) \<le> 57"
  by (simp add: is_digit_def less_eq_char_def)

lemma is_digit_char [simp]: "d < 10 \<Longrightarrow> is_digit (digit_char d)"
  by (simp add: is_digit_iff of_char_digit)

lemma show_nat_digits: "\<forall>ch \<in> set (show_nat n). is_digit ch"
proof (induction n rule: show_nat.induct)
  case (1 n)
  then show ?case by (cases "n < 10") (simp_all add: show_nat.simps [of n])
qed

lemma show_nat_nonempty [simp]: "show_nat n \<noteq> []"
  by (simp add: show_nat.simps [of n])

lemma read_show_nat [simp]: "read_num (show_nat n) = int n"
proof (induction n rule: show_nat.induct)
  case (1 n)
  have "10 * int (n div 10) + int (n mod 10) = int n" by presburger
  with 1 show ?case
    by (cases "n < 10") (simp_all add: show_nat.simps [of n] read_num_def)
qed

lemma Atoi_show_nat: "int n < 2 ^ 63 \<Longrightarrow> Atoi (show_nat n) = Some (int n)"
proof -
  assume n: "int n < 2 ^ 63"
  obtain ch s where s: "show_nat n = ch # s" by (cases "show_nat n") simp_all
  then have "is_digit ch" using show_nat_digits [of n] by simp
  then have "ch \<noteq> CHR ''-''" "ch \<noteq> CHR ''+''" by (auto simp: is_digit_iff)
  then have "split_sign (show_nat n) = (False, show_nat n)" by (simp add: s)
  with n show ?thesis
    using show_nat_digits [of n] by (simp add: Atoi_def list_all_iff Let_def in_int64_def)
qed

lemma digit_token: "is_digit ch \<Longrightarrow> token_char ch"
  by (simp add: is_digit_def token_char_def)

lemma digit_no_punct: "is_digit ch \<Longrightarrow> ch \<noteq> CHR ''.'' \<and> ch \<noteq> CHR '':''"
  by (auto simp: is_digit_iff)

section \<open>Removing duplicates and sorting\<close>

text \<open>The loops with a \<open>seen\<close> map keep the first occurrence of each element.\<close>

fun keep_first :: "'a list \<Rightarrow> 'a list \<Rightarrow> 'a list" where
  "keep_first seen [] = []"
| "keep_first seen (x # xs) =
     (if List.member seen x then keep_first seen xs else x # keep_first (x # seen) xs)"

lemma set_keep_first [simp]: "set (keep_first seen xs) = set xs - set seen"
  by (induction seen xs rule: keep_first.induct) auto

lemma distinct_keep_first [simp]: "distinct (keep_first seen xs)"
  by (induction seen xs rule: keep_first.induct) auto

lemma keep_first_id: "distinct xs \<Longrightarrow> set xs \<inter> set seen = {} \<Longrightarrow> keep_first seen xs = xs"
  by (induction seen xs rule: keep_first.induct) auto

end
