(* ===== verification/TypeSystem.thy ===== *)
theory TypeSystem
  imports Prelude
begin

text \<open>
  The scenario language's identifiers, risk levels and types: \<open>model/id.go\<close>,
  \<open>model/safety.go\<close> and \<open>model/type.go\<close>. A Go string type with named constants is a datatype
  with one constructor per constant and one for any other text (which decoding JSON can
  produce and the validators reject).

  The central result is that \<open>Compatible\<close>, which normalises both sides at every level and
  compares field by field, holds exactly when both types normalise to the same type.
\<close>

section \<open>Kinds and risk levels\<close>

datatype value_kind =
    TypeBool | TypeString | TypeInt | TypeFloat | TypeDuration | TypeTimeOfDay | TypeTimestamp
  | TypePercentage | TypeConfidence | TypeTemperature | TypeIlluminance | TypeDistance
  | TypeEnum | TypeEntityRef | TypeArtifactRef | TypeList | KindOther string

datatype risk_level = RiskLow | RiskMedium | RiskHigh | RiskCritical | RiskOther string

text \<open>The text of a kind, as it appears in JSON and in error texts.\<close>

fun kind_text :: "value_kind \<Rightarrow> string" where
  "kind_text TypeBool = ''bool''"
| "kind_text TypeString = ''string''"
| "kind_text TypeInt = ''int''"
| "kind_text TypeFloat = ''float''"
| "kind_text TypeDuration = ''duration''"
| "kind_text TypeTimeOfDay = ''time_of_day''"
| "kind_text TypeTimestamp = ''timestamp''"
| "kind_text TypePercentage = ''percentage''"
| "kind_text TypeConfidence = ''confidence''"
| "kind_text TypeTemperature = ''temperature''"
| "kind_text TypeIlluminance = ''illuminance''"
| "kind_text TypeDistance = ''distance''"
| "kind_text TypeEnum = ''enum''"
| "kind_text TypeEntityRef = ''entity_ref''"
| "kind_text TypeArtifactRef = ''artifact_ref''"
| "kind_text TypeList = ''list''"
| "kind_text (KindOther s) = s"

definition risk_validate :: "risk_level \<Rightarrow> go_error option" where
  "risk_validate r = (case r of RiskOther s \<Rightarrow> Some (Errorf ''invalid risk level %q'' [s]) | _ \<Rightarrow> None)"

section \<open>Identifiers\<close>

definition max_identifier_bytes :: nat where
  "max_identifier_bytes = 160"

definition validate_token :: "string \<Rightarrow> string \<Rightarrow> go_error option" where
  "validate_token label value =
     (let v = TrimSpace value in
      checks
        [fails_if (v = []) (Errorf ''%s is required'' [label]),
         fails_if (length v > max_identifier_bytes) (Errorf ''%s exceeds 160 bytes'' [label]),
         first_err (\<lambda>ch. fails_if (\<not> token_char ch) (Error ''identifiers may contain only ASCII letters, digits, - _ . : /'')) v])"

lemma validate_token_None:
  "validate_token l v = None \<longleftrightarrow>
     TrimSpace v \<noteq> [] \<and> length (TrimSpace v) \<le> 160 \<and> token_string (TrimSpace v)"
  by (auto simp: validate_token_def Let_def checks_None first_err_None token_string_def
      max_identifier_bytes_def)

section \<open>Types\<close>

datatype type_ref =
  TypeRef (tr_kind: value_kind) (tr_unit: string) (tr_name: string) (tr_entity: string)
    (tr_enum: "string list") (tr_element: "type_ref option")

abbreviation plain_type :: "value_kind \<Rightarrow> type_ref" where
  "plain_type k \<equiv> TypeRef k [] [] [] [] None"

fun canonical_unit :: "value_kind \<Rightarrow> string option" where
  "canonical_unit TypeDuration = Some ''ns''"
| "canonical_unit TypePercentage = Some ''ratio''"
| "canonical_unit TypeConfidence = Some ''ratio''"
| "canonical_unit TypeTemperature = Some ''celsius''"
| "canonical_unit TypeIlluminance = Some ''lux''"
| "canonical_unit TypeDistance = Some ''meter''"
| "canonical_unit _ = None"

definition scalar_kinds :: "value_kind list" where
  "scalar_kinds = [TypeBool, TypeString, TypeInt, TypeFloat, TypeDuration, TypeTimeOfDay,
     TypeTimestamp, TypePercentage, TypeConfidence, TypeTemperature, TypeIlluminance,
     TypeDistance, TypeArtifactRef]"

fun type_validate :: "type_ref \<Rightarrow> go_error option" where
  "type_validate (TypeRef k u n e en el) =
     checks
       [if k \<in> set scalar_kinds
          then fails_if (n \<noteq> [] \<or> el \<noteq> None \<or> en \<noteq> [] \<or> e \<noteq> []) (Errorf ''type %q has incompatible metadata'' [kind_text k])
        else (case k of
            TypeEnum \<Rightarrow> fails_if (n = [] \<or> en = [] \<or> el \<noteq> None \<or> e \<noteq> []) (Error ''enum type requires name and values'')
          | TypeEntityRef \<Rightarrow> fails_if (n \<noteq> [] \<or> e = [] \<or> el \<noteq> None \<or> en \<noteq> []) (Error ''entity_ref requires entityKind'')
          | TypeList \<Rightarrow>
              (case el of
                 None \<Rightarrow> Some (Error ''list requires element type'')
               | Some t \<Rightarrow> checks [fails_if (n \<noteq> [] \<or> en \<noteq> [] \<or> e \<noteq> []) (Error ''list requires element type''), type_validate t])
          | KindOther s \<Rightarrow> Some (Errorf ''unknown value type %q'' [s])
          | _ \<Rightarrow> None),
        (case canonical_unit k of
           Some c \<Rightarrow> fails_if (u \<noteq> c) (Errorf ''type %q must use canonical unit'' [kind_text k])
         | None \<Rightarrow> fails_if (u \<noteq> []) (Errorf ''type %q cannot declare unit %q'' [kind_text k, u]))]"

definition normalize_enum :: "string list \<Rightarrow> go_error + string list" where
  "normalize_enum en =
     (if en = [] then Inr []
      else if [] \<in> set (map TrimSpace en) then Inl (Error ''enum contains empty value'')
      else Inr (sort (keep_first [] (map TrimSpace en))))"

definition after_validate :: "('a \<Rightarrow> 'e option) \<Rightarrow> 'a \<Rightarrow> 'e + 'a" where
  "after_validate f x = (case f x of Some e \<Rightarrow> Inl e | None \<Rightarrow> Inr x)"

lemma after_validate_Inr [simp]: "after_validate f x = Inr y \<longleftrightarrow> f x = None \<and> y = x"
  by (auto simp: after_validate_def split: option.splits)

fun type_normalize :: "type_ref \<Rightarrow> go_error + type_ref" where
  "type_normalize (TypeRef k u n e en el) =
     (case normalize_enum en of
        Inl err \<Rightarrow> Inl err
      | Inr en' \<Rightarrow>
          (case (case el of None \<Rightarrow> Inr None
                 | Some t \<Rightarrow> map_sum id Some (type_normalize t)) of
             Inl err \<Rightarrow> Inl err
           | Inr el' \<Rightarrow>
               after_validate type_validate
                 (TypeRef k (TrimSpace (ToLower u)) (TrimSpace n) (TrimSpace e) en' el')))"

fun type_depth :: "type_ref \<Rightarrow> nat" where
  "type_depth (TypeRef k u n e en el) = (case el of None \<Rightarrow> 0 | Some t \<Rightarrow> Suc (type_depth t))"

lemma normalize_depth: "type_normalize t = Inr t' \<Longrightarrow> type_depth t' = type_depth t"
proof (induction t arbitrary: t')
  case (TypeRef k u n e en el)
  show ?case
  proof (cases el)
    case None
    with TypeRef.prems show ?thesis by (auto split: sum.splits)
  next
    case (Some a)
    with TypeRef.prems obtain b where "type_normalize a = Inr b"
      and "t' = TypeRef k (TrimSpace (ToLower u)) (TrimSpace n) (TrimSpace e)
        (projr (normalize_enum en)) (Some b)"
      by (auto split: sum.splits simp: map_sum_def)
    with Some TypeRef.IH [of a b] show ?thesis by simp
  qed
qed

lemma normalize_valid: "type_normalize t = Inr t' \<Longrightarrow> type_validate t' = None"
  by (cases t) (auto split: sum.splits)

lemma element_depth: "tr_element t = Some a \<Longrightarrow> type_depth a < type_depth t"
  by (cases t) auto

function type_compatible :: "type_ref \<Rightarrow> type_ref \<Rightarrow> bool" where
  "type_compatible t other =
     (case type_normalize t of
        Inl _ \<Rightarrow> False
      | Inr l \<Rightarrow>
          (case type_normalize other of
             Inl _ \<Rightarrow> False
           | Inr r \<Rightarrow>
               if tr_kind l \<noteq> tr_kind r then False
               else if tr_kind l = TypeEnum \<and> (tr_name l \<noteq> tr_name r \<or> tr_enum l \<noteq> tr_enum r)
                 then False
               else if tr_kind l = TypeEntityRef then tr_entity l = tr_entity r
               else if tr_kind l = TypeList then
                 (case tr_element l of
                    None \<Rightarrow> False
                  | Some a \<Rightarrow>
                      (case tr_element r of None \<Rightarrow> False | Some b \<Rightarrow> type_compatible a b))
               else tr_unit l = tr_unit r))"
  by pat_completeness auto

termination
  by (relation "measure (type_depth \<circ> fst)") (auto dest!: normalize_depth element_depth)

declare type_compatible.simps [simp del]

definition type_ordered :: "type_ref \<Rightarrow> bool" where
  "type_ordered t \<longleftrightarrow> tr_kind t \<in> {TypeInt, TypeFloat, TypeDuration, TypeTimeOfDay, TypeTimestamp,
     TypePercentage, TypeConfidence, TypeTemperature, TypeIlluminance, TypeDistance, TypeString}"

definition type_numeric :: "type_ref \<Rightarrow> bool" where
  "type_numeric t \<longleftrightarrow> tr_kind t \<in> {TypeInt, TypeFloat, TypePercentage, TypeConfidence,
     TypeTemperature, TypeIlluminance, TypeDistance}"


section \<open>Normal forms\<close>

lemma normalize_enum_idem: "normalize_enum en = Inr es \<Longrightarrow> normalize_enum es = Inr es"
proof (cases "en = []")
  case True
  then show "normalize_enum en = Inr es \<Longrightarrow> normalize_enum es = Inr es"
    by (simp add: normalize_enum_def)
next
  case False
  assume "normalize_enum en = Inr es"
  with False have es: "es = sort (keep_first [] (map TrimSpace en))"
    and ne: "[] \<notin> TrimSpace ` set en"
    by (auto simp: normalize_enum_def split: if_splits)
  have set_es: "set es = TrimSpace ` set en" by (simp add: es)
  then have "map TrimSpace es = es" by (intro map_idI) auto
  moreover have "sorted es" "distinct es" by (simp_all add: es)
  moreover have "[] \<notin> set es" using ne set_es by simp
  ultimately show ?thesis by (simp add: normalize_enum_def keep_first_id sorted_sort_id)
qed

text \<open>A validated type carries its canonical unit, which normalising leaves alone.\<close>

lemma canonical_units:
  "canonical_unit k = Some u \<Longrightarrow> TrimSpace (ToLower u) = u"
  by (induction k rule: canonical_unit.induct)
    (auto simp: lower_char_def TrimSpace_token token_string_def token_char_def less_eq_char_def)

lemma validate_unit: "type_validate (TypeRef k u n e en el) = None \<Longrightarrow> TrimSpace (ToLower u) = u"
  by (cases "canonical_unit k") (auto simp: checks_None canonical_units split: if_splits)

lemma normalize_shape:
  assumes "type_normalize (TypeRef k u n e en el) = Inr t"
  obtains en' el' where "normalize_enum en = Inr en'"
    and "el = None \<and> el' = None \<or> (\<exists>a b. el = Some a \<and> el' = Some b \<and> type_normalize a = Inr b)"
    and "t = TypeRef k (TrimSpace (ToLower u)) (TrimSpace n) (TrimSpace e) en' el'"
    and "type_validate t = None"
proof -
  from assms obtain en' where en': "normalize_enum en = Inr en'"
    by (auto split: sum.splits)
  show ?thesis
  proof (cases el)
    case None
    with assms en' show ?thesis by (intro that [OF en']) (auto simp del: type_validate.simps)
  next
    case (Some a)
    with assms en' obtain b where "type_normalize a = Inr b"
      by (auto split: sum.splits simp: map_sum_def)
    with Some assms en' show ?thesis
      by (intro that [OF en', of "Some b"]) (auto simp del: type_validate.simps)
  qed
qed

lemma type_normalize_idem: "type_normalize t = Inr n \<Longrightarrow> type_normalize n = Inr n"
proof (induction t arbitrary: n)
  case (TypeRef k u nm e en el)
  from TypeRef.prems obtain en' el' where
    en': "normalize_enum en = Inr en'" and
    el': "el = None \<and> el' = None \<or> (\<exists>a b. el = Some a \<and> el' = Some b \<and> type_normalize a = Inr b)" and
    n: "n = TypeRef k (TrimSpace (ToLower u)) (TrimSpace nm) (TrimSpace e) en' el'" and
    v: "type_validate n = None"
    by (rule normalize_shape)
  have u: "TrimSpace (ToLower (TrimSpace (ToLower u))) = TrimSpace (ToLower u)"
    by (rule validate_unit [OF v [unfolded n]])
  have "(case el' of None \<Rightarrow> Inr None | Some a \<Rightarrow> map_sum id Some (type_normalize a)) = Inr el'"
    using el' TypeRef.IH by auto
  with n u normalize_enum_idem [OF en'] v show ?case
    by (simp del: type_validate.simps)
qed

lemma validated_fields:
  assumes "type_validate t = None"
  shows "tr_kind t \<noteq> TypeEnum \<Longrightarrow> tr_name t = [] \<and> tr_enum t = []"
    and "tr_kind t \<noteq> TypeEntityRef \<Longrightarrow> tr_entity t = []"
    and "tr_kind t \<noteq> TypeList \<Longrightarrow> tr_element t = None"
    and "tr_kind t = TypeList \<Longrightarrow> \<exists>a. tr_element t = Some a"
    and "tr_unit t = (case canonical_unit (tr_kind t) of Some c \<Rightarrow> c | None \<Rightarrow> [])"
  using assms
  by (cases t; auto simp: checks_None scalar_kinds_def split: value_kind.splits option.splits if_splits)+

lemma element_normal:
  assumes "type_normalize t = Inr t" and "tr_element t = Some a"
  shows "type_normalize a = Inr a"
  using assms by (cases t) (auto split: sum.splits simp: map_sum_def)

lemma compatible_normal:
  assumes "type_normalize l = Inr l" and "type_normalize r = Inr r"
  shows "type_compatible l r \<longleftrightarrow> l = r"
  using assms
proof (induction "type_depth l" arbitrary: l r rule: less_induct)
  case less
  note vl = validated_fields [OF normalize_valid [OF less.prems(1)]]
  note vr = validated_fields [OF normalize_valid [OF less.prems(2)]]
  have eq: "l = r \<longleftrightarrow> tr_kind l = tr_kind r \<and> tr_unit l = tr_unit r \<and> tr_name l = tr_name r \<and>
      tr_entity l = tr_entity r \<and> tr_enum l = tr_enum r \<and> tr_element l = tr_element r"
    by (cases l; cases r) simp
  show ?case
  proof (cases "tr_kind l = TypeList \<and> tr_kind r = TypeList")
    case True
    then obtain a b where a: "tr_element l = Some a" and b: "tr_element r = Some b"
      using vl(4) vr(4) by blast
    with less have "type_compatible a b \<longleftrightarrow> a = b"
      by (blast intro: element_depth element_normal)
    with True a b less.prems vl vr show ?thesis
      by (simp add: type_compatible.simps [of l r] eq)
  next
    case False
    with less.prems vl vr show ?thesis
      by (auto simp: type_compatible.simps [of l r] eq)
  qed
qed

lemma compatible_unfold:
  "type_normalize t = Inr l \<Longrightarrow> type_normalize u = Inr r \<Longrightarrow>
   type_compatible t u = type_compatible l r"
  by (subst (1 2) type_compatible.simps) (simp add: type_normalize_idem)

text \<open>
  \<open>Compatible\<close> holds of two types exactly when both normalise to the same type. So it is
  symmetric and transitive, and no type that fails to normalise is compatible with anything.
\<close>

theorem type_compatible_iff:
  "type_compatible t u \<longleftrightarrow> (\<exists>n. type_normalize t = Inr n \<and> type_normalize u = Inr n)"
proof (cases "type_normalize t")
  case (Inl e)
  then show ?thesis by (simp add: type_compatible.simps [of t u])
next
  case (Inr l)
  show ?thesis
  proof (cases "type_normalize u")
    case (Inl e)
    with Inr show ?thesis by (simp add: type_compatible.simps [of t u])
  next
    case (Inr r)
    have "type_normalize l = Inr l" "type_normalize r = Inr r"
      using \<open>type_normalize t = Inr l\<close> Inr by (auto intro: type_normalize_idem)
    then have "type_compatible t u \<longleftrightarrow> l = r"
      using compatible_unfold [OF \<open>type_normalize t = Inr l\<close> Inr] by (simp add: compatible_normal)
    with \<open>type_normalize t = Inr l\<close> Inr show ?thesis by auto
  qed
qed

lemma plain_type_normal:
  "k \<in> {TypeBool, TypeString, TypeInt, TypeFloat, TypeTimeOfDay, TypeTimestamp, TypeArtifactRef} \<Longrightarrow>
   type_normalize (plain_type k) = Inr (plain_type k)"
  by (auto simp: normalize_enum_def checks_None scalar_kinds_def)

end
