(* ===== verification/ClockTime.thy ===== *)
theory ClockTime
  imports Prelude
begin

text \<open>
  Times of day and wall clocks, \<open>model/temporal.go\<close>: reading and printing \<open>HH:MM[:SS]\<close>, the
  half-open daily window that may pass midnight, and the resolution of a local wall time to an
  instant under a daylight saving policy.

  An instant is a number of seconds since the Unix epoch and a date a number of days since it;
  two civil date-times agree in all six fields exactly when these numbers agree. The time zone
  database is not code of the repository: a zone is the record of the offset in force at an
  instant and of the offset that \<open>time.Date(.., 12, 0, 0, 0, loc).Zone()\<close> reports on a date.
\<close>

section \<open>Times of day\<close>

datatype time_of_day = TimeOfDay (tod_hour: int) (tod_minute: int) (tod_second: int)

definition tod_validate :: "time_of_day \<Rightarrow> go_error option" where
  "tod_validate t =
     fails_if (tod_hour t < 0 \<or> tod_hour t > 23 \<or> tod_minute t < 0 \<or> tod_minute t > 59 \<or>
         tod_second t < 0 \<or> tod_second t > 59)
       (Error ''invalid time of day'')"

fun parse_parts :: "string list \<Rightarrow> go_error + int list" where
  "parse_parts [] = Inr []"
| "parse_parts (p # ps) =
     (if length p \<noteq> 2 then Inl (Errorf ''time of day component %q must have two digits'' [p])
      else (case Atoi p of
              None \<Rightarrow> Inl (Error ''invalid time of day'')
            | Some n \<Rightarrow>
                (case parse_parts ps of Inl e \<Rightarrow> Inl e | Inr ns \<Rightarrow> Inr (n # ns))))"

definition ParseTimeOfDay :: "string \<Rightarrow> go_error + time_of_day" where
  "ParseTimeOfDay value =
     (let parts = split_on (CHR '':'') (TrimSpace value) in
      if length parts < 2 \<or> length parts > 3
      then Inl (Error ''time of day must be HH:MM or HH:MM:SS'')
      else (case parse_parts parts of
              Inl e \<Rightarrow> Inl e
            | Inr ns \<Rightarrow>
                (let t = TimeOfDay (ns ! 0) (ns ! 1) (if length ns = 3 then ns ! 2 else 0) in
                 case tod_validate t of Some e \<Rightarrow> Inl e | None \<Rightarrow> Inr t)))"

text \<open>\<open>%02d\<close>: a sign counts towards the width, so only the one-digit numbers are padded.\<close>

definition pad2 :: "int \<Rightarrow> string" where
  "pad2 i = (if 0 \<le> i \<and> i < 10 then CHR ''0'' # show_int i else show_int i)"

definition tod_string :: "time_of_day \<Rightarrow> string" where
  "tod_string t =
     (if tod_second t = 0 then join_with '':'' [pad2 (tod_hour t), pad2 (tod_minute t)]
      else join_with '':'' [pad2 (tod_hour t), pad2 (tod_minute t), pad2 (tod_second t)])"

definition tod_seconds :: "time_of_day \<Rightarrow> int" where
  "tod_seconds t = tod_hour t * 3600 + tod_minute t * 60 + tod_second t"

definition TimeWindowContains :: "time_of_day \<Rightarrow> time_of_day \<Rightarrow> time_of_day \<Rightarrow> bool" where
  "TimeWindowContains start end at =
     (let s = tod_seconds start; e = tod_seconds end; x = tod_seconds at in
      if s = e then True
      else if s < e then x \<ge> s \<and> x < e
      else x \<ge> s \<or> x < e)"

lemma pad2_two_digits:
  assumes "0 \<le> i" and "i < 60"
  obtains a b where "a < 6" and "b < 10" and "i = int (10 * a + b)"
    and "pad2 i = [digit_char a, digit_char b]"
proof -
  define n where "n = nat i"
  have i: "i = int n" and n: "n < 60" using assms by (auto simp: n_def)
  have "pad2 i = [digit_char (n div 10), digit_char (n mod 10)]"
  proof (cases "n < 10")
    case True
    then show ?thesis
      by (simp add: pad2_def i show_nat.simps [of n] digit_char_0)
  next
    case False
    with n show ?thesis
      by (simp add: pad2_def i show_nat.simps [of n] show_nat.simps [of "n div 10"])
  qed
  then show thesis using n i by (intro that [of "n div 10" "n mod 10"]) auto
qed

lemma Atoi_two_digits:
  assumes "a < 10" and "b < 10"
  shows "Atoi [digit_char a, digit_char b] = Some (int (10 * a + b))"
proof -
  have "digit_char a \<noteq> CHR ''-''" "digit_char a \<noteq> CHR ''+''"
    using is_digit_char [OF assms(1)] by (auto simp: is_digit_iff)
  then have "split_sign [digit_char a, digit_char b] = (False, [digit_char a, digit_char b])"
    by simp
  with assms show ?thesis
    by (simp add: Atoi_def read_num_def Let_def in_int64_def)
qed

lemma pad2_facts:
  assumes "0 \<le> i" and "i < 60"
  shows "length (pad2 i) = 2" and "Atoi (pad2 i) = Some i" and "CHR '':'' \<notin> set (pad2 i)"
    and "token_string (pad2 i)"
proof -
  from assms obtain a b where ab: "a < 6" "b < 10" "i = int (10 * a + b)"
    and p: "pad2 i = [digit_char a, digit_char b]"
    by (rule pad2_two_digits)
  have d: "is_digit (digit_char a)" "is_digit (digit_char b)" using ab by simp_all
  from p d ab show "length (pad2 i) = 2" "Atoi (pad2 i) = Some i"
    by (simp_all add: Atoi_two_digits)
  from p d show "CHR '':'' \<notin> set (pad2 i)" by (auto dest: digit_no_punct)
  from p d show "token_string (pad2 i)" by (simp add: token_string_def digit_token)
qed

lemma token_string_join:
  "token_char ch \<Longrightarrow> \<forall>p \<in> set ps. token_string p \<Longrightarrow> token_string (join_with [ch] ps)"
  by (induction "[ch]" ps rule: join_with.induct) (auto simp: token_string_def)

lemma parse_pad2:
  "\<forall>i \<in> set is. 0 \<le> i \<and> i < 60 \<Longrightarrow> parse_parts (map pad2 is) = Inr is"
  by (induction "is") (auto simp: pad2_facts)

text \<open>Printing a valid time of day and reading it back gives it again.\<close>

lemma parse_tod_string:
  assumes "tod_validate t = None"
  shows "ParseTimeOfDay (tod_string t) = Inr t"
proof -
  let ?l = "if tod_second t = 0 then [tod_hour t, tod_minute t]
    else [tod_hour t, tod_minute t, tod_second t]"
  have r: "\<forall>i \<in> set ?l. 0 \<le> i \<and> i < 60"
    using assms by (auto simp: tod_validate_def)
  have s: "tod_string t = join_with '':'' (map pad2 ?l)" by (simp add: tod_string_def)
  have "token_char CHR '':''" by (simp add: token_char_def)
  then have "token_string (join_with '':'' (map pad2 ?l))"
    using r by (intro token_string_join) (auto simp: pad2_facts)
  then have t: "TrimSpace (tod_string t) = tod_string t" by (simp only: s TrimSpace_token)
  have sp: "split_on CHR '':'' (tod_string t) = map pad2 ?l"
    unfolding s using r by (intro split_join) (auto simp: pad2_facts)
  have p: "parse_parts (map pad2 ?l) = Inr ?l" by (rule parse_pad2 [OF r])
  have v: "TimeOfDay (tod_hour t) (tod_minute t) (tod_second t) = t" by (cases t) simp
  show ?thesis
  proof (cases "tod_second t = 0")
    case True
    with v have "TimeOfDay (tod_hour t) (tod_minute t) 0 = t" by simp
    with True assms p show ?thesis by (simp add: ParseTimeOfDay_def t sp Let_def)
  next
    case False
    with assms p v show ?thesis by (simp add: ParseTimeOfDay_def t sp Let_def)
  qed
qed

lemma parse_tod_valid: "ParseTimeOfDay s = Inr t \<Longrightarrow> tod_validate t = None"
  by (auto simp: ParseTimeOfDay_def Let_def split: if_splits sum.splits option.splits)

text \<open>A window is the arc of the day's circle from its start to its end.\<close>

definition day_seconds :: int where
  "day_seconds = 86400"

lemma tod_seconds_range:
  "tod_validate t = None \<Longrightarrow> 0 \<le> tod_seconds t \<and> tod_seconds t < day_seconds"
  by (auto simp: tod_validate_def tod_seconds_def day_seconds_def)

text \<open>
  A daily time window is the arc of the day's circle that starts at its start and ends
  before its end, whether or not it passes midnight.
\<close>

theorem window_arc:
  assumes "tod_validate s = None" "tod_validate e = None" "tod_validate x = None"
    and "tod_seconds s \<noteq> tod_seconds e"
  shows "TimeWindowContains s e x \<longleftrightarrow>
    (tod_seconds x - tod_seconds s) mod day_seconds < (tod_seconds e - tod_seconds s) mod day_seconds"
proof -
  have wrap: "y mod day_seconds = (if 0 \<le> y then y else y + day_seconds)"
    if "- day_seconds < y" "y < day_seconds" for y
  proof (cases "0 \<le> y")
    case False
    have "y mod day_seconds = (y + day_seconds) mod day_seconds" by simp
    also have "\<dots> = y + day_seconds" using that False by (intro mod_pos_pos_trivial) auto
    finally show ?thesis using False by simp
  qed (use that in \<open>simp add: mod_pos_pos_trivial\<close>)
  have "(tod_seconds x - tod_seconds s) mod day_seconds =
      (if tod_seconds s \<le> tod_seconds x then tod_seconds x - tod_seconds s
       else tod_seconds x - tod_seconds s + day_seconds)"
    and "(tod_seconds e - tod_seconds s) mod day_seconds =
      (if tod_seconds s \<le> tod_seconds e then tod_seconds e - tod_seconds s
       else tod_seconds e - tod_seconds s + day_seconds)"
    using assms(1-3)[THEN tod_seconds_range] by (subst wrap; auto)+
  then show ?thesis
    using assms(1-3)[THEN tod_seconds_range] assms(4)
    by (auto simp: TimeWindowContains_def Let_def)
qed


theorem window_arc_witness:
  "TimeWindowContains (TimeOfDay 22 30 0) (TimeOfDay 6 0 0) (TimeOfDay 1 15 0) \<longleftrightarrow>
     (tod_seconds (TimeOfDay 1 15 0) - tod_seconds (TimeOfDay 22 30 0)) mod day_seconds <
     (tod_seconds (TimeOfDay 6 0 0) - tod_seconds (TimeOfDay 22 30 0)) mod day_seconds"
  by (rule window_arc) (simp_all add: tod_validate_def tod_seconds_def)

text \<open>A window and its converse divide the day.\<close>

lemma window_converse:
  "tod_seconds s \<noteq> tod_seconds e \<Longrightarrow> TimeWindowContains e s x \<longleftrightarrow> \<not> TimeWindowContains s e x"
  by (auto simp: TimeWindowContains_def Let_def)

section \<open>Wall clocks\<close>

datatype dst_policy = DSTWallClockFirst | DSTWallClockLast | DSTSkipInvalid | DSTOther string

definition valid_dst_policy :: "dst_policy \<Rightarrow> bool" where
  "valid_dst_policy p \<longleftrightarrow> p = DSTWallClockFirst \<or> p = DSTWallClockLast \<or> p = DSTSkipInvalid"

datatype catch_up = CatchUpSkip | CatchUpOnce | CatchUpAllBounded | CatchUpOther string

definition valid_catch_up :: "catch_up \<Rightarrow> bool" where
  "valid_catch_up p \<longleftrightarrow> p = CatchUpSkip \<or> p = CatchUpOnce \<or> p = CatchUpAllBounded"

record zone =
  offset_at :: "int \<Rightarrow> int"
  noon_offset :: "int \<Rightarrow> int"

definition probed_offsets :: "zone \<Rightarrow> int \<Rightarrow> int list" where
  "probed_offsets loc day = keep_first [] (map (\<lambda>delta. noon_offset loc (day + delta)) [-2, -1, 0, 1, 2])"

definition wall_seconds :: "int \<Rightarrow> time_of_day \<Rightarrow> int" where
  "wall_seconds day value = day * day_seconds + tod_seconds value"

definition wall_matches :: "zone \<Rightarrow> int \<Rightarrow> time_of_day \<Rightarrow> int list" where
  "wall_matches loc day value =
     sort (keep_first []
       (filter (\<lambda>candidate. candidate + offset_at loc candidate = wall_seconds day value)
         (map (\<lambda>offset. wall_seconds day value - offset) (probed_offsets loc day))))"

text \<open>
  \<open>Inr None\<close> is the result \<open>(zero, false, nil)\<close>: no instant, and no error. \<open>load\<close> is
  \<open>time.LoadLocation\<close>, a lookup in the zone database.
\<close>

definition ResolveWallClock ::
    "(string \<Rightarrow> zone option) \<Rightarrow> int \<Rightarrow> time_of_day \<Rightarrow> string \<Rightarrow> dst_policy \<Rightarrow> go_error + int option" where
  "ResolveWallClock load day value timezone policy =
     (case tod_validate value of
        Some e \<Rightarrow> Inl e
      | None \<Rightarrow>
          if \<not> valid_dst_policy policy then Inl (Error ''invalid DST policy'')
          else (case load (TrimSpace timezone) of
                  None \<Rightarrow> Inl (Errorf ''invalid timezone %q'' [timezone])
                | Some loc \<Rightarrow>
                    (let matches = wall_matches loc day value in
                     if matches = [] then
                       (if policy = DSTSkipInvalid then Inr None
                        else Inl (Errorf ''local wall time %s does not exist in %s'' [tod_string value, timezone]))
                     else if policy = DSTWallClockLast then Inr (Some (last matches))
                     else Inr (Some (hd matches)))))"

lemma set_wall_matches:
  "t \<in> set (wall_matches loc day v) \<longleftrightarrow>
     t + offset_at loc t = wall_seconds day v \<and> offset_at loc t \<in> set (probed_offsets loc day)"
proof -
  have "t \<in> set (wall_matches loc day v) \<longleftrightarrow>
      t + offset_at loc t = wall_seconds day v \<and>
      (\<exists>off \<in> set (probed_offsets loc day). t = wall_seconds day v - off)"
    unfolding wall_matches_def by auto
  also have "\<dots> \<longleftrightarrow>
      t + offset_at loc t = wall_seconds day v \<and> offset_at loc t \<in> set (probed_offsets loc day)"
  proof (rule conj_cong [OF refl])
    assume "t + offset_at loc t = wall_seconds day v"
    then have "t = wall_seconds day v - off \<longleftrightarrow> off = offset_at loc t" for off by linarith
    then show "(\<exists>off \<in> set (probed_offsets loc day). t = wall_seconds day v - off) \<longleftrightarrow>
      offset_at loc t \<in> set (probed_offsets loc day)" by simp
  qed
  finally show ?thesis .
qed

lemma sorted_wall_matches: "sorted (wall_matches loc day v)"
  by (simp add: wall_matches_def)

lemma sorted_hd_last:
  "sorted xs \<Longrightarrow> (x :: int) \<in> set xs \<Longrightarrow> hd xs \<le> x \<and> x \<le> last xs"
  by (induction xs) (auto split: if_splits)

lemma ResolveWallClock_cases:
  assumes "ResolveWallClock load day v tz policy = Inr (Some t)"
  obtains loc where "load (TrimSpace tz) = Some loc" and "wall_matches loc day v \<noteq> []"
    and "t = (if policy = DSTWallClockLast then last else hd) (wall_matches loc day v)"
  using assms by (auto simp: ResolveWallClock_def Let_def split: option.splits if_splits)

section \<open>Properties\<close>

text \<open>
  C40. A text that is read as a time of day is read as a valid one, and printing that and
  reading it again gives the same time.
\<close>

theorem time_of_day_round_trip:
  assumes "ParseTimeOfDay s = Inr t"
  shows "tod_validate t = None \<and> ParseTimeOfDay (tod_string t) = Inr t"
  using parse_tod_valid [OF assms] parse_tod_string by blast

theorem time_of_day_round_trip_witness:
  "ParseTimeOfDay '' 07:05:09 '' = Inr (TimeOfDay 7 5 9) \<and>
   ParseTimeOfDay (tod_string (TimeOfDay 7 5 9)) = Inr (TimeOfDay 7 5 9)"
proof -
  have "ParseTimeOfDay '' 07:05:09 '' = Inr (TimeOfDay 7 5 9)" by code_simp
  with time_of_day_round_trip [OF this] show ?thesis by blast
qed

text \<open>
  C39. An instant that \<open>ResolveWallClock\<close> returns shows the requested wall time in the zone.
  Of all instants that do so with an offset in force around noon of one of the five days
  around the date, it is the last one under \<open>wall_clock_last\<close> and else the first one.
\<close>

theorem wall_clock_resolved:
  assumes "ResolveWallClock load day v tz policy = Inr (Some t)"
  shows "\<exists>loc. load (TrimSpace tz) = Some loc \<and> t + offset_at loc t = wall_seconds day v \<and>
    (\<forall>u. u + offset_at loc u = wall_seconds day v \<and> offset_at loc u \<in> set (probed_offsets loc day) \<longrightarrow>
      (if policy = DSTWallClockLast then u \<le> t else t \<le> u))"
proof -
  from ResolveWallClock_cases [OF assms] obtain loc where l: "load (TrimSpace tz) = Some loc"
    and ne: "wall_matches loc day v \<noteq> []"
    and t: "t = (if policy = DSTWallClockLast then last else hd) (wall_matches loc day v)" .
  from ne t have "t \<in> set (wall_matches loc day v)" by simp
  then have "t + offset_at loc t = wall_seconds day v" by (simp add: set_wall_matches)
  moreover have "if policy = DSTWallClockLast then u \<le> t else t \<le> u"
    if "u + offset_at loc u = wall_seconds day v" "offset_at loc u \<in> set (probed_offsets loc day)" for u
    using sorted_hd_last [OF sorted_wall_matches, of u loc day v] that t by (auto simp: set_wall_matches)
  ultimately show ?thesis using l by blast
qed

definition two_offset_zone :: zone where
  "two_offset_zone =
     \<lparr> offset_at = (\<lambda>t. if t < 19 * day_seconds + 3600 then 7200 else 3600),
       noon_offset = (\<lambda>d. if d < 19 then 7200 else 3600) \<rparr>"

theorem wall_clock_resolved_witness:
  "(19 * day_seconds + 5400) + offset_at two_offset_zone (19 * day_seconds + 5400) =
     wall_seconds 19 (TimeOfDay 2 30 0) \<and>
   (19 * day_seconds + 1800) + offset_at two_offset_zone (19 * day_seconds + 1800) =
     wall_seconds 19 (TimeOfDay 2 30 0) \<and>
   19 * day_seconds + 1800 \<le> 19 * day_seconds + 5400"
proof -
  have "ResolveWallClock (\<lambda>_. Some two_offset_zone) 19 (TimeOfDay 2 30 0) ''Europe/Berlin'' DSTWallClockLast =
    Inr (Some (19 * day_seconds + 5400))"
    by code_simp
  from wall_clock_resolved [OF this]
  have "(19 * day_seconds + 5400) + offset_at two_offset_zone (19 * day_seconds + 5400) =
      wall_seconds 19 (TimeOfDay 2 30 0)" by simp
  moreover have "(19 * day_seconds + 1800) + offset_at two_offset_zone (19 * day_seconds + 1800) =
      wall_seconds 19 (TimeOfDay 2 30 0)" by code_simp
  ultimately show ?thesis by simp
qed

end
