(* ===== verification/Timestamps.thy ===== *)
theory Timestamps
  imports Prelude
begin

text \<open>
  What typed values use of package \<open>time\<close>: \<open>time.Parse(time.RFC3339Nano, s)\<close> followed by
  \<open>.UTC().Format(time.RFC3339Nano)\<close>. The layout's leniencies are kept: the hour may have one
  digit, the fraction may follow a comma and have any number of digits (the digits after the
  ninth are dropped), and an offset may be 24 hours or 60 minutes.
\<close>

definition days_from_civil :: "int \<Rightarrow> int \<Rightarrow> int \<Rightarrow> int" where
  "days_from_civil y m d =
     (let y' = (if m \<le> 2 then y - 1 else y); era = y' div 400; yoe = y' - era * 400;
          mp = (m + 9) mod 12; doy = (153 * mp + 2) div 5 + d - 1;
          doe = yoe * 365 + yoe div 4 - yoe div 100 + doy
      in era * 146097 + doe - 719468)"

definition civil_from_days :: "int \<Rightarrow> int \<times> int \<times> int" where
  "civil_from_days z =
     (let z' = z + 719468; era = z' div 146097; doe = z' - era * 146097;
          yoe = (doe - doe div 1460 + doe div 36524 - doe div 146096) div 365;
          doy = doe - (365 * yoe + yoe div 4 - yoe div 100);
          mp = (5 * doy + 2) div 153; d = doy - (153 * mp + 2) div 5 + 1;
          m = (if mp < 10 then mp + 3 else mp - 9)
      in (yoe + era * 400 + (if m \<le> 2 then 1 else 0), m, d))"

definition is_leap :: "int \<Rightarrow> bool" where
  "is_leap y \<longleftrightarrow> y mod 4 = 0 \<and> (y mod 100 \<noteq> 0 \<or> y mod 400 = 0)"

definition days_in_month :: "int \<Rightarrow> int \<Rightarrow> int" where
  "days_in_month y m =
     (if m = 2 then (if is_leap y then 29 else 28) else if m \<in> {4, 6, 9, 11} then 30 else 31)"

text \<open>Exactly \<open>n\<close> digits, or one literal byte, from the front of the text.\<close>

definition take_digits :: "nat \<Rightarrow> string \<Rightarrow> (int \<times> string) option" where
  "take_digits n s =
     (if n \<le> length s \<and> list_all is_digit (take n s)
      then Some (read_num (take n s), drop n s) else None)"

fun take_char :: "char \<Rightarrow> string \<Rightarrow> string option" where
  "take_char ch [] = None"
| "take_char ch (a # s) = (if a = ch then Some s else None)"

definition take_hour :: "string \<Rightarrow> (int \<times> string) option" where
  "take_hour s = (case take_digits 2 s of Some r \<Rightarrow> Some r | None \<Rightarrow> take_digits 1 s)"

fun nanos :: "nat \<Rightarrow> string \<Rightarrow> int" where
  "nanos 0 _ = 0"
| "nanos (Suc k) [] = 10 * nanos k []"
| "nanos (Suc k) (d # ds) = int (digit_val d) * 10 ^ k + nanos k ds"

definition take_fraction :: "string \<Rightarrow> int \<times> string" where
  "take_fraction s =
     (case s of
        sep # d # r \<Rightarrow>
          if (sep = CHR ''.'' \<or> sep = CHR '','') \<and> is_digit d
          then (nanos 9 (takeWhile is_digit (d # r)), dropWhile is_digit (d # r)) else (0, s)
      | _ \<Rightarrow> (0, s))"

definition take_zone :: "string \<Rightarrow> (int \<times> string) option" where
  "take_zone s =
     (case s of
        [] \<Rightarrow> None
      | a # r \<Rightarrow>
          if a = CHR ''Z'' then Some (0, r)
          else if a \<noteq> CHR ''+'' \<and> a \<noteq> CHR ''-'' then None
          else Option.bind (take_digits 2 r) (\<lambda>(h, r1).
               Option.bind (take_char (CHR '':'') r1) (\<lambda>r2.
               Option.bind (take_digits 2 r2) (\<lambda>(m, r3).
                 if h > 24 \<or> m > 60 then None
                 else Some ((if a = CHR ''-'' then - 1 else 1) * (h * 3600 + m * 60), r3)))))"

text \<open>An instant is its seconds since the epoch and its nanoseconds.\<close>

definition parse_rfc3339 :: "string \<Rightarrow> (int \<times> int) option" where
  "parse_rfc3339 s =
     Option.bind (take_digits 4 s) (\<lambda>(y, s1).
     Option.bind (take_char (CHR ''-'') s1) (\<lambda>s2.
     Option.bind (take_digits 2 s2) (\<lambda>(mo, s3).
     Option.bind (take_char (CHR ''-'') s3) (\<lambda>s4.
     Option.bind (take_digits 2 s4) (\<lambda>(d, s5).
     Option.bind (take_char (CHR ''T'') s5) (\<lambda>s6.
     Option.bind (take_hour s6) (\<lambda>(h, s7).
     Option.bind (take_char (CHR '':'') s7) (\<lambda>s8.
     Option.bind (take_digits 2 s8) (\<lambda>(mi, s9).
     Option.bind (take_char (CHR '':'') s9) (\<lambda>s10.
     Option.bind (take_digits 2 s10) (\<lambda>(sec, s11).
       case take_fraction s11 of (ns, s12) \<Rightarrow>
       Option.bind (take_zone s12) (\<lambda>(off, rest).
         if rest \<noteq> [] \<or> mo < 1 \<or> mo > 12 \<or> d < 1 \<or> d > days_in_month y mo \<or>
            h > 23 \<or> mi > 59 \<or> sec > 59
         then None
         else Some (days_from_civil y mo d * 86400 + h * 3600 + mi * 60 + sec - off, ns)))))))))))))"

definition pad_int :: "nat \<Rightarrow> int \<Rightarrow> string" where
  "pad_int w i =
     (let ds = show_pos \<bar>i\<bar>
      in (if i < 0 then ''-'' else []) @ replicate (w - length ds) (CHR ''0'') @ ds)"

fun drop_zeros :: "string \<Rightarrow> string" where
  "drop_zeros [] = []"
| "drop_zeros (a # s) = (if a = CHR ''0'' then drop_zeros s else a # s)"

definition format_rfc3339 :: "int \<times> int \<Rightarrow> string" where
  "format_rfc3339 t =
     (case t of (sec, ns) \<Rightarrow>
      (case civil_from_days (sec div 86400) of (y, m, d) \<Rightarrow>
        (let r = sec mod 86400; frac = rev (drop_zeros (rev (pad_int 9 ns))) in
           pad_int 4 y @ ''-'' @ pad_int 2 m @ ''-'' @ pad_int 2 d @ ''T'' @
           pad_int 2 (r div 3600) @ '':'' @ pad_int 2 (r mod 3600 div 60) @ '':'' @ pad_int 2 (r mod 60) @
           (if frac = [] then [] else CHR ''.'' # frac) @ ''Z'')))"

definition canonical_timestamp :: "string \<Rightarrow> string option" where
  "canonical_timestamp s = map_option format_rfc3339 (parse_rfc3339 s)"

end
