(* ===== verification/GoFloat.thy ===== *)
theory GoFloat
  imports Complex_Main "HOL-Library.Log_Nat"
begin

text \<open>
  Finite \<open>float64\<close> values. A finite float is the rational number it denotes; an operation
  computes exactly and rounds to the nearest float, ties to the even significand, as IEEE 754
  and Go prescribe. \<^const>\<open>None\<close> is overflow to an infinity. The sign of zero is not kept.
\<close>

definition floor_log2 :: "rat \<Rightarrow> int" where
  "floor_log2 r =
     (case quotient_of r of (p, q) \<Rightarrow>
        (let e = bitlen p - bitlen q in if 2 powi e \<le> r then e else e - 1))"

definition round_half_even :: "rat \<Rightarrow> int" where
  "round_half_even r =
     (let f = \<lfloor>r\<rfloor>; d = r - of_int f in
      if d < 1 / 2 then f else if d > 1 / 2 then f + 1 else if even f then f else f + 1)"

definition f64_exponent :: "rat \<Rightarrow> int" where
  "f64_exponent r = max (- 1074) (floor_log2 \<bar>r\<bar> - 52)"

definition f64_round :: "rat \<Rightarrow> rat option" where
  "f64_round r =
     (if r = 0 then Some 0
      else (let u = 2 powi (f64_exponent r); x = of_int (round_half_even (r / u)) * u
            in if \<bar>x\<bar> < 2 powi 1024 then Some x else None))"

lemma powi_2_mono: "(i :: int) \<le> j \<Longrightarrow> (2 :: rat) powi i \<le> 2 powi j"
  by (simp add: power_int_increasing)

lemma powi_2_less: "(2 :: rat) powi i < 2 powi j \<Longrightarrow> i < (j :: int)"
  using powi_2_mono [of j i] by linarith

lemma bitlen_powi:
  assumes "0 < p"
  shows "(2 :: rat) powi (bitlen p - 1) \<le> of_int p" and "of_int p < (2 :: rat) powi (bitlen p)"
proof -
  have b: "1 \<le> bitlen p"
    using assms bitlen_eq_zero_iff [of p] bitlen_nonneg [of p] by linarith
  have "(2 :: rat) ^ nat (bitlen p - 1) = of_int (2 ^ nat (bitlen p - 1))"
    and "(2 :: rat) ^ nat (bitlen p) = of_int (2 ^ nat (bitlen p))" by simp_all
  then show "(2 :: rat) powi (bitlen p - 1) \<le> of_int p" "of_int p < (2 :: rat) powi (bitlen p)"
    using bitlen_bounds [OF assms] b
    by (simp_all add: power_int_def del: of_int_power)
qed

lemma floor_log2_bounds:
  assumes "0 < r"
  shows "2 powi (floor_log2 r) \<le> r" and "r < 2 powi (floor_log2 r + 1)"
proof -
  obtain p q where pq: "quotient_of r = (p, q)" by fastforce
  then have q: "0 < q" and r: "r = of_int p / of_int q"
    by (auto simp: quotient_of_denom_pos quotient_of_div)
  with assms have p: "0 < p" by (simp add: zero_less_divide_iff)
  let ?e = "bitlen p - bitlen q"
  have "r < 2 powi (bitlen p) / 2 powi (bitlen q - 1)"
    unfolding r using bitlen_powi [OF p] bitlen_powi [OF q] p q
    by (intro frac_less) auto
  then have hi: "r < 2 powi (?e + 1)"
    by (simp add: power_int_diff [symmetric] algebra_simps flip: power_int_diff)
  have "2 powi (bitlen p - 1) / 2 powi (bitlen q) \<le> r"
    unfolding r using bitlen_powi [OF p] bitlen_powi [OF q] p q
    by (intro frac_le) auto
  then have lo: "2 powi (?e - 1) \<le> r"
    by (simp add: algebra_simps flip: power_int_diff)
  from hi lo show "2 powi (floor_log2 r) \<le> r" "r < 2 powi (floor_log2 r + 1)"
    by (auto simp: floor_log2_def pq Let_def)
qed

lemma round_half_even_int: "round_half_even (of_int k) = k"
  by (simp add: round_half_even_def)

lemma round_half_even_bound: "\<bar>r\<bar> \<le> of_int n \<Longrightarrow> \<bar>round_half_even r\<bar> \<le> n"
  unfolding round_half_even_def Let_def
  by (auto simp: abs_le_iff split: if_splits) linarith+

text \<open>Rounding a value that is already a multiple of its unit changes nothing.\<close>

lemma f64_round_multiple:
  assumes "x \<noteq> 0" and "x = of_int k * 2 powi (f64_exponent x)" and "\<bar>x\<bar> < 2 powi 1024"
  shows "f64_round x = Some x"
proof -
  have "x / 2 powi (f64_exponent x) = of_int k"
    by (subst (1) assms(2)) simp
  then show ?thesis
    using assms by (simp add: f64_round_def Let_def round_half_even_int flip: assms(2))
qed

lemma f64_round_finer:
  assumes "x \<noteq> 0" and x: "x = of_int k * 2 powi e" and "f64_exponent x \<le> e" and "\<bar>x\<bar> < 2 powi 1024"
  shows "f64_round x = Some x"
proof -
  have "2 powi e = (2 :: rat) ^ nat (e - f64_exponent x) * 2 powi (f64_exponent x)"
    using assms(3) by (simp flip: power_int_add power_int_of_nat)
  then have "x = of_int (k * 2 ^ nat (e - f64_exponent x)) * 2 powi (f64_exponent x)"
    using x by simp
  then show ?thesis using assms by (intro f64_round_multiple)
qed

lemma f64_round_int:
  assumes "\<bar>n\<bar> < 2 ^ 53"
  shows "f64_round (of_int n) = Some (of_int n)"
proof (cases "n = 0")
  case True
  then show ?thesis by (simp add: f64_round_def)
next
  case False
  have lt: "\<bar>of_int n :: rat\<bar> < 2 powi 53"
    using assms by (simp flip: of_int_abs add: power_int_def)
  have "(2 :: rat) powi (floor_log2 \<bar>of_int n\<bar>) \<le> \<bar>of_int n\<bar>"
    using floor_log2_bounds(1) [of "\<bar>of_int n\<bar>"] False by simp
  with lt have "floor_log2 \<bar>of_int n\<bar> < 53" by (intro powi_2_less) linarith
  then have "f64_exponent (of_int n) \<le> 0" by (simp add: f64_exponent_def)
  moreover have "\<bar>of_int n :: rat\<bar> < 2 powi 1024"
    using lt powi_2_mono [of 53 1024] by linarith
  ultimately show ?thesis
    using False by (intro f64_round_finer [where k = n and e = 0]) auto
qed

lemma f64_round_idem:
  assumes "f64_round r = Some x"
  shows "f64_round x = Some x"
proof (cases "x = 0")
  case True
  then show ?thesis by (simp add: f64_round_def)
next
  case x0: False
  define e where "e = f64_exponent r"
  define k where "k = round_half_even (r / 2 powi e)"
  have r0: "r \<noteq> 0" using assms x0 by (auto simp: f64_round_def)
  then have x: "x = of_int k * 2 powi e" and lim: "\<bar>x\<bar> < 2 powi 1024"
    using assms by (auto simp: f64_round_def Let_def e_def k_def split: if_splits)
  have "\<bar>r\<bar> < 2 powi (floor_log2 \<bar>r\<bar> + 1)" using floor_log2_bounds r0 by simp
  also have "\<dots> \<le> 2 powi (e + 53)" by (rule powi_2_mono) (simp add: e_def f64_exponent_def)
  also have "\<dots> = 2 ^ 53 * 2 powi e" by (simp add: power_int_add)
  finally have "\<bar>r / 2 powi e\<bar> \<le> of_int (2 ^ 53)"
    by (simp add: abs_divide divide_le_eq)
  then have k53: "\<bar>k\<bar> \<le> 2 ^ 53" unfolding k_def by (rule round_half_even_bound)
  have xabs: "0 < \<bar>x\<bar>" using x0 by simp
  have ke: "\<bar>x\<bar> = of_int \<bar>k\<bar> * 2 powi e" by (simp add: x abs_mult)
  show ?thesis
  proof (cases "f64_exponent x \<le> e")
    case True
    then show ?thesis by (intro f64_round_finer [OF x0 x _ lim])
  next
    case False
    then have L: "e + 53 \<le> floor_log2 \<bar>x\<bar>"
      by (auto simp: f64_exponent_def e_def max_def split: if_splits)
    then have "2 powi (e + 53) \<le> \<bar>x\<bar>"
      using floor_log2_bounds(1) [OF xabs] powi_2_mono [OF L] by linarith
    then have "2 ^ 53 \<le> \<bar>k\<bar>"
      unfolding ke by (simp add: power_int_add mult.commute)
    with k53 have k: "\<bar>k\<bar> = 2 ^ 53" by simp
    then have "\<bar>x\<bar> = 2 powi (e + 53)" by (simp add: ke power_int_add mult.commute flip: of_int_abs)
    then have "\<bar>x\<bar> < 2 powi (e + 54)" by (simp add: power_int_add)
    with floor_log2_bounds(1) [OF xabs] have "floor_log2 \<bar>x\<bar> < e + 54"
      by (intro powi_2_less) linarith
    moreover have "- 1074 \<le> e" by (simp add: e_def f64_exponent_def)
    ultimately have "f64_exponent x = e + 1" using L False by (auto simp: f64_exponent_def max_def)
    then have "x = of_int (sgn k * 2 ^ 52) * 2 powi (f64_exponent x)"
      using k by (auto simp: x power_int_add sgn_if abs_if split: if_splits)
    then show ?thesis by (intro f64_round_multiple [OF x0 _ lim])
  qed
qed

end
