(* ===== verification/Values.thy ===== *)
theory Values
  imports TypeSystem ClockTime Timestamps GoFloat
begin

text \<open>
  Typed values, \<open>model/value.go\<close>. The raw JSON text of a value is held as the tree it denotes,
  \<^const>\<open>None\<close> for text that is empty or no JSON: white space between tokens and the spelling of
  escapes are not kept. A number keeps what \<open>json.Number\<close> tells apart: \<open>JInt\<close> is a numeral
  without fraction and exponent, \<open>JFrac\<close> one with either. \<open>json.Unmarshal\<close> is modelled with its
  leniencies: \<open>null\<close> leaves a scalar at its zero value, a JSON string that spells a numeral is
  a \<open>json.Number\<close>, keys of a struct match regardless of case.

  The main result is that canonicalising is idempotent: what \<open>canonical\<close> returns is a fixed
  point, for every type that contains no timestamp.
\<close>

section \<open>JSON\<close>

datatype json =
    JNull | JBool bool | JInt int | JFrac rat | JStr string
  | JArr "json list" | JObj "(string \<times> json) list"

text \<open>The grammar of JSON numbers, for a string decoded into a \<open>json.Number\<close>.\<close>

definition read_exponent :: "string \<Rightarrow> (bool \<times> int) option" where
  "read_exponent s =
     (case s of
        [] \<Rightarrow> Some (False, 0)
      | a # r \<Rightarrow>
          if a \<noteq> CHR ''e'' \<and> a \<noteq> CHR ''E'' then None
          else (case split_sign r of (neg, ds) \<Rightarrow>
                  if ds = [] \<or> \<not> list_all is_digit ds then None
                  else Some (True, if neg then - read_num ds else read_num ds)))"

definition read_numeral :: "string \<Rightarrow> json option" where
  "read_numeral s =
     (let neg = (s \<noteq> [] \<and> hd s = CHR ''-''); s1 = (if neg then tl s else s);
          ip = takeWhile is_digit s1; s2 = dropWhile is_digit s1
      in if ip = [] \<or> (hd ip = CHR ''0'' \<and> length ip > 1) then None
         else
           (let dot = (s2 \<noteq> [] \<and> hd s2 = CHR ''.''); s3 = (if dot then tl s2 else s2);
                fp = (if dot then takeWhile is_digit s3 else []);
                s4 = (if dot then dropWhile is_digit s3 else s3)
            in if dot \<and> fp = [] then None
               else map_option
                 (\<lambda>(has_exp, x).
                    let m = read_num (ip @ fp); n = (if neg then - m else m) in
                    if \<not> dot \<and> \<not> has_exp then JInt n
                    else JFrac (of_int n * 10 powi (x - int (length fp))))
                 (read_exponent s4)))"

fun json_bool :: "json \<Rightarrow> bool option" where
  "json_bool (JBool b) = Some b" | "json_bool JNull = Some False" | "json_bool _ = None"

fun json_string :: "string \<Rightarrow> json \<Rightarrow> string option" where
  "json_string cur (JStr s) = Some s" | "json_string cur JNull = Some cur"
| "json_string cur _ = None"

fun json_number :: "json \<Rightarrow> json option" where
  "json_number (JInt n) = Some (JInt n)" | "json_number (JFrac r) = Some (JFrac r)"
| "json_number (JStr s) = read_numeral s" | "json_number _ = None"

fun number_int64 :: "json \<Rightarrow> int option" where
  "number_int64 (JInt n) = (if in_int64 n then Some n else None)" | "number_int64 _ = None"

fun number_float64 :: "json \<Rightarrow> rat option" where
  "number_float64 (JInt n) = f64_round (of_int n)"
| "number_float64 (JFrac r) = f64_round r"
| "number_float64 _ = None"

text \<open>\<open>json.Marshal\<close> of a float writes integral values below \<open>1e21\<close> without a fraction.\<close>

definition json_of_float :: "rat \<Rightarrow> json" where
  "json_of_float x = (if of_int \<lfloor>x\<rfloor> = x \<and> \<bar>x\<bar> < 10 ^ 21 then JInt \<lfloor>x\<rfloor> else JFrac x)"

text \<open>Keys of a struct are compared after simple case folding.\<close>

fun fold_key :: "string \<Rightarrow> string" where
  "fold_key (a # b # c # s) =
     (if a = CHR 0xE2 \<and> b = CHR 0x84 \<and> c = CHR 0xAA then CHR ''k'' # fold_key s
      else if a = CHR 0xC5 \<and> b = CHR 0xBF then CHR ''s'' # fold_key (c # s)
      else lower_char a # fold_key (b # c # s))"
| "fold_key [a, b] =
     (if a = CHR 0xC5 \<and> b = CHR 0xBF then [CHR ''s''] else [lower_char a, lower_char b])"
| "fold_key [a] = [lower_char a]"
| "fold_key [] = []"

datatype entity_value = EntityValue (ev_id: string) (ev_kind: string)

datatype artifact_value =
  ArtifactValue (av_uri: string) (av_digest: string) (av_size: int) (av_media: string)

text \<open>\<open>strictDecode\<close>: a key that is no field is an error, and a later field wins.\<close>

fun decode_entity :: "entity_value \<Rightarrow> (string \<times> json) list \<Rightarrow> entity_value option" where
  "decode_entity (EntityValue i k) [] = Some (EntityValue i k)"
| "decode_entity (EntityValue i k) ((key, v) # fs) =
     (if fold_key key = ''id'' then
        Option.bind (json_string i v) (\<lambda>s. decode_entity (EntityValue s k) fs)
      else if fold_key key = ''kind'' then
        Option.bind (json_string k v) (\<lambda>s. decode_entity (EntityValue i s) fs)
      else None)"

fun json_size :: "int \<Rightarrow> json \<Rightarrow> int option" where
  "json_size cur (JInt n) = (if in_int64 n then Some n else None)"
| "json_size cur JNull = Some cur" | "json_size cur _ = None"

fun decode_artifact :: "artifact_value \<Rightarrow> (string \<times> json) list \<Rightarrow> artifact_value option" where
  "decode_artifact a [] = Some a"
| "decode_artifact (ArtifactValue u d n m) ((key, v) # fs) =
     (if fold_key key = ''uri'' then
        Option.bind (json_string u v) (\<lambda>s. decode_artifact (ArtifactValue s d n m) fs)
      else if fold_key key = ''digest'' then
        Option.bind (json_string d v) (\<lambda>s. decode_artifact (ArtifactValue u s n m) fs)
      else if fold_key key = ''size'' then
        Option.bind (json_size n v) (\<lambda>k. decode_artifact (ArtifactValue u d k m) fs)
      else if fold_key key = ''mediatype'' then
        Option.bind (json_string m v) (\<lambda>s. decode_artifact (ArtifactValue u d n s) fs)
      else None)"

fun json_object :: "json \<Rightarrow> (string \<times> json) list option" where
  "json_object (JObj fs) = Some fs" | "json_object JNull = Some []" | "json_object _ = None"

fun json_array :: "json \<Rightarrow> json list option" where
  "json_array (JArr xs) = Some xs" | "json_array JNull = Some []" | "json_array _ = None"

section \<open>Canonical data\<close>

definition or_type_error :: "value_kind \<Rightarrow> 'a option \<Rightarrow> go_error + 'a" where
  "or_type_error k x =
     (case x of None \<Rightarrow> Inl (Errorf ''value is not %s'' [kind_text k]) | Some a \<Rightarrow> Inr a)"

definition sum_bind :: "'e + 'a \<Rightarrow> ('a \<Rightarrow> 'e + 'b) \<Rightarrow> 'e + 'b" where
  "sum_bind x f = (case x of Inl e \<Rightarrow> Inl e | Inr a \<Rightarrow> f a)"

definition guarded :: "'e option \<Rightarrow> 'a \<Rightarrow> 'e + 'a" where
  "guarded err a = (case err of Some e \<Rightarrow> Inl e | None \<Rightarrow> Inr a)"

lemma or_type_error_Inr [simp]: "or_type_error k x = Inr a \<longleftrightarrow> x = Some a"
  by (auto simp: or_type_error_def split: option.splits)

lemma sum_bind_Inr [simp]: "sum_bind x f = Inr b \<longleftrightarrow> (\<exists>a. x = Inr a \<and> f a = Inr b)"
  by (auto simp: sum_bind_def split: sum.splits)

lemma guarded_Inr [simp]: "guarded err a = Inr b \<longleftrightarrow> err = None \<and> b = a"
  by (auto simp: guarded_def split: option.splits)

lemma sum_bind_simps [simp]: "sum_bind (Inr a) f = f a" "sum_bind (Inl e) f = Inl e"
  by (simp_all add: sum_bind_def)

text \<open>The constant \<open>-273.15\<close> as a \<open>float64\<close>.\<close>

definition absolute_zero :: rat where
  "absolute_zero = - (2402652809016115 / 8796093022208)"

definition float_checks :: "value_kind \<Rightarrow> rat \<Rightarrow> go_error option" where
  "float_checks k x =
     checks
       [fails_if ((k = TypePercentage \<or> k = TypeConfidence) \<and> (x < 0 \<or> x > 1))
          (Errorf ''%s must be in [0,1]'' [kind_text k]),
        fails_if (k = TypeTemperature \<and> x < absolute_zero)
          (Error ''temperature cannot be below absolute zero''),
        fails_if (k = TypeIlluminance \<and> x < 0) (Error ''illuminance cannot be negative''),
        fails_if (k = TypeDistance \<and> x < 0) (Error ''distance cannot be negative'')]"

definition float_kinds :: "value_kind list" where
  "float_kinds = [TypeFloat, TypePercentage, TypeConfidence, TypeTemperature, TypeIlluminance,
     TypeDistance]"

fun canonical_data :: "type_ref \<Rightarrow> json \<Rightarrow> go_error + json" where
  "canonical_data (TypeRef k u n e en el) raw =
     (case k of
        TypeBool \<Rightarrow> sum_bind (or_type_error k (json_bool raw)) (\<lambda>b. Inr (JBool b))
      | TypeString \<Rightarrow> sum_bind (or_type_error k (json_string [] raw)) (\<lambda>s. Inr (JStr s))
      | TypeInt \<Rightarrow>
          sum_bind (or_type_error k (Option.bind (json_number raw) number_int64)) (\<lambda>i. Inr (JInt i))
      | TypeDuration \<Rightarrow>
          sum_bind (or_type_error k (Option.bind (json_number raw) number_int64))
            (\<lambda>i. guarded (fails_if (i < 0) (Error ''duration cannot be negative'')) (JInt i))
      | TypeTimeOfDay \<Rightarrow>
          sum_bind (or_type_error k (json_string [] raw))
            (\<lambda>s. sum_bind (ParseTimeOfDay s) (\<lambda>t. Inr (JStr (tod_string t))))
      | TypeTimestamp \<Rightarrow>
          sum_bind (or_type_error k (json_string [] raw))
            (\<lambda>s. case canonical_timestamp s of
                   None \<Rightarrow> Inl (Error ''invalid timestamp'') | Some c \<Rightarrow> Inr (JStr c))
      | TypeEnum \<Rightarrow>
          sum_bind (or_type_error k (json_string [] raw))
            (\<lambda>s. guarded (fails_if (s \<notin> set en) (Errorf ''enum %q does not allow %q'' [n, s])) (JStr s))
      | TypeEntityRef \<Rightarrow>
          sum_bind (or_type_error k
              (Option.bind (json_object raw) (decode_entity (EntityValue [] []))))
            (\<lambda>v. let i = TrimSpace (ev_id v); ek = TrimSpace (ev_kind v) in
                 guarded (fails_if (i = [] \<or> ek \<noteq> e) (Errorf ''entity ref must target kind %q'' [e]))
                   (JObj [(''id'', JStr i), (''kind'', JStr ek)]))
      | TypeArtifactRef \<Rightarrow>
          sum_bind (or_type_error k
              (Option.bind (json_object raw) (decode_artifact (ArtifactValue [] [] 0 []))))
            (\<lambda>a. let uri = TrimSpace (av_uri a); d = TrimSpace (av_digest a);
                     m = TrimSpace (av_media a) in
                 guarded (fails_if (uri = [] \<or> d = [] \<or> av_size a < 0) (Error ''invalid artifact ref''))
                   (JObj ([(''uri'', JStr uri), (''digest'', JStr d), (''size'', JInt (av_size a))] @
                     (if m = [] then [] else [(''mediaType'', JStr m)]))))
      | TypeList \<Rightarrow>
          sum_bind (or_type_error k (json_array raw))
            (\<lambda>items. case el of
               None \<Rightarrow> Inl (Error ''list requires element type'')
             | Some t \<Rightarrow> sum_bind (traverse (canonical_data t) items) (\<lambda>js. Inr (JArr js)))
      | KindOther s \<Rightarrow> Inl (Errorf ''unsupported value type %q'' [s])
      | _ \<Rightarrow>
          (case Option.bind (json_number raw) number_float64 of
             None \<Rightarrow> Inl (Errorf ''invalid %s number'' [kind_text k])
           | Some x \<Rightarrow> guarded (float_checks k x) (json_of_float x)))"

datatype val = Value (v_type: type_ref) (v_data: "json option")

definition canonical :: "val \<Rightarrow> go_error + val" where
  "canonical v =
     sum_bind (type_normalize (v_type v))
       (\<lambda>typ. case v_data v of
          None \<Rightarrow> Inl (Error ''typed value contains invalid JSON'')
        | Some d \<Rightarrow> sum_bind (canonical_data typ d) (\<lambda>d'. Inr (Value typ (Some d'))))"

definition value_check :: "val \<Rightarrow> go_error option" where
  "value_check v = (case canonical v of Inl e \<Rightarrow> Some e | Inr _ \<Rightarrow> None)"


section \<open>Idempotence\<close>

lemma number_float64_fixed: "number_float64 j = Some x \<Longrightarrow> f64_round x = Some x"
  by (cases j) (auto intro: f64_round_idem)

lemma number_float64_rounded:
  "Option.bind (json_number raw) number_float64 = Some x \<Longrightarrow> f64_round x = Some x"
  by (cases "json_number raw") (auto dest: number_float64_fixed)

lemma json_of_float_read:
  "f64_round x = Some x \<Longrightarrow>
   Option.bind (json_number (json_of_float x)) number_float64 = Some x"
  by (auto simp: json_of_float_def)

lemma json_int_range: "Option.bind (json_number raw) number_int64 = Some i \<Longrightarrow> in_int64 i"
  by (cases "json_number raw") (auto elim!: number_int64.elims split: if_splits)

fun no_timestamp :: "type_ref \<Rightarrow> bool" where
  "no_timestamp (TypeRef k u n e en el) \<longleftrightarrow>
     k \<noteq> TypeTimestamp \<and> (case el of None \<Rightarrow> True | Some t \<Rightarrow> no_timestamp t)"

lemma fold_key_fields [simp]:
  "fold_key ''id'' = ''id''" "fold_key ''kind'' = ''kind''" "fold_key ''uri'' = ''uri''"
  "fold_key ''digest'' = ''digest''" "fold_key ''size'' = ''size''"
  "fold_key ''mediaType'' = ''mediatype''"
  by code_simp+

declare fold_key.simps [simp del]

lemma decode_entity_encoded:
  "decode_entity (EntityValue [] []) [(''id'', JStr i), (''kind'', JStr k)] = Some (EntityValue i k)"
  by simp

lemma decode_artifact_encoded:
  "in_int64 n \<Longrightarrow>
   decode_artifact (ArtifactValue [] [] 0 [])
     ([(''uri'', JStr u), (''digest'', JStr d), (''size'', JInt n)] @
       (if m = [] then [] else [(''mediaType'', JStr m)])) = Some (ArtifactValue u d n m)"
  by simp

lemma json_size_read: "json_size c v = Some n \<Longrightarrow> in_int64 c \<Longrightarrow> in_int64 n"
  by (induction c v rule: json_size.induct) (auto split: if_splits)

lemma decode_artifact_size:
  "decode_artifact a fs = Some b \<Longrightarrow> in_int64 (av_size a) \<Longrightarrow> in_int64 (av_size b)"
proof (induction a fs rule: decode_artifact.induct)
  case (1 a)
  then show ?case by simp
next
  case (2 u d n m key v fs)
  then show ?case
    by (auto split: if_splits Option.bind_splits dest: json_size_read)
qed

lemma decode_artifact_size0:
  "Option.bind jo (decode_artifact (ArtifactValue [] [] 0 [])) = Some b \<Longrightarrow> in_int64 (av_size b)"
  by (cases jo) (auto dest!: decode_artifact_size simp: in_int64_def)

lemma canonical_data_idem:
  "canonical_data t raw = Inr d \<Longrightarrow> no_timestamp t \<Longrightarrow> canonical_data t d = Inr d"
proof (induction t arbitrary: raw d)
  case (TypeRef k u n e en el)
  show ?case
  proof (cases "k = TypeList")
    case True
    with TypeRef.prems obtain t items js where el: "el = Some t"
      and js: "traverse (canonical_data t) items = Inr js" and d: "d = JArr js"
      by (auto split: option.splits)
    have "list_all2 (\<lambda>x y. canonical_data t x = Inr y) items js"
      using js by (simp add: traverse_Inr_iff)
    then have "\<forall>y \<in> set js. \<exists>x. canonical_data t x = Inr y"
      by (fastforce simp: list_all2_conv_all_nth in_set_conv_nth)
    moreover have "canonical_data t y = Inr y" if "canonical_data t x = Inr y" for x y
      using TypeRef.IH [of t x y] TypeRef.prems(2) el that by simp
    ultimately have "\<forall>y \<in> set js. canonical_data t y = Inr y" by blast
    then have "list_all2 (\<lambda>x y. canonical_data t x = Inr y) js js"
      by (simp add: list_all2_same)
    then have "traverse (canonical_data t) js = Inr js" by (simp add: traverse_Inr_iff)
    with True el d show ?thesis by simp
  next
    case False
    show ?thesis
    proof (cases "k \<in> set float_kinds")
      case True
      with TypeRef.prems obtain x where "Option.bind (json_number raw) number_float64 = Some x"
        and "float_checks k x = None" and "d = json_of_float x"
        by (cases k) (auto simp: float_kinds_def split: option.splits)
      with True show ?thesis
        using json_of_float_read [OF number_float64_rounded, of raw x]
        by (cases k) (auto simp: float_kinds_def simp del: bind_eq_Some_conv)
    next
      case other: False
      show ?thesis
      proof (cases k)
        case TypeArtifactRef
        with TypeRef.prems obtain a where
          "Option.bind (json_object raw) (decode_artifact (ArtifactValue [] [] 0 [])) = Some a"
          and a: "TrimSpace (av_uri a) \<noteq> []" "TrimSpace (av_digest a) \<noteq> []" "0 \<le> av_size a"
          and d: "d = JObj ([(''uri'', JStr (TrimSpace (av_uri a))),
              (''digest'', JStr (TrimSpace (av_digest a))), (''size'', JInt (av_size a))] @
            (if TrimSpace (av_media a) = [] then [] else [(''mediaType'', JStr (TrimSpace (av_media a)))]))"
          by (auto simp: Let_def simp del: bind_eq_Some_conv)
        then have n: "in_int64 (av_size a)" by (intro decode_artifact_size0)
        from a show ?thesis
          unfolding d TypeArtifactRef
          by (simp only: canonical_data.simps value_kind.simps json_object.simps Option.bind.simps
              decode_artifact_encoded [OF n] or_type_error_def option.simps sum_bind_simps)
            (simp add: Let_def)
      next
        case TypeEntityRef
        with TypeRef.prems show ?thesis
          by (auto simp: Let_def or_type_error_def)
      next
        case TypeTimeOfDay
        with TypeRef.prems show ?thesis
          by (auto simp: parse_tod_string or_type_error_def dest: parse_tod_valid)
      qed (use False other TypeRef.prems in
          \<open>auto simp: float_kinds_def dest: json_int_range simp del: bind_eq_Some_conv\<close>)
    qed
  qed
qed


lemma normalize_no_timestamp: "type_normalize t = Inr n \<Longrightarrow> no_timestamp n = no_timestamp t"
proof (induction t arbitrary: n)
  case (TypeRef k u nm e en el)
  from TypeRef.prems obtain en' el' where
    el': "el = None \<and> el' = None \<or> (\<exists>a b. el = Some a \<and> el' = Some b \<and> type_normalize a = Inr b)" and
    n: "n = TypeRef k (TrimSpace (ToLower u)) (TrimSpace nm) (TrimSpace e) en' el'"
    by (rule normalize_shape)
  then show ?case using TypeRef.IH by auto
qed

lemma canonical_idem:
  assumes "canonical v = Inr w" and "no_timestamp (v_type v)"
  shows "canonical w = Inr w"
  using assms
  by (auto simp: canonical_def type_normalize_idem normalize_no_timestamp canonical_data_idem
      split: option.splits)

lemma canonical_type: "canonical v = Inr w \<Longrightarrow> type_normalize (v_type v) = Inr (v_type w)"
  by (auto simp: canonical_def split: option.splits)

section \<open>Building values\<close>

definition NewTypedValue :: "type_ref \<Rightarrow> json \<Rightarrow> go_error + val" where
  "NewTypedValue typ d = sum_bind (type_normalize typ) (\<lambda>t. canonical (Value t (Some d)))"

fun infer_type :: "json \<Rightarrow> go_error + type_ref" where
  "infer_type (JBool b) = Inr (plain_type TypeBool)"
| "infer_type (JStr s) = Inr (plain_type TypeString)"
| "infer_type (JFrac r) =
     (if f64_round r = None then Inl (Error ''value out of range'') else Inr (plain_type TypeFloat))"
| "infer_type (JInt n) =
     (if in_int64 n then Inr (plain_type TypeInt) else Inl (Error ''value out of range''))"
| "infer_type (JArr []) = Inl (Error ''empty list requires an explicit element type'')"
| "infer_type (JArr (x # xs)) =
     sum_bind (infer_type x)
       (\<lambda>element.
          if list_all (\<lambda>y. case infer_type y of Inl _ \<Rightarrow> False | Inr c \<Rightarrow> type_compatible element c) xs
          then Inr (TypeRef TypeList [] [] [] [] (Some element))
          else Inl (Error ''list elements must share one type''))"
| "infer_type _ = Inl (Error ''cannot infer typed value'')"

definition ValueOf :: "json \<Rightarrow> go_error + val" where
  "ValueOf d = sum_bind (infer_type d) (\<lambda>typ. NewTypedValue typ d)"

definition NewDurationValue :: "int \<Rightarrow> go_error + val" where
  "NewDurationValue ns =
     (if ns < 0 then Inl (Error ''duration cannot be negative'')
      else NewTypedValue (TypeRef TypeDuration ''ns'' [] [] [] None) (JInt ns))"

definition NewTimeOfDayValue :: "string \<Rightarrow> go_error + val" where
  "NewTimeOfDayValue s =
     sum_bind (ParseTimeOfDay s)
       (\<lambda>t. NewTypedValue (plain_type TypeTimeOfDay) (JStr (tod_string t)))"

definition NewEnumValue :: "string \<Rightarrow> string list \<Rightarrow> string \<Rightarrow> go_error + val" where
  "NewEnumValue name allowed s = NewTypedValue (TypeRef TypeEnum [] name [] allowed None) (JStr s)"

definition NewEntityRefValue :: "string \<Rightarrow> string \<Rightarrow> go_error + val" where
  "NewEntityRefValue k i =
     (if TrimSpace k = [] \<or> TrimSpace i = [] then Inl (Error ''entity kind and id are required'')
      else NewTypedValue (TypeRef TypeEntityRef [] [] (TrimSpace k) [] None)
        (JObj [(''id'', JStr (TrimSpace i)), (''kind'', JStr (TrimSpace k))]))"

text \<open>Unit conversion: each operation of the source is rounded on its own.\<close>

definition bounded_ratio :: "value_kind \<Rightarrow> rat \<Rightarrow> go_error + rat" where
  "bounded_ratio k x =
     (if x < 0 \<or> x > 1 then Inl (Errorf ''%s must be in [0,1]'' [kind_text k]) else Inr x)"

definition finite_or :: "rat option \<Rightarrow> go_error + rat" where
  "finite_or x = (case x of None \<Rightarrow> Inl (Error ''unsupported value: Inf'') | Some r \<Rightarrow> Inr r)"

definition distance_factor :: "string \<Rightarrow> rat option" where
  "distance_factor u =
     (if u \<in> {''m'', ''meter'', ''meters''} then Some 1
      else if u = ''cm'' then Some (5764607523034235 / 576460752303423488)
      else if u = ''mm'' then Some (1152921504606847 / 1152921504606846976)
      else if u = ''km'' then Some 1000
      else if u \<in> {''ft'', ''feet''} then Some (5490788665690109 / 18014398509481984)
      else None)"

definition convert_to_canonical :: "value_kind \<Rightarrow> rat \<Rightarrow> string \<Rightarrow> go_error + rat" where
  "convert_to_canonical k x u0 =
     (let u = ToLower (TrimSpace u0);
          unsupported = Inl (Errorf ''unsupported unit %q for %q'' [u, kind_text k]) in
      case k of
        TypeTemperature \<Rightarrow>
          if u \<in> {''c'', [CHR 0xC2, CHR 0xB0, CHR ''c''], ''celsius''} then Inr x
          else if u \<in> {''f'', [CHR 0xC2, CHR 0xB0, CHR ''f''], ''fahrenheit''} then
            finite_or (Option.bind (f64_round (x - 32)) (\<lambda>a.
              Option.bind (f64_round (a * 5)) (\<lambda>b. f64_round (b / 9))))
          else if u \<in> {''k'', ''kelvin''} then finite_or (f64_round (x + absolute_zero))
          else unsupported
      | TypeIlluminance \<Rightarrow>
          if u = ''lux'' \<or> u = ''lx'' then
            (if x < 0 then Inl (Error ''illuminance cannot be negative'') else Inr x)
          else unsupported
      | TypeDistance \<Rightarrow>
          (case distance_factor u of
             None \<Rightarrow> Inl (Errorf ''unsupported distance unit %q'' [u])
           | Some f \<Rightarrow>
               if x < 0 then Inl (Error ''distance cannot be negative'')
               else finite_or (f64_round (x * f)))
      | _ \<Rightarrow>
          if k = TypePercentage \<or> k = TypeConfidence then
            (if u = ''ratio'' \<or> u = [] then bounded_ratio k x
             else if u = ''%'' \<or> u = ''percent'' then
               sum_bind (finite_or (f64_round (x / 100))) (bounded_ratio k)
             else unsupported)
          else unsupported)"

definition NewQuantity :: "value_kind \<Rightarrow> rat \<Rightarrow> string \<Rightarrow> go_error + val" where
  "NewQuantity k x u =
     (case canonical_unit k of
        None \<Rightarrow> Inl (Errorf ''%q is not a supported scalar quantity'' [kind_text k])
      | Some c \<Rightarrow>
          if k = TypeDuration then Inl (Errorf ''%q is not a supported scalar quantity'' [kind_text k])
          else sum_bind (convert_to_canonical k x u)
            (\<lambda>y. NewTypedValue (TypeRef k c [] [] [] None) (json_of_float y)))"

section \<open>Parameters\<close>

datatype param =
  Parameter (pa_id: string) (pa_type: type_ref) (pa_required: bool) (pa_default: "val option")

definition param_validate :: "param \<Rightarrow> go_error option" where
  "param_validate p =
     checks
       [validate_token ''parameter id'' (pa_id p),
        (case type_normalize (pa_type p) of
           Inl e \<Rightarrow> Some e
         | Inr typ \<Rightarrow>
             (case pa_default p of
                None \<Rightarrow> None
              | Some d \<Rightarrow>
                  (case canonical d of
                     Inl e \<Rightarrow> Some e
                   | Inr w \<Rightarrow>
                       fails_if (\<not> type_compatible typ (v_type w))
                         (Errorf ''parameter %q default type does not match'' [pa_id p]))))]"

section \<open>Properties\<close>

text \<open>
  The canonical form of a typed value is a fixed point: it is accepted, its type is in
  normal form and canonicalising it again changes nothing (for types without a timestamp).
\<close>

theorem canonical_value_fixed_point:
  assumes "canonical v = Inr w" and "no_timestamp (v_type v)"
  shows "canonical w = Inr w \<and> value_check w = None \<and> type_normalize (v_type w) = Inr (v_type w)"
  using canonical_idem [OF assms] type_normalize_idem [OF canonical_type [OF assms(1)]]
  by (simp add: value_check_def)

theorem canonical_value_fixed_point_witness:
  "canonical (Value (TypeRef TypeEntityRef [] [] ''door'' [] None)
       (Some (JObj [(''ID'', JStr '' front ''), (''kind'', JStr ''door'')]))) =
     Inr (Value (TypeRef TypeEntityRef [] [] ''door'' [] None)
       (Some (JObj [(''id'', JStr ''front''), (''kind'', JStr ''door'')]))) \<and>
   value_check (Value (TypeRef TypeEntityRef [] [] ''door'' [] None)
       (Some (JObj [(''id'', JStr ''front''), (''kind'', JStr ''door'')]))) = None"
proof -
  have c: "canonical (Value (TypeRef TypeEntityRef [] [] ''door'' [] None)
       (Some (JObj [(''ID'', JStr '' front ''), (''kind'', JStr ''door'')]))) =
     Inr (Value (TypeRef TypeEntityRef [] [] ''door'' [] None)
       (Some (JObj [(''id'', JStr ''front''), (''kind'', JStr ''door'')])))"
    by code_simp
  show ?thesis using canonical_value_fixed_point [OF c] c by simp
qed

end
