(* ===== verification/Expressions.thy ===== *)
theory Expressions
  imports Values
begin

text \<open>
  Typed expressions, \<open>model/expression.go\<close>: the tree, its structural validation, the type
  checker \<open>CheckExpr\<close> and the canonical form. The operator of a node is a string that is
  trimmed and lowered before the \<open>switch\<close>; \<open>classify_op\<close> is that switch. Arguments are read
  by index, after the arity check; an index out of range would be a panic and is an error value
  here.

  Results: a type the checker returns is in normal form, checking needs only the references
  that occur in the expression and is monotone in the environment, and putting an expression
  in canonical form does not change its type.
\<close>

section \<open>Expressions\<close>

datatype expr =
  Expr (ex_op: string) (ex_ref: string) (ex_value: "val option") (ex_args: "expr list")

definition Literal :: "val \<Rightarrow> expr" where
  "Literal v = Expr ''literal'' [] (Some v) []"

definition Ref :: "string \<Rightarrow> expr" where
  "Ref r = Expr ''ref'' r None []"

definition expr_is_zero :: "expr \<Rightarrow> bool" where
  "expr_is_zero e \<longleftrightarrow> ex_op e = [] \<and> ex_ref e = [] \<and> ex_value e = None \<and> ex_args e = []"

datatype expr_op =
    OpLiteral | OpRef | OpNot | OpExists | OpMissing | OpChanged | OpAnd | OpOr
  | OpEq | OpNe | OpGt | OpGte | OpLt | OpLte | OpIn | OpBetween
  | OpAdd | OpSub | OpMul | OpDiv | OpUnknown

definition op_names :: "(string \<times> expr_op) list" where
  "op_names =
     [(''literal'', OpLiteral), (''ref'', OpRef), (''not'', OpNot), (''exists'', OpExists),
      (''missing'', OpMissing), (''changed'', OpChanged), (''and'', OpAnd), (''or'', OpOr),
      (''eq'', OpEq), (''ne'', OpNe), (''gt'', OpGt), (''gte'', OpGte), (''lt'', OpLt),
      (''lte'', OpLte), (''in'', OpIn), (''between'', OpBetween), (''add'', OpAdd),
      (''sub'', OpSub), (''mul'', OpMul), (''div'', OpDiv)]"

definition op_key :: "string \<Rightarrow> string" where
  "op_key s = ToLower (TrimSpace s)"

definition classify_op :: "string \<Rightarrow> expr_op" where
  "classify_op s = (case map_of op_names (op_key s) of None \<Rightarrow> OpUnknown | Some o' \<Rightarrow> o')"

fun arity_ok :: "expr_op \<Rightarrow> nat \<Rightarrow> bool" where
  "arity_ok OpLiteral n \<longleftrightarrow> n = 0"
| "arity_ok OpRef n \<longleftrightarrow> n = 0"
| "arity_ok OpNot n \<longleftrightarrow> n = 1"
| "arity_ok OpExists n \<longleftrightarrow> n = 1"
| "arity_ok OpMissing n \<longleftrightarrow> n = 1"
| "arity_ok OpChanged n \<longleftrightarrow> n = 1"
| "arity_ok OpAnd n \<longleftrightarrow> 2 \<le> n"
| "arity_ok OpOr n \<longleftrightarrow> 2 \<le> n"
| "arity_ok OpBetween n \<longleftrightarrow> n = 3"
| "arity_ok OpUnknown n \<longleftrightarrow> False"
| "arity_ok _ n \<longleftrightarrow> n = 2"

definition validate_reference :: "string \<Rightarrow> go_error option" where
  "validate_reference ref =
     (let r = TrimSpace ref in
      checks
        [fails_if (r = [] \<or> length r > 256) (Error ''invalid expression reference''),
         first_err (validate_token ''reference segment'') (split_on (CHR ''.'') r)])"

fun expr_validate :: "expr \<Rightarrow> go_error option" where
  "expr_validate (Expr op ref v args) =
     (if expr_is_zero (Expr op ref v args) then None
      else
        (case classify_op op of
           OpLiteral \<Rightarrow>
             (case v of
                None \<Rightarrow> Some (Error ''literal expression requires only value'')
              | Some x \<Rightarrow>
                  checks [fails_if (ref \<noteq> [] \<or> args \<noteq> []) (Error ''literal expression requires only value''),
                    value_check x])
         | OpRef \<Rightarrow>
             checks [fails_if (TrimSpace ref = [] \<or> v \<noteq> None \<or> args \<noteq> [])
                 (Error ''ref expression requires only ref''),
               validate_reference ref]
         | OpUnknown \<Rightarrow> Some (Errorf ''unknown expression operator %q'' [op])
         | o' \<Rightarrow>
             checks
               [fails_if (\<not> arity_ok o' (length args) \<or> ref \<noteq> [] \<or> v \<noteq> None)
                  (Errorf ''%s expression requires its arguments'' [op_key op]),
                first_err
                  (\<lambda>a. checks [fails_if (expr_is_zero a) (Errorf ''%s argument is empty'' [op_key op]),
                     expr_validate a]) args]))"

section \<open>The type checker\<close>

type_synonym type_env = "string \<Rightarrow> type_ref option"

abbreviation bool_type :: type_ref where
  "bool_type \<equiv> plain_type TypeBool"

definition index_panic :: go_error where
  "index_panic = Error ''runtime error: index out of range''"

definition arithmetic_result :: "expr_op \<Rightarrow> type_ref \<Rightarrow> type_ref \<Rightarrow> go_error + type_ref" where
  "arithmetic_result op left right =
     (let lk = tr_kind left; rk = tr_kind right in
      if op = OpAdd \<and> lk = TypeString \<and> rk = TypeString then Inr (plain_type TypeString)
      else if \<not> type_numeric left \<or> \<not> type_numeric right then
        Inl (Error ''%s requires numeric operands'')
      else if lk = TypeInt \<and> rk = TypeInt then
        Inr (plain_type (if op = OpDiv then TypeFloat else TypeInt))
      else if (lk = TypeInt \<or> lk = TypeFloat) \<and> (rk = TypeInt \<or> rk = TypeFloat) then
        Inr (plain_type TypeFloat)
      else if \<not> type_compatible left right then
        Inl (Error ''%s requires compatible quantity dimensions'')
      else if op = OpMul \<or> op = OpDiv then
        Inl (Error ''%s on unit-aware quantities is not allowed without an explicit dimensional rule'')
      else Inr left)"

fun arg1 :: "(go_error + 'a) list \<Rightarrow> ('a \<Rightarrow> go_error + 'b) \<Rightarrow> go_error + 'b" where
  "arg1 (a # _) f = sum_bind a f" | "arg1 [] f = Inl index_panic"

fun arg2 :: "(go_error + 'a) list \<Rightarrow> ('a \<Rightarrow> 'a \<Rightarrow> go_error + 'b) \<Rightarrow> go_error + 'b" where
  "arg2 (a # b # _) f = sum_bind a (\<lambda>x. sum_bind b (f x))" | "arg2 _ f = Inl index_panic"

fun arg3 :: "(go_error + 'a) list \<Rightarrow> ('a \<Rightarrow> 'a \<Rightarrow> 'a \<Rightarrow> go_error + 'b) \<Rightarrow> go_error + 'b" where
  "arg3 (a # b # c # _) f = sum_bind a (\<lambda>x. sum_bind b (\<lambda>y. sum_bind c (f x y)))"
| "arg3 _ f = Inl index_panic"

definition needs_bool :: "go_error + type_ref \<Rightarrow> go_error option" where
  "needs_bool r =
     (case r of Inl e \<Rightarrow> Some e
      | Inr t \<Rightarrow> fails_if (tr_kind t \<noteq> TypeBool) (Errorf ''requires bool, got %q'' [kind_text (tr_kind t)]))"

definition check_op ::
    "type_env \<Rightarrow> expr_op \<Rightarrow> string \<Rightarrow> val option \<Rightarrow> expr list \<Rightarrow> (go_error + type_ref) list \<Rightarrow>
     go_error + type_ref" where
  "check_op env op ref v args rs =
     (case op of
        OpLiteral \<Rightarrow>
          (case v of None \<Rightarrow> Inl index_panic
           | Some x \<Rightarrow> sum_bind (canonical x) (\<lambda>w. Inr (v_type w)))
      | OpRef \<Rightarrow>
          (case env (TrimSpace ref) of
             None \<Rightarrow> Inl (Errorf ''unknown expression reference %q'' [ref])
           | Some t \<Rightarrow> type_normalize t)
      | OpExists \<Rightarrow> arg1 rs (\<lambda>_. Inr bool_type)
      | OpMissing \<Rightarrow> arg1 rs (\<lambda>_. Inr bool_type)
      | OpChanged \<Rightarrow>
          (case args of
             [] \<Rightarrow> Inl index_panic
           | a # _ \<Rightarrow>
               if op_key (ex_op a) \<noteq> ''ref'' then Inl (Error ''changed requires a reference'')
               else arg1 rs (\<lambda>_. Inr bool_type))
      | OpNot \<Rightarrow> arg1 rs (\<lambda>t. guarded (needs_bool (Inr t)) bool_type)
      | OpAnd \<Rightarrow> guarded (first_err needs_bool rs) bool_type
      | OpOr \<Rightarrow> guarded (first_err needs_bool rs) bool_type
      | OpIn \<Rightarrow>
          arg2 rs (\<lambda>item list.
            case tr_element list of
              Some el \<Rightarrow>
                guarded (fails_if (tr_kind list \<noteq> TypeList \<or> \<not> type_compatible item el)
                  (Errorf ''in requires list of %q'' [kind_text (tr_kind item)])) bool_type
            | None \<Rightarrow> Inl (Errorf ''in requires list of %q'' [kind_text (tr_kind item)]))
      | OpBetween \<Rightarrow>
          arg3 rs (\<lambda>t lo hi.
            guarded (fails_if (\<not> type_ordered t \<or> \<not> type_compatible t lo \<or> \<not> type_compatible t hi)
              (Error ''between requires three compatible ordered values'')) bool_type)
      | OpUnknown \<Rightarrow> Inl (Error ''unsupported expression operator'')
      | _ \<Rightarrow>
          if op \<in> {OpAdd, OpSub, OpMul, OpDiv} then arg2 rs (arithmetic_result op)
          else
            arg2 rs (\<lambda>l r.
              guarded
                (checks
                  [fails_if (\<not> type_compatible l r) (Error ''cannot compare''),
                   fails_if (op \<noteq> OpEq \<and> op \<noteq> OpNe \<and> \<not> type_ordered l)
                     (Error ''does not support ordering'')])
                bool_type))"

fun check_expr :: "type_env \<Rightarrow> expr \<Rightarrow> go_error + type_ref" where
  "check_expr env (Expr op ref v args) =
     (case expr_validate (Expr op ref v args) of
        Some e \<Rightarrow> Inl e
      | None \<Rightarrow> check_op env (classify_op op) ref v args (map (check_expr env) args))"


declare expr_validate.simps [simp del] check_expr.simps [simp del]

lemma classify_op_Nil [simp]: "classify_op [] = OpUnknown"
  by (simp add: classify_op_def op_key_def op_names_def)

lemma needs_bool_None: "needs_bool r = None \<longleftrightarrow> (\<exists>t. r = Inr t \<and> tr_kind t = TypeBool)"
  by (cases r) (auto simp: needs_bool_def)

lemma arg1_Inr: "arg1 rs f = Inr t \<longleftrightarrow> (\<exists>a rest. rs = Inr a # rest \<and> f a = Inr t)"
  by (cases rs) auto

lemma arg2_Inr: "arg2 rs f = Inr t \<longleftrightarrow> (\<exists>a b rest. rs = Inr a # Inr b # rest \<and> f a b = Inr t)"
  by (induction rs f rule: arg2.induct) auto

lemma arg3_Inr:
  "arg3 rs f = Inr t \<longleftrightarrow> (\<exists>a b c rest. rs = Inr a # Inr b # Inr c # rest \<and> f a b c = Inr t)"
  by (induction rs f rule: arg3.induct) auto

lemmas arg_Inr = arg1_Inr arg2_Inr arg3_Inr

lemma check_expr_Inr:
  "check_expr env (Expr op ref v args) = Inr t \<longleftrightarrow>
     expr_validate (Expr op ref v args) = None \<and>
     check_op env (classify_op op) ref v args (map (check_expr env) args) = Inr t"
  by (auto simp: check_expr.simps split: option.splits)

section \<open>Result types are in normal form\<close>

lemma bool_type_normal: "type_normalize bool_type = Inr bool_type"
  by (rule plain_type_normal) simp

lemma arithmetic_result_normal:
  "arithmetic_result op l r = Inr t \<Longrightarrow> type_normalize l = Inr l \<Longrightarrow> type_normalize t = Inr t"
  by (auto simp: arithmetic_result_def Let_def plain_type_normal split: if_splits simp del: type_normalize.simps)

lemma check_op_normal:
  assumes "check_op env op ref v args rs = Inr t"
    and "\<And>x. Inr x \<in> set rs \<Longrightarrow> type_normalize x = Inr x"
  shows "type_normalize t = Inr t"
proof -
  have "t = bool_type \<or> op = OpLiteral \<or> op = OpRef \<or>
      (\<exists>a b rest. rs = Inr a # Inr b # rest \<and> arithmetic_result op a b = Inr t)"
    using assms(1) by (cases op) (auto simp: check_op_def arg_Inr split: list.splits option.splits if_splits)
  moreover have "type_normalize t = Inr t" if "op = OpLiteral"
    using assms(1) that
    by (auto simp: check_op_def split: option.splits dest!: canonical_type type_normalize_idem)
  moreover have "type_normalize t = Inr t" if "op = OpRef"
    using assms(1) that by (auto simp: check_op_def split: option.splits intro: type_normalize_idem)
  ultimately show ?thesis
    using assms(2) bool_type_normal by (auto intro: arithmetic_result_normal simp del: type_normalize.simps)
qed

lemma check_expr_normal: "check_expr env e = Inr t \<Longrightarrow> type_normalize t = Inr t"
proof (induction e arbitrary: t)
  case (Expr op ref v args)
  from Expr.prems have
    "check_op env (classify_op op) ref v args (map (check_expr env) args) = Inr t"
    by (simp add: check_expr_Inr)
  then show ?case
  proof (rule check_op_normal)
    fix x assume "Inr x \<in> set (map (check_expr env) args)"
    then obtain a where "a \<in> set args" and "check_expr env a = Inr x" by (metis imageE list.set_map)
    then show "type_normalize x = Inr x" by (rule Expr.IH)
  qed
qed

section \<open>References and environments\<close>

text \<open>The references an expression reads when it is checked.\<close>

fun expr_refs :: "expr \<Rightarrow> string set" where
  "expr_refs (Expr op ref v args) =
     (if classify_op op = OpRef then {TrimSpace ref} else {}) \<union> \<Union> (set (map expr_refs args))"

lemma check_arg_types:
  assumes "check_expr env (Expr op ref v args) = Inr t" and "a \<in> set args"
  shows "\<exists>t. check_expr env a = Inr t"
proof -
  from assms(1) have ok: "expr_validate (Expr op ref v args) = None"
    and c: "check_op env (classify_op op) ref v args (map (check_expr env) args) = Inr t"
    by (auto simp: check_expr_Inr)
  have arity: "classify_op op \<noteq> OpUnknown \<and> arity_ok (classify_op op) (length args)"
    using ok c by (cases "classify_op op")
      (auto simp: expr_validate.simps checks_None expr_is_zero_def check_op_def split: if_splits option.splits)
  show ?thesis
    using c arity assms(2)
    by (cases "classify_op op")
      (auto simp: check_op_def arg_Inr Cons_eq_map_conv first_err_None needs_bool_None
         numeral_eq_Suc length_Suc_conv split: list.splits if_splits)
qed

lemma check_expr_refs_bound: "check_expr env e = Inr t \<Longrightarrow> expr_refs e \<subseteq> dom env"
proof (induction e arbitrary: t)
  case (Expr op ref v args)
  have "\<Union> (set (map expr_refs args)) \<subseteq> dom env"
    using Expr.IH check_arg_types [OF Expr.prems] by fastforce
  moreover have "classify_op op = OpRef \<Longrightarrow> TrimSpace ref \<in> dom env"
    using Expr.prems by (auto simp: check_expr_Inr check_op_def split: option.splits)
  ultimately show ?case by simp
qed

lemma check_op_env:
  "(op = OpRef \<Longrightarrow> env' (TrimSpace ref) = env (TrimSpace ref)) \<Longrightarrow>
   check_op env' op ref v args rs = check_op env op ref v args rs"
  by (cases op) (simp_all add: check_op_def)

lemma check_expr_cong:
  "(\<And>r. r \<in> expr_refs e \<Longrightarrow> env' r = env r) \<Longrightarrow> check_expr env' e = check_expr env e"
proof (induction e)
  case (Expr op ref v args)
  have "check_expr env' a = check_expr env a" if "a \<in> set args" for a
    by (rule Expr.IH [OF that]) (use that Expr.prems in auto)
  then have args_eq: "map (check_expr env') args = map (check_expr env) args" by simp
  have "classify_op op = OpRef \<Longrightarrow> env' (TrimSpace ref) = env (TrimSpace ref)"
    using Expr.prems by simp
  then have op_eq: "check_op env' (classify_op op) ref v args rs =
      check_op env (classify_op op) ref v args rs" for rs
    by (rule check_op_env)
  show ?case by (simp only: check_expr.simps args_eq op_eq)
qed

text \<open>A larger environment types at least as much, and the same way.\<close>

lemma check_expr_mono:
  assumes "check_expr env e = Inr t" and "env \<subseteq>\<^sub>m env'"
  shows "check_expr env' e = Inr t"
proof -
  have "env' r = env r" if "r \<in> expr_refs e" for r
  proof -
    have "r \<in> dom env" using check_expr_refs_bound [OF assms(1)] that by blast
    then show ?thesis using assms(2) by (simp add: map_le_def)
  qed
  then have "check_expr env' e = check_expr env e" by (rule check_expr_cong)
  with assms(1) show ?thesis by simp
qed


section \<open>Canonical form\<close>

text \<open>
  \<open>enc\<close> is \<open>json.Marshal\<close>, whose bytes order the arguments of \<open>and\<close> and \<open>or\<close>. Nothing
  below depends on which encoding it is.
\<close>

fun normalize_expr :: "(expr \<Rightarrow> string) \<Rightarrow> expr \<Rightarrow> go_error + expr" where
  "normalize_expr enc (Expr op ref v args) =
     (if expr_is_zero (Expr op ref v args) then Inr (Expr [] [] None [])
      else
        sum_bind (case v of None \<Rightarrow> Inr None | Some x \<Rightarrow> map_sum id Some (canonical x)) (\<lambda>v'.
          sum_bind (traverse (normalize_expr enc) args) (\<lambda>args'.
            let op' = op_key op in
            after_validate expr_validate
              (Expr op' (TrimSpace ref) v'
                (if op' = ''and'' \<or> op' = ''or'' then sort_key enc args' else args')))))"

declare normalize_expr.simps [simp del]

fun no_timestamp_expr :: "expr \<Rightarrow> bool" where
  "no_timestamp_expr (Expr op ref v args) \<longleftrightarrow>
     (case v of None \<Rightarrow> True | Some x \<Rightarrow> no_timestamp (v_type x)) \<and> list_all no_timestamp_expr args"

lemma op_key_idem [simp]: "op_key (op_key op) = op_key op"
  by (simp add: op_key_def)

lemma classify_op_key [simp]: "classify_op (op_key op) = classify_op op"
  by (simp add: classify_op_def)

lemma and_or_key:
  "classify_op op \<noteq> OpUnknown \<Longrightarrow>
   op_key op = ''and'' \<or> op_key op = ''or'' \<longleftrightarrow> classify_op op = OpAnd \<or> classify_op op = OpOr"
  by (auto simp: classify_op_def op_names_def split: if_splits)

lemma typed_known_op: "check_expr env (Expr op ref v args) = Inr t \<Longrightarrow> classify_op op \<noteq> OpUnknown"
  by (auto simp: check_expr_Inr check_op_def)

lemma typed_nonzero: "check_expr env e = Inr t \<Longrightarrow> \<not> expr_is_zero e"
  by (cases e) (auto simp: expr_is_zero_def dest: typed_known_op)

lemma normalize_expr_Inr:
  assumes "normalize_expr enc (Expr op ref v args) = Inr n" and "\<not> expr_is_zero (Expr op ref v args)"
  obtains v' args' where
    "v = None \<and> v' = None \<or> (\<exists>x w. v = Some x \<and> v' = Some w \<and> canonical x = Inr w)"
    and "list_all2 (\<lambda>x y. normalize_expr enc x = Inr y) args args'"
    and "n = Expr (op_key op) (TrimSpace ref) v'
          (if op_key op = ''and'' \<or> op_key op = ''or'' then sort_key enc args' else args')"
    and "expr_validate n = None"
  using assms
  by (cases v) (auto simp: normalize_expr.simps Let_def traverse_Inr_iff map_sum_def split: sum.splits)

lemma normalize_expr_op:
  assumes "normalize_expr enc x = Inr y" and "check_expr env x = Inr t"
  shows "op_key (ex_op y) = op_key (ex_op x)"
proof (cases x)
  case (Expr op ref v args)
  show ?thesis
    by (rule normalize_expr_Inr [OF assms(1) [unfolded Expr] typed_nonzero [OF assms(2) [unfolded Expr]]])
      (simp add: Expr)
qed

lemma check_op_normal_form:
  assumes "check_op env op ref v args rs = Inr t"
    and v: "v = None \<and> v' = None \<or> (\<exists>x w. v = Some x \<and> v' = Some w \<and> canonical x = Inr w \<and>
        no_timestamp (v_type x))"
    and heads: "map (op_key \<circ> ex_op) args' = map (op_key \<circ> ex_op) args"
  shows "check_op env op (TrimSpace ref) v' args' rs = Inr t"
proof (cases "op = OpChanged")
  case True
  with assms(1) heads show ?thesis
    by (auto simp: check_op_def Cons_eq_map_conv split: list.splits if_splits)
next
  case False
  with assms(1) v show ?thesis
    by (cases op) (auto simp: check_op_def canonical_idem split: option.splits)
qed

lemma check_op_sorted:
  assumes "op = OpAnd \<or> op = OpOr" and "set rs = set rs'"
  shows "check_op env op ref v args rs = Inr t \<longleftrightarrow> check_op env op ref v args' rs' = Inr t"
  using assms by (auto simp: check_op_def first_err_None)

text \<open>
  Putting an expression in canonical form (trimming, lowering operators, canonicalising
  literals, sorting the arguments of \<open>and\<close> and \<open>or\<close>) keeps the type the checker gives it.
\<close>

theorem normalize_expr_type:
  assumes "normalize_expr enc e = Inr n" and "check_expr env e = Inr t" and "no_timestamp_expr e"
  shows "check_expr env n = Inr t"
  using assms
proof (induction e arbitrary: n t)
  case (Expr op ref v args)
  note known = typed_known_op [OF Expr.prems(2)]
  from normalize_expr_Inr [OF Expr.prems(1) typed_nonzero [OF Expr.prems(2)]]
  obtain v' args' where
    v': "v = None \<and> v' = None \<or> (\<exists>x w. v = Some x \<and> v' = Some w \<and> canonical x = Inr w)" and
    args': "list_all2 (\<lambda>x y. normalize_expr enc x = Inr y) args args'" and
    n: "n = Expr (op_key op) (TrimSpace ref) v'
          (if op_key op = ''and'' \<or> op_key op = ''or'' then sort_key enc args' else args')" and
    valid: "expr_validate n = None" .
  have same: "list_all2 (\<lambda>x y. check_expr env y = check_expr env x \<and>
      op_key (ex_op y) = op_key (ex_op x)) args args'"
  proof (rule list.rel_mono_strong [OF args'])
    fix x y assume x: "x \<in> set args" and y: "normalize_expr enc x = Inr y"
    from check_arg_types [OF Expr.prems(2) x] obtain s where s: "check_expr env x = Inr s" ..
    have "no_timestamp_expr x" using Expr.prems(3) x by (simp add: list_all_iff)
    from Expr.IH [OF x y s this] s normalize_expr_op [OF y s]
    show "check_expr env y = check_expr env x \<and> op_key (ex_op y) = op_key (ex_op x)" by simp
  qed
  then have rs: "map (check_expr env) args' = map (check_expr env) args"
    and heads: "map (op_key \<circ> ex_op) args' = map (op_key \<circ> ex_op) args"
    by (induction rule: list_all2_induct) auto
  have c: "check_op env (classify_op op) ref v args (map (check_expr env) args) = Inr t"
    using Expr.prems(2) by (simp add: check_expr_Inr)
  have c': "check_op env (classify_op op) (TrimSpace ref) v' args' (map (check_expr env) args') = Inr t"
    unfolding rs by (rule check_op_normal_form [OF c _ heads]) (use v' Expr.prems(3) in auto)
  show ?case
  proof (cases "op_key op = ''and'' \<or> op_key op = ''or''")
    case True
    with c' and_or_key [OF known] show ?thesis
      unfolding n using valid n
      by (auto simp: check_expr_Inr check_op_sorted [where rs = "map (check_expr env) (sort_key enc args')"
            and rs' = "map (check_expr env) args'" and args' = args'])
  next
    case False
    with c' valid n show ?thesis by (auto simp: check_expr_Inr)
  qed
qed

theorem normalize_expr_type_witness:
  "check_expr [''parameter.n'' \<mapsto> plain_type TypeInt]
     (Expr ''gt'' [] None [Expr ''ref'' ''parameter.n'' None [], Literal (Value (plain_type TypeInt) (Some (JInt 3)))])
   = Inr bool_type"
  by (rule normalize_expr_type
      [where enc = ex_ref and e = "Expr '' GT'' [] None [Expr ''Ref'' '' parameter.n'' None [],
         Literal (Value (plain_type TypeInt) (Some (JInt 3)))]"]) code_simp+

text \<open>The canonical form is a fixed point.\<close>

lemma valid_known_op: "expr_validate (Expr op ref v args) = None \<Longrightarrow>
    \<not> expr_is_zero (Expr op ref v args) \<Longrightarrow> classify_op op \<noteq> OpUnknown"
  by (auto simp: expr_validate.simps split: expr_op.splits)

lemma normalize_expr_idem:
  "normalize_expr enc e = Inr n \<Longrightarrow> no_timestamp_expr e \<Longrightarrow> normalize_expr enc n = Inr n"
proof (induction e arbitrary: n)
  case (Expr op ref v args)
  show ?case
  proof (cases "expr_is_zero (Expr op ref v args)")
    case True
    with Expr.prems(1) show ?thesis by (auto simp: normalize_expr.simps expr_is_zero_def)
  next
    case False
    from normalize_expr_Inr [OF Expr.prems(1) False] obtain v' args' where
      v': "v = None \<and> v' = None \<or> (\<exists>x w. v = Some x \<and> v' = Some w \<and> canonical x = Inr w)" and
      args': "list_all2 (\<lambda>x y. normalize_expr enc x = Inr y) args args'" and
      n: "n = Expr (op_key op) (TrimSpace ref) v'
          (if op_key op = ''and'' \<or> op_key op = ''or'' then sort_key enc args' else args')" and
      valid: "expr_validate n = None" .
    have "normalize_expr enc y = Inr y" if y: "y \<in> set args'" for y
    proof -
      from args' have "traverse (normalize_expr enc) args = Inr args'" by (simp add: traverse_Inr_iff)
      from traverse_set [OF this y] obtain x where "x \<in> set args" "normalize_expr enc x = Inr y" by blast
      then show ?thesis using Expr.IH Expr.prems(2) by (auto simp: list_all_iff)
    qed
    then have "traverse (normalize_expr enc) args' = Inr args'"
      and "traverse (normalize_expr enc) (sort_key enc args') = Inr (sort_key enc args')"
      by (auto intro: traverse_fixed)
    moreover have "v' = None \<or> (\<exists>w. v' = Some w \<and> canonical w = Inr w)"
      using v' Expr.prems(2) by (auto simp: canonical_idem)
    moreover have "sort_key enc (sort_key enc args') = sort_key enc args'"
      by (simp add: sort_key_id_if_sorted)
    ultimately show ?thesis
      using valid by (auto simp: n normalize_expr.simps expr_is_zero_def Let_def)
  qed
qed

section \<open>Properties\<close>

text \<open>
  The type that the checker infers is in normal form, every reference the expression makes
  is bound in the environment, and every larger environment gives the same type.
\<close>

theorem inferred_type_stable:
  assumes "check_expr env e = Inr t"
  shows "type_normalize t = Inr t \<and> expr_refs e \<subseteq> dom env \<and>
    (\<forall>env'. env \<subseteq>\<^sub>m env' \<longrightarrow> check_expr env' e = Inr t)"
  using check_expr_normal [OF assms] check_expr_refs_bound [OF assms] check_expr_mono [OF assms]
  by blast

theorem inferred_type_stable_witness:
  "expr_refs (Expr ''and'' [] None [Ref ''state.armed'', Expr ''not'' [] None [Ref ''state.home'']]) \<subseteq>
     {''state.armed'', ''state.home''} \<and>
   check_expr [''state.armed'' \<mapsto> bool_type, ''state.home'' \<mapsto> bool_type, ''trigger.n'' \<mapsto> plain_type TypeInt]
      (Expr ''and'' [] None [Ref ''state.armed'', Expr ''not'' [] None [Ref ''state.home'']]) = Inr bool_type"
proof -
  have c: "check_expr [''state.armed'' \<mapsto> bool_type, ''state.home'' \<mapsto> bool_type]
      (Expr ''and'' [] None [Ref ''state.armed'', Expr ''not'' [] None [Ref ''state.home'']]) = Inr bool_type"
    by code_simp
  have "[''state.armed'' \<mapsto> bool_type, ''state.home'' \<mapsto> bool_type] \<subseteq>\<^sub>m
      [''state.armed'' \<mapsto> bool_type, ''state.home'' \<mapsto> bool_type, ''trigger.n'' \<mapsto> plain_type TypeInt]"
    by (auto simp: map_le_def)
  with inferred_type_stable [OF c] show ?thesis by auto
qed

end
