(* ===== verification/Flows.thy ===== *)
theory Flows
  imports Expressions "HOL-Library.Word"
begin

text \<open>
  Steps and flows, \<open>model/entity_ref.go\<close>, \<open>model/step.go\<close> and \<open>model/flow.go\<close>: the data,
  the validators, the normal form, and the traversal that the passes over a flow share.

  A Go map from names to expressions is an association list here. The loops over such a map
  run in an unspecified order; which of several errors is reported depends on it, whether one
  is reported does not. Durations are nanoseconds.

  The passes are closures of one shape (a loop over the steps that calls itself on the nested
  flows); \<open>walk_flow\<close> is that shape, and a pass is a \<open>walker\<close>: what it does at a step, into
  which nested flows it descends, and what it does on entering one.
\<close>

section \<open>Capability references\<close>

datatype entity_ref = EntityRef (er_id: string) (er_kind: string)

datatype capability_ref =
  CapabilityRef (cr_id: string) (cr_version: string) (cr_entity: "entity_ref option")

definition entity_ref_validate :: "entity_ref \<Rightarrow> go_error option" where
  "entity_ref_validate r =
     checks [validate_token ''entity id'' (er_id r), validate_token ''entity kind'' (er_kind r)]"

definition capability_ref_validate :: "capability_ref \<Rightarrow> go_error option" where
  "capability_ref_validate r =
     checks
       [validate_token ''capability id'' (cr_id r),
        fails_if (TrimSpace (cr_version r) = []) (Errorf ''capability %q version is required'' [cr_id r]),
        fails_if (length (cr_version r) > 64) (Errorf ''capability %q version is too long'' [cr_id r]),
        (case cr_entity r of None \<Rightarrow> None | Some e \<Rightarrow> entity_ref_validate e)]"

definition normalize_capability :: "capability_ref \<Rightarrow> capability_ref" where
  "normalize_capability r =
     CapabilityRef (TrimSpace (cr_id r)) (TrimSpace (cr_version r))
       (map_option (\<lambda>e. EntityRef (TrimSpace (er_id e)) (TrimSpace (er_kind e))) (cr_entity r))"

section \<open>Steps\<close>

type_synonym arguments = "(string \<times> expr) list"

datatype step_kind =
    StepAction | StepWait | StepIf | StepSwitch | StepParallel | StepJoin | StepHumanApproval
  | StepSubflow | StepStop | StepKindOther string

fun step_kind_text :: "step_kind \<Rightarrow> string" where
  "step_kind_text StepAction = ''action''"
| "step_kind_text StepWait = ''wait''"
| "step_kind_text StepIf = ''if''"
| "step_kind_text StepSwitch = ''switch''"
| "step_kind_text StepParallel = ''parallel''"
| "step_kind_text StepJoin = ''join''"
| "step_kind_text StepHumanApproval = ''human_approval''"
| "step_kind_text StepSubflow = ''subflow''"
| "step_kind_text StepStop = ''stop''"
| "step_kind_text (StepKindOther s) = s"

datatype retry_hint = RetryHint (rh_attempts: int) (rh_base: int) (rh_max: int)

definition retry_validate :: "retry_hint \<Rightarrow> go_error option" where
  "retry_validate r =
     checks
       [fails_if (rh_attempts r < 1 \<or> rh_attempts r > 10)
          (Error ''retry maxAttempts must be between 1 and 10''),
        fails_if (rh_base r < 0 \<or> rh_max r < 0) (Error ''retry delays must be non-negative''),
        fails_if (rh_max r > 0 \<and> rh_base r > rh_max r)
          (Error ''retry baseDelay cannot exceed maxDelay'')]"

datatype action_step =
  ActionStep (ac_capability: capability_ref) (ac_arguments: arguments) (ac_retry: "retry_hint option")

datatype wait_step = WaitStep (wt_duration: int)

datatype join_mode = JoinAll | JoinAny | JoinNOfM | JoinQuorum | JoinOther string

datatype join_step = JoinStep (jn_mode: join_mode) (jn_threshold: int)

datatype human_approval_step =
  HumanApprovalStep (ha_risk: risk_level) (ha_prompt: string) (ha_timeout: int)

datatype subflow_step =
  SubflowStep (sf_scenario: string) (sf_version: "64 word") (sf_arguments: arguments)

datatype stop_outcome = StopCompleted | StopCanceled | StopRejected | StopOther string

datatype step =
    Step (step_id: string) (st_kind: step_kind) (st_action: "action_step option")
      (st_wait: "wait_step option") (st_if: "if_step option") (st_switch: "switch_step option")
      (st_parallel: "parallel_step option") (st_join: "join_step option")
      (st_human: "human_approval_step option") (st_subflow: "subflow_step option")
      (st_stop: "stop_outcome option")
  and if_step = IfStep (if_condition: expr) (if_then: flow) (if_else: "flow option")
  and switch_case = SwitchCase (sc_when: expr) (sc_flow: flow)
  and switch_step = SwitchStep (sw_cases: "switch_case list") (sw_default: "flow option")
  and parallel_step = ParallelStep (par_branches: "flow list")
  and flow = Flow (flow_steps: "step list")

section \<open>Validation\<close>

definition present :: "'a option \<Rightarrow> nat" where
  "present x = (case x of None \<Rightarrow> 0 | Some _ \<Rightarrow> 1)"

definition payload_count :: "step \<Rightarrow> nat" where
  "payload_count s =
     present (st_action s) + present (st_wait s) + present (st_if s) + present (st_switch s) +
     present (st_parallel s) + present (st_join s) + present (st_human s) + present (st_subflow s) +
     present (st_stop s)"

definition wrong_payload :: "string \<Rightarrow> go_error" where
  "wrong_payload i = Errorf ''step %q has mismatched payload'' [i]"

definition validate_expr_map :: "string \<Rightarrow> arguments \<Rightarrow> go_error option" where
  "validate_expr_map label exprs =
     first_err
       (\<lambda>(key, e).
          checks
            [validate_token label key,
             fails_if (expr_is_zero e) (Errorf ''%s %q cannot be empty'' [label, key]),
             expr_validate e]) exprs"

definition validate_action :: "action_step \<Rightarrow> go_error option" where
  "validate_action a =
     checks
       [capability_ref_validate (ac_capability a),
        validate_expr_map ''action argument'' (ac_arguments a),
        (case ac_retry a of None \<Rightarrow> None | Some r \<Rightarrow> retry_validate r)]"

definition validate_join :: "join_step \<Rightarrow> go_error option" where
  "validate_join j =
     (case jn_mode j of
        JoinOther s \<Rightarrow> Some (Errorf ''invalid join mode %q'' [s])
      | m \<Rightarrow>
          if m = JoinAll \<or> m = JoinAny then
            fails_if (jn_threshold j \<noteq> 0) (Error ''join mode does not accept threshold'')
          else fails_if (jn_threshold j \<le> 0) (Error ''join mode requires positive threshold''))"

definition validate_human :: "human_approval_step \<Rightarrow> go_error option" where
  "validate_human h =
     checks
       [risk_validate (ha_risk h),
        fails_if (TrimSpace (ha_prompt h) = []) (Error ''human approval requires prompt''),
        fails_if (ha_timeout h < 0) (Error ''human approval timeout cannot be negative'')]"

definition validate_subflow :: "subflow_step \<Rightarrow> go_error option" where
  "validate_subflow f =
     checks
       [validate_token ''subflow scenario id'' (sf_scenario f),
        fails_if (sf_version f = 0) (Error ''subflow must reference a published version''),
        validate_expr_map ''subflow argument'' (sf_arguments f)]"

definition validate_when :: "string \<Rightarrow> expr \<Rightarrow> go_error option" where
  "validate_when msg e = checks [fails_if (expr_is_zero e) (Error msg), expr_validate e]"

fun validate_step :: "step \<Rightarrow> go_error option" and validate_flow :: "flow \<Rightarrow> go_error option" where
  "validate_step (Step i k ac wt cond sw par jn ha sf stop) =
     checks
       [validate_token ''step id'' i,
        fails_if (payload_count (Step i k ac wt cond sw par jn ha sf stop) \<noteq> 1)
          (Errorf ''step %q must contain exactly one payload'' [i]),
        (case k of
           StepAction \<Rightarrow>
             (case ac of None \<Rightarrow> Some (wrong_payload i) | Some a \<Rightarrow> validate_action a)
         | StepWait \<Rightarrow>
             (case wt of
                None \<Rightarrow> Some (Errorf ''wait step %q requires positive duration'' [i])
              | Some w \<Rightarrow> fails_if (wt_duration w \<le> 0) (Errorf ''wait step %q requires positive duration'' [i]))
         | StepIf \<Rightarrow>
             (case cond of
                None \<Rightarrow> Some (wrong_payload i)
              | Some (IfStep c t e) \<Rightarrow>
                  checks
                    [validate_when ''if step requires condition'' c, validate_flow t,
                     (case e of None \<Rightarrow> None | Some f \<Rightarrow> validate_flow f)])
         | StepSwitch \<Rightarrow>
             (case sw of
                None \<Rightarrow> Some (Errorf ''switch step %q requires at least one case'' [i])
              | Some (SwitchStep cs d) \<Rightarrow>
                  checks
                    [fails_if (cs = []) (Errorf ''switch step %q requires at least one case'' [i]),
                     first_err
                       (\<lambda>c. case c of SwitchCase w f \<Rightarrow>
                          checks [validate_when ''switch case requires condition'' w, validate_flow f]) cs,
                     (case d of None \<Rightarrow> None | Some f \<Rightarrow> validate_flow f)])
         | StepParallel \<Rightarrow>
             (case par of
                None \<Rightarrow> Some (Errorf ''parallel step %q requires at least two branches'' [i])
              | Some (ParallelStep bs) \<Rightarrow>
                  checks
                    [fails_if (length bs < 2) (Errorf ''parallel step %q requires at least two branches'' [i]),
                     first_err validate_flow bs])
         | StepJoin \<Rightarrow> (case jn of None \<Rightarrow> Some (wrong_payload i) | Some j \<Rightarrow> validate_join j)
         | StepHumanApproval \<Rightarrow>
             (case ha of None \<Rightarrow> Some (wrong_payload i) | Some h \<Rightarrow> validate_human h)
         | StepSubflow \<Rightarrow>
             (case sf of None \<Rightarrow> Some (wrong_payload i) | Some f \<Rightarrow> validate_subflow f)
         | StepStop \<Rightarrow>
             (case stop of
                None \<Rightarrow> Some (wrong_payload i)
              | Some (StopOther s) \<Rightarrow> Some (Errorf ''stop step %q has invalid outcome'' [i])
              | Some _ \<Rightarrow> None)
         | StepKindOther s \<Rightarrow> Some (Errorf ''unknown step kind %q'' [s]))]"
| "validate_flow (Flow ss) =
     checks [fails_if (ss = []) (Error ''flow must contain at least one step''), first_err validate_step ss]"

section \<open>Nested flows and the traversal\<close>

datatype child = CThen | CElse | CCase nat | CDefault | CBranch nat

text \<open>The flows nested in a step, in the order in which every pass looks at them.\<close>

definition step_children :: "step \<Rightarrow> (child \<times> flow) list" where
  "step_children st =
     (case st_if st of
        None \<Rightarrow> []
      | Some (IfStep c t e) \<Rightarrow> (CThen, t) # (case e of None \<Rightarrow> [] | Some f \<Rightarrow> [(CElse, f)])) @
     (case st_switch st of
        None \<Rightarrow> []
      | Some (SwitchStep cs d) \<Rightarrow>
          map (\<lambda>(j, c). (CCase j, sc_flow c)) (enumerate 0 cs) @
          (case d of None \<Rightarrow> [] | Some f \<Rightarrow> [(CDefault, f)])) @
     (case st_parallel st of
        None \<Rightarrow> []
      | Some (ParallelStep bs) \<Rightarrow> map (\<lambda>(j, b). (CBranch j, b)) (enumerate 0 bs))"

record ('p, 's) walker =
  at_step :: "'p \<Rightarrow> nat \<Rightarrow> step \<Rightarrow> 'p"
  at_child :: "'p \<Rightarrow> child \<Rightarrow> 'p"
  descend :: "step \<Rightarrow> child \<Rightarrow> bool"
  visit :: "'p \<Rightarrow> step \<Rightarrow> 's \<Rightarrow> 's"
  enter :: "'p \<Rightarrow> step \<Rightarrow> child \<Rightarrow> 's \<Rightarrow> 's"

lemma enumerate_member: "(i, x) \<in> set (enumerate n xs) \<Longrightarrow> x \<in> set xs"
  by (induction xs arbitrary: n) auto

lemma size_list_member: "x \<in> set xs \<Longrightarrow> f x < Suc (size_list f xs)"
  by (induction xs) auto

lemma if_children_smaller:
  "st_if st = Some (IfStep c t e) \<Longrightarrow> size t < size st \<and> (\<forall>f. e = Some f \<longrightarrow> size f < size st)"
  by (cases st) auto

lemma case_smaller: "x \<in> set cs \<Longrightarrow> size (sc_flow x) < Suc (size_list size cs)"
  using size_list_member [of x cs size] by (cases x) simp

lemma switch_children_smaller:
  "st_switch st = Some (SwitchStep cs d) \<Longrightarrow>
   (\<forall>x \<in> set cs. size (sc_flow x) < size st) \<and> (\<forall>f. d = Some f \<longrightarrow> size f < size st)"
  by (cases st) (auto dest!: case_smaller)

lemma parallel_children_smaller:
  "st_parallel st = Some (ParallelStep bs) \<Longrightarrow> f \<in> set bs \<Longrightarrow> size f < size st"
  using size_list_member [of f bs size] by (cases st) auto

lemma step_children_smaller: "(c, f) \<in> set (step_children st) \<Longrightarrow> size f < size st"
  by (auto simp: step_children_def split: option.splits if_step.splits switch_step.splits
      parallel_step.splits dest!: enumerate_member
      dest: if_children_smaller [OF sym] switch_children_smaller [OF sym] parallel_children_smaller [OF sym])

function walk_flow :: "('p, 's, 'z) walker_scheme \<Rightarrow> 'p \<Rightarrow> flow \<Rightarrow> 's \<Rightarrow> 's" where
  "walk_flow w p (Flow ss) s =
     fold
       (\<lambda>(i, st) s.
          fold (\<lambda>(c, f) s. walk_flow w (at_child w (at_step w p i st) c) f (enter w (at_step w p i st) st c s))
            (filter (\<lambda>(c, f). descend w st c) (step_children st)) (visit w (at_step w p i st) st s))
       (enumerate 0 ss) s"
  by pat_completeness auto
termination
  apply (relation "measure (\<lambda>(w, p, f, s). size f)")
   apply simp
  apply (clarsimp dest!: enumerate_member)
  apply (drule step_children_smaller)
  apply (drule size_list_member [where f = size])
  apply simp
  done

declare walk_flow.simps [simp del]

text \<open>
  What a walker does, as a list of events in the order of execution, and the steps it visits.
  A pass is a fold over its events, so invariants of a pass are invariants of its visits.
\<close>

datatype 'p event = Visit 'p step | Enter 'p step child

fun run_event :: "('p, 's, 'z) walker_scheme \<Rightarrow> 'p event \<Rightarrow> 's \<Rightarrow> 's" where
  "run_event w (Visit q st) = visit w q st"
| "run_event w (Enter q st c) = enter w q st c"

function flow_events :: "('p, 's, 'z) walker_scheme \<Rightarrow> 'p \<Rightarrow> flow \<Rightarrow> 'p event list" where
  "flow_events w p (Flow ss) =
     concat (map
       (\<lambda>(i, st).
          Visit (at_step w p i st) st #
          concat (map
            (\<lambda>(c, f). Enter (at_step w p i st) st c # flow_events w (at_child w (at_step w p i st) c) f)
            (filter (\<lambda>(c, f). descend w st c) (step_children st))))
       (enumerate 0 ss))"
  by pat_completeness auto
termination
  apply (relation "measure (\<lambda>(w, p, f). size f)")
   apply simp
  apply (clarsimp dest!: enumerate_member)
  apply (drule step_children_smaller)
  apply (drule size_list_member [where f = size])
  apply simp
  done

declare flow_events.simps [simp del]

lemma fold_concat_map: "fold g (concat (map h xs)) s = fold (\<lambda>x. fold g (h x)) xs s"
  by (induction xs arbitrary: s) auto

lemma fold_eqI: "(\<And>x s. x \<in> set xs \<Longrightarrow> g x s = h x s) \<Longrightarrow> fold g xs s = fold h xs s"
  by (induction xs arbitrary: s) auto

lemma walk_flow_events: "walk_flow w p f s = fold (run_event w) (flow_events w p f) s"
proof (induction w p f arbitrary: s rule: flow_events.induct)
  case (1 w p ss)
  show ?case
    unfolding walk_flow.simps flow_events.simps fold_concat_map
    by (intro fold_eqI) (auto simp: fold_concat_map intro!: fold_eqI simp: "1.IH" [OF _ refl _ refl])
qed

function steps_under :: "(step \<Rightarrow> child \<Rightarrow> bool) \<Rightarrow> flow \<Rightarrow> step list" where
  "steps_under d (Flow ss) =
     concat (map
       (\<lambda>st. st # concat (map (\<lambda>(c, f). steps_under d f) (filter (\<lambda>(c, f). d st c) (step_children st))))
       ss)"
  by pat_completeness auto
termination
  apply (relation "measure (\<lambda>(d, f). size f)")
   apply simp
  apply clarsimp
  apply (drule step_children_smaller)
  apply (drule size_list_member [where f = size])
  apply simp
  done

declare steps_under.simps [simp del]

abbreviation all_steps :: "flow \<Rightarrow> step list" where
  "all_steps \<equiv> steps_under (\<lambda>_ _. True)"

fun event_step :: "'p event \<Rightarrow> step list" where
  "event_step (Visit q st) = [st]"
| "event_step (Enter q st c) = []"

lemma concat_map_concat: "concat (map g (concat xss)) = concat (map (\<lambda>xs. concat (map g xs)) xss)"
  by (induction xss) auto

lemma map_enumerate: "map (\<lambda>(i, x). g x) (enumerate n xs) = map g xs"
  by (induction xs arbitrary: n) auto

lemma events_steps:
  "concat (map event_step (flow_events w p f)) = steps_under (descend w) f"
proof (induction w p f rule: flow_events.induct)
  case (1 w p ss)
  have "concat (map event_step (concat (map
            (\<lambda>(c, f). Enter (at_step w p i st) st c # flow_events w (at_child w (at_step w p i st) c) f)
            (filter (\<lambda>(c, f). descend w st c) (step_children st))))) =
        concat (map (\<lambda>(c, f). steps_under (descend w) f)
            (filter (\<lambda>(c, f). descend w st c) (step_children st)))"
    if "(i, st) \<in> set (enumerate 0 ss)" for i st
    unfolding concat_map_concat using "1.IH" [OF that refl]
    by (auto intro!: arg_cong [where f = concat] simp: comp_def)
  then have "map (\<lambda>x. concat (map event_step (case x of (i, st) \<Rightarrow>
          Visit (at_step w p i st) st #
          concat (map
            (\<lambda>(c, f). Enter (at_step w p i st) st c # flow_events w (at_child w (at_step w p i st) c) f)
            (filter (\<lambda>(c, f). descend w st c) (step_children st)))))) (enumerate 0 ss) =
      map (\<lambda>(i, st). st # concat (map (\<lambda>(c, f). steps_under (descend w) f)
            (filter (\<lambda>(c, f). descend w st c) (step_children st)))) (enumerate 0 ss)"
    by auto
  then show ?case
    unfolding flow_events.simps steps_under.simps concat_map_concat
    by (simp add: comp_def map_enumerate)
qed

lemma visited_step: "(\<exists>q. Visit q st \<in> set (flow_events w p f)) \<longleftrightarrow> st \<in> set (steps_under (descend w) f)"
proof -
  have "st \<in> set (event_step e) \<longleftrightarrow> (\<exists>q. e = Visit q st)" for e :: "'a event"
    by (cases e) auto
  then show ?thesis by (auto simp flip: events_steps [of w p f])
qed

lemma walk_invariant:
  "(\<And>e s. e \<in> set (flow_events w p f) \<Longrightarrow> P s \<Longrightarrow> P (run_event w e s)) \<Longrightarrow> P s \<Longrightarrow> P (walk_flow w p f s)"
  unfolding walk_flow_events by (rule fold_invariant [where Q = "\<lambda>e. e \<in> set (flow_events w p f)"]) auto

lemma walk_append:
  assumes "\<And>e s. run_event w e s = s @ out e"
  shows "walk_flow w p f s = s @ concat (map out (flow_events w p f))"
proof -
  have "fold (run_event w) es s = s @ concat (map out es)" for es
    using assms by (induction es arbitrary: s) auto
  then show ?thesis by (simp add: walk_flow_events)
qed

text \<open>A pass that stops at the first error succeeds if every event does.\<close>

lemma walk_first_err:
  assumes "\<And>e s. run_event w e s = (case s of Some x \<Rightarrow> Some x | None \<Rightarrow> out e)"
  shows "walk_flow w p f s = (case s of Some x \<Rightarrow> Some x | None \<Rightarrow> first_err out (flow_events w p f))"
proof -
  have "fold (run_event w) es s = (case s of Some x \<Rightarrow> Some x | None \<Rightarrow> first_err out es)" for es
    by (induction es arbitrary: s) (simp_all add: assms split: option.splits)
  then show ?thesis by (simp add: walk_flow_events)
qed

text \<open>The texts of the paths that the passes report.\<close>

definition path_step :: "string \<Rightarrow> nat \<Rightarrow> step \<Rightarrow> string" where
  "path_step p i st = p @ ''.steps['' @ show_nat i @ '']''"

fun path_child :: "string \<Rightarrow> child \<Rightarrow> string" where
  "path_child q CThen = q @ ''.if.then''"
| "path_child q CElse = q @ ''.if.else''"
| "path_child q (CCase j) = q @ ''.switch.cases['' @ show_nat j @ ''].flow''"
| "path_child q CDefault = q @ ''.switch.default''"
| "path_child q (CBranch j) = q @ ''.parallel.branches['' @ show_nat j @ '']''"

abbreviation path_walker ::
    "(step \<Rightarrow> child \<Rightarrow> bool) \<Rightarrow> (string \<Rightarrow> step \<Rightarrow> 's \<Rightarrow> 's) \<Rightarrow> (string \<Rightarrow> step \<Rightarrow> child \<Rightarrow> 's \<Rightarrow> 's) \<Rightarrow>
     (string, 's) walker" where
  "path_walker d v e \<equiv>
     \<lparr> at_step = path_step, at_child = path_child, descend = d, visit = v, enter = e \<rparr>"

section \<open>Step identifiers\<close>

definition note_id :: "string \<Rightarrow> go_error + string list \<Rightarrow> go_error + string list" where
  "note_id i s =
     sum_bind s (\<lambda>seen. guarded (fails_if (i \<in> set seen) (Errorf ''duplicate step id %q'' [i])) (i # seen))"

definition collectFlowStepIDs :: "flow \<Rightarrow> string list \<Rightarrow> go_error + string list" where
  "collectFlowStepIDs f seen =
     walk_flow
       (path_walker (\<lambda>_ _. True) (\<lambda>_ st. note_id (step_id st)) (\<lambda>_ _ _ s. s)) [] f (Inr seen)"

lemma fold_note_Inl: "fold note_id is (Inl e) = Inl e"
  by (induction "is") (simp_all add: note_id_def)

lemma fold_note_id:
  "fold note_id is (Inr seen) = Inr seen' \<longleftrightarrow>
     distinct is \<and> set is \<inter> set seen = {} \<and> seen' = rev is @ seen"
  by (induction "is" arbitrary: seen)
    (auto simp: note_id_def guarded_def fails_if_def fold_note_Inl)

lemma walk_ids:
  "walk_flow (path_walker d (\<lambda>_ st. note_id (step_id st)) (\<lambda>_ _ _ s. s)) p f s =
     fold note_id (map step_id (steps_under d f)) s"
proof -
  let ?w = "path_walker d (\<lambda>_ st. note_id (step_id st)) (\<lambda>_ _ _ s. s)"
  have "fold (run_event ?w) es s = fold note_id (map step_id (concat (map event_step es))) s" for es
  proof (induction es arbitrary: s)
    case (Cons e es)
    then show ?case by (cases e) simp_all
  qed simp
  then show ?thesis using events_steps [of ?w p f] by (simp add: walk_flow_events)
qed

lemma collect_ids:
  "collectFlowStepIDs f seen = Inr seen' \<longleftrightarrow>
     distinct (map step_id (all_steps f)) \<and> set (map step_id (all_steps f)) \<inter> set seen = {} \<and>
     seen' = rev (map step_id (all_steps f)) @ seen"
  by (simp only: collectFlowStepIDs_def walk_ids fold_note_id)

section \<open>Static types of a flow\<close>

definition requireBool :: "type_env \<Rightarrow> expr \<Rightarrow> go_error option" where
  "requireBool env e = needs_bool (check_expr env e)"

definition check_arguments :: "type_env \<Rightarrow> arguments \<Rightarrow> go_error option" where
  "check_arguments env args =
     first_err (\<lambda>(_, e). case check_expr env e of Inl err \<Rightarrow> Some err | Inr _ \<Rightarrow> None) args"

definition or_else :: "go_error option \<Rightarrow> go_error option \<Rightarrow> go_error option" where
  "or_else s r = (case s of Some x \<Rightarrow> Some x | None \<Rightarrow> r)"

definition check_step_arguments :: "type_env \<Rightarrow> step \<Rightarrow> go_error option" where
  "check_step_arguments env st =
     checks
       [(case st_action st of None \<Rightarrow> None | Some a \<Rightarrow> check_arguments env (ac_arguments a)),
        (case st_subflow st of None \<Rightarrow> None | Some f \<Rightarrow> check_arguments env (sf_arguments f))]"

definition child_condition :: "step \<Rightarrow> child \<Rightarrow> expr option" where
  "child_condition st c =
     (case c of
        CThen \<Rightarrow> map_option if_condition (st_if st)
      | CCase j \<Rightarrow>
          (case st_switch st of
             None \<Rightarrow> None
           | Some s \<Rightarrow> if j < length (sw_cases s) then Some (sc_when (sw_cases s ! j)) else None)
      | _ \<Rightarrow> None)"

definition check_child :: "type_env \<Rightarrow> step \<Rightarrow> child \<Rightarrow> go_error option" where
  "check_child env st c = (case child_condition st c of None \<Rightarrow> None | Some e \<Rightarrow> requireBool env e)"

definition validateFlowTypes :: "string \<Rightarrow> flow \<Rightarrow> type_env \<Rightarrow> go_error option" where
  "validateFlowTypes path f env =
     walk_flow
       (path_walker (\<lambda>_ _. True) (\<lambda>_ st s. or_else s (check_step_arguments env st))
         (\<lambda>_ st c s. or_else s (check_child env st c))) path f None"

section \<open>Normal form\<close>

text \<open>\<open>normalizeExprMap\<close> and \<open>normalizeValues\<close>, which differ in what they do with an entry.\<close>

fun normalize_map ::
    "string \<Rightarrow> ('a \<Rightarrow> go_error + 'b) \<Rightarrow> (string \<times> 'b) list \<Rightarrow> (string \<times> 'a) list \<Rightarrow>
     go_error + (string \<times> 'b) list" where
  "normalize_map label g acc [] = Inr (rev acc)"
| "normalize_map label g acc ((k, x) # rest) =
     (case checks
        [validate_token label (TrimSpace k),
         fails_if (TrimSpace k \<in> fst ` set acc) (Errorf ''duplicate normalized key %q'' [TrimSpace k])] of
        Some e \<Rightarrow> Inl e
      | None \<Rightarrow> sum_bind (g x) (\<lambda>y. normalize_map label g ((TrimSpace k, y) # acc) rest))"

definition normalize_args :: "(expr \<Rightarrow> string) \<Rightarrow> arguments \<Rightarrow> go_error + arguments" where
  "normalize_args enc = normalize_map ''argument key'' (normalize_expr enc) []"

definition normalize_action ::
    "(expr \<Rightarrow> string) \<Rightarrow> action_step option \<Rightarrow> go_error + action_step option" where
  "normalize_action enc ac =
     (case ac of
        None \<Rightarrow> Inr None
      | Some a \<Rightarrow>
          sum_bind (normalize_args enc (ac_arguments a)) (\<lambda>args.
            Inr (Some (ActionStep (normalize_capability (ac_capability a)) args (ac_retry a)))))"

definition normalize_human :: "human_approval_step \<Rightarrow> human_approval_step" where
  "normalize_human h = HumanApprovalStep (ha_risk h) (TrimSpace (ha_prompt h)) (ha_timeout h)"

definition normalize_subflow ::
    "(expr \<Rightarrow> string) \<Rightarrow> subflow_step option \<Rightarrow> go_error + subflow_step option" where
  "normalize_subflow enc sf =
     (case sf of
        None \<Rightarrow> Inr None
      | Some f \<Rightarrow>
          sum_bind (normalize_args enc (sf_arguments f)) (\<lambda>args.
            Inr (Some (SubflowStep (TrimSpace (sf_scenario f)) (sf_version f) args))))"

text \<open>The payloads that hold flows, for a function \<open>nf\<close> that normalises these.\<close>

abbreviation norm_option :: "(flow \<Rightarrow> go_error + flow) \<Rightarrow> flow option \<Rightarrow> go_error + flow option" where
  "norm_option nf d \<equiv> (case d of None \<Rightarrow> Inr None | Some f \<Rightarrow> map_sum id Some (nf f))"

abbreviation norm_if ::
    "(expr \<Rightarrow> string) \<Rightarrow> (flow \<Rightarrow> go_error + flow) \<Rightarrow> if_step option \<Rightarrow> go_error + if_step option" where
  "norm_if enc nf x \<equiv>
     (case x of
        None \<Rightarrow> Inr None
      | Some (IfStep c t e) \<Rightarrow>
          sum_bind (normalize_expr enc c) (\<lambda>c'.
          sum_bind (nf t) (\<lambda>t'.
          sum_bind (norm_option nf e) (\<lambda>e'. Inr (Some (IfStep c' t' e'))))))"

abbreviation norm_case ::
    "(expr \<Rightarrow> string) \<Rightarrow> (flow \<Rightarrow> go_error + flow) \<Rightarrow> switch_case \<Rightarrow> go_error + switch_case" where
  "norm_case enc nf c \<equiv>
     (case c of SwitchCase w f \<Rightarrow>
        sum_bind (normalize_expr enc w) (\<lambda>w'.
        sum_bind (nf f) (\<lambda>f'. Inr (SwitchCase w' f'))))"

abbreviation norm_switch ::
    "(expr \<Rightarrow> string) \<Rightarrow> (flow \<Rightarrow> go_error + flow) \<Rightarrow> switch_step option \<Rightarrow>
     go_error + switch_step option" where
  "norm_switch enc nf x \<equiv>
     (case x of
        None \<Rightarrow> Inr None
      | Some (SwitchStep cs d) \<Rightarrow>
          sum_bind (traverse (\<lambda>c. norm_case enc nf c) cs) (\<lambda>cs'.
          sum_bind (norm_option nf d) (\<lambda>d'. Inr (Some (SwitchStep cs' d')))))"

abbreviation norm_parallel ::
    "(flow \<Rightarrow> go_error + flow) \<Rightarrow> parallel_step option \<Rightarrow> go_error + parallel_step option" where
  "norm_parallel nf x \<equiv>
     (case x of
        None \<Rightarrow> Inr None
      | Some (ParallelStep bs) \<Rightarrow> sum_bind (traverse nf bs) (\<lambda>bs'. Inr (Some (ParallelStep bs'))))"

fun normalize_step :: "(expr \<Rightarrow> string) \<Rightarrow> step \<Rightarrow> go_error + step" and
  normalize_flow :: "(expr \<Rightarrow> string) \<Rightarrow> flow \<Rightarrow> go_error + flow" where
  "normalize_step enc (Step i k ac wt cond sw par jn ha sf stop) =
     sum_bind (normalize_action enc ac) (\<lambda>ac'.
     sum_bind (norm_if enc (normalize_flow enc) cond) (\<lambda>cond'.
     sum_bind (norm_switch enc (normalize_flow enc) sw) (\<lambda>sw'.
     sum_bind (norm_parallel (normalize_flow enc) par) (\<lambda>par'.
     sum_bind (normalize_subflow enc sf) (\<lambda>sf'.
       after_validate validate_step
         (Step (TrimSpace i) k ac' wt cond' sw' par' jn (map_option normalize_human ha) sf' stop))))))"
| "normalize_flow enc (Flow ss) =
     sum_bind (traverse (normalize_step enc) ss) (\<lambda>ss'. after_validate validate_flow (Flow ss'))"

declare normalize_step.simps [simp del] normalize_flow.simps [simp del]
  validate_step.simps [simp del] validate_flow.simps [simp del]

lemma normalize_step_valid: "normalize_step enc st = Inr n \<Longrightarrow> validate_step n = None"
  by (cases st) (auto simp: normalize_step.simps)

lemma normalize_flow_valid: "normalize_flow enc f = Inr n \<Longrightarrow> validate_flow n = None"
  by (cases f) (auto simp: normalize_flow.simps)

lemma normalize_step_id: "normalize_step enc st = Inr n \<Longrightarrow> step_id n = TrimSpace (step_id st)"
  by (cases st) (auto simp: normalize_step.simps)

section \<open>What validation guarantees\<close>

text \<open>A valid step has exactly the payload that its kind names.\<close>

lemma present_simps [simp]: "present None = 0" "present (Some x) = 1"
  by (simp_all add: present_def)

lemma present_0 [simp]: "present x = 0 \<longleftrightarrow> x = None"
  by (cases x) simp_all

lemma validated_shape:
  assumes "validate_step st = None"
  shows "st_action st \<noteq> None \<longleftrightarrow> st_kind st = StepAction"
    and "st_wait st \<noteq> None \<longleftrightarrow> st_kind st = StepWait"
    and "st_if st \<noteq> None \<longleftrightarrow> st_kind st = StepIf"
    and "st_switch st \<noteq> None \<longleftrightarrow> st_kind st = StepSwitch"
    and "st_parallel st \<noteq> None \<longleftrightarrow> st_kind st = StepParallel"
    and "st_join st \<noteq> None \<longleftrightarrow> st_kind st = StepJoin"
    and "st_human st \<noteq> None \<longleftrightarrow> st_kind st = StepHumanApproval"
    and "st_subflow st \<noteq> None \<longleftrightarrow> st_kind st = StepSubflow"
    and "st_stop st \<noteq> None \<longleftrightarrow> st_kind st = StepStop"
proof -
  obtain i k ac wt cond sw par jn ha sf stop where st: "st = Step i k ac wt cond sw par jn ha sf stop"
    by (cases st)
  have "payload_count st = 1" using assms by (simp add: st validate_step.simps checks_None)
  then have one: "present ac + present wt + present cond + present sw + present par + present jn +
      present ha + present sf + present stop = 1"
    by (simp add: st payload_count_def)
  have k: "case k of StepAction \<Rightarrow> ac \<noteq> None | StepWait \<Rightarrow> wt \<noteq> None | StepIf \<Rightarrow> cond \<noteq> None
      | StepSwitch \<Rightarrow> sw \<noteq> None | StepParallel \<Rightarrow> par \<noteq> None | StepJoin \<Rightarrow> jn \<noteq> None
      | StepHumanApproval \<Rightarrow> ha \<noteq> None | StepSubflow \<Rightarrow> sf \<noteq> None | StepStop \<Rightarrow> stop \<noteq> None
      | StepKindOther s \<Rightarrow> False"
    using assms by (auto simp: st validate_step.simps checks_None split: step_kind.splits option.splits)
  show "st_action st \<noteq> None \<longleftrightarrow> st_kind st = StepAction"
    and "st_wait st \<noteq> None \<longleftrightarrow> st_kind st = StepWait"
    and "st_if st \<noteq> None \<longleftrightarrow> st_kind st = StepIf"
    and "st_switch st \<noteq> None \<longleftrightarrow> st_kind st = StepSwitch"
    and "st_parallel st \<noteq> None \<longleftrightarrow> st_kind st = StepParallel"
    and "st_join st \<noteq> None \<longleftrightarrow> st_kind st = StepJoin"
    and "st_human st \<noteq> None \<longleftrightarrow> st_kind st = StepHumanApproval"
    and "st_subflow st \<noteq> None \<longleftrightarrow> st_kind st = StepSubflow"
    and "st_stop st \<noteq> None \<longleftrightarrow> st_kind st = StepStop"
    using one k by (cases k; fastforce simp: st)+
qed

lemma validated_children:
  assumes "validate_step st = None" and "(c, f) \<in> set (step_children st)"
  shows "validate_flow f = None"
proof -
  obtain i k ac wt cond sw par jn ha sf stop where st: "st = Step i k ac wt cond sw par jn ha sf stop"
    by (cases st)
  have "(\<exists>t. cond = Some t \<and> (f = if_then t \<or> if_else t = Some f)) \<or>
      (\<exists>s. sw = Some s \<and> ((\<exists>x \<in> set (sw_cases s). f = sc_flow x) \<or> sw_default s = Some f)) \<or>
      (\<exists>s. par = Some s \<and> f \<in> set (par_branches s))"
    using assms(2)
    by (auto simp: st step_children_def split: option.splits if_step.splits switch_step.splits
        parallel_step.splits dest!: enumerate_member)
  then consider
      (a) t where "cond = Some t" and "f = if_then t \<or> if_else t = Some f"
    | (b) s where "sw = Some s" and "(\<exists>x \<in> set (sw_cases s). f = sc_flow x) \<or> sw_default s = Some f"
    | (c) s where "par = Some s" and "f \<in> set (par_branches s)"
    by blast
  then show ?thesis
  proof cases
    case a
    then have "k = StepIf" using validated_shape(3) [OF assms(1)] by (simp add: st)
    with a assms(1) show ?thesis
      by (cases t) (auto simp: st validate_step.simps checks_None split: option.splits)
  next
    case b
    then have "k = StepSwitch" using validated_shape(4) [OF assms(1)] by (simp add: st)
    with b assms(1) show ?thesis
      by (cases s) (auto simp: st validate_step.simps checks_None first_err_None switch_case.case_eq_if
          split: option.splits)
  next
    case c
    then have "k = StepParallel" using validated_shape(5) [OF assms(1)] by (simp add: st)
    with c assms(1) show ?thesis
      by (cases s) (auto simp: st validate_step.simps checks_None first_err_None)
  qed
qed

lemma validated_steps:
  "validate_flow f = None \<Longrightarrow> st \<in> set (steps_under d f) \<Longrightarrow> validate_step st = None"
proof (induction d f rule: steps_under.induct)
  case (1 d ss)
  from 1(2) have "\<forall>x \<in> set ss. validate_step x = None"
    by (simp add: validate_flow.simps checks_None first_err_None)
  with 1 show ?case by (fastforce simp: steps_under.simps dest: validated_children)
qed

section \<open>The normal form is a fixed point\<close>

lemma normalize_map_Inr:
  "normalize_map label g acc xs = Inr out \<longleftrightarrow>
     (\<exists>ys. out = rev acc @ ys \<and>
       list_all2 (\<lambda>(k, x) (k', y). k' = TrimSpace k \<and> validate_token label k' = None \<and> g x = Inr y) xs ys \<and>
       distinct (map fst ys) \<and> fst ` set ys \<inter> fst ` set acc = {})"
proof (induction xs arbitrary: acc)
  case Nil
  then show ?case by auto
next
  case (Cons kx xs)
  obtain k x where kx: "kx = (k, x)" by (cases kx)
  show ?case
  proof (cases "validate_token label (TrimSpace k) = None \<and> TrimSpace k \<notin> fst ` set acc")
    case False
    then have "normalize_map label g acc (kx # xs) \<noteq> Inr out"
      by (cases "validate_token label (TrimSpace k)") (auto simp: kx fails_if_def)
    moreover from False have "\<not> (\<exists>ys. out = rev acc @ ys \<and>
       list_all2 (\<lambda>(k, x) (k', y). k' = TrimSpace k \<and> validate_token label k' = None \<and> g x = Inr y) (kx # xs) ys \<and>
       distinct (map fst ys) \<and> fst ` set ys \<inter> fst ` set acc = {})"
      by (auto simp: kx list_all2_Cons1)
    ultimately show ?thesis by blast
  next
    case True
    then have "normalize_map label g acc (kx # xs) = Inr out \<longleftrightarrow>
        (\<exists>y. g x = Inr y \<and> normalize_map label g ((TrimSpace k, y) # acc) xs = Inr out)"
      by (simp add: kx fails_if_def)
    then show ?thesis using True
      by (auto simp: Cons.IH kx list_all2_Cons1)
  qed
qed

lemma normalize_map_idem:
  assumes "normalize_map label g [] xs = Inr ys"
    and "\<And>k x y. (k, x) \<in> set xs \<Longrightarrow> g x = Inr y \<Longrightarrow> g y = Inr y"
  shows "normalize_map label g [] ys = Inr ys"
proof -
  from assms(1) have l: "list_all2 (\<lambda>(k, x) (k', y). k' = TrimSpace k \<and> validate_token label k' = None \<and> g x = Inr y) xs ys"
    and d: "distinct (map fst ys)" by (simp_all add: normalize_map_Inr)
  have "(\<lambda>(k, x) (k', y). k' = TrimSpace k \<and> validate_token label k' = None \<and> g x = Inr y) z z"
    if "z \<in> set ys" for z
  proof -
    from l that obtain x where "x \<in> set xs" "(\<lambda>(k, x) (k', y). k' = TrimSpace k \<and> validate_token label k' = None \<and> g x = Inr y) x z"
      by (fastforce simp: list_all2_conv_all_nth in_set_conv_nth)
    then show ?thesis using assms(2) by (auto split: prod.splits)
  qed
  then have "list_all2 (\<lambda>(k, x) (k', y). k' = TrimSpace k \<and> validate_token label k' = None \<and> g x = Inr y) ys ys"
    by (simp add: list_all2_same)
  with d show ?thesis by (simp add: normalize_map_Inr)
qed

definition args_no_timestamp :: "arguments \<Rightarrow> bool" where
  "args_no_timestamp args = list_all (\<lambda>(_, e). no_timestamp_expr e) args"

fun step_no_timestamp :: "step \<Rightarrow> bool" and flow_no_timestamp :: "flow \<Rightarrow> bool" where
  "step_no_timestamp (Step i k ac wt cond sw par jn ha sf stop) \<longleftrightarrow>
     (case ac of None \<Rightarrow> True | Some a \<Rightarrow> args_no_timestamp (ac_arguments a)) \<and>
     (case cond of None \<Rightarrow> True
      | Some (IfStep c t e) \<Rightarrow> no_timestamp_expr c \<and> flow_no_timestamp t \<and>
          (case e of None \<Rightarrow> True | Some f \<Rightarrow> flow_no_timestamp f)) \<and>
     (case sw of None \<Rightarrow> True
      | Some (SwitchStep cs d) \<Rightarrow>
          list_all (\<lambda>c. case c of SwitchCase w f \<Rightarrow> no_timestamp_expr w \<and> flow_no_timestamp f) cs \<and>
          (case d of None \<Rightarrow> True | Some f \<Rightarrow> flow_no_timestamp f)) \<and>
     (case par of None \<Rightarrow> True | Some (ParallelStep bs) \<Rightarrow> list_all flow_no_timestamp bs) \<and>
     (case sf of None \<Rightarrow> True | Some f \<Rightarrow> args_no_timestamp (sf_arguments f))"
| "flow_no_timestamp (Flow ss) \<longleftrightarrow> list_all step_no_timestamp ss"

lemma normalize_args_idem:
  "normalize_args enc xs = Inr ys \<Longrightarrow> args_no_timestamp xs \<Longrightarrow> normalize_args enc ys = Inr ys"
  unfolding normalize_args_def
  by (rule normalize_map_idem)
    (auto simp: args_no_timestamp_def list_all_iff intro: normalize_expr_idem)

lemma normalize_capability_idem [simp]:
  "normalize_capability (normalize_capability c) = normalize_capability c"
  by (cases "cr_entity c") (simp_all add: normalize_capability_def)

lemma normalize_human_idem [simp]: "normalize_human (normalize_human h) = normalize_human h"
  by (simp add: normalize_human_def)

lemma normalize_action_idem:
  "normalize_action enc ac = Inr ac' \<Longrightarrow> (case ac of None \<Rightarrow> True | Some a \<Rightarrow> args_no_timestamp (ac_arguments a)) \<Longrightarrow>
   normalize_action enc ac' = Inr ac'"
  by (auto simp: normalize_action_def normalize_args_idem split: option.splits)

lemma normalize_subflow_idem:
  "normalize_subflow enc sf = Inr sf' \<Longrightarrow> (case sf of None \<Rightarrow> True | Some f \<Rightarrow> args_no_timestamp (sf_arguments f)) \<Longrightarrow>
   normalize_subflow enc sf' = Inr sf'"
  by (auto simp: normalize_subflow_def normalize_args_idem split: option.splits)

text \<open>The four payloads with flows, under the hypothesis that \<open>nf\<close> gives fixed points.\<close>

definition fixes_flow :: "(flow \<Rightarrow> go_error + flow) \<Rightarrow> flow \<Rightarrow> bool" where
  "fixes_flow nf f \<longleftrightarrow> (\<forall>fn. nf f = Inr fn \<longrightarrow> nf fn = Inr fn)"

lemma fixes_flowD: "fixes_flow nf f \<Longrightarrow> nf f = Inr fn \<Longrightarrow> nf fn = Inr fn"
  by (simp add: fixes_flow_def)

lemma norm_option_fixed:
  "norm_option nf d = Inr d' \<Longrightarrow> (\<And>f. d = Some f \<Longrightarrow> fixes_flow nf f) \<Longrightarrow> norm_option nf d' = Inr d'"
  by (auto simp: map_sum_def split: option.splits sum.splits dest: fixes_flowD)

lemma norm_if_fixed:
  assumes "norm_if enc nf x = Inr x'"
    and "\<And>c t e. x = Some (IfStep c t e) \<Longrightarrow>
      no_timestamp_expr c \<and> fixes_flow nf t \<and> (\<forall>f. e = Some f \<longrightarrow> fixes_flow nf f)"
  shows "norm_if enc nf x' = Inr x'"
proof (cases x)
  case None
  with assms(1) show ?thesis by simp
next
  case (Some y)
  obtain c t e where y: "y = IfStep c t e" by (cases y)
  note nt = assms(2) [OF Some [unfolded y]]
  from assms(1) Some y obtain c' t' e' where e: "normalize_expr enc c = Inr c'" "nf t = Inr t'"
    "norm_option nf e = Inr e'" and x': "x' = Some (IfStep c' t' e')" by auto
  have "norm_option nf e' = Inr e'" by (rule norm_option_fixed [OF e(3)]) (use nt in simp)
  moreover have "normalize_expr enc c' = Inr c'" by (rule normalize_expr_idem [OF e(1)]) (use nt in blast)
  moreover have "nf t' = Inr t'" using nt e(2) by (blast dest: fixes_flowD)
  ultimately show ?thesis by (simp add: x')
qed

lemma norm_case_fixed:
  assumes "norm_case enc nf z = Inr y" and "no_timestamp_expr (sc_when z)" and "fixes_flow nf (sc_flow z)"
  shows "norm_case enc nf y = Inr y"
proof (cases z)
  case (SwitchCase w f)
  with assms show ?thesis by (auto intro: normalize_expr_idem dest: fixes_flowD)
qed

lemma norm_switch_fixed:
  assumes "norm_switch enc nf x = Inr x'"
    and "\<And>cs d. x = Some (SwitchStep cs d) \<Longrightarrow>
      (\<forall>c \<in> set cs. no_timestamp_expr (sc_when c) \<and> fixes_flow nf (sc_flow c)) \<and>
      (\<forall>f. d = Some f \<longrightarrow> fixes_flow nf f)"
  shows "norm_switch enc nf x' = Inr x'"
proof (cases x)
  case None
  with assms(1) show ?thesis by simp
next
  case (Some y)
  obtain cs d where y: "y = SwitchStep cs d" by (cases y)
  note nt = assms(2) [OF Some [unfolded y]]
  from assms(1) Some y obtain cs' d' where e: "traverse (\<lambda>c. norm_case enc nf c) cs = Inr cs'"
    "norm_option nf d = Inr d'" and x': "x' = Some (SwitchStep cs' d')" by auto
  have "norm_option nf d' = Inr d'" by (rule norm_option_fixed [OF e(2)]) (use nt in simp)
  moreover have "traverse (\<lambda>c. norm_case enc nf c) cs' = Inr cs'"
  proof (rule traverse_fixed)
    fix y assume "y \<in> set cs'"
    with traverse_set [OF e(1)] obtain z where "z \<in> set cs" "norm_case enc nf z = Inr y" by blast
    with nt show "norm_case enc nf y = Inr y" by (intro norm_case_fixed) auto
  qed
  ultimately show ?thesis by (simp add: x')
qed

lemma norm_parallel_fixed:
  assumes "norm_parallel nf x = Inr x'" and "\<And>bs. x = Some (ParallelStep bs) \<Longrightarrow> \<forall>b \<in> set bs. fixes_flow nf b"
  shows "norm_parallel nf x' = Inr x'"
proof (cases x)
  case None
  with assms(1) show ?thesis by simp
next
  case (Some y)
  obtain bs where y: "y = ParallelStep bs" by (cases y)
  from assms(1) Some y obtain bs' where e: "traverse nf bs = Inr bs'"
    and x': "x' = Some (ParallelStep bs')" by auto
  have "nf b = Inr b" if "b \<in> set bs'" for b
    using traverse_set [OF e that] assms(2) [OF Some [unfolded y]] by (blast dest: fixes_flowD)
  then have "traverse nf bs' = Inr bs'" by (rule traverse_fixed)
  then show ?thesis by (simp add: x')
qed

lemma normalize_step_idem:
  "normalize_step enc st = Inr sn \<Longrightarrow> step_no_timestamp st \<Longrightarrow> normalize_step enc sn = Inr sn"
  and normalize_flow_idem:
  "normalize_flow enc f = Inr fn \<Longrightarrow> flow_no_timestamp f \<Longrightarrow> normalize_flow enc fn = Inr fn"
proof (induction enc st and enc f arbitrary: sn and fn rule: normalize_step_normalize_flow.induct)
  case (1 enc i k ac wt cond sw par jn ha sf stop)
  note nt = "1.prems"(2) [unfolded step_no_timestamp.simps]
  from "1.prems"(1) obtain ac' cond' sw' par' sf' where
    ac: "normalize_action enc ac = Inr ac'" and cond: "norm_if enc (normalize_flow enc) cond = Inr cond'" and
    sw: "norm_switch enc (normalize_flow enc) sw = Inr sw'" and
    par: "norm_parallel (normalize_flow enc) par = Inr par'" and
    sf: "normalize_subflow enc sf = Inr sf'" and
    sn: "sn = Step (TrimSpace i) k ac' wt cond' sw' par' jn (map_option normalize_human ha) sf' stop" and
    valid: "validate_step sn = None"
    by (auto simp: normalize_step.simps)
  have "norm_if enc (normalize_flow enc) cond' = Inr cond'"
  proof (rule norm_if_fixed [OF cond])
    fix c t e assume x: "cond = Some (IfStep c t e)"
    then have "no_timestamp_expr c" "flow_no_timestamp t" "\<forall>f. e = Some f \<longrightarrow> flow_no_timestamp f"
      using nt by auto
    then show "no_timestamp_expr c \<and> fixes_flow (normalize_flow enc) t \<and>
        (\<forall>f. e = Some f \<longrightarrow> fixes_flow (normalize_flow enc) f)"
      using "1.IH"(1) [OF x refl] "1.IH"(2) [OF x refl] unfolding fixes_flow_def by blast
  qed
  moreover have "norm_switch enc (normalize_flow enc) sw' = Inr sw'"
  proof (rule norm_switch_fixed [OF sw], intro conjI ballI)
    fix cs d c assume x: "sw = Some (SwitchStep cs d)" and c: "c \<in> set cs"
    then have "no_timestamp_expr (sc_when c)" "flow_no_timestamp (sc_flow c)"
      using nt by (auto simp: list_all_iff switch_case.case_eq_if)
    then show "no_timestamp_expr (sc_when c)" "fixes_flow (normalize_flow enc) (sc_flow c)"
      using "1.IH"(3) [OF x refl c switch_case.collapse [symmetric]] unfolding fixes_flow_def by blast+
  next
    fix cs d assume x: "sw = Some (SwitchStep cs d)"
    then have "\<forall>f. d = Some f \<longrightarrow> flow_no_timestamp f" using nt by auto
    then show "\<forall>f. d = Some f \<longrightarrow> fixes_flow (normalize_flow enc) f"
      using "1.IH"(4) [OF x refl] unfolding fixes_flow_def by blast
  qed
  moreover have "norm_parallel (normalize_flow enc) par' = Inr par'"
  proof (rule norm_parallel_fixed [OF par], intro ballI)
    fix bs b assume x: "par = Some (ParallelStep bs)" and b: "b \<in> set bs"
    then have "flow_no_timestamp b" using nt by (auto simp: list_all_iff)
    then show "fixes_flow (normalize_flow enc) b"
      using "1.IH"(5) [OF x refl b] unfolding fixes_flow_def by blast
  qed
  moreover have "normalize_action enc ac' = Inr ac'" "normalize_subflow enc sf' = Inr sf'"
    using nt by (auto intro: normalize_action_idem [OF ac] normalize_subflow_idem [OF sf])
  moreover have "map_option normalize_human (map_option normalize_human ha) = map_option normalize_human ha"
    by (cases ha) simp_all
  ultimately show ?case
    using valid by (simp add: sn normalize_step.simps)
next
  case (2 enc ss)
  from "2.prems"(1) obtain ss' where ss': "traverse (normalize_step enc) ss = Inr ss'"
    and fn: "fn = Flow ss'" and v: "validate_flow (Flow ss') = None"
    by (auto simp: normalize_flow.simps)
  have "normalize_step enc y = Inr y" if "y \<in> set ss'" for y
    using traverse_set [OF ss' that] "2.IH" "2.prems"(2) by (auto simp: list_all_iff)
  then have "traverse (normalize_step enc) ss' = Inr ss'" by (rule traverse_fixed)
  with v fn show ?case by (simp add: normalize_flow.simps)
qed

section \<open>Properties\<close>

text \<open>
  In a flow that is accepted every step, however deep it is nested, carries exactly one
  payload, and it is the one its kind names: the passes may dereference it.
\<close>

theorem accepted_payloads:
  assumes "validate_flow f = None" and "st \<in> set (all_steps f)"
  shows "payload_count st = 1 \<and>
    (st_action st \<noteq> None \<longleftrightarrow> st_kind st = StepAction) \<and> (st_wait st \<noteq> None \<longleftrightarrow> st_kind st = StepWait) \<and>
    (st_if st \<noteq> None \<longleftrightarrow> st_kind st = StepIf) \<and> (st_switch st \<noteq> None \<longleftrightarrow> st_kind st = StepSwitch) \<and>
    (st_parallel st \<noteq> None \<longleftrightarrow> st_kind st = StepParallel) \<and> (st_join st \<noteq> None \<longleftrightarrow> st_kind st = StepJoin) \<and>
    (st_human st \<noteq> None \<longleftrightarrow> st_kind st = StepHumanApproval) \<and>
    (st_subflow st \<noteq> None \<longleftrightarrow> st_kind st = StepSubflow) \<and> (st_stop st \<noteq> None \<longleftrightarrow> st_kind st = StepStop)"
proof -
  have v: "validate_step st = None" using assms by (rule validated_steps)
  then have "payload_count st = 1" by (cases st) (simp add: validate_step.simps checks_None)
  with validated_shape [OF v] show ?thesis by blast
qed

definition stop_flow :: flow where
  "stop_flow = Flow [Step ''halt'' StepStop None None None None None None None None (Some StopCompleted)]"

definition branch_flow :: flow where
  "branch_flow =
     Flow
       [Step ''dim'' StepAction
          (Some (ActionStep (CapabilityRef ''light.dim'' ''1.0.0'' None) [(''level'', Ref ''parameter.level'')] None))
          None None None None None None None None,
        Step ''night'' StepIf None None
          (Some (IfStep (Literal (Value (plain_type TypeBool) (Some (JBool True)))) stop_flow None))
          None None None None None None]"

theorem accepted_payloads_witness:
  "payload_count (hd (flow_steps stop_flow)) = 1 \<and> st_stop (hd (flow_steps stop_flow)) \<noteq> None \<and>
   hd (flow_steps stop_flow) \<in> set (all_steps branch_flow)"
proof -
  have "validate_flow branch_flow = None" "hd (flow_steps stop_flow) \<in> set (all_steps branch_flow)"
    by code_simp+
  with accepted_payloads [OF this] show ?thesis by (simp add: stop_flow_def)
qed

end
