(* ===== verification/Scenarios.thy ===== *)
theory Scenarios
  imports Flows "HOL-Library.Multiset"
begin

text \<open>
  Scenarios, \<open>model/trigger.go\<close>, \<open>model/temporal.go\<close> (the temporal specification),
  \<open>model/metadata.go\<close>, \<open>model/scenario.go\<close>, \<open>model/validate.go\<close>, \<open>model/typecheck.go\<close> and
  \<open>model/normalize.go\<close>.

  \<open>tz\<close> tells which names \<open>time.LoadLocation\<close> finds in the zone database, \<open>enc\<close> is the JSON
  encoding of an expression and \<open>hash\<close> is the SHA-256 text of the JSON of a scenario's
  semantic part; none of these is code of the repository. \<open>Normalize\<close> is modelled from after
  its deep copy through JSON, which replaces each typed value by its canonical form.
\<close>

section \<open>Temporal specifications\<close>

datatype temporal_kind =
    TemporalFor | TemporalWithin | TemporalAfter | TemporalBefore | TemporalDebounce
  | TemporalThrottle | TemporalCooldown | TemporalOncePer | TemporalRepeatWithin
  | TemporalUntil | TemporalTimeout | TemporalScheduleWindow | TemporalOther string

record temporal_spec =
  ts_kind :: temporal_kind
  ts_duration :: int
  ts_related :: string
  ts_count :: int
  ts_until :: expr
  ts_start :: "time_of_day option"
  ts_end :: "time_of_day option"
  ts_timezone :: string
  ts_dst :: dst_policy
  ts_catch_up :: catch_up
  ts_max_catch_up :: int

definition schedule_window_validate :: "(string \<Rightarrow> bool) \<Rightarrow> temporal_spec \<Rightarrow> go_error option" where
  "schedule_window_validate tz s =
     (case (ts_start s, ts_end s) of
        (Some start, Some end) \<Rightarrow>
          checks
            [fails_if (TrimSpace (ts_timezone s) = [])
               (Error ''schedule_window requires start, end and timezone''),
             tod_validate start, tod_validate end,
             fails_if (\<not> tz (ts_timezone s)) (Errorf ''invalid timezone %q'' [ts_timezone s]),
             fails_if (\<not> valid_dst_policy (ts_dst s)) (Error ''invalid DST policy''),
             fails_if (\<not> valid_catch_up (ts_catch_up s)) (Error ''invalid catch-up policy''),
             (if ts_catch_up s = CatchUpAllBounded then
                fails_if (ts_max_catch_up s \<le> 0 \<or> ts_max_catch_up s > 1000)
                  (Error ''bounded catch-up requires maxCatchUp in [1,1000]'')
              else
                fails_if (ts_max_catch_up s \<noteq> 0)
                  (Error ''maxCatchUp is only valid with all_bounded catch-up''))]
      | _ \<Rightarrow> Some (Error ''schedule_window requires start, end and timezone''))"

definition temporal_validate :: "(string \<Rightarrow> bool) \<Rightarrow> temporal_spec \<Rightarrow> go_error option" where
  "temporal_validate tz s =
     (case ts_kind s of
        TemporalAfter \<Rightarrow>
          fails_if (ts_duration s < 0 \<or> TrimSpace (ts_related s) = [])
            (Error ''after requires related trigger and non-negative duration'')
      | TemporalBefore \<Rightarrow>
          fails_if (ts_duration s < 0 \<or> TrimSpace (ts_related s) = [])
            (Error ''before requires related trigger and non-negative duration'')
      | TemporalRepeatWithin \<Rightarrow>
          fails_if (ts_duration s \<le> 0 \<or> ts_count s < 2)
            (Error ''repeat_within requires count >= 2 and positive duration'')
      | TemporalUntil \<Rightarrow>
          checks [fails_if (expr_is_zero (ts_until s)) (Error ''until requires expression''),
            expr_validate (ts_until s)]
      | TemporalScheduleWindow \<Rightarrow> schedule_window_validate tz s
      | TemporalOther k \<Rightarrow> Some (Errorf ''unknown temporal kind %q'' [k])
      | _ \<Rightarrow> fails_if (ts_duration s \<le> 0) (Error ''temporal requires positive duration''))"

definition NormalizeTemporal ::
    "(string \<Rightarrow> bool) \<Rightarrow> (expr \<Rightarrow> string) \<Rightarrow> temporal_spec \<Rightarrow> go_error + temporal_spec" where
  "NormalizeTemporal tz enc s =
     (let s1 = s\<lparr>ts_related := TrimSpace (ts_related s), ts_timezone := TrimSpace (ts_timezone s)\<rparr> in
      sum_bind
        (if expr_is_zero (ts_until s1) then Inr s1
         else sum_bind (normalize_expr enc (ts_until s1)) (\<lambda>u. Inr (s1\<lparr>ts_until := u\<rparr>)))
        (after_validate (temporal_validate tz)))"

section \<open>Triggers\<close>

datatype trigger_kind =
    TriggerDeviceEvent | TriggerStateChange | TriggerThreshold | TriggerSchedule
  | TriggerPresence | TriggerSystem | TriggerWebhook | TriggerManual | TriggerCompound
  | TriggerKindOther string

definition valid_trigger_kind :: "trigger_kind \<Rightarrow> bool" where
  "valid_trigger_kind k \<longleftrightarrow> (case k of TriggerKindOther s \<Rightarrow> False | _ \<Rightarrow> True)"

record trigger =
  tg_id :: string
  tg_kind :: trigger_kind
  tg_capability :: capability_ref
  tg_parameters :: "(string \<times> val) list"
  tg_filter :: expr
  tg_temporal :: "temporal_spec list"

definition validate_values :: "string \<Rightarrow> (string \<times> val) list \<Rightarrow> go_error option" where
  "validate_values label values =
     first_err (\<lambda>(key, v). checks [validate_token label key, value_check v]) values"

definition trigger_validate :: "(string \<Rightarrow> bool) \<Rightarrow> trigger \<Rightarrow> go_error option" where
  "trigger_validate tz t =
     checks
       [validate_token ''trigger id'' (tg_id t),
        fails_if (\<not> valid_trigger_kind (tg_kind t)) (Error ''unknown trigger kind''),
        capability_ref_validate (tg_capability t),
        validate_values ''trigger parameter'' (tg_parameters t),
        (if expr_is_zero (tg_filter t) then None else expr_validate (tg_filter t)),
        first_err (temporal_validate tz) (tg_temporal t)]"

definition normalize_values :: "(string \<times> val) list \<Rightarrow> go_error + (string \<times> val) list" where
  "normalize_values = normalize_map ''value key'' canonical []"

definition normalize_trigger ::
    "(string \<Rightarrow> bool) \<Rightarrow> (expr \<Rightarrow> string) \<Rightarrow> trigger \<Rightarrow> go_error + trigger" where
  "normalize_trigger tz enc t =
     sum_bind (normalize_values (tg_parameters t)) (\<lambda>ps.
     sum_bind (normalize_expr enc (tg_filter t)) (\<lambda>flt.
     sum_bind (traverse (NormalizeTemporal tz enc) (tg_temporal t)) (\<lambda>tmp.
       after_validate (trigger_validate tz)
         \<lparr> tg_id = TrimSpace (tg_id t), tg_kind = tg_kind t,
           tg_capability = normalize_capability (tg_capability t), tg_parameters = ps,
           tg_filter = flt, tg_temporal = tmp \<rparr>)))"

section \<open>Metadata\<close>

datatype node_layout = NodeLayout (nl_x: rat) (nl_y: rat) (nl_collapsed: bool)

record metadata =
  md_tags :: "string list"
  md_labels :: "(string \<times> string) list"
  md_layout :: "(string \<times> node_layout) list"

fun normalize_labels ::
    "(string \<times> string) list \<Rightarrow> (string \<times> string) list \<Rightarrow> go_error + (string \<times> string) list" where
  "normalize_labels acc [] = Inr (rev acc)"
| "normalize_labels acc ((k, v) # rest) =
     (let key = TrimSpace k in
      if key = [] then normalize_labels acc rest
      else if key \<in> fst ` set acc then Inl (Errorf ''duplicate normalized metadata label %q'' [key])
      else normalize_labels ((key, TrimSpace v) # acc) rest)"

definition normalize_tags :: "string list \<Rightarrow> string list" where
  "normalize_tags tags = sort (keep_first [] (filter (\<lambda>t. t \<noteq> []) (map TrimSpace tags)))"

definition normalize_metadata :: "metadata \<Rightarrow> go_error + metadata" where
  "normalize_metadata m =
     sum_bind (normalize_labels [] (sort_key fst (md_labels m))) (\<lambda>labels.
       Inr (m\<lparr>md_tags := normalize_tags (md_tags m), md_labels := sort_key fst labels\<rparr>))"

section \<open>Scenarios\<close>

record scenario =
  scn_id :: string
  scn_revision :: string
  scn_version :: "64 word"
  scn_name :: string
  scn_description :: string
  scn_enabled :: bool
  scn_triggers :: "trigger list"
  scn_condition :: expr
  scn_flow :: flow
  scn_parameters :: "param list"
  scn_metadata :: metadata

text \<open>The loops that validate the elements of a list and look out for a second use of an id.\<close>

fun validate_unique ::
    "('a \<Rightarrow> go_error option) \<Rightarrow> ('a \<Rightarrow> string) \<Rightarrow> string list \<Rightarrow> 'a list \<Rightarrow> go_error option" where
  "validate_unique check ident seen [] = None"
| "validate_unique check ident seen (x # xs) =
     (case checks [check x, fails_if (ident x \<in> set seen) (Errorf ''duplicate id %q'' [ident x])] of
        Some e \<Rightarrow> Some e
      | None \<Rightarrow> validate_unique check ident (ident x # seen) xs)"

definition temporal_references :: "string list \<Rightarrow> trigger \<Rightarrow> go_error option" where
  "temporal_references ids t =
     first_err
       (\<lambda>spec.
          if ts_kind spec \<noteq> TemporalAfter \<and> ts_kind spec \<noteq> TemporalBefore then None
          else checks
            [fails_if (ts_related spec = tg_id t) (Errorf ''trigger %q cannot reference itself'' [tg_id t]),
             fails_if (ts_related spec \<notin> set ids)
               (Errorf ''trigger %q references unknown trigger %q'' [tg_id t, ts_related spec])])
       (tg_temporal t)"

definition scenario_validate :: "(string \<Rightarrow> bool) \<Rightarrow> scenario \<Rightarrow> go_error option" where
  "scenario_validate tz s =
     checks
       [validate_token ''scenario id'' (scn_id s),
        validate_token ''revision id'' (scn_revision s),
        fails_if (TrimSpace (scn_name s) = []) (Error ''name is required''),
        fails_if (length (TrimSpace (scn_name s)) > 200) (Error ''name exceeds 200 bytes''),
        fails_if (length (scn_description s) > 4000) (Error ''description exceeds 4000 bytes''),
        fails_if (scn_triggers s = []) (Error ''at least one trigger is required''),
        validate_unique (trigger_validate tz) tg_id [] (scn_triggers s),
        first_err (temporal_references (map tg_id (scn_triggers s))) (scn_triggers s),
        (if expr_is_zero (scn_condition s) then None else expr_validate (scn_condition s)),
        validate_flow (scn_flow s),
        (case collectFlowStepIDs (scn_flow s) [] of Inl e \<Rightarrow> Some e | Inr _ \<Rightarrow> None),
        validate_unique param_validate pa_id [] (scn_parameters s),
        (case collectFlowStepIDs (scn_flow s) [] of
           Inl e \<Rightarrow> Some e
         | Inr step_ids \<Rightarrow>
             first_err
               (\<lambda>(step_id, _). fails_if (step_id \<notin> set step_ids) (Errorf ''layout references unknown step %q'' [step_id]))
               (md_layout (scn_metadata s)))]"

section \<open>Normal form and digest\<close>

definition normalize_param :: "param \<Rightarrow> go_error + param" where
  "normalize_param p =
     sum_bind (type_normalize (pa_type p)) (\<lambda>typ.
     sum_bind
       (case pa_default p of None \<Rightarrow> Inr None | Some d \<Rightarrow> map_sum id Some (canonical d)) (\<lambda>d.
       Inr (Parameter (TrimSpace (pa_id p)) typ (pa_required p) d)))"

definition Normalize :: "(string \<Rightarrow> bool) \<Rightarrow> (expr \<Rightarrow> string) \<Rightarrow> scenario \<Rightarrow> go_error + scenario" where
  "Normalize tz enc s =
     sum_bind (traverse (normalize_trigger tz enc) (scn_triggers s)) (\<lambda>triggers.
     sum_bind (normalize_expr enc (scn_condition s)) (\<lambda>condition.
     sum_bind (normalize_flow enc (scn_flow s)) (\<lambda>flow.
     sum_bind (traverse normalize_param (scn_parameters s)) (\<lambda>parameters.
     sum_bind (normalize_metadata (scn_metadata s)) (\<lambda>metadata.
       after_validate (scenario_validate tz)
         (s\<lparr> scn_id := TrimSpace (scn_id s), scn_revision := TrimSpace (scn_revision s),
             scn_name := TrimSpace (scn_name s), scn_description := TrimSpace (scn_description s),
             scn_triggers := sort_key tg_id triggers, scn_condition := condition, scn_flow := flow,
             scn_parameters := sort_key pa_id parameters, scn_metadata := metadata \<rparr>))))))"

type_synonym semantic = "trigger list \<times> expr \<times> flow \<times> param list"

definition semantic_part :: "scenario \<Rightarrow> semantic" where
  "semantic_part s = (scn_triggers s, scn_condition s, scn_flow s, scn_parameters s)"

definition SemanticDigest ::
    "(string \<Rightarrow> bool) \<Rightarrow> (expr \<Rightarrow> string) \<Rightarrow> (semantic \<Rightarrow> string) \<Rightarrow> scenario \<Rightarrow> go_error + string" where
  "SemanticDigest tz enc hash s =
     sum_bind (Normalize tz enc s) (\<lambda>n. Inr (''sha256:'' @ hash (semantic_part n)))"

section \<open>Static types\<close>

definition scenario_env :: "scenario \<Rightarrow> type_env \<Rightarrow> type_env" where
  "scenario_env s supplied =
     supplied ++ map_of (rev (map (\<lambda>p. (''parameter.'' @ pa_id p, pa_type p)) (scn_parameters s)))"

definition trigger_types :: "type_env \<Rightarrow> trigger \<Rightarrow> go_error option" where
  "trigger_types env t =
     checks
       [(if expr_is_zero (tg_filter t) then None else requireBool env (tg_filter t)),
        first_err
          (\<lambda>spec. if ts_kind spec = TemporalUntil then requireBool env (ts_until spec) else None)
          (tg_temporal t)]"

definition ValidateTypes :: "scenario \<Rightarrow> type_env \<Rightarrow> go_error option" where
  "ValidateTypes s supplied =
     (let env = scenario_env s supplied in
      checks
        [(if expr_is_zero (scn_condition s) then None else requireBool env (scn_condition s)),
         first_err (trigger_types env) (scn_triggers s),
         validateFlowTypes ''flow'' (scn_flow s) env])"

section \<open>What validation guarantees\<close>

lemma validate_unique_None:
  "validate_unique check ident seen xs = None \<longleftrightarrow>
     (\<forall>x \<in> set xs. check x = None) \<and> distinct (map ident xs) \<and> set (map ident xs) \<inter> set seen = {}"
proof (induction xs arbitrary: seen)
  case (Cons x xs)
  show ?case
  proof (cases "check x = None \<and> ident x \<notin> set seen")
    case True
    with Cons.IH [of "ident x # seen"] show ?thesis by (auto simp: fails_if_def)
  next
    case False
    then have "validate_unique check ident seen (x # xs) \<noteq> None"
      by (cases "check x") (auto simp: fails_if_def)
    with False show ?thesis by auto
  qed
qed simp

definition step_ids :: "flow \<Rightarrow> string list" where
  "step_ids f = map step_id (all_steps f)"

lemma collect_None:
  "(case collectFlowStepIDs f [] of Inl e \<Rightarrow> Some e | Inr _ \<Rightarrow> None) = None \<longleftrightarrow> distinct (step_ids f)"
proof (cases "collectFlowStepIDs f []")
  case (Inl e)
  then have "\<not> distinct (step_ids f)" using collect_ids [of f "[]"] by (auto simp: step_ids_def)
  with Inl show ?thesis by simp
next
  case (Inr r)
  then show ?thesis using collect_ids [of f "[]" r] by (simp add: step_ids_def)
qed

lemma scenario_validate_None:
  assumes "scenario_validate tz s = None"
  shows "scn_triggers s \<noteq> []" and "\<forall>t \<in> set (scn_triggers s). trigger_validate tz t = None"
    and "distinct (map tg_id (scn_triggers s))"
    and "\<forall>t \<in> set (scn_triggers s). temporal_references (map tg_id (scn_triggers s)) t = None"
    and "expr_is_zero (scn_condition s) \<or> expr_validate (scn_condition s) = None"
    and "validate_flow (scn_flow s) = None" and "distinct (step_ids (scn_flow s))"
    and "\<forall>p \<in> set (scn_parameters s). param_validate p = None"
    and "distinct (map pa_id (scn_parameters s))"
    and "fst ` set (md_layout (scn_metadata s)) \<subseteq> set (step_ids (scn_flow s))"
proof -
  note v = assms [unfolded scenario_validate_def checks_None]
  from v show "scn_triggers s \<noteq> []" "\<forall>t \<in> set (scn_triggers s). trigger_validate tz t = None"
    "distinct (map tg_id (scn_triggers s))"
    "\<forall>t \<in> set (scn_triggers s). temporal_references (map tg_id (scn_triggers s)) t = None"
    "expr_is_zero (scn_condition s) \<or> expr_validate (scn_condition s) = None"
    "validate_flow (scn_flow s) = None"
    "\<forall>p \<in> set (scn_parameters s). param_validate p = None" "distinct (map pa_id (scn_parameters s))"
    by (auto simp: validate_unique_None first_err_None split: if_splits)
  from v show d: "distinct (step_ids (scn_flow s))" by (simp add: collect_None)
  have c: "collectFlowStepIDs (scn_flow s) [] = Inr (rev (step_ids (scn_flow s)))"
    using d by (simp add: collect_ids step_ids_def)
  from v show "fst ` set (md_layout (scn_metadata s)) \<subseteq> set (step_ids (scn_flow s))"
    by (auto simp: c first_err_None)
qed

lemma temporal_references_None:
  "temporal_references ids t = None \<longleftrightarrow>
     (\<forall>spec \<in> set (tg_temporal t). ts_kind spec = TemporalAfter \<or> ts_kind spec = TemporalBefore \<longrightarrow>
        ts_related spec \<noteq> tg_id t \<and> ts_related spec \<in> set ids)"
  by (auto simp: temporal_references_def first_err_None checks_None)

section \<open>Normalising twice\<close>

definition temporal_no_timestamp :: "temporal_spec \<Rightarrow> bool" where
  "temporal_no_timestamp s \<longleftrightarrow> no_timestamp_expr (ts_until s)"

definition trigger_no_timestamp :: "trigger \<Rightarrow> bool" where
  "trigger_no_timestamp t \<longleftrightarrow>
     list_all (\<lambda>(_, v). no_timestamp (v_type v)) (tg_parameters t) \<and> no_timestamp_expr (tg_filter t) \<and>
     list_all temporal_no_timestamp (tg_temporal t)"

definition param_no_timestamp :: "param \<Rightarrow> bool" where
  "param_no_timestamp p \<longleftrightarrow> (case pa_default p of None \<Rightarrow> True | Some d \<Rightarrow> no_timestamp (v_type d))"

definition scenario_no_timestamp :: "scenario \<Rightarrow> bool" where
  "scenario_no_timestamp s \<longleftrightarrow>
     list_all trigger_no_timestamp (scn_triggers s) \<and> no_timestamp_expr (scn_condition s) \<and>
     flow_no_timestamp (scn_flow s) \<and> list_all param_no_timestamp (scn_parameters s)"

lemma expr_zero_eq: "expr_is_zero e \<longleftrightarrow> e = Expr [] [] None []"
  by (cases e) (auto simp: expr_is_zero_def)

lemma NormalizeTemporal_idem:
  assumes "NormalizeTemporal tz enc s = Inr n" and "temporal_no_timestamp s"
  shows "NormalizeTemporal tz enc n = Inr n"
proof (cases "expr_is_zero (ts_until s)")
  case True
  with assms(1) show ?thesis by (auto simp: NormalizeTemporal_def Let_def)
next
  case False
  with assms(1) obtain u where u: "normalize_expr enc (ts_until s) = Inr u"
    and n: "n = s\<lparr>ts_related := TrimSpace (ts_related s), ts_timezone := TrimSpace (ts_timezone s), ts_until := u\<rparr>"
    and v: "temporal_validate tz n = None"
    by (auto simp: NormalizeTemporal_def Let_def)
  have "normalize_expr enc u = Inr u"
    using normalize_expr_idem [OF u] assms(2) by (simp add: temporal_no_timestamp_def)
  with v show ?thesis by (auto simp: NormalizeTemporal_def Let_def n)
qed

lemma normalize_values_idem:
  "normalize_values xs = Inr ys \<Longrightarrow> list_all (\<lambda>(_, v). no_timestamp (v_type v)) xs \<Longrightarrow> normalize_values ys = Inr ys"
  unfolding normalize_values_def
  by (rule normalize_map_idem) (auto simp: list_all_iff intro: canonical_idem)

lemma traverse_fixes:
  assumes "traverse f xs = Inr ys" and "\<And>x y. x \<in> set xs \<Longrightarrow> f x = Inr y \<Longrightarrow> f y = Inr y"
  shows "traverse f ys = Inr ys"
  by (rule traverse_fixed) (use traverse_set [OF assms(1)] assms(2) in blast)

lemma normalize_trigger_idem:
  assumes "normalize_trigger tz enc t = Inr n" and "trigger_no_timestamp t"
  shows "normalize_trigger tz enc n = Inr n"
proof -
  from assms(1) obtain ps flt tmp where e: "normalize_values (tg_parameters t) = Inr ps"
      "normalize_expr enc (tg_filter t) = Inr flt"
      "traverse (NormalizeTemporal tz enc) (tg_temporal t) = Inr tmp"
    and v: "trigger_validate tz n = None"
    and n: "n = \<lparr> tg_id = TrimSpace (tg_id t), tg_kind = tg_kind t,
           tg_capability = normalize_capability (tg_capability t), tg_parameters = ps,
           tg_filter = flt, tg_temporal = tmp \<rparr>"
    by (auto simp: normalize_trigger_def)
  from assms(2) have nt: "list_all (\<lambda>(_, v). no_timestamp (v_type v)) (tg_parameters t)"
    "no_timestamp_expr (tg_filter t)" "list_all temporal_no_timestamp (tg_temporal t)"
    by (simp_all add: trigger_no_timestamp_def)
  have "traverse (NormalizeTemporal tz enc) tmp = Inr tmp"
    by (rule traverse_fixes [OF e(3)]) (use nt(3) in \<open>auto simp: list_all_iff intro: NormalizeTemporal_idem\<close>)
  with normalize_values_idem [OF e(1) nt(1)] normalize_expr_idem [OF e(2) nt(2)] v
  show ?thesis by (simp add: normalize_trigger_def n)
qed

lemma normalize_labels_Inr:
  "normalize_labels acc xs = Inr out \<Longrightarrow>
   \<exists>ys. out = rev acc @ ys \<and> distinct (map fst ys) \<and> fst ` set ys \<inter> fst ` set acc = {} \<and>
     (\<forall>(k, v) \<in> set ys. k \<noteq> [] \<and> TrimSpace k = k \<and> TrimSpace v = v)"
proof (induction acc xs rule: normalize_labels.induct)
  case (2 acc k v rest)
  show ?case
  proof (cases "TrimSpace k = []")
    case True
    with 2 show ?thesis by (simp add: Let_def)
  next
    case False
    with "2.prems" have k: "TrimSpace k \<notin> fst ` set acc" by (auto simp: Let_def split: if_splits)
    with False 2 obtain ys where "out = rev ((TrimSpace k, TrimSpace v) # acc) @ ys"
      "distinct (map fst ys)" "fst ` set ys \<inter> fst ` set ((TrimSpace k, TrimSpace v) # acc) = {}"
      "\<forall>(k, v) \<in> set ys. k \<noteq> [] \<and> TrimSpace k = k \<and> TrimSpace v = v"
      by (auto simp: Let_def)
    with k False show ?thesis by (intro exI [of _ "(TrimSpace k, TrimSpace v) # ys"]) auto
  qed
qed simp

lemma normalize_labels_fixed:
  "distinct (map fst ys) \<Longrightarrow> fst ` set ys \<inter> fst ` set acc = {} \<Longrightarrow>
   \<forall>(k, v) \<in> set ys. k \<noteq> [] \<and> TrimSpace k = k \<and> TrimSpace v = v \<Longrightarrow>
   normalize_labels acc ys = Inr (rev acc @ ys)"
  by (induction acc ys rule: normalize_labels.induct) (auto simp: Let_def)

lemma normalize_tags_fixed [simp]: "normalize_tags (normalize_tags tags) = normalize_tags tags"
proof -
  let ?n = "normalize_tags tags"
  have t: "\<forall>t \<in> set ?n. t \<noteq> [] \<and> TrimSpace t = t" by (auto simp: normalize_tags_def)
  have d: "distinct ?n" "sorted ?n" by (simp_all add: normalize_tags_def)
  from t have "map TrimSpace ?n = ?n" by (intro map_idI) auto
  moreover from t have "filter (\<lambda>t. t \<noteq> []) ?n = ?n" by simp
  ultimately show ?thesis
    unfolding normalize_tags_def [of ?n] using d by (simp add: keep_first_id sorted_sort_id)
qed

lemma normalize_metadata_idem:
  assumes "normalize_metadata m = Inr n" shows "normalize_metadata n = Inr n"
proof -
  from assms obtain ls where ls: "normalize_labels [] (sort_key fst (md_labels m)) = Inr ls"
    and n: "n = m\<lparr>md_tags := normalize_tags (md_tags m), md_labels := sort_key fst ls\<rparr>"
    by (auto simp: normalize_metadata_def)
  from normalize_labels_Inr [OF ls] have "distinct (map fst ls)"
    and "\<forall>(k, v) \<in> set ls. k \<noteq> [] \<and> TrimSpace k = k \<and> TrimSpace v = v" by auto
  then have "normalize_labels [] (sort_key fst ls) = Inr (rev [] @ sort_key fst ls)"
    by (intro normalize_labels_fixed) (auto simp: distinct_map)
  then show ?thesis by (simp add: n normalize_metadata_def sort_key_id_if_sorted)
qed

lemma normalize_param_idem:
  assumes "normalize_param p = Inr q" and "param_no_timestamp p" shows "normalize_param q = Inr q"
proof (cases "pa_default p")
  case None
  with assms(1) show ?thesis by (auto simp: normalize_param_def type_normalize_idem)
next
  case (Some d)
  with assms show ?thesis
    by (auto simp: normalize_param_def param_no_timestamp_def type_normalize_idem map_sum_def
        canonical_idem split: sum.splits)
qed

lemma Normalize_Inr:
  "Normalize tz enc s = Inr n \<longleftrightarrow>
     (\<exists>triggers condition flow parameters metadata.
        traverse (normalize_trigger tz enc) (scn_triggers s) = Inr triggers \<and>
        normalize_expr enc (scn_condition s) = Inr condition \<and>
        normalize_flow enc (scn_flow s) = Inr flow \<and>
        traverse normalize_param (scn_parameters s) = Inr parameters \<and>
        normalize_metadata (scn_metadata s) = Inr metadata \<and> scenario_validate tz n = None \<and>
        n = s\<lparr> scn_id := TrimSpace (scn_id s), scn_revision := TrimSpace (scn_revision s),
             scn_name := TrimSpace (scn_name s), scn_description := TrimSpace (scn_description s),
             scn_triggers := sort_key tg_id triggers, scn_condition := condition, scn_flow := flow,
             scn_parameters := sort_key pa_id parameters, scn_metadata := metadata \<rparr>)"
  by (auto simp: Normalize_def)

lemma Normalize_valid: "Normalize tz enc s = Inr n \<Longrightarrow> scenario_validate tz n = None"
  by (auto simp: Normalize_Inr)

lemma normalize_idem:
  assumes "Normalize tz enc s = Inr n" and "scenario_no_timestamp s"
  shows "Normalize tz enc n = Inr n"
proof -
  from assms(1) obtain triggers condition flow parameters metadata where
    e: "traverse (normalize_trigger tz enc) (scn_triggers s) = Inr triggers"
      "normalize_expr enc (scn_condition s) = Inr condition"
      "normalize_flow enc (scn_flow s) = Inr flow"
      "traverse normalize_param (scn_parameters s) = Inr parameters"
      "normalize_metadata (scn_metadata s) = Inr metadata" and v: "scenario_validate tz n = None" and
    n: "n = s\<lparr> scn_id := TrimSpace (scn_id s), scn_revision := TrimSpace (scn_revision s),
             scn_name := TrimSpace (scn_name s), scn_description := TrimSpace (scn_description s),
             scn_triggers := sort_key tg_id triggers, scn_condition := condition, scn_flow := flow,
             scn_parameters := sort_key pa_id parameters, scn_metadata := metadata \<rparr>"
    by (auto simp: Normalize_Inr)
  from assms(2) have nt: "\<forall>t \<in> set (scn_triggers s). trigger_no_timestamp t"
    "no_timestamp_expr (scn_condition s)" "flow_no_timestamp (scn_flow s)"
    "\<forall>p \<in> set (scn_parameters s). param_no_timestamp p"
    by (simp_all add: scenario_no_timestamp_def list_all_iff)
  have "normalize_trigger tz enc y = Inr y" if "y \<in> set triggers" for y
    using traverse_set [OF e(1) that] nt(1) normalize_trigger_idem by blast
  then have "traverse (normalize_trigger tz enc) (sort_key tg_id triggers) = Inr (sort_key tg_id triggers)"
    by (intro traverse_fixed) simp
  moreover have "normalize_param y = Inr y" if "y \<in> set parameters" for y
    using traverse_set [OF e(4) that] nt(4) normalize_param_idem by blast
  then have "traverse normalize_param (sort_key pa_id parameters) = Inr (sort_key pa_id parameters)"
    by (intro traverse_fixed) simp
  moreover have "sort_key tg_id (sort_key tg_id triggers) = sort_key tg_id triggers"
    "sort_key pa_id (sort_key pa_id parameters) = sort_key pa_id parameters"
    by (simp_all add: sort_key_id_if_sorted)
  ultimately show ?thesis
    using normalize_expr_idem [OF e(2) nt(2)] normalize_flow_idem [OF e(3) nt(3)]
      normalize_metadata_idem [OF e(5)] v
    unfolding Normalize_def n by simp
qed

section \<open>The order of triggers and parameters\<close>

lemma traverse_map_iff: "traverse f xs = Inr ys \<longleftrightarrow> map f xs = map Inr ys"
  by (auto simp: traverse_Inr_iff list_eq_iff_nth_eq list_all2_conv_all_nth)

lemma traverse_mset:
  assumes "traverse f xs = Inr ys" and "mset xs' = mset xs"
  shows "\<exists>ys'. traverse f xs' = Inr ys' \<and> mset ys' = mset ys"
proof (intro exI conjI)
  let ?ys = "map (projr \<circ> f) xs'"
  have m: "map f xs = map Inr ys" using assms(1) by (simp add: traverse_map_iff)
  have "\<forall>x \<in> set xs. \<exists>y. f x = Inr y" using m by (metis (no_types) imageE image_eqI list.set_map)
  moreover have "set xs' = set xs" using assms(2) by (rule mset_eq_setD)
  ultimately have "\<forall>x \<in> set xs'. f x = Inr (projr (f x))" by auto
  then show "traverse f xs' = Inr ?ys" by (simp add: traverse_map_iff comp_def)
  have "mset ?ys = image_mset projr (mset (map f xs))"
    using assms(2) by (simp add: multiset.map_comp comp_def)
  also have "\<dots> = mset ys" by (simp add: m multiset.map_comp comp_def)
  finally show "mset ?ys = mset ys" .
qed

lemma filter_single: "distinct zs \<Longrightarrow> k \<in> set zs \<Longrightarrow> filter (\<lambda>x. x = k) zs = [k]"
  by (induction zs) (auto simp: filter_empty_conv)

lemma sort_key_mset:
  assumes "mset ys = mset xs" and "distinct (map g xs)"
  shows "sort_key g ys = sort_key g xs"
proof (rule properties_for_sort_key)
  show "mset (sort_key g xs) = mset ys" using assms(1) by simp
  show "sorted (map g (sort_key g xs))" by simp
next
  fix k assume "k \<in> set (sort_key g xs)"
  then have k: "k \<in> set xs" by simp
  have f: "filter (\<lambda>x. g k = g x) zs = [k]" if "mset zs = mset xs" for zs
  proof -
    have z: "distinct zs" "set zs = set xs"
      using that assms(2) by (auto dest: mset_eq_setD mset_eq_imp_distinct_iff simp: distinct_map)
    have "\<forall>x \<in> set zs. g k = g x \<longleftrightarrow> x = k"
      using assms(2) k z(2) by (auto simp: distinct_map inj_on_def)
    then have "filter (\<lambda>x. g k = g x) zs = filter (\<lambda>x. x = k) zs" by (intro filter_cong) auto
    also have "\<dots> = [k]" using z k by (simp add: filter_single)
    finally show ?thesis .
  qed
  show "filter (\<lambda>x. g k = g x) (sort_key g xs) = filter (\<lambda>x. g k = g x) ys"
    using f [of "sort_key g xs"] f [OF assms(1)] by simp
qed

lemma normalize_permuted:
  assumes "Normalize tz enc s = Inr n"
    and "mset ts = mset (scn_triggers s)" and "mset ps = mset (scn_parameters s)"
  shows "Normalize tz enc (s\<lparr>scn_triggers := ts, scn_parameters := ps\<rparr>) = Inr n"
proof -
  from assms(1) obtain triggers condition flow parameters metadata where
    e: "traverse (normalize_trigger tz enc) (scn_triggers s) = Inr triggers"
      "normalize_expr enc (scn_condition s) = Inr condition"
      "normalize_flow enc (scn_flow s) = Inr flow"
      "traverse normalize_param (scn_parameters s) = Inr parameters"
      "normalize_metadata (scn_metadata s) = Inr metadata" and v: "scenario_validate tz n = None" and
    n: "n = s\<lparr> scn_id := TrimSpace (scn_id s), scn_revision := TrimSpace (scn_revision s),
             scn_name := TrimSpace (scn_name s), scn_description := TrimSpace (scn_description s),
             scn_triggers := sort_key tg_id triggers, scn_condition := condition, scn_flow := flow,
             scn_parameters := sort_key pa_id parameters, scn_metadata := metadata \<rparr>"
    by (auto simp: Normalize_Inr)
  from traverse_mset [OF e(1) assms(2)] obtain triggers' where
    t: "traverse (normalize_trigger tz enc) ts = Inr triggers'" "mset triggers' = mset triggers" by blast
  from traverse_mset [OF e(4) assms(3)] obtain parameters' where
    p: "traverse normalize_param ps = Inr parameters'" "mset parameters' = mset parameters" by blast
  have "distinct (map tg_id (sort_key tg_id triggers))" "distinct (map pa_id (sort_key pa_id parameters))"
    using scenario_validate_None(3,9) [OF v] by (simp_all add: n)
  then have "distinct (map tg_id triggers)" "distinct (map pa_id parameters)"
    by (simp_all add: distinct_map)
  then have "sort_key tg_id triggers' = sort_key tg_id triggers"
    "sort_key pa_id parameters' = sort_key pa_id parameters"
    by (auto intro: sort_key_mset [OF t(2)] sort_key_mset [OF p(2)])
  with t(1) p(1) e v show ?thesis unfolding Normalize_def n by simp
qed

section \<open>What the static types guarantee\<close>

text \<open>The conditions and arguments of a flow, of all nesting depths.\<close>

lemma run_types_event:
  "run_event (path_walker d (\<lambda>_ st s. or_else s (check_step_arguments env st))
     (\<lambda>_ st c s. or_else s (check_child env st c))) e s =
   (case s of Some x \<Rightarrow> Some x
    | None \<Rightarrow> (case e of Visit q st \<Rightarrow> check_step_arguments env st | Enter q st c \<Rightarrow> check_child env st c))"
  by (cases e; cases s) (simp_all add: or_else_def)

lemma flow_types_None:
  "validateFlowTypes path f env = None \<longleftrightarrow>
     (\<forall>e \<in> set (flow_events (path_walker (\<lambda>_ _. True) (\<lambda>_ st s. or_else s (check_step_arguments env st))
         (\<lambda>_ st c s. or_else s (check_child env st c))) path f).
        (case e of Visit q st \<Rightarrow> check_step_arguments env st | Enter q st c \<Rightarrow> check_child env st c) = None)"
  unfolding validateFlowTypes_def by (simp add: walk_first_err [OF run_types_event] first_err_None)

lemma flow_types_steps:
  assumes "validateFlowTypes path f env = None" and "st \<in> set (all_steps f)"
  shows "check_step_arguments env st = None"
proof -
  let ?w = "path_walker (\<lambda>_ _. True) (\<lambda>_ st s. or_else s (check_step_arguments env st))
         (\<lambda>_ st c s. or_else s (check_child env st c))"
  have "\<exists>q. Visit q st \<in> set (flow_events ?w path f)"
    using assms(2) by (simp add: visited_step)
  then obtain q where "Visit q st \<in> set (flow_events ?w path f)" ..
  with assms(1) show ?thesis unfolding flow_types_None by fastforce
qed

text \<open>The events of a walker depend only on how it moves, not on what it does.\<close>

lemma flow_events_cong:
  "at_step w = at_step w' \<Longrightarrow> at_child w = at_child w' \<Longrightarrow> descend w = descend w' \<Longrightarrow>
   flow_events w p f = flow_events w' p f"
proof (induction w p f rule: flow_events.induct)
  case (1 w p ss)
  show ?case
    unfolding flow_events.simps
    by (intro arg_cong [where f = concat] map_cong)
      (auto intro!: arg_cong [where f = concat] simp: "1.prems" [symmetric] "1.IH" [OF _ refl _ refl "1.prems"])
qed

lemma check_arguments_None:
  "check_arguments env args = None \<longleftrightarrow> (\<forall>(k, e) \<in> set args. \<exists>t. check_expr env e = Inr t)"
  by (fastforce simp: check_arguments_def first_err_None split: sum.splits)

lemma requireBool_None:
  "requireBool env e = None \<longleftrightarrow> (\<exists>t. check_expr env e = Inr t \<and> tr_kind t = TypeBool)"
  by (simp add: requireBool_def needs_bool_None)

lemma check_step_arguments_mono:
  "check_step_arguments env st = None \<Longrightarrow> env \<subseteq>\<^sub>m env' \<Longrightarrow> check_step_arguments env' st = None"
  by (fastforce simp: check_step_arguments_def checks_None check_arguments_None
      intro: check_expr_mono split: option.splits)

lemma check_child_mono:
  "check_child env st c = None \<Longrightarrow> env \<subseteq>\<^sub>m env' \<Longrightarrow> check_child env' st c = None"
  by (auto simp: check_child_def requireBool_None intro: check_expr_mono split: option.splits)

lemma flow_types_mono:
  assumes "validateFlowTypes path f env = None" and "env \<subseteq>\<^sub>m env'"
  shows "validateFlowTypes path f env' = None"
proof -
  let ?w = "\<lambda>env. path_walker (\<lambda>_ _. True) (\<lambda>_ st s. or_else s (check_step_arguments env st))
         (\<lambda>_ st c s. or_else s (check_child env st c))"
  have "flow_events (?w env') path f = flow_events (?w env) path f"
    by (rule flow_events_cong) simp_all
  then show ?thesis
    using assms(1) unfolding flow_types_None
  proof (intro ballI)
    fix e
    assume "e \<in> set (flow_events (?w env') path f)"
      and "\<forall>e \<in> set (flow_events (?w env) path f).
        (case e of Visit q st \<Rightarrow> check_step_arguments env st | Enter q st c \<Rightarrow> check_child env st c) = None"
      and "flow_events (?w env') path f = flow_events (?w env) path f"
    then have "(case e of Visit q st \<Rightarrow> check_step_arguments env st | Enter q st c \<Rightarrow> check_child env st c) = None"
      by simp
    then show "(case e of Visit q st \<Rightarrow> check_step_arguments env' st | Enter q st c \<Rightarrow> check_child env' st c) = None"
      using assms(2) by (cases e) (auto intro: check_step_arguments_mono check_child_mono)
  qed
qed

section \<open>Properties\<close>

text \<open>
  C35. In a scenario that is accepted the ids of all steps at every depth are distinct, so are
  the ids of triggers and of parameters; an \<open>after\<close> or \<open>before\<close> names another trigger of the
  scenario, and the layout places only steps that exist.
\<close>

theorem accepted_scenario:
  assumes "scenario_validate tz s = None"
  shows "distinct (map step_id (all_steps (scn_flow s))) \<and> distinct (map tg_id (scn_triggers s)) \<and>
    distinct (map pa_id (scn_parameters s)) \<and>
    (\<forall>t \<in> set (scn_triggers s). \<forall>spec \<in> set (tg_temporal t).
       ts_kind spec = TemporalAfter \<or> ts_kind spec = TemporalBefore \<longrightarrow>
       (\<exists>u \<in> set (scn_triggers s). tg_id u = ts_related spec \<and> u \<noteq> t)) \<and>
    (\<forall>(i, _) \<in> set (md_layout (scn_metadata s)). \<exists>st \<in> set (all_steps (scn_flow s)). step_id st = i)"
proof -
  note v = scenario_validate_None [OF assms]
  from v(4) have "\<exists>u \<in> set (scn_triggers s). tg_id u = ts_related spec \<and> u \<noteq> t"
    if "t \<in> set (scn_triggers s)" "spec \<in> set (tg_temporal t)"
      "ts_kind spec = TemporalAfter \<or> ts_kind spec = TemporalBefore" for t spec
    using that by (fastforce simp: temporal_references_None)
  moreover have "\<forall>(i, _) \<in> set (md_layout (scn_metadata s)). \<exists>st \<in> set (all_steps (scn_flow s)). step_id st = i"
    using v(10) by (force simp: step_ids_def)
  ultimately show ?thesis using v(3,7,9) by (simp add: step_ids_def)
qed

definition button_trigger :: "string \<Rightarrow> temporal_spec list \<Rightarrow> trigger" where
  "button_trigger i temporal =
     \<lparr> tg_id = i, tg_kind = TriggerManual, tg_capability = CapabilityRef ''ui.button'' ''1.0.0'' None,
       tg_parameters = [], tg_filter = Expr [] [] None [], tg_temporal = temporal \<rparr>"

definition after_spec :: "string \<Rightarrow> temporal_spec" where
  "after_spec i =
     \<lparr> ts_kind = TemporalAfter, ts_duration = 0, ts_related = i, ts_count = 0,
       ts_until = Expr [] [] None [], ts_start = None, ts_end = None, ts_timezone = [],
       ts_dst = DSTOther [], ts_catch_up = CatchUpOther [], ts_max_catch_up = 0 \<rparr>"

definition sample_scenario :: "trigger list \<Rightarrow> flow \<Rightarrow> scenario" where
  "sample_scenario triggers f =
     \<lparr> scn_id = ''porch'', scn_revision = ''rev-1'', scn_version = 0, scn_name = '' Porch light'',
       scn_description = [], scn_enabled = True, scn_triggers = triggers,
       scn_condition = Expr [] [] None [], scn_flow = f,
       scn_parameters = [Parameter ''level'' (plain_type TypeInt) False None],
       scn_metadata =
         \<lparr> md_tags = ['' b'', ''a'', ''b''], md_labels = [], md_layout = [(''halt'', NodeLayout 1 2 False)] \<rparr> \<rparr>"

abbreviation button_scenario :: scenario where
  "button_scenario \<equiv> sample_scenario [button_trigger ''t2'' [after_spec ''t1''], button_trigger ''t1'' []] branch_flow"

theorem accepted_scenario_witness:
  "distinct (map step_id (all_steps (scn_flow button_scenario))) \<and>
   (\<exists>st \<in> set (all_steps (scn_flow button_scenario)). step_id st = ''halt'')"
proof -
  have "scenario_validate (\<lambda>_. True) button_scenario = None" by code_simp
  from accepted_scenario [OF this] show ?thesis by (auto simp: sample_scenario_def)
qed

text \<open>
  C38. Normalising is idempotent (for scenarios whose values contain no timestamps): what it
  returns is accepted, and normalising or digesting it again gives the same scenario and the
  same digest as before.
\<close>

theorem normalize_fixed_point:
  assumes "Normalize tz enc s = Inr n" and "scenario_no_timestamp s"
  shows "scenario_validate tz n = None \<and> Normalize tz enc n = Inr n \<and>
    SemanticDigest tz enc hash n = SemanticDigest tz enc hash s"
  using assms Normalize_valid [OF assms(1)] normalize_idem [OF assms]
  by (simp add: SemanticDigest_def)

definition normalized_button_scenario :: scenario where
  "normalized_button_scenario =
     (case Normalize (\<lambda>_. True) ex_ref button_scenario of Inr n \<Rightarrow> n | Inl _ \<Rightarrow> button_scenario)"

lemma normalized_button: "Normalize (\<lambda>_. True) ex_ref button_scenario = Inr normalized_button_scenario"
  by code_simp

theorem normalize_fixed_point_witness:
  "Normalize (\<lambda>_. True) ex_ref normalized_button_scenario = Inr normalized_button_scenario"
proof -
  have "scenario_no_timestamp button_scenario" by code_simp
  from normalize_fixed_point [OF normalized_button this] show ?thesis by blast
qed

text \<open>
  The order in which triggers and parameters are listed carries no meaning: a scenario and
  one whose triggers and parameters are permuted normalise alike and have the same digest.
\<close>

theorem digest_order_independent:
  assumes "Normalize tz enc s = Inr n"
    and "mset ts = mset (scn_triggers s)" and "mset ps = mset (scn_parameters s)"
  shows "Normalize tz enc (s\<lparr>scn_triggers := ts, scn_parameters := ps\<rparr>) = Inr n \<and>
    SemanticDigest tz enc hash (s\<lparr>scn_triggers := ts, scn_parameters := ps\<rparr>) = SemanticDigest tz enc hash s"
  using assms(1) normalize_permuted [OF assms] by (simp add: SemanticDigest_def)

definition trigger_names :: "semantic \<Rightarrow> string" where
  "trigger_names sem = concat (map tg_id (fst sem))"

theorem digest_order_independent_witness:
  "SemanticDigest (\<lambda>_. True) ex_ref trigger_names
     (button_scenario\<lparr>scn_triggers := [button_trigger ''t1'' [], button_trigger ''t2'' [after_spec ''t1'']],
        scn_parameters := [Parameter ''level'' (plain_type TypeInt) False None]\<rparr>) =
   SemanticDigest (\<lambda>_. True) ex_ref trigger_names button_scenario"
  using digest_order_independent [OF normalized_button,
      of "[button_trigger ''t1'' [], button_trigger ''t2'' [after_spec ''t1'']]"
         "[Parameter ''level'' (plain_type TypeInt) False None]" trigger_names]
  by (simp add: sample_scenario_def)

text \<open>
  When the static type check accepts a scenario, every argument of every action and subflow
  at any depth has a type, its references are bound to a parameter or a supplied name, and
  the flow stays well typed when more names are supplied.
\<close>

theorem typed_scenario:
  assumes "ValidateTypes s supplied = None"
  shows "(\<forall>st \<in> set (all_steps (scn_flow s)). \<forall>a k e. st_action st = Some a \<and> (k, e) \<in> set (ac_arguments a) \<longrightarrow>
      (\<exists>t. check_expr (scenario_env s supplied) e = Inr t) \<and>
      expr_refs e \<subseteq> dom supplied \<union> {''parameter.'' @ pa_id p |p. p \<in> set (scn_parameters s)}) \<and>
    (\<forall>env'. scenario_env s supplied \<subseteq>\<^sub>m env' \<longrightarrow> validateFlowTypes ''flow'' (scn_flow s) env' = None)"
proof -
  let ?env = "scenario_env s supplied"
  have f: "validateFlowTypes ''flow'' (scn_flow s) ?env = None"
    using assms by (simp add: ValidateTypes_def Let_def checks_None)
  have dom: "dom ?env = dom supplied \<union> {''parameter.'' @ pa_id p |p. p \<in> set (scn_parameters s)}"
    by (simp add: scenario_env_def dom_map_of_conv_image_fst image_image Setcompr_eq_image Un_commute)
  have "(\<exists>t. check_expr ?env e = Inr t) \<and> expr_refs e \<subseteq> dom ?env"
    if "st \<in> set (all_steps (scn_flow s))" "st_action st = Some a \<and> (k, e) \<in> set (ac_arguments a)" for st a k e
  proof -
    from flow_types_steps [OF f that(1)] that(2) obtain t where "check_expr ?env e = Inr t"
      by (auto simp: check_step_arguments_def checks_None check_arguments_None)
    then show ?thesis using check_expr_refs_bound by blast
  qed
  moreover have "validateFlowTypes ''flow'' (scn_flow s) env' = None" if "?env \<subseteq>\<^sub>m env'" for env'
    by (rule flow_types_mono [OF f that])
  ultimately show ?thesis unfolding dom [symmetric] by (intro conjI ballI allI impI) blast+
qed

theorem typed_scenario_witness:
  "validateFlowTypes ''flow'' (scn_flow button_scenario)
     ((scenario_env button_scenario Map.empty)(''trigger.x'' \<mapsto> bool_type)) = None"
proof -
  have "ValidateTypes button_scenario Map.empty = None" by code_simp
  moreover have "scenario_env button_scenario Map.empty \<subseteq>\<^sub>m
      (scenario_env button_scenario Map.empty)(''trigger.x'' \<mapsto> bool_type)"
    by (auto simp: map_le_def scenario_env_def sample_scenario_def)
  ultimately show ?thesis using typed_scenario by blast
qed

end
