(* ===== verification/Diagnostics.thy ===== *)
theory Diagnostics
  imports Scenarios
begin

text \<open>
  The diagnostics of the scenario compiler, \<open>compiler/diagnostics.go\<close>, and what the passes that
  report diagnostics while they walk a flow have in common.

  A diagnostic is its code, severity and path; the message, hint and related names are texts for
  people and are left out.
\<close>

section \<open>Codes and severities\<close>

datatype severity = SeverityError | SeverityWarning | SeverityInfo

datatype diag_code =
    CodeInvalidScenarioID | CodeInvalidStepID | CodeEmptyFlow | CodeDuplicateStepID
  | CodeMalformedStructure | CodeMissingPayload
  | CodeTypeMismatch | CodeUnknownReference | CodeInvalidExprOperator | CodeMissingRequiredArg
  | CodeUnknownArgument | CodeInvalidEnumValue | CodeUnitMismatch
  | CodeCapabilityNotFound | CodeCapabilityIncompatible | CodeCapabilityUnavailable
  | CodeEntityNotFound | CodeEntityKindMismatch
  | CodeInvalidDuration | CodeInvalidSchedule | CodeInvalidTimezone | CodeOverlappingSchedule
  | CodePermissionDenied | CodeHighRiskUnapproved | CodeMissingSafetyGate
  | CodeResourceContention | CodeUnboundedSirenDuration | CodeDisallowedSystemUnlock
  | CodeUnreachableStep | CodeImpossibleBranch | CodeSelfRecursion | CodeMutualRecursion
  | CodeOppositeDesiredState | CodeCircularDependency | CodeDuplicateIrreversibleAction
  | CodeAxiomUnsupportedFeature | CodeADGOLoweringFailed
  | CodeCompilerInvariantBroken

fun code_text :: "diag_code \<Rightarrow> string" where
  "code_text CodeInvalidScenarioID = ''HS-SCN-101''"
| "code_text CodeInvalidStepID = ''HS-SCN-102''"
| "code_text CodeEmptyFlow = ''HS-SCN-103''"
| "code_text CodeDuplicateStepID = ''HS-SCN-104''"
| "code_text CodeMalformedStructure = ''HS-SCN-105''"
| "code_text CodeMissingPayload = ''HS-SCN-106''"
| "code_text CodeTypeMismatch = ''HS-SCN-201''"
| "code_text CodeUnknownReference = ''HS-SCN-202''"
| "code_text CodeInvalidExprOperator = ''HS-SCN-203''"
| "code_text CodeMissingRequiredArg = ''HS-SCN-204''"
| "code_text CodeUnknownArgument = ''HS-SCN-205''"
| "code_text CodeInvalidEnumValue = ''HS-SCN-206''"
| "code_text CodeUnitMismatch = ''HS-SCN-207''"
| "code_text CodeCapabilityNotFound = ''HS-SCN-301''"
| "code_text CodeCapabilityIncompatible = ''HS-SCN-302''"
| "code_text CodeCapabilityUnavailable = ''HS-SCN-303''"
| "code_text CodeEntityNotFound = ''HS-SCN-304''"
| "code_text CodeEntityKindMismatch = ''HS-SCN-305''"
| "code_text CodeInvalidDuration = ''HS-SCN-401''"
| "code_text CodeInvalidSchedule = ''HS-SCN-402''"
| "code_text CodeInvalidTimezone = ''HS-SCN-403''"
| "code_text CodeOverlappingSchedule = ''HS-SCN-404''"
| "code_text CodePermissionDenied = ''HS-SCN-501''"
| "code_text CodeHighRiskUnapproved = ''HS-SCN-502''"
| "code_text CodeMissingSafetyGate = ''HS-SCN-503''"
| "code_text CodeResourceContention = ''HS-SCN-504''"
| "code_text CodeUnboundedSirenDuration = ''HS-SCN-505''"
| "code_text CodeDisallowedSystemUnlock = ''HS-SCN-506''"
| "code_text CodeUnreachableStep = ''HS-SCN-601''"
| "code_text CodeImpossibleBranch = ''HS-SCN-602''"
| "code_text CodeSelfRecursion = ''HS-SCN-603''"
| "code_text CodeMutualRecursion = ''HS-SCN-604''"
| "code_text CodeOppositeDesiredState = ''HS-SCN-605''"
| "code_text CodeCircularDependency = ''HS-SCN-606''"
| "code_text CodeDuplicateIrreversibleAction = ''HS-SCN-607''"
| "code_text CodeAxiomUnsupportedFeature = ''HS-SCN-701''"
| "code_text CodeADGOLoweringFailed = ''HS-SCN-702''"
| "code_text CodeCompilerInvariantBroken = ''HS-SCN-901''"

datatype diagnostic = Diag (dg_code: diag_code) (dg_severity: severity) (dg_path: string)

type_synonym diagnostics = "diagnostic list"

definition HasErrors :: "diagnostics \<Rightarrow> bool" where
  "HasErrors ds = list_ex (\<lambda>d. dg_severity d = SeverityError) ds"

definition Errors :: "diagnostics \<Rightarrow> diagnostics" where
  "Errors ds = filter (\<lambda>d. dg_severity d = SeverityError) ds"

definition Warnings :: "diagnostics \<Rightarrow> diagnostics" where
  "Warnings ds = filter (\<lambda>d. dg_severity d = SeverityWarning) ds"

lemma HasErrors_append [simp]: "HasErrors (ds @ es) \<longleftrightarrow> HasErrors ds \<or> HasErrors es"
  by (simp add: HasErrors_def)

lemma HasErrors_Nil [simp]: "\<not> HasErrors []"
  by (simp add: HasErrors_def)

lemma HasErrors_member: "HasErrors ds \<longleftrightarrow> (\<exists>d \<in> set ds. dg_severity d = SeverityError)"
  by (simp add: HasErrors_def list_ex_iff)

lemma Errors_HasErrors: "HasErrors ds \<longleftrightarrow> Errors ds \<noteq> []"
  by (auto simp: HasErrors_member Errors_def filter_empty_conv)

abbreviation report_if :: "bool \<Rightarrow> diag_code \<Rightarrow> severity \<Rightarrow> string \<Rightarrow> diagnostics" where
  "report_if b code sev path \<equiv> (if b then [Diag code sev path] else [])"

lemma report_if_errors [simp]: "HasErrors (report_if b code sev path) \<longleftrightarrow> b \<and> sev = SeverityError"
  by (simp add: HasErrors_def)

lemma diag_errors [simp]: "HasErrors (d # ds) \<longleftrightarrow> dg_severity d = SeverityError \<or> HasErrors ds"
  by (simp add: HasErrors_def)

lemma concat_errors: "HasErrors (concat (map g xs)) \<longleftrightarrow> (\<exists>x \<in> set xs. HasErrors (g x))"
  by (induction xs) auto

lemma errors_subset: "set ds \<subseteq> set es \<Longrightarrow> \<not> HasErrors es \<Longrightarrow> \<not> HasErrors ds"
  by (auto simp: HasErrors_member)

lemma member_enumerate: "x \<in> set xs \<Longrightarrow> \<exists>i. (i, x) \<in> set (enumerate n xs)"
  by (induction xs arbitrary: n) auto

section \<open>Passes that report\<close>

text \<open>
  A pass with the path texts of the compiler that appends what \<open>v\<close> reports of a step and what
  \<open>e\<close> reports on entering a nested flow.
\<close>

definition reporting ::
    "(step \<Rightarrow> child \<Rightarrow> bool) \<Rightarrow> (string \<Rightarrow> step \<Rightarrow> 'a list) \<Rightarrow> (string \<Rightarrow> step \<Rightarrow> child \<Rightarrow> 'a list) \<Rightarrow>
     (string, 'a list) walker" where
  "reporting d v e = path_walker d (\<lambda>q st s. s @ v q st) (\<lambda>q st c s. s @ e q st c)"

fun event_report ::
    "(string \<Rightarrow> step \<Rightarrow> 'a list) \<Rightarrow> (string \<Rightarrow> step \<Rightarrow> child \<Rightarrow> 'a list) \<Rightarrow> string event \<Rightarrow> 'a list" where
  "event_report v e (Visit q st) = v q st"
| "event_report v e (Enter q st c) = e q st c"

lemma reporting_event: "run_event (reporting d v e) ev s = s @ event_report v e ev"
  by (cases ev) (simp_all add: reporting_def)

lemma reporting_append:
  "walk_flow (reporting d v e) p f s =
     s @ concat (map (event_report v e) (flow_events (reporting d v e) p f))"
  by (rule walk_append) (rule reporting_event)

lemma reporting_descend [simp]: "descend (reporting d v e) = d"
  by (simp add: reporting_def)

lemma in_flow_events:
  "z \<in> set (flow_events w p (Flow ss)) \<longleftrightarrow>
     (\<exists>i x. (i, x) \<in> set (enumerate 0 ss) \<and>
       (z = Visit (at_step w p i x) x \<or>
        (\<exists>d h. (d, h) \<in> set (step_children x) \<and> descend w x d \<and>
           (z = Enter (at_step w p i x) x d \<or> z \<in> set (flow_events w (at_child w (at_step w p i x) d) h)))))"
  unfolding flow_events.simps set_concat set_map by (simp split: prod.splits) blast

lemma enter_visits:
  "Enter q st c \<in> set (flow_events w p f) \<Longrightarrow>
   Visit q st \<in> set (flow_events w p f) \<and> descend w st c \<and> (\<exists>g. (c, g) \<in> set (step_children st))"
proof (induction w p f rule: flow_events.induct)
  case (1 w p ss)
  from "1.prems" obtain i x d h where x: "(i, x) \<in> set (enumerate 0 ss)" and
    h: "(d, h) \<in> set (step_children x)" "descend w x d" and
    or: "Enter q st c = Enter (at_step w p i x) x d \<or>
      Enter q st c \<in> set (flow_events w (at_child w (at_step w p i x) d) h)"
    unfolding in_flow_events by blast
  from or show ?case
  proof
    assume "Enter q st c = Enter (at_step w p i x) x d"
    with x h show ?thesis unfolding in_flow_events by blast
  next
    assume "Enter q st c \<in> set (flow_events w (at_child w (at_step w p i x) d) h)"
    with "1.IH" [OF x refl, of "(d, h)" d h] h
    have "Visit q st \<in> set (flow_events w (at_child w (at_step w p i x) d) h)"
      and c: "descend w st c \<and> (\<exists>g. (c, g) \<in> set (step_children st))" by auto
    with x h have "Visit q st \<in> set (flow_events w p (Flow ss))" unfolding in_flow_events by blast
    with c show ?thesis by blast
  qed
qed

lemma visit_enters:
  "Visit q st \<in> set (flow_events w p f) \<Longrightarrow> descend w st c \<Longrightarrow> (c, g) \<in> set (step_children st) \<Longrightarrow>
   Enter q st c \<in> set (flow_events w p f)"
proof (induction w p f rule: flow_events.induct)
  case (1 w p ss)
  from "1.prems"(1) obtain i x where x: "(i, x) \<in> set (enumerate 0 ss)" and
    e: "Visit q st = Visit (at_step w p i x) x \<or>
      (\<exists>d h. (d, h) \<in> set (step_children x) \<and> descend w x d \<and>
        Visit q st \<in> set (flow_events w (at_child w (at_step w p i x) d) h))"
    unfolding in_flow_events by blast
  from e show ?case
  proof
    assume "Visit q st = Visit (at_step w p i x) x"
    with x "1.prems"(2,3) show ?thesis unfolding in_flow_events by blast
  next
    assume "\<exists>d h. (d, h) \<in> set (step_children x) \<and> descend w x d \<and>
        Visit q st \<in> set (flow_events w (at_child w (at_step w p i x) d) h)"
    then obtain d h where h: "(d, h) \<in> set (step_children x)" "descend w x d" and
      v: "Visit q st \<in> set (flow_events w (at_child w (at_step w p i x) d) h)" by blast
    from "1.IH" [OF x refl, of "(d, h)" d h] h v "1.prems"(2,3)
    have "Enter q st c \<in> set (flow_events w (at_child w (at_step w p i x) d) h)" by auto
    with x h show ?thesis unfolding in_flow_events by blast
  qed
qed

lemma reported:
  "x \<in> set (walk_flow (reporting d v e) p f s) \<longleftrightarrow>
     x \<in> set s \<or>
     (\<exists>q st. Visit q st \<in> set (flow_events (reporting d v e) p f) \<and>
        (x \<in> set (v q st) \<or> (\<exists>c g. d st c \<and> (c, g) \<in> set (step_children st) \<and> x \<in> set (e q st c))))"
  (is "?L \<longleftrightarrow> _ \<or> ?R")
proof -
  let ?w = "reporting d v e"
  have "(\<exists>ev \<in> set (flow_events ?w p f). x \<in> set (event_report v e ev)) \<longleftrightarrow> ?R" (is "?E \<longleftrightarrow> _")
  proof
    assume ?E
    then obtain ev where ev: "ev \<in> set (flow_events ?w p f)" "x \<in> set (event_report v e ev)" by blast
    show ?R
    proof (cases ev)
      case Visit
      with ev show ?thesis by auto
    next
      case en: (Enter q st c)
      with ev enter_visits [of q st c ?w p f] show ?thesis by auto
    qed
  next
    assume ?R
    then obtain q st where v: "Visit q st \<in> set (flow_events ?w p f)" and
      "x \<in> set (v q st) \<or> (\<exists>c g. d st c \<and> (c, g) \<in> set (step_children st) \<and> x \<in> set (e q st c))"
      by blast
    then consider "x \<in> set (v q st)" | c g where "d st c" "(c, g) \<in> set (step_children st)" "x \<in> set (e q st c)"
      by blast
    then show ?E
    proof cases
      case 1
      with v show ?thesis by (intro bexI [of _ "Visit q st"]) auto
    next
      case 2
      with visit_enters [OF v, of c g] show ?thesis by (intro bexI [of _ "Enter q st c"]) auto
    qed
  qed
  then show ?thesis by (auto simp: reporting_append)
qed

text \<open>Every step that the pass reaches is reported at some path.\<close>

lemma reported_step:
  assumes "st \<in> set (steps_under d f)"
  obtains q where "set (v q st) \<subseteq> set (walk_flow (reporting d v e) p f s)"
    and "\<And>c g. d st c \<Longrightarrow> (c, g) \<in> set (step_children st) \<Longrightarrow>
      set (e q st c) \<subseteq> set (walk_flow (reporting d v e) p f s)"
proof -
  from assms obtain q where "Visit q st \<in> set (flow_events (reporting d v e) p f)"
    using visited_step [of st "reporting d v e" p f] by auto
  then show thesis by (intro that [of q] subsetI) (auto simp: reported)
qed

lemma reported_from:
  assumes "x \<in> set (walk_flow (reporting d v e) p f [])"
  obtains q st where "st \<in> set (steps_under d f)"
    and "x \<in> set (v q st) \<or> (\<exists>c g. (c, g) \<in> set (step_children st) \<and> d st c \<and> x \<in> set (e q st c))"
proof -
  from assms obtain q st where "Visit q st \<in> set (flow_events (reporting d v e) p f)"
    and "x \<in> set (v q st) \<or> (\<exists>c g. (c, g) \<in> set (step_children st) \<and> d st c \<and> x \<in> set (e q st c))"
    by (auto simp: reported)
  then show thesis using visited_step [of st "reporting d v e" p f] by (auto intro: that)
qed

section \<open>What a pass leaves behind\<close>

text \<open>
  What one event brings about and no event undoes holds at the end, and a pass that descends
  into the flows of every step it reaches reaches every step.
\<close>

lemma walk_establishes:
  assumes "e \<in> set (flow_events w p f)" and "\<And>s. P (run_event w e s)"
    and "\<And>e' s. P s \<Longrightarrow> P (run_event w e' s)"
  shows "P (walk_flow w p f s)"
proof -
  have "P (fold (run_event w) es s)" if "e \<in> set es \<or> P s" for es
    using that
  proof (induction es arbitrary: s)
    case (Cons x es)
    then show ?case by (cases "x = e") (auto simp: assms(2,3))
  qed simp
  with assms(1) show ?thesis by (simp add: walk_flow_events)
qed

lemma walk_preserves:
  assumes "P s" and "\<And>e s. P s \<Longrightarrow> P (run_event w e s)" shows "P (walk_flow w p f s)"
  by (rule walk_invariant) (simp_all add: assms)

lemma in_steps_under:
  "x \<in> set (steps_under d (Flow ss)) \<longleftrightarrow>
     (\<exists>st \<in> set ss. x = st \<or> (\<exists>c g. (c, g) \<in> set (step_children st) \<and> d st c \<and> x \<in> set (steps_under d g)))"
  unfolding steps_under.simps set_concat set_map by (simp split: prod.splits)

lemma steps_under_all:
  "\<forall>st \<in> set (steps_under d f). \<forall>c. d st c \<Longrightarrow> steps_under d f = all_steps f"
proof (induction d f rule: steps_under.induct)
  case (1 d ss)
  have "concat (map (\<lambda>(c, f). steps_under d f) (filter (\<lambda>(c, f). d st c) (step_children st))) =
      concat (map (\<lambda>(c, f). all_steps f) (filter (\<lambda>(c, f). True) (step_children st)))"
    if st: "st \<in> set ss" for st
  proof -
    have "st \<in> set (steps_under d (Flow ss))" using st unfolding in_steps_under by blast
    then have d: "d st c" for c using "1.prems" by blast
    have in_all: "\<forall>x \<in> set (steps_under d g). \<forall>c. d x c" if "(c, g) \<in> set (step_children st)" for c g
    proof (intro ballI allI)
      fix x a assume "x \<in> set (steps_under d g)"
      with st that d [of c] have "x \<in> set (steps_under d (Flow ss))" unfolding in_steps_under by blast
      with "1.prems" show "d x a" by blast
    qed
    have "steps_under d g = all_steps g" if g: "(c, g) \<in> set (step_children st)" for c g
      by (rule "1.IH" [OF st _ refl in_all [OF g]]) (use g d in simp)
    then have "map (\<lambda>(c, f). steps_under d f) (step_children st) = map (\<lambda>(c, f). all_steps f) (step_children st)"
      by (intro map_cong) auto
    then have "concat (map (\<lambda>(c, f). steps_under d f) (step_children st)) =
        concat (map (\<lambda>(c, f). all_steps f) (step_children st))" by (rule arg_cong)
    moreover have "filter (\<lambda>(c, f). d st c) (step_children st) = step_children st"
      "filter (\<lambda>(c, f). True) (step_children st) = step_children st" using d by simp_all
    ultimately show ?thesis by (simp only:)
  qed
  then show ?case
    unfolding steps_under.simps by (intro arg_cong [where f = concat] map_cong refl) (simp only:)
qed

end
