(* ===== verification/Versions.thy ===== *)
theory Versions
  imports Prelude TypeSystem
begin

text \<open>
  Versions of capabilities, \<open>capability/version.go\<close>: reading, printing and comparing
  \<open>major.minor.patch\<close>, and the rule which version may stand in for which. The order of versions
  is an instance of the library's linear orders, so that lists of versioned things are sorted
  with the library's functions. A Go \<open>int\<close> has 64 bits; the fields are what \<open>Atoi\<close> returns.
\<close>

section \<open>Versions\<close>

datatype semver = SemVer (sv_major: int) (sv_minor: int) (sv_patch: int)

definition parse_component :: "string \<Rightarrow> go_error + int" where
  "parse_component part =
     (if part = [] \<or> \<not> list_all is_digit part then Inl (Error ''capability: invalid version'')
      else (case Atoi part of
              None \<Rightarrow> Inl (Error ''capability: invalid version'')
            | Some n \<Rightarrow> if n < 0 then Inl (Error ''capability: invalid version'') else Inr n))"

definition ParseSemVer :: "string \<Rightarrow> go_error + semver" where
  "ParseSemVer value =
     (let parts = split_on (CHR ''.'') (TrimSpace value) in
      if length parts \<noteq> 3 then Inl (Errorf ''capability: version %q must use major.minor.patch'' [value])
      else (case traverse parse_component parts of
              Inl e \<Rightarrow> Inl e
            | Inr ns \<Rightarrow> Inr (SemVer (ns ! 0) (ns ! 1) (ns ! 2))))"

definition semver_string :: "semver \<Rightarrow> string" where
  "semver_string v =
     join_with ''.'' [show_int (sv_major v), show_int (sv_minor v), show_int (sv_patch v)]"

definition compareVersion :: "semver \<Rightarrow> semver \<Rightarrow> int" where
  "compareVersion left right =
     (if sv_major left \<noteq> sv_major right then (if sv_major left < sv_major right then -1 else 1)
      else if sv_minor left \<noteq> sv_minor right then (if sv_minor left < sv_minor right then -1 else 1)
      else if sv_patch left < sv_patch right then -1
      else if sv_patch left > sv_patch right then 1
      else 0)"

definition IsBackwardCompatible :: "string \<Rightarrow> string \<Rightarrow> bool" where
  "IsBackwardCompatible required candidate =
     (case ParseSemVer required of
        Inl _ \<Rightarrow> False
      | Inr req \<Rightarrow>
          (case ParseSemVer candidate of
             Inl _ \<Rightarrow> False
           | Inr cand \<Rightarrow>
               if sv_major cand \<noteq> sv_major req \<or> compareVersion cand req < 0 then False
               else if sv_major req = 0 \<and> sv_minor cand \<noteq> sv_minor req then False
               else True))"

section \<open>Versions are linearly ordered\<close>

instantiation semver :: linorder
begin

definition less_eq_semver :: "semver \<Rightarrow> semver \<Rightarrow> bool" where
  "v \<le> w \<longleftrightarrow> compareVersion v w \<le> 0"

definition less_semver :: "semver \<Rightarrow> semver \<Rightarrow> bool" where
  "v < w \<longleftrightarrow> compareVersion v w < 0"

instance
  by standard
    (auto simp: less_eq_semver_def less_semver_def compareVersion_def semver.expand split: if_splits)

end

lemma compare_zero: "compareVersion v w = 0 \<longleftrightarrow> v = w"
  by (auto simp: compareVersion_def semver.expand)

section \<open>Reading what was printed\<close>

definition semver_range :: "semver \<Rightarrow> bool" where
  "semver_range v \<longleftrightarrow> (\<forall>n \<in> {sv_major v, sv_minor v, sv_patch v}. 0 \<le> n \<and> n < 2 ^ 63)"

lemma show_int_parse:
  assumes "0 \<le> n" and "n < 2 ^ 63"
  shows "parse_component (show_int n) = Inr n" and "CHR ''.'' \<notin> set (show_int n)"
    and "token_string (show_int n)"
proof -
  obtain k where k: "n = int k" using assms(1) nonneg_int_cases by blast
  have d: "\<forall>ch \<in> set (show_nat k). is_digit ch" by (rule show_nat_digits)
  then show "parse_component (show_int n) = Inr n"
    using assms Atoi_show_nat [of k] by (simp add: k parse_component_def list_all_iff)
  show "CHR ''.'' \<notin> set (show_int n)" using d digit_no_punct by (fastforce simp: k)
  show "token_string (show_int n)" using d by (auto simp: k token_string_def digit_token)
qed

lemma parse_semver_string:
  assumes "semver_range v" shows "ParseSemVer (semver_string v) = Inr v"
proof -
  let ?ns = "[sv_major v, sv_minor v, sv_patch v]"
  have r: "\<forall>n \<in> set ?ns. 0 \<le> n \<and> n < 2 ^ 63" using assms by (simp add: semver_range_def)
  have s: "semver_string v = join_with ''.'' (map show_int ?ns)" by (simp add: semver_string_def)
  have "token_string (semver_string v)"
    using r show_int_parse(3) by (auto simp: s token_string_def token_char_def)
  moreover have "split_on CHR ''.'' (semver_string v) = map show_int ?ns"
    unfolding s using r show_int_parse(2) by (intro split_join) auto
  moreover have "traverse parse_component (map show_int ?ns) = Inr ?ns"
    using r show_int_parse(1) by simp
  ultimately show ?thesis
    by (cases v) (simp add: ParseSemVer_def)
qed

lemma parse_component_range: "parse_component p = Inr n \<Longrightarrow> 0 \<le> n \<and> n < 2 ^ 63"
  by (auto simp: parse_component_def Atoi_def in_int64_def Let_def split: if_splits option.splits prod.splits)

lemma ParseSemVer_range: 
  assumes "ParseSemVer s = Inr v" shows "semver_range v"
proof -
  from assms obtain ns where ns: "traverse parse_component (split_on (CHR ''.'') (TrimSpace s)) = Inr ns"
    and len: "length (split_on (CHR ''.'') (TrimSpace s)) = 3" and v: "v = SemVer (ns ! 0) (ns ! 1) (ns ! 2)"
    by (auto simp: ParseSemVer_def Let_def split: if_splits sum.splits)
  have "length ns = 3" using ns len by (auto simp: traverse_Inr_iff dest: list_all2_lengthD)
  then have "\<forall>n \<in> {ns ! 0, ns ! 1, ns ! 2}. n \<in> set ns" by auto
  then show ?thesis
    using traverse_set [OF ns] parse_component_range unfolding semver_range_def v by fastforce
qed

section \<open>Properties\<close>

text \<open>
  A version that was read and printed is read as the same version again, and reading is
  the only source of versions: their numbers are non-negative and below \<open>2^63\<close>.
\<close>

theorem version_round_trip:
  assumes "ParseSemVer s = Inr v"
  shows "semver_range v \<and> ParseSemVer (semver_string v) = Inr v"
  using ParseSemVer_range [OF assms] parse_semver_string by blast

theorem version_round_trip_witness:
  "ParseSemVer '' 1.20.03'' = Inr (SemVer 1 20 3) \<and> ParseSemVer ''1.20.3'' = Inr (SemVer 1 20 3)"
proof -
  have p: "ParseSemVer '' 1.20.03'' = Inr (SemVer 1 20 3)" by code_simp
  have "semver_string (SemVer 1 20 3) = ''1.20.3''" by code_simp
  with version_round_trip [OF p] p show ?thesis by simp
qed

lemma compatible_iff:
  "IsBackwardCompatible r c \<longleftrightarrow>
     (\<exists>rv cv. ParseSemVer r = Inr rv \<and> ParseSemVer c = Inr cv \<and> sv_major cv = sv_major rv \<and> rv \<le> cv \<and>
        (sv_major rv = 0 \<longrightarrow> sv_minor cv = sv_minor rv))"
proof -
  have "\<not> compareVersion cv rv < 0 \<longleftrightarrow> rv \<le> cv" for cv rv
    by (simp add: not_less flip: less_semver_def)
  then show ?thesis by (auto simp: IsBackwardCompatible_def split: sum.splits)
qed

text \<open>
  Compatibility of versions composes: whatever may stand in for a version that may stand in
  for \<open>a\<close> may stand in for \<open>a\<close>, is of the same major line and not older than \<open>a\<close>.
\<close>

theorem compatibility_composes:
  assumes "IsBackwardCompatible a b" and "IsBackwardCompatible b c"
  shows "IsBackwardCompatible a c \<and> IsBackwardCompatible c c \<and>
    (\<exists>v w. ParseSemVer a = Inr v \<and> ParseSemVer c = Inr w \<and> sv_major v = sv_major w \<and> v \<le> w)"
  using assms by (auto simp: compatible_iff)

theorem compatibility_composes_witness:
  "IsBackwardCompatible ''0.3.1'' ''0.3.9'' \<and> IsBackwardCompatible ''0.3.9'' ''0.3.9''"
proof -
  have "IsBackwardCompatible ''0.3.1'' ''0.3.4''" "IsBackwardCompatible ''0.3.4'' ''0.3.9''" by code_simp+
  from compatibility_composes [OF this] show ?thesis by blast
qed

end
