(* ===== verification/Capabilities.thy ===== *)
theory Capabilities
  imports Expressions Versions
begin

text \<open>
  What devices offer, package \<open>capability\<close>: visibility and roles (\<open>permission.go\<close>), schemas
  (\<open>schema.go\<close>), user interface hints (\<open>ui_hints.go\<close>), capability descriptors
  (\<open>descriptor.go\<close>), entities (\<open>entity.go\<close>) and the check of an action's arguments
  (\<open>action.go\<close>).

  Descriptors and entities are copied through JSON. The copy is the identity but for the
  default values of fields, which the encoder and the decoder put in canonical form.
\<close>

section \<open>Roles and visibility\<close>

datatype role = RoleViewer | RoleOperator | RoleSecurityAdmin | RoleSystem | RoleOther string

datatype visibility =
    VisibilityPublic | VisibilityOperator | VisibilityAdmin | VisibilityInternal
  | VisibilityOther string

definition valid_visibility :: "visibility \<Rightarrow> bool" where
  "valid_visibility v \<longleftrightarrow> (case v of VisibilityOther s \<Rightarrow> False | _ \<Rightarrow> True)"

fun visibleTo :: "visibility \<Rightarrow> role \<Rightarrow> bool" where
  "visibleTo VisibilityPublic r \<longleftrightarrow> r = RoleViewer \<or> r = RoleOperator \<or> r = RoleSecurityAdmin"
| "visibleTo VisibilityOperator r \<longleftrightarrow> r = RoleOperator \<or> r = RoleSecurityAdmin"
| "visibleTo VisibilityAdmin r \<longleftrightarrow> r = RoleSecurityAdmin"
| "visibleTo VisibilityInternal r \<longleftrightarrow> r = RoleSystem"
| "visibleTo (VisibilityOther s) r \<longleftrightarrow> False"

definition validateRole :: "role \<Rightarrow> go_error option" where
  "validateRole r = (case r of RoleOther s \<Rightarrow> Some (Errorf ''capability: invalid role %q'' [s]) | _ \<Rightarrow> None)"

section \<open>Identifiers and lists of names\<close>

definition validate_id :: "string \<Rightarrow> string \<Rightarrow> go_error option" where
  "validate_id label value =
     (let v = TrimSpace value in
      checks
        [fails_if (v = [] \<or> length v > 160) (Errorf ''capability: %s is invalid'' [label]),
         first_err (\<lambda>ch. fails_if (\<not> token_char ch) (Errorf ''capability: %s contains unsupported characters'' [label])) v])"

lemma validate_id_None:
  "validate_id l v = None \<longleftrightarrow> TrimSpace v \<noteq> [] \<and> length (TrimSpace v) \<le> 160 \<and> token_string (TrimSpace v)"
  by (auto simp: validate_id_def Let_def checks_None first_err_None token_string_def)

text \<open>\<open>normalizeStrings\<close>, and the options of the hints: trimmed, without empty ones, once each, sorted.\<close>

definition normalize_strings :: "string list \<Rightarrow> string list" where
  "normalize_strings vs = sort (keep_first [] (filter (\<lambda>v. v \<noteq> []) (map TrimSpace vs)))"

lemma normalize_strings_idem [simp]: "normalize_strings (normalize_strings vs) = normalize_strings vs"
proof -
  let ?n = "normalize_strings vs"
  have t: "\<forall>t \<in> set ?n. t \<noteq> [] \<and> TrimSpace t = t" by (auto simp: normalize_strings_def)
  have d: "distinct ?n" "sorted ?n" by (simp_all add: normalize_strings_def)
  from t have "map TrimSpace ?n = ?n" by (intro map_idI) auto
  moreover from t have "filter (\<lambda>t. t \<noteq> []) ?n = ?n" by simp
  ultimately show ?thesis
    unfolding normalize_strings_def [of ?n] using d by (simp add: keep_first_id sorted_sort_id)
qed

section \<open>Schemas\<close>

record field_schema =
  fs_name :: string
  fs_type :: type_ref
  fs_required :: bool
  fs_description :: string
  fs_enum :: "string list"
  fs_default :: "val option"

type_synonym schema = "field_schema list"

definition field_validate :: "field_schema \<Rightarrow> string list \<Rightarrow> go_error option" where
  "field_validate f seen =
     checks
       [validate_id ''field name'' (fs_name f),
        (case type_normalize (fs_type f) of
           Inl e \<Rightarrow> Some e
         | Inr typ \<Rightarrow>
             checks
               [fails_if (fs_name f \<in> set seen) (Errorf ''capability: duplicate field %q'' [fs_name f]),
                fails_if (fs_enum f \<noteq> [] \<and> tr_kind typ \<noteq> TypeEnum)
                  (Errorf ''capability: field %q enum UI values require enum type'' [fs_name f]),
                (case fs_default f of
                   None \<Rightarrow> None
                 | Some d \<Rightarrow>
                     checks
                       [fails_if (value_check d \<noteq> None) (Errorf ''capability: field %q has invalid default'' [fs_name f]),
                        fails_if (\<not> type_compatible typ (v_type d))
                          (Errorf ''capability: field %q default type does not match schema type'' [fs_name f])])])]"

fun validate_fields :: "string list \<Rightarrow> schema \<Rightarrow> go_error option" where
  "validate_fields seen [] = None"
| "validate_fields seen (f # fs) =
     (case field_validate f seen of Some e \<Rightarrow> Some e | None \<Rightarrow> validate_fields (fs_name f # seen) fs)"

definition schema_validate :: "schema \<Rightarrow> go_error option" where
  "schema_validate s = validate_fields [] s"

definition normalize_field :: "field_schema \<Rightarrow> field_schema" where
  "normalize_field f =
     f\<lparr> fs_name := TrimSpace (fs_name f), fs_description := TrimSpace (fs_description f),
        fs_type := (case type_normalize (fs_type f) of Inl _ \<Rightarrow> fs_type f | Inr t \<Rightarrow> t) \<rparr>"

definition normalize_schema :: "schema \<Rightarrow> schema" where
  "normalize_schema s = map normalize_field s"

text \<open>A copy of a field through JSON: the default is encoded (canonical) and decoded (canonical).\<close>

definition clone_value :: "val \<Rightarrow> go_error + val" where
  "clone_value v = sum_bind (canonical v) canonical"

definition clone_field :: "field_schema \<Rightarrow> go_error + field_schema" where
  "clone_field f =
     (case fs_default f of
        None \<Rightarrow> Inr f
      | Some d \<Rightarrow> sum_bind (clone_value d) (\<lambda>d'. Inr (f\<lparr>fs_default := Some d'\<rparr>)))"

definition clone_schema :: "schema \<Rightarrow> go_error + schema" where
  "clone_schema s = traverse clone_field s"

section \<open>Capability descriptors\<close>

datatype cap_kind = KindTrigger | KindAction | KindState | CapKindOther string

datatype idempotency =
    IdempotencyNone | IdempotencySupported | IdempotencyRequired | IdempotencyOther string

datatype verification_support =
    VerificationNone | VerificationProviderAck | VerificationReadback | VerificationOther string

datatype compensation_class =
    CompensationNone | CompensationAutomatic | CompensationManual | CompensationReconcile
  | CompensationOther string

datatype health_status =
    HealthUnknown | HealthHealthy | HealthDegraded | HealthOffline | HealthOther string

definition valid_idempotency :: "idempotency \<Rightarrow> bool" where
  "valid_idempotency v \<longleftrightarrow> v = IdempotencyNone \<or> v = IdempotencySupported \<or> v = IdempotencyRequired"

definition valid_verification :: "verification_support \<Rightarrow> bool" where
  "valid_verification v \<longleftrightarrow>
     v = VerificationNone \<or> v = VerificationProviderAck \<or> v = VerificationReadback"

definition valid_compensation :: "compensation_class \<Rightarrow> bool" where
  "valid_compensation v \<longleftrightarrow>
     v = CompensationNone \<or> v = CompensationAutomatic \<or> v = CompensationManual \<or>
     v = CompensationReconcile"

definition valid_health :: "health_status \<Rightarrow> bool" where
  "valid_health v \<longleftrightarrow>
     v = HealthUnknown \<or> v = HealthHealthy \<or> v = HealthDegraded \<or> v = HealthOffline"

record ui_hints =
  ui_icon :: string
  ui_group :: string
  ui_control :: string
  ui_placeholder :: string
  ui_unit :: string
  ui_order :: int
  ui_advanced :: bool
  ui_options :: "string list"

definition normalize_ui :: "ui_hints \<Rightarrow> ui_hints" where
  "normalize_ui h =
     h\<lparr> ui_icon := TrimSpace (ui_icon h), ui_group := TrimSpace (ui_group h),
        ui_control := TrimSpace (ui_control h), ui_placeholder := TrimSpace (ui_placeholder h),
        ui_unit := TrimSpace (ui_unit h), ui_options := normalize_strings (ui_options h) \<rparr>"

datatype cap_key = Key (k_id: string) (k_version: string)

definition key_string :: "cap_key \<Rightarrow> string" where
  "key_string k = k_id k @ ''@'' @ k_version k"

record descriptor =
  d_id :: string
  d_version :: string
  d_provider :: string
  d_integration :: string
  d_kind :: cap_kind
  d_category :: string
  d_title :: string
  d_description :: string
  d_entity_kinds :: "string list"
  d_input :: schema
  d_output :: schema
  d_state :: schema
  d_risk :: risk_level
  d_permission :: string
  d_visibility :: visibility
  d_reversible :: bool
  d_external_effect :: bool
  d_idempotency :: idempotency
  d_verification :: verification_support
  d_compensation :: compensation_class
  d_ui :: ui_hints
  d_available :: bool
  d_health :: health_status

definition descriptor_key :: "descriptor \<Rightarrow> cap_key" where
  "descriptor_key d = Key (d_id d) (d_version d)"

text \<open>The validator in three parts: identity, policy and semantics of effects.\<close>

definition descriptor_identity :: "descriptor \<Rightarrow> go_error option" where
  "descriptor_identity d =
     checks
       [validate_id ''capability id'' (d_id d),
        (case ParseSemVer (d_version d) of Inl e \<Rightarrow> Some e | Inr _ \<Rightarrow> None),
        validate_id ''provider id'' (d_provider d),
        validate_id ''integration id'' (d_integration d),
        (case d_kind d of CapKindOther s \<Rightarrow> Some (Errorf ''capability: invalid kind %q'' [s]) | _ \<Rightarrow> None),
        fails_if (TrimSpace (d_category d) = []) (Error ''capability: category is required''),
        fails_if (TrimSpace (d_title d) = []) (Error ''capability: title is required'')]"

definition descriptor_policy :: "descriptor \<Rightarrow> go_error option" where
  "descriptor_policy d =
     checks
       [risk_validate (d_risk d),
        validate_id ''permission'' (d_permission d),
        fails_if (\<not> valid_visibility (d_visibility d)) (Error ''capability: invalid visibility''),
        schema_validate (d_input d), schema_validate (d_output d), schema_validate (d_state d)]"

definition descriptor_semantics :: "descriptor \<Rightarrow> go_error option" where
  "descriptor_semantics d =
     checks
       [fails_if (\<not> valid_idempotency (d_idempotency d)) (Error ''capability: invalid idempotency semantics''),
        fails_if (\<not> valid_verification (d_verification d)) (Error ''capability: invalid verification support''),
        fails_if (\<not> valid_compensation (d_compensation d)) (Error ''capability: invalid compensation class''),
        fails_if (\<not> valid_health (d_health d)) (Error ''capability: invalid health''),
        fails_if (d_external_effect d \<and> d_kind d \<noteq> KindAction)
          (Error ''capability: only actions may declare external effects''),
        fails_if (d_external_effect d \<and> d_idempotency d = IdempotencyNone)
          (Errorf ''capability: external effect %q must declare idempotency semantics'' [d_id d]),
        first_err (validate_id ''entity kind'') (d_entity_kinds d)]"

definition descriptor_validate :: "descriptor \<Rightarrow> go_error option" where
  "descriptor_validate d = checks [descriptor_identity d, descriptor_policy d, descriptor_semantics d]"

definition cloneDescriptor :: "descriptor \<Rightarrow> go_error + descriptor" where
  "cloneDescriptor d =
     sum_bind (clone_schema (d_input d)) (\<lambda>i.
     sum_bind (clone_schema (d_output d)) (\<lambda>out.
     sum_bind (clone_schema (d_state d)) (\<lambda>st.
       Inr (d\<lparr>d_input := i, d_output := out, d_state := st\<rparr>))))"

definition trim_descriptor :: "descriptor \<Rightarrow> descriptor" where
  "trim_descriptor d =
     d\<lparr> d_id := TrimSpace (d_id d), d_version := TrimSpace (d_version d),
        d_provider := TrimSpace (d_provider d), d_integration := TrimSpace (d_integration d),
        d_category := TrimSpace (d_category d), d_title := TrimSpace (d_title d),
        d_description := TrimSpace (d_description d),
        d_entity_kinds := normalize_strings (d_entity_kinds d),
        d_input := normalize_schema (d_input d), d_output := normalize_schema (d_output d),
        d_state := normalize_schema (d_state d), d_ui := normalize_ui (d_ui d) \<rparr>"

definition NormalizeDescriptor :: "descriptor \<Rightarrow> go_error + descriptor" where
  "NormalizeDescriptor source =
     sum_bind (cloneDescriptor source) (\<lambda>d. after_validate descriptor_validate (trim_descriptor d))"

definition NewDescriptor ::
    "cap_kind \<Rightarrow> string \<Rightarrow> string \<Rightarrow> string \<Rightarrow> string \<Rightarrow> string \<Rightarrow> string \<Rightarrow> string \<Rightarrow> go_error + descriptor" where
  "NewDescriptor kind i version provider integration category title permission =
     NormalizeDescriptor
       \<lparr> d_id = i, d_version = version, d_provider = provider, d_integration = integration,
         d_kind = kind, d_category = category, d_title = title, d_description = [],
         d_entity_kinds = [], d_input = [], d_output = [], d_state = [], d_risk = RiskLow,
         d_permission = permission, d_visibility = VisibilityPublic, d_reversible = False,
         d_external_effect = False, d_idempotency = IdempotencyNone,
         d_verification = VerificationNone, d_compensation = CompensationNone,
         d_ui = \<lparr> ui_icon = [], ui_group = [], ui_control = [], ui_placeholder = [], ui_unit = [],
                  ui_order = 0, ui_advanced = False, ui_options = [] \<rparr>,
         d_available = True, d_health = HealthHealthy \<rparr>"

definition NewActionDescriptor where "NewActionDescriptor = NewDescriptor KindAction"
definition NewStateDescriptor where "NewStateDescriptor = NewDescriptor KindState"
definition NewTriggerDescriptor where "NewTriggerDescriptor = NewDescriptor KindTrigger"

section \<open>Entities\<close>

record entity_descriptor =
  en_id :: string
  en_kind :: string
  en_provider :: string
  en_integration :: string
  en_title :: string
  en_description :: string
  en_area :: string
  en_capabilities :: "cap_key list"
  en_visibility :: visibility
  en_available :: bool
  en_health :: health_status

fun validate_entity_keys :: "string \<Rightarrow> string list \<Rightarrow> cap_key list \<Rightarrow> go_error option" where
  "validate_entity_keys i seen [] = None"
| "validate_entity_keys i seen (k # ks) =
     (case checks
        [validate_id ''capability id'' (k_id k),
         (case ParseSemVer (k_version k) of Inl e \<Rightarrow> Some e | Inr _ \<Rightarrow> None),
         fails_if (key_string k \<in> set seen)
           (Errorf ''capability: entity %q contains duplicate capability %q'' [i, key_string k])] of
        Some e \<Rightarrow> Some e
      | None \<Rightarrow> validate_entity_keys i (key_string k # seen) ks)"

definition entity_validate :: "entity_descriptor \<Rightarrow> go_error option" where
  "entity_validate e =
     checks
       [validate_id ''entity id'' (en_id e),
        validate_id ''entity kind'' (en_kind e),
        validate_id ''provider id'' (en_provider e),
        validate_id ''integration id'' (en_integration e),
        fails_if (TrimSpace (en_title e) = []) (Error ''capability: entity title is required''),
        fails_if (\<not> valid_visibility (en_visibility e)) (Error ''capability: invalid entity visibility''),
        fails_if (\<not> valid_health (en_health e)) (Error ''capability: invalid entity health''),
        fails_if (en_capabilities e = []) (Errorf ''capability: entity %q has no capabilities'' [en_id e]),
        validate_entity_keys (en_id e) [] (en_capabilities e)]"

definition normalize_entity :: "entity_descriptor \<Rightarrow> go_error + entity_descriptor" where
  "normalize_entity e =
     after_validate entity_validate
       (e\<lparr> en_id := TrimSpace (en_id e), en_kind := TrimSpace (en_kind e),
           en_provider := TrimSpace (en_provider e), en_integration := TrimSpace (en_integration e),
           en_title := TrimSpace (en_title e), en_description := TrimSpace (en_description e),
           en_area := TrimSpace (en_area e),
           en_capabilities :=
             sort_key key_string
               (map (\<lambda>k. Key (TrimSpace (k_id k)) (TrimSpace (k_version k))) (en_capabilities e)) \<rparr>)"

section \<open>Arguments of an action\<close>

text \<open>An argument whose literal text is no value of the field's enumeration.\<close>

definition enum_allows :: "field_schema \<Rightarrow> expr \<Rightarrow> bool" where
  "enum_allows f e =
     (if fs_enum f \<noteq> [] \<and> ToLower (ex_op e) = ''literal'' then
        (case ex_value e of
           None \<Rightarrow> True
         | Some v \<Rightarrow>
             if tr_kind (v_type v) \<noteq> TypeString then True
             else (case v_data v of
                     None \<Rightarrow> True
                   | Some d \<Rightarrow>
                       (case json_string [] d of None \<Rightarrow> True | Some s \<Rightarrow> s \<in> set (fs_enum f))))
      else True)"

definition check_field :: "(string \<times> expr) list \<Rightarrow> type_env \<Rightarrow> field_schema \<Rightarrow> go_error option" where
  "check_field args env f =
     (let missing = fails_if (fs_required f \<and> fs_default f = None)
            (Errorf ''missing required argument %q'' [fs_name f]) in
      case map_of args (fs_name f) of
        None \<Rightarrow> missing
      | Some e \<Rightarrow>
          if expr_is_zero e then missing
          else
            (case check_expr env e of
               Inl err \<Rightarrow> Some err
             | Inr t \<Rightarrow>
                 checks
                   [fails_if (\<not> type_compatible (fs_type f) t)
                      (Errorf ''argument %q expected type %q, got %q''
                        [fs_name f, kind_text (tr_kind (fs_type f)), kind_text (tr_kind t)]),
                    fails_if (\<not> enum_allows f e) (Errorf ''argument %q is not allowed by enum'' [fs_name f])]))"

definition ValidateActionArguments ::
    "descriptor \<Rightarrow> (string \<times> expr) list \<Rightarrow> type_env \<Rightarrow> go_error option" where
  "ValidateActionArguments d args env =
     checks
       [fails_if (d_kind d \<noteq> KindAction) (Errorf ''capability: descriptor %q is not an action'' [d_id d]),
        first_err
          (\<lambda>(name, _). fails_if (name \<notin> set (map fs_name (d_input d))) (Errorf ''unknown argument %q'' [name]))
          args,
        first_err (check_field args env) (d_input d)]"

section \<open>Normal forms\<close>

definition field_no_timestamp :: "field_schema \<Rightarrow> bool" where
  "field_no_timestamp f \<longleftrightarrow> (case fs_default f of None \<Rightarrow> True | Some d \<Rightarrow> no_timestamp (v_type d))"

definition descriptor_no_timestamp :: "descriptor \<Rightarrow> bool" where
  "descriptor_no_timestamp d \<longleftrightarrow>
     list_all field_no_timestamp (d_input d @ d_output d @ d_state d)"

lemma clone_value_Inr:
  "no_timestamp (v_type v) \<Longrightarrow> clone_value v = Inr w \<longleftrightarrow> canonical v = Inr w"
  by (auto simp: clone_value_def canonical_idem)

lemma canonical_no_timestamp:
  "canonical v = Inr w \<Longrightarrow> no_timestamp (v_type v) \<Longrightarrow> no_timestamp (v_type w)"
  by (simp add: normalize_no_timestamp [OF canonical_type])

lemma clone_field_fixed:
  assumes "clone_field f = Inr g" and "field_no_timestamp f"
  shows "clone_field (normalize_field g) = Inr (normalize_field g)"
proof (cases "fs_default f")
  case None
  with assms(1) show ?thesis by (auto simp: clone_field_def normalize_field_def)
next
  case (Some d)
  with assms(2) have nt: "no_timestamp (v_type d)" by (simp add: field_no_timestamp_def)
  from assms(1) Some nt obtain w where w: "canonical d = Inr w" and g: "g = f\<lparr>fs_default := Some w\<rparr>"
    by (auto simp: clone_field_def clone_value_Inr)
  have "clone_value w = Inr w"
    using canonical_idem [OF w nt] by (simp add: clone_value_def)
  then show ?thesis by (simp add: clone_field_def normalize_field_def g)
qed

lemma normalize_field_idem [simp]: "normalize_field (normalize_field f) = normalize_field f"
  by (auto simp: normalize_field_def type_normalize_idem split: sum.splits)

lemma normalize_schema_idem [simp]: "normalize_schema (normalize_schema s) = normalize_schema s"
  by (simp add: normalize_schema_def)

lemma normalize_ui_idem [simp]: "normalize_ui (normalize_ui h) = normalize_ui h"
  by (simp add: normalize_ui_def)

lemma clone_schema_fixed:
  assumes "clone_schema s = Inr t" and "list_all field_no_timestamp s"
  shows "clone_schema (normalize_schema t) = Inr (normalize_schema t)"
  unfolding clone_schema_def normalize_schema_def
proof (rule traverse_fixed)
  fix x assume "x \<in> set (map normalize_field t)"
  then obtain g where "g \<in> set t" and x: "x = normalize_field g" by auto
  with traverse_set [OF assms(1) [unfolded clone_schema_def]]
  obtain f where f: "f \<in> set s" and g: "clone_field f = Inr g" by blast
  have "field_no_timestamp f" using f assms(2) by (simp add: list_all_iff)
  from clone_field_fixed [OF g this] show "clone_field x = Inr x" by (simp add: x)
qed

lemma trim_descriptor_fields [simp]:
  "d_id (trim_descriptor d) = TrimSpace (d_id d)" "d_version (trim_descriptor d) = TrimSpace (d_version d)"
  "d_input (trim_descriptor d) = normalize_schema (d_input d)"
  "d_output (trim_descriptor d) = normalize_schema (d_output d)"
  "d_state (trim_descriptor d) = normalize_schema (d_state d)"
  by (simp_all add: trim_descriptor_def)

lemma trim_descriptor_idem [simp]: "trim_descriptor (trim_descriptor d) = trim_descriptor d"
  by (cases d) (simp add: trim_descriptor_def)

lemma NormalizeDescriptor_Inr:
  "NormalizeDescriptor d = Inr n \<longleftrightarrow>
     (\<exists>c. cloneDescriptor d = Inr c \<and> n = trim_descriptor c \<and> descriptor_validate n = None)"
  by (auto simp: NormalizeDescriptor_def)

lemma NormalizeDescriptor_valid: "NormalizeDescriptor d = Inr n \<Longrightarrow> descriptor_validate n = None"
  by (auto simp: NormalizeDescriptor_Inr)

lemma cloneDescriptor_Inr:
  "cloneDescriptor d = Inr c \<longleftrightarrow>
     (\<exists>i out st. clone_schema (d_input d) = Inr i \<and> clone_schema (d_output d) = Inr out \<and>
        clone_schema (d_state d) = Inr st \<and> c = d\<lparr>d_input := i, d_output := out, d_state := st\<rparr>)"
  by (auto simp: cloneDescriptor_def)

lemma clone_self:
  "clone_schema (d_input d) = Inr (d_input d) \<Longrightarrow> clone_schema (d_output d) = Inr (d_output d) \<Longrightarrow>
   clone_schema (d_state d) = Inr (d_state d) \<Longrightarrow> cloneDescriptor d = Inr d"
  by (simp add: cloneDescriptor_def)

lemma descriptor_normal_clone:
  assumes "NormalizeDescriptor d = Inr n" and "descriptor_no_timestamp d"
  shows "cloneDescriptor n = Inr n"
proof -
  from assms(1) obtain c where c: "cloneDescriptor d = Inr c" and n: "n = trim_descriptor c"
    by (auto simp: NormalizeDescriptor_Inr)
  from c have "clone_schema (d_input d) = Inr (d_input c)" "clone_schema (d_output d) = Inr (d_output c)"
    "clone_schema (d_state d) = Inr (d_state c)"
    by (auto simp: cloneDescriptor_Inr)
  with assms(2) show ?thesis
    by (intro clone_self) (simp_all add: n descriptor_no_timestamp_def clone_schema_fixed)
qed

lemma NormalizeDescriptor_idem:
  assumes "NormalizeDescriptor d = Inr n" and "descriptor_no_timestamp d"
  shows "NormalizeDescriptor n = Inr n"
  using assms(1) descriptor_normal_clone [OF assms] by (auto simp: NormalizeDescriptor_Inr)

lemma clone_keeps:
  "cloneDescriptor d = Inr c \<Longrightarrow>
   d_id c = d_id d \<and> d_version c = d_version d \<and> d_entity_kinds c = d_entity_kinds d \<and>
   d_visibility c = d_visibility d \<and> d_available c = d_available d \<and> d_kind c = d_kind d \<and>
   d_category c = d_category d"
  by (auto simp: cloneDescriptor_Inr)

lemma normalized_ids:
  assumes "NormalizeDescriptor d = Inr n"
  shows "token_string (d_id n) \<and> TrimSpace (d_id n) = d_id n \<and> TrimSpace (d_version n) = d_version n"
proof -
  from assms obtain c where n: "n = trim_descriptor c" and v: "descriptor_validate n = None"
    by (auto simp: NormalizeDescriptor_Inr)
  from v have "validate_id ''capability id'' (d_id n) = None"
    by (simp add: descriptor_validate_def descriptor_identity_def checks_None)
  then show ?thesis by (simp add: n validate_id_None)
qed

section \<open>Properties\<close>

text \<open>
  When the check of an action's arguments accepts, every argument is a declared field, no
  required field without a default is left out, and each argument given has a type
  compatible with its field and, if it is a literal text, is one of the values allowed.
\<close>

theorem accepted_arguments:
  assumes "ValidateActionArguments d args env = None"
  shows "d_kind d = KindAction \<and> set (map fst args) \<subseteq> set (map fs_name (d_input d)) \<and>
    (\<forall>f \<in> set (d_input d).
      (case map_of args (fs_name f) of
         None \<Rightarrow> \<not> (fs_required f \<and> fs_default f = None)
       | Some e \<Rightarrow>
           if expr_is_zero e then \<not> (fs_required f \<and> fs_default f = None)
           else (\<exists>t. check_expr env e = Inr t \<and> type_compatible (fs_type f) t) \<and> enum_allows f e))"
proof -
  have a: "d_kind d = KindAction" "set (map fst args) \<subseteq> set (map fs_name (d_input d))"
    and c: "\<forall>f \<in> set (d_input d). check_field args env f = None"
    using assms by (auto simp: ValidateActionArguments_def checks_None first_err_None)
  have field_ok: "case map_of args (fs_name f) of
         None \<Rightarrow> \<not> (fs_required f \<and> fs_default f = None)
       | Some e \<Rightarrow>
           if expr_is_zero e then \<not> (fs_required f \<and> fs_default f = None)
           else (\<exists>t. check_expr env e = Inr t \<and> type_compatible (fs_type f) t) \<and> enum_allows f e"
    if f: "check_field args env f = None" for f
  proof (cases "map_of args (fs_name f)")
    case None
    with f show ?thesis by (simp add: check_field_def Let_def)
  next
    case (Some e)
    with f show ?thesis
      by (cases "check_expr env e") (auto simp: check_field_def Let_def checks_None split: if_splits)
  qed
  show ?thesis using a c field_ok by blast
qed

definition siren_descriptor :: descriptor where
  "siren_descriptor =
     \<lparr> d_id = ''siren.sound'', d_version = ''1.2.0'', d_provider = ''core'', d_integration = ''hub'',
       d_kind = KindAction, d_category = ''security'', d_title = ''Sound siren'', d_description = [],
       d_entity_kinds = [''siren''],
       d_input = [\<lparr>fs_name = ''seconds'', fs_type = plain_type TypeInt, fs_required = True,
          fs_description = [], fs_enum = [], fs_default = None\<rparr>],
       d_output = [], d_state = [], d_risk = RiskHigh, d_permission = ''siren:sound'',
       d_visibility = VisibilityOperator, d_reversible = False, d_external_effect = True,
       d_idempotency = IdempotencySupported, d_verification = VerificationNone,
       d_compensation = CompensationNone,
       d_ui = \<lparr> ui_icon = [], ui_group = [], ui_control = [], ui_placeholder = [], ui_unit = [],
                ui_order = 0, ui_advanced = False, ui_options = [] \<rparr>,
       d_available = True, d_health = HealthHealthy \<rparr>"

theorem accepted_arguments_witness:
  "\<exists>t. check_expr Map.empty (Literal (Value (plain_type TypeInt) (Some (JInt 30)))) = Inr t \<and>
     type_compatible (plain_type TypeInt) t"
proof -
  have "ValidateActionArguments siren_descriptor
      [(''seconds'', Literal (Value (plain_type TypeInt) (Some (JInt 30))))] Map.empty = None"
    by code_simp
  moreover have "d_input siren_descriptor = [\<lparr>fs_name = ''seconds'', fs_type = plain_type TypeInt,
      fs_required = True, fs_description = [], fs_enum = [], fs_default = None\<rparr>]"
    by code_simp
  moreover have "\<not> expr_is_zero (Literal (Value (plain_type TypeInt) (Some (JInt 30))))" by code_simp
  ultimately show ?thesis
    using accepted_arguments [of siren_descriptor "[(''seconds'', Literal (Value (plain_type TypeInt) (Some (JInt 30))))]"]
    by simp
qed

text \<open>
  A descriptor that \<open>NormalizeDescriptor\<close> returns is valid, and normalising or copying it
  again gives it back (when no default is a timestamp).
\<close>

theorem descriptor_fixed_point:
  assumes "NormalizeDescriptor d = Inr n" and "descriptor_no_timestamp d"
  shows "descriptor_validate n = None \<and> NormalizeDescriptor n = Inr n \<and> cloneDescriptor n = Inr n"
  using NormalizeDescriptor_valid [OF assms(1)] NormalizeDescriptor_idem [OF assms]
    descriptor_normal_clone [OF assms] by blast

lemma siren_normal: "NormalizeDescriptor siren_descriptor = Inr siren_descriptor"
proof -
  have "cloneDescriptor siren_descriptor = Inr siren_descriptor" by (rule clone_self) code_simp+
  moreover have "trim_descriptor siren_descriptor = siren_descriptor" by code_simp
  moreover have "descriptor_validate siren_descriptor = None" by code_simp
  ultimately show ?thesis by (simp add: NormalizeDescriptor_def)
qed

theorem descriptor_fixed_point_witness:
  "descriptor_validate siren_descriptor = None \<and> cloneDescriptor siren_descriptor = Inr siren_descriptor"
proof -
  have "descriptor_no_timestamp siren_descriptor" by code_simp
  from descriptor_fixed_point [OF siren_normal this] show ?thesis by blast
qed

end
