(* ===== verification/Registry.thy ===== *)
theory Registry
  imports Capabilities "HOL-Library.AList" "HOL-Library.Product_Lexorder" "HOL-Library.Word"
begin

text \<open>
  The capability registry, \<open>capability/registry.go\<close> and \<open>capability/usage.go\<close>.

  The two Go maps are association lists without duplicate keys; the list order is the order in
  which a loop over the map happens to see the entries, which the theorems leave open. Every
  method holds the registry's lock for each access to the maps, so a method is one step, but
  for \<open>Remove\<close> and \<open>RemoveEntity\<close>: they release the lock to ask who uses the capability and
  check again afterwards. Their last part, \<open>remove_commit\<close>, is a step of its own that may
  happen in a later state.

  The invariant is referential integrity: every capability that a registered entity names is
  registered, under the entity's kind.
\<close>

section \<open>State\<close>

datatype scenario_use = ScenarioUse (su_scenario: string) (su_version: "64 word")

record dependency_resolver =
  uses_capability :: "cap_key \<Rightarrow> go_error + scenario_use list"
  uses_entity :: "string \<Rightarrow> go_error + scenario_use list"

definition NoDependencies :: dependency_resolver where
  "NoDependencies = \<lparr> uses_capability = (\<lambda>_. Inr []), uses_entity = (\<lambda>_. Inr []) \<rparr>"

record registry =
  rg_caps :: "(string \<times> descriptor) list"
  rg_ents :: "(string \<times> entity_descriptor) list"
  rg_usage :: "dependency_resolver option"

definition NewRegistry :: "dependency_resolver option \<Rightarrow> registry" where
  "NewRegistry usage = \<lparr> rg_caps = [], rg_ents = [], rg_usage = usage \<rparr>"

abbreviation ErrAlreadyRegistered :: go_error where
  "ErrAlreadyRegistered \<equiv> Error ''capability: already registered''"

abbreviation ErrNotFound :: go_error where
  "ErrNotFound \<equiv> Error ''capability: not found''"

abbreviation ErrInUse :: go_error where
  "ErrInUse \<equiv> Error ''capability: resource is in use''"

abbreviation ErrDependencyResolverRequired :: go_error where
  "ErrDependencyResolverRequired \<equiv> Error ''capability: dependency resolver is required''"

abbreviation ErrEntityReference :: go_error where
  "ErrEntityReference \<equiv> Error ''capability: referenced by registered entity''"

section \<open>Registration and lookup\<close>

definition Register :: "registry \<Rightarrow> descriptor \<Rightarrow> go_error + registry" where
  "Register r source =
     sum_bind (NormalizeDescriptor source) (\<lambda>d.
       let key = key_string (descriptor_key d) in
       if map_of (rg_caps r) key \<noteq> None then Inl ErrAlreadyRegistered
       else Inr (r\<lparr>rg_caps := rg_caps r @ [(key, d)]\<rparr>))"

definition entity_key_error :: "registry \<Rightarrow> entity_descriptor \<Rightarrow> cap_key \<Rightarrow> go_error option" where
  "entity_key_error r e key =
     (case map_of (rg_caps r) (key_string key) of
        None \<Rightarrow> Some (Errorf ''capability: entity references not found'' [en_id e, key_string key])
      | Some d \<Rightarrow>
          fails_if (d_entity_kinds d \<noteq> [] \<and> en_kind e \<notin> set (d_entity_kinds d))
            (Errorf ''capability: %q is not compatible with entity kind %q'' [key_string key, en_kind e]))"

definition RegisterEntity :: "registry \<Rightarrow> entity_descriptor \<Rightarrow> go_error + registry" where
  "RegisterEntity r source =
     sum_bind (normalize_entity source) (\<lambda>e.
       if map_of (rg_ents r) (en_id e) \<noteq> None then Inl ErrAlreadyRegistered
       else (case first_err (entity_key_error r e) (en_capabilities e) of
               Some err \<Rightarrow> Inl err
             | None \<Rightarrow> Inr (r\<lparr>rg_ents := rg_ents r @ [(en_id e, e)]\<rparr>)))"

definition or_none :: "go_error + 'a \<Rightarrow> 'a option" where
  "or_none x = (case x of Inl _ \<Rightarrow> None | Inr a \<Rightarrow> Some a)"

definition Get :: "registry \<Rightarrow> string \<Rightarrow> string \<Rightarrow> descriptor option" where
  "Get r i version =
     Option.bind (map_of (rg_caps r) (key_string (Key i version))) (\<lambda>d. or_none (cloneDescriptor d))"

definition GetEntity :: "registry \<Rightarrow> string \<Rightarrow> entity_descriptor option" where
  "GetEntity r i = Option.bind (map_of (rg_ents r) i) (\<lambda>e. or_none (normalize_entity e))"

definition version_of :: "descriptor \<Rightarrow> semver" where
  "version_of d = (case ParseSemVer (d_version d) of Inl _ \<Rightarrow> SemVer 0 0 0 | Inr v \<Rightarrow> v)"

fun better ::
    "string \<Rightarrow> string \<Rightarrow> string \<times> descriptor \<Rightarrow> (descriptor \<times> semver) option \<Rightarrow> (descriptor \<times> semver) option" where
  "better i required (_, d) best =
     (if d_id d \<noteq> i \<or> \<not> IsBackwardCompatible required (d_version d) then best
      else
        (case best of
           None \<Rightarrow> Some (d, version_of d)
         | Some (b, bv) \<Rightarrow> if compareVersion (version_of d) bv > 0 then Some (d, version_of d) else best))"

definition ResolveCompatible :: "registry \<Rightarrow> string \<Rightarrow> string \<Rightarrow> descriptor option" where
  "ResolveCompatible r i required =
     (case ParseSemVer required of
        Inl _ \<Rightarrow> None
      | Inr _ \<Rightarrow>
          (case fold (better i required) (rg_caps r) None of
             None \<Rightarrow> None
           | Some (d, _) \<Rightarrow> or_none (cloneDescriptor d)))"

section \<open>Lists and snapshots\<close>

record filter_spec =
  fl_role :: role
  fl_kind :: cap_kind
  fl_category :: string
  fl_entity :: string
  fl_unavailable :: bool

definition listed :: "filter_spec \<Rightarrow> string list option \<Rightarrow> string \<times> descriptor \<Rightarrow> bool" where
  "listed f entity_keys kd =
     (case kd of (key, d) \<Rightarrow>
        (case entity_keys of None \<Rightarrow> True | Some ks \<Rightarrow> key \<in> set ks) \<and>
        (fl_kind f = CapKindOther [] \<or> d_kind d = fl_kind f) \<and>
        (fl_category f = [] \<or> d_category d = fl_category f) \<and>
        visibleTo (d_visibility d) (fl_role f) \<and> (fl_unavailable f \<or> d_available d))"

definition List_capabilities :: "registry \<Rightarrow> filter_spec \<Rightarrow> go_error + descriptor list" where
  "List_capabilities r f =
     (case validateRole (fl_role f) of
        Some e \<Rightarrow> Inl e
      | None \<Rightarrow>
          if TrimSpace (fl_entity f) \<noteq> [] \<and> map_of (rg_ents r) (fl_entity f) = None then Inr []
          else
            (let entity_keys =
                   (if TrimSpace (fl_entity f) \<noteq> []
                    then map_option (\<lambda>e. map key_string (en_capabilities e)) (map_of (rg_ents r) (fl_entity f))
                    else None) in
             sum_bind (traverse (cloneDescriptor \<circ> snd) (filter (listed f entity_keys) (rg_caps r))) (\<lambda>out.
               Inr (sort_key (\<lambda>d. (d_category d, d_id d, version_of d)) out))))"

definition entity_has_visible :: "registry \<Rightarrow> entity_descriptor \<Rightarrow> role \<Rightarrow> bool \<Rightarrow> bool" where
  "entity_has_visible r e role unavailable =
     list_ex
       (\<lambda>key. case map_of (rg_caps r) (key_string key) of
          None \<Rightarrow> False
        | Some d \<Rightarrow> visibleTo (d_visibility d) role \<and> (unavailable \<or> d_available d))
       (en_capabilities e)"

definition ListEntities :: "registry \<Rightarrow> role \<Rightarrow> bool \<Rightarrow> go_error + entity_descriptor list" where
  "ListEntities r role unavailable =
     (case validateRole role of
        Some e \<Rightarrow> Inl e
      | None \<Rightarrow>
          sum_bind
            (traverse (normalize_entity \<circ> snd)
              (filter
                (\<lambda>(_, e). visibleTo (en_visibility e) role \<and> (unavailable \<or> en_available e) \<and>
                   entity_has_visible r e role unavailable)
                (rg_ents r))) (\<lambda>out.
            Inr (sort_key en_id out)))"

record snapshot =
  sn_capabilities :: "descriptor list"
  sn_entities :: "entity_descriptor list"

definition Snapshot :: "registry \<Rightarrow> go_error + snapshot" where
  "Snapshot r =
     sum_bind (traverse (cloneDescriptor \<circ> snd) (rg_caps r)) (\<lambda>caps.
     sum_bind (traverse (normalize_entity \<circ> snd) (rg_ents r)) (\<lambda>ents.
       Inr \<lparr> sn_capabilities = sort_key (key_string \<circ> descriptor_key) caps,
             sn_entities = sort_key en_id ents \<rparr>))"

section \<open>Health and removal\<close>

definition SetCapabilityHealth :: "registry \<Rightarrow> cap_key \<Rightarrow> bool \<Rightarrow> health_status \<Rightarrow> go_error + registry" where
  "SetCapabilityHealth r key available health =
     (if \<not> valid_health health then Inl (Error ''capability: invalid health'')
      else (case map_of (rg_caps r) (key_string key) of
              None \<Rightarrow> Inl ErrNotFound
            | Some d \<Rightarrow>
                Inr (r\<lparr>rg_caps :=
                  AList.update (key_string key) (d\<lparr>d_available := available, d_health := health\<rparr>) (rg_caps r)\<rparr>)))"

definition SetEntityHealth :: "registry \<Rightarrow> string \<Rightarrow> bool \<Rightarrow> health_status \<Rightarrow> go_error + registry" where
  "SetEntityHealth r i available health =
     (if \<not> valid_health health then Inl (Error ''capability: invalid health'')
      else (case map_of (rg_ents r) i of
              None \<Rightarrow> Inl ErrNotFound
            | Some e \<Rightarrow>
                Inr (r\<lparr>rg_ents :=
                  AList.update i (e\<lparr>en_available := available, en_health := health\<rparr>) (rg_ents r)\<rparr>)))"

definition entityReference :: "registry \<Rightarrow> cap_key \<Rightarrow> string option" where
  "entityReference r key =
     map_option (en_id \<circ> snd) (find (\<lambda>(_, e). key \<in> set (en_capabilities e)) (rg_ents r))"

definition remove_guard :: "registry \<Rightarrow> cap_key \<Rightarrow> go_error option" where
  "remove_guard r key =
     checks
       [fails_if (map_of (rg_caps r) (key_string key) = None) ErrNotFound,
        fails_if (entityReference r key \<noteq> None) ErrEntityReference]"

definition remove_commit :: "registry \<Rightarrow> cap_key \<Rightarrow> go_error + registry" where
  "remove_commit r key =
     (case remove_guard r key of
        Some e \<Rightarrow> Inl e
      | None \<Rightarrow> Inr (r\<lparr>rg_caps := AList.delete (key_string key) (rg_caps r)\<rparr>))"

definition usage_guard ::
    "registry \<Rightarrow> (dependency_resolver \<Rightarrow> go_error + scenario_use list) \<Rightarrow> go_error option" where
  "usage_guard r uses =
     (case rg_usage r of
        None \<Rightarrow> Some ErrDependencyResolverRequired
      | Some u \<Rightarrow> (case uses u of Inl e \<Rightarrow> Some e | Inr us \<Rightarrow> fails_if (us \<noteq> []) ErrInUse))"

definition Remove :: "registry \<Rightarrow> cap_key \<Rightarrow> go_error + registry" where
  "Remove r key =
     (case checks [remove_guard r key, usage_guard r (\<lambda>u. uses_capability u key)] of
        Some e \<Rightarrow> Inl e
      | None \<Rightarrow> remove_commit r key)"

definition remove_entity_commit :: "registry \<Rightarrow> string \<Rightarrow> go_error + registry" where
  "remove_entity_commit r i =
     (if map_of (rg_ents r) i = None then Inl ErrNotFound
      else Inr (r\<lparr>rg_ents := AList.delete i (rg_ents r)\<rparr>))"

definition RemoveEntity :: "registry \<Rightarrow> string \<Rightarrow> go_error + registry" where
  "RemoveEntity r i =
     (case checks
        [fails_if (map_of (rg_ents r) i = None) ErrNotFound, usage_guard r (\<lambda>u. uses_entity u i)] of
        Some e \<Rightarrow> Inl e
      | None \<Rightarrow> remove_entity_commit r i)"

definition ScenariosUsingCapability :: "registry \<Rightarrow> cap_key \<Rightarrow> go_error + scenario_use list" where
  "ScenariosUsingCapability r key =
     (case rg_usage r of None \<Rightarrow> Inl ErrDependencyResolverRequired | Some u \<Rightarrow> uses_capability u key)"

definition ScenariosUsingEntity :: "registry \<Rightarrow> string \<Rightarrow> go_error + scenario_use list" where
  "ScenariosUsingEntity r i =
     (case rg_usage r of None \<Rightarrow> Inl ErrDependencyResolverRequired | Some u \<Rightarrow> uses_entity u i)"

section \<open>Keys\<close>

text \<open>
  The maps are indexed by the text \<open>id@version\<close>. Neither identifiers nor versions contain an
  \<open>@\<close>, so the text determines the key.
\<close>

definition clean_key :: "cap_key \<Rightarrow> bool" where
  "clean_key k \<longleftrightarrow> CHR ''@'' \<notin> set (k_id k) \<and> CHR ''@'' \<notin> set (k_version k)"

lemma split_at_unique: "a @ x # b = c @ x # d \<Longrightarrow> x \<notin> set a \<Longrightarrow> x \<notin> set b \<Longrightarrow> a = c \<and> b = d"
proof -
  assume e: "a @ x # b = c @ x # d" and x: "x \<notin> set a" "x \<notin> set b"
  then obtain us where "a = c @ us \<and> us @ x # b = x # d \<or> a @ us = c \<and> x # b = us @ x # d"
    by (auto simp: append_eq_append_conv2)
  with x show ?thesis by (cases us) auto
qed

lemma key_string_inj: "key_string k = key_string l \<Longrightarrow> clean_key k \<Longrightarrow> k = l"
  using split_at_unique [of "k_id k" "CHR ''@''" "k_version k" "k_id l" "k_version l"]
  by (cases k; cases l) (auto simp: key_string_def clean_key_def)

lemma at_no_token: "\<not> token_char (CHR ''@'')"
  by (simp add: token_char_def less_eq_char_def)

lemma split_on_set: "set s \<subseteq> {sep} \<union> \<Union> (set ` set (split_on sep s))"
proof (induction s)
  case (Cons a s)
  obtain p ps where sp: "split_on sep s = p # ps" by (cases "split_on sep s") simp_all
  with Cons.IH have "set s \<subseteq> {sep} \<union> (set p \<union> \<Union> (set ` set ps))" by simp
  then show ?case by (cases "a = sep") (simp_all add: sp, blast+)
qed simp

lemma version_no_at:
  assumes "ParseSemVer s = Inr v" shows "CHR ''@'' \<notin> set (TrimSpace s)"
proof
  assume "CHR ''@'' \<in> set (TrimSpace s)"
  with split_on_set [of "TrimSpace s" "CHR ''.''"]
  obtain p where p: "p \<in> set (split_on (CHR ''.'') (TrimSpace s))" and at: "CHR ''@'' \<in> set p" by auto
  from assms obtain ns where "traverse parse_component (split_on (CHR ''.'') (TrimSpace s)) = Inr ns"
    by (auto simp: ParseSemVer_def Let_def split: if_splits sum.splits)
  with p obtain n where "parse_component p = Inr n"
    by (fastforce simp: traverse_Inr_iff list_all2_conv_all_nth in_set_conv_nth)
  then have "list_all is_digit p" by (auto simp: parse_component_def split: if_splits)
  with at show False by (auto simp: list_all_iff is_digit_def less_eq_char_def)
qed

lemma trimmed_key_clean:
  assumes "validate_id l (k_id k) = None" and "ParseSemVer (k_version k) = Inr v"
    and "TrimSpace (k_id k) = k_id k" and "TrimSpace (k_version k) = k_version k"
  shows "clean_key k"
  using assms version_no_at [OF assms(2)] at_no_token
  by (auto simp: clean_key_def validate_id_None token_string_def)

section \<open>The invariant\<close>

definition names_registered :: "registry \<Rightarrow> entity_descriptor \<Rightarrow> bool" where
  "names_registered r e \<longleftrightarrow> (\<forall>key \<in> set (en_capabilities e). entity_key_error r e key = None)"

definition registry_inv :: "registry \<Rightarrow> bool" where
  "registry_inv r \<longleftrightarrow>
     distinct (map fst (rg_caps r)) \<and> distinct (map fst (rg_ents r)) \<and>
     (\<forall>(key, d) \<in> set (rg_caps r).
        key = key_string (descriptor_key d) \<and> clean_key (descriptor_key d) \<and> descriptor_validate d = None) \<and>
     (\<forall>(i, e) \<in> set (rg_ents r).
        i = en_id e \<and> entity_validate e = None \<and> (\<forall>key \<in> set (en_capabilities e). clean_key key) \<and>
        names_registered r e)"

lemma names_registered_iff:
  "names_registered r e \<longleftrightarrow>
     (\<forall>key \<in> set (en_capabilities e). \<exists>d. map_of (rg_caps r) (key_string key) = Some d \<and>
        (d_entity_kinds d = [] \<or> en_kind e \<in> set (d_entity_kinds d)))"
  by (auto simp: names_registered_def entity_key_error_def split: option.splits)

lemma registry_inv_new: "registry_inv (NewRegistry u)"
  by (simp add: registry_inv_def NewRegistry_def)

lemma normalized_key_clean: "NormalizeDescriptor s = Inr d \<Longrightarrow> clean_key (descriptor_key d)"
proof -
  assume n: "NormalizeDescriptor s = Inr d"
  then have "descriptor_identity d = None"
    using NormalizeDescriptor_valid by (auto simp: descriptor_validate_def checks_None)
  then obtain v where "validate_id ''capability id'' (d_id d) = None" and "ParseSemVer (d_version d) = Inr v"
    by (auto simp: descriptor_identity_def checks_None split: sum.splits)
  with normalized_ids [OF n] show ?thesis
    by (intro trimmed_key_clean) (auto simp: descriptor_key_def)
qed

lemma inv_register:
  assumes "registry_inv r" and "Register r s = Inr r'" shows "registry_inv r'"
proof -
  from assms(2) obtain d where d: "NormalizeDescriptor s = Inr d"
    and new: "map_of (rg_caps r) (key_string (descriptor_key d)) = None"
    and r': "r' = r\<lparr>rg_caps := rg_caps r @ [(key_string (descriptor_key d), d)]\<rparr>"
    by (auto simp: Register_def Let_def split: if_splits)
  have "names_registered r' e" if "names_registered r e" for e
    using that by (fastforce simp: names_registered_iff r' map_add_def split: option.splits)
  moreover have "key_string (descriptor_key d) \<notin> fst ` set (rg_caps r)"
    using new by (simp add: map_of_eq_None_iff)
  ultimately show ?thesis
    using assms(1) normalized_key_clean [OF d] NormalizeDescriptor_valid [OF d]
    by (fastforce simp: registry_inv_def r')
qed

lemma entity_keys_None:
  "validate_entity_keys i seen ks = None \<longleftrightarrow>
     (\<forall>k \<in> set ks. validate_id ''capability id'' (k_id k) = None \<and> (\<exists>v. ParseSemVer (k_version k) = Inr v)) \<and>
     distinct (map key_string ks) \<and> set (map key_string ks) \<inter> set seen = {}"
proof (induction ks arbitrary: seen)
  case (Cons k ks)
  show ?case
  proof (cases "validate_id ''capability id'' (k_id k) = None \<and> (\<exists>v. ParseSemVer (k_version k) = Inr v) \<and>
      key_string k \<notin> set seen")
    case True
    with Cons.IH [of "key_string k # seen"] show ?thesis by (auto simp: fails_if_def)
  next
    case False
    then have "validate_entity_keys i seen (k # ks) \<noteq> None"
      by (cases "validate_id ''capability id'' (k_id k)"; cases "ParseSemVer (k_version k)")
        (auto simp: fails_if_def)
    with False show ?thesis by auto
  qed
qed simp

lemma normalized_entity:
  assumes "normalize_entity s = Inr e"
  shows "entity_validate e = None" and "\<forall>key \<in> set (en_capabilities e). clean_key key"
proof -
  from assms show v: "entity_validate e = None" by (auto simp: normalize_entity_def)
  then have k: "validate_entity_keys (en_id e) [] (en_capabilities e) = None"
    by (simp add: entity_validate_def checks_None)
  from assms have "\<forall>key \<in> set (en_capabilities e). TrimSpace (k_id key) = k_id key \<and> TrimSpace (k_version key) = k_version key"
    by (auto simp: normalize_entity_def)
  with k show "\<forall>key \<in> set (en_capabilities e). clean_key key"
    unfolding entity_keys_None by (blast intro: trimmed_key_clean)
qed

lemma inv_register_entity:
  assumes "registry_inv r" and "RegisterEntity r s = Inr r'" shows "registry_inv r'"
proof -
  from assms(2) obtain e where e: "normalize_entity s = Inr e" and new: "map_of (rg_ents r) (en_id e) = None"
    and ok: "names_registered r e" and r': "r' = r\<lparr>rg_ents := rg_ents r @ [(en_id e, e)]\<rparr>"
    by (auto simp: RegisterEntity_def names_registered_def first_err_None split: if_splits option.splits)
  have n: "names_registered r' x \<longleftrightarrow> names_registered r x" for x by (simp add: names_registered_iff r')
  have caps: "rg_caps r' = rg_caps r" and ents: "rg_ents r' = rg_ents r @ [(en_id e, e)]" by (simp_all add: r')
  have "en_id e \<notin> fst ` set (rg_ents r)" using new by (simp add: map_of_eq_None_iff)
  with assms(1) ok normalized_entity [OF e] show ?thesis
    unfolding registry_inv_def n caps ents by simp
qed

lemma update_entry:
  "map_of m k = Some x \<Longrightarrow> map fst (AList.update k y m) = map fst m \<and>
   set (AList.update k y m) \<subseteq> insert (k, y) (set m)"
  by (induction m) auto

lemma inv_capability_health:
  assumes "registry_inv r" and "SetCapabilityHealth r key a h = Inr r'" shows "registry_inv r'"
proof -
  from assms(2) obtain d where d: "map_of (rg_caps r) (key_string key) = Some d" and h: "valid_health h"
    and r': "r' = r\<lparr>rg_caps := AList.update (key_string key) (d\<lparr>d_available := a, d_health := h\<rparr>) (rg_caps r)\<rparr>"
    by (auto simp: SetCapabilityHealth_def split: if_splits option.splits)
  let ?d = "d\<lparr>d_available := a, d_health := h\<rparr>"
  have caps: "rg_caps r' = AList.update (key_string key) ?d (rg_caps r)" and ents: "rg_ents r' = rg_ents r"
    by (simp_all add: r')
  from assms(1) map_of_SomeD [OF d] have ok: "key_string key = key_string (descriptor_key d)"
    "clean_key (descriptor_key d)" "descriptor_validate d = None" by (auto simp: registry_inv_def)
  then have "descriptor_validate ?d = None" using h
    by (simp add: descriptor_validate_def checks_None descriptor_identity_def descriptor_policy_def
        descriptor_semantics_def)
  moreover have n: "names_registered r' e" if "names_registered r e" for e
    using that d unfolding names_registered_iff caps by (auto simp: update_conv')
  moreover have "descriptor_key ?d = descriptor_key d" by (simp add: descriptor_key_def)
  ultimately show ?thesis
    using assms(1) ok update_entry [OF d, of ?d] unfolding registry_inv_def caps ents by fastforce
qed

lemma inv_entity_health:
  assumes "registry_inv r" and "SetEntityHealth r i a h = Inr r'" shows "registry_inv r'"
proof -
  from assms(2) obtain e where e: "map_of (rg_ents r) i = Some e" and h: "valid_health h"
    and r': "r' = r\<lparr>rg_ents := AList.update i (e\<lparr>en_available := a, en_health := h\<rparr>) (rg_ents r)\<rparr>"
    by (auto simp: SetEntityHealth_def split: if_splits option.splits)
  let ?e = "e\<lparr>en_available := a, en_health := h\<rparr>"
  have caps: "rg_caps r' = rg_caps r" and ents: "rg_ents r' = AList.update i ?e (rg_ents r)"
    by (simp_all add: r')
  from assms(1) map_of_SomeD [OF e] have ok: "i = en_id e" "entity_validate e = None"
    "\<forall>key \<in> set (en_capabilities e). clean_key key" "names_registered r e" by (auto simp: registry_inv_def)
  then have "entity_validate ?e = None" using h by (simp add: entity_validate_def checks_None)
  moreover have n: "names_registered r' x \<longleftrightarrow> names_registered r x" for x
    by (simp add: names_registered_iff caps)
  moreover have "names_registered r ?e" using ok(4) by (simp add: names_registered_iff)
  ultimately show ?thesis
    using assms(1) ok update_entry [OF e, of ?e] unfolding registry_inv_def caps ents n by fastforce
qed

lemma not_referenced:
  "entityReference r key = None \<longleftrightarrow> (\<forall>(i, e) \<in> set (rg_ents r). key \<notin> set (en_capabilities e))"
  by (auto simp: entityReference_def find_None_iff)

lemma set_delete: "set (AList.delete k m) \<subseteq> set m"
  by (auto simp: AList.delete_eq)

lemma delete_keys: "distinct (map fst m) \<Longrightarrow> distinct (map fst (AList.delete k m))"
  by (induction m) (auto simp: AList.delete_eq)

text \<open>
  Removal keeps the invariant because the text of the removed key determines the key that the
  guard looked for in the entities.
\<close>

lemma inv_remove:
  assumes "registry_inv r" and "remove_commit r key = Inr r'" shows "registry_inv r'"
proof -
  from assms(2) have there: "map_of (rg_caps r) (key_string key) \<noteq> None"
    and free: "entityReference r key = None"
    and r': "r' = r\<lparr>rg_caps := AList.delete (key_string key) (rg_caps r)\<rparr>"
    by (auto simp: remove_commit_def remove_guard_def checks_None split: option.splits)
  have caps: "rg_caps r' = AList.delete (key_string key) (rg_caps r)" and ents: "rg_ents r' = rg_ents r"
    by (simp_all add: r')
  have "names_registered r' e" if e: "(i, e) \<in> set (rg_ents r)" for i e
    unfolding names_registered_iff caps
  proof
    fix k assume k: "k \<in> set (en_capabilities e)"
    have "clean_key k" using assms(1) e k by (fastforce simp: registry_inv_def)
    moreover have "k \<noteq> key" using free e k by (auto simp: not_referenced)
    ultimately have "key_string k \<noteq> key_string key" using key_string_inj by blast
    moreover have "names_registered r e" using assms(1) e by (fastforce simp: registry_inv_def)
    ultimately show "\<exists>d. map_of (AList.delete (key_string key) (rg_caps r)) (key_string k) = Some d \<and>
        (d_entity_kinds d = [] \<or> en_kind e \<in> set (d_entity_kinds d))"
      using k by (auto simp: names_registered_iff delete_conv')
  qed
  then show ?thesis
    using assms(1) set_delete [of "key_string key" "rg_caps r"] delete_keys [of "rg_caps r"]
    unfolding registry_inv_def caps ents by fastforce
qed

lemma inv_remove_entity:
  assumes "registry_inv r" and "remove_entity_commit r i = Inr r'" shows "registry_inv r'"
proof -
  from assms(2) have r': "r' = r\<lparr>rg_ents := AList.delete i (rg_ents r)\<rparr>"
    by (auto simp: remove_entity_commit_def split: if_splits)
  have caps: "rg_caps r' = rg_caps r" and ents: "rg_ents r' = AList.delete i (rg_ents r)" by (simp_all add: r')
  have n: "names_registered r' x \<longleftrightarrow> names_registered r x" for x
    by (simp add: names_registered_iff caps)
  show ?thesis
    using assms(1) set_delete [of i "rg_ents r"] delete_keys [of "rg_ents r"]
    unfolding registry_inv_def caps ents n by fastforce
qed

section \<open>Steps\<close>

text \<open>What clients may do to a registry, in any order.\<close>

inductive registry_step :: "registry \<Rightarrow> registry \<Rightarrow> bool" where
  register: "Register r d = Inr r' \<Longrightarrow> registry_step r r'"
| register_entity: "RegisterEntity r e = Inr r' \<Longrightarrow> registry_step r r'"
| capability_health: "SetCapabilityHealth r key a h = Inr r' \<Longrightarrow> registry_step r r'"
| entity_health: "SetEntityHealth r i a h = Inr r' \<Longrightarrow> registry_step r r'"
| remove: "remove_commit r key = Inr r' \<Longrightarrow> registry_step r r'"
| remove_entity: "remove_entity_commit r i = Inr r' \<Longrightarrow> registry_step r r'"

inductive registry_reachable :: "registry \<Rightarrow> bool" where
  initial: "registry_reachable (NewRegistry u)"
| step: "registry_reachable r \<Longrightarrow> registry_step r r' \<Longrightarrow> registry_reachable r'"

lemmas registry_inv_ops =
  inv_register inv_register_entity inv_capability_health inv_entity_health inv_remove inv_remove_entity

lemma registry_step_inv: "registry_step r r' \<Longrightarrow> registry_inv r \<Longrightarrow> registry_inv r'"
  by (induction rule: registry_step.induct) (blast intro: registry_inv_ops)+

lemma reachable_inv: "registry_reachable r \<Longrightarrow> registry_inv r"
  by (induction rule: registry_reachable.induct) (auto intro: registry_inv_new registry_step_inv)

lemma traverse_set_eq: "traverse f xs = Inr ys \<Longrightarrow> set ys = {y. \<exists>x \<in> set xs. f x = Inr y}"
  by (fastforce simp: traverse_Inr_iff list_all2_conv_all_nth in_set_conv_nth)

section \<open>Resolution\<close>

definition candidate :: "string \<Rightarrow> string \<Rightarrow> descriptor \<Rightarrow> bool" where
  "candidate i required d \<longleftrightarrow> d_id d = i \<and> IsBackwardCompatible required (d_version d)"

lemma compare_less: "compareVersion v w > 0 \<longleftrightarrow> w < v"
  by (auto simp: less_semver_def compareVersion_def split: if_splits)

lemma best_is_maximal:
  "case fold (better i required) xs None of
     None \<Rightarrow> \<forall>(k, d) \<in> set xs. \<not> candidate i required d
   | Some (b, bv) \<Rightarrow>
       bv = version_of b \<and> candidate i required b \<and> (\<exists>k. (k, b) \<in> set xs) \<and>
       (\<forall>(k, d) \<in> set xs. candidate i required d \<longrightarrow> version_of d \<le> version_of b)"
proof (induction xs rule: rev_induct)
  case (snoc x xs)
  obtain k d where x: "x = (k, d)" by (cases x)
  show ?case
  proof (cases "candidate i required d")
    case False
    then have "better i required x best = best" for best by (auto simp: x candidate_def)
    with snoc.IH False show ?thesis by (auto simp: x split: option.splits)
  next
    case True
    then have step: "better i required (k, d) best =
        (case best of None \<Rightarrow> Some (d, version_of d)
         | Some (b, bv) \<Rightarrow> if bv < version_of d then Some (d, version_of d) else best)" for best
      by (auto simp: x candidate_def compare_less split: option.splits)
    show ?thesis
    proof (cases "fold (better i required) xs None")
      case None
      with snoc.IH have "\<forall>(k, d) \<in> set xs. \<not> candidate i required d" by simp
      then have "\<forall>(k, e) \<in> set xs. candidate i required e \<longrightarrow> version_of e \<le> version_of d" by auto
      with \<open>candidate i required d\<close> show ?thesis by (auto simp: step x None simp del: better.simps)
    next
      case (Some bb)
      obtain b bv where bb: "bb = (b, bv)" by (cases bb)
      with snoc.IH Some have ih: "bv = version_of b" "candidate i required b" "\<exists>k. (k, b) \<in> set xs"
        "\<forall>(k, d) \<in> set xs. candidate i required d \<longrightarrow> version_of d \<le> version_of b" by auto
      show ?thesis
      proof (cases "bv < version_of d")
        case True
        with ih(1,4) have "\<forall>(k, e) \<in> set xs. candidate i required e \<longrightarrow> version_of e \<le> version_of d"
          by fastforce
        with True \<open>candidate i required d\<close> show ?thesis by (auto simp: step Some bb x simp del: better.simps)
      next
        case False
        with ih show ?thesis by (auto simp: step Some bb x simp del: better.simps)
      qed
    qed
  qed
qed simp

lemma resolve_Some:
  assumes "ResolveCompatible r i required = Some c"
  obtains k d where "(k, d) \<in> set (rg_caps r)" and "candidate i required d" and "cloneDescriptor d = Inr c"
    and "\<forall>(k', d') \<in> set (rg_caps r). candidate i required d' \<longrightarrow> version_of d' \<le> version_of d"
proof -
  from assms obtain d v where f: "fold (better i required) (rg_caps r) None = Some (d, v)"
    and c: "cloneDescriptor d = Inr c"
    by (auto simp: ResolveCompatible_def or_none_def split: sum.splits option.splits)
  then show thesis
    using best_is_maximal [where i = i and required = required and xs = "rg_caps r"] by (auto intro: that)
qed

lemma resolve_promises:
  assumes "ResolveCompatible r i required = Some c"
  shows "d_id c = i" and "IsBackwardCompatible required (d_version c)"
proof -
  from assms obtain k d where d: "candidate i required d" and c: "cloneDescriptor d = Inr c"
    by (rule resolve_Some)
  from d clone_keeps [OF c] show "d_id c = i" "IsBackwardCompatible required (d_version c)"
    by (auto simp: candidate_def)
qed

section \<open>Properties\<close>

definition siren_registry :: registry where
  "siren_registry =
     \<lparr> rg_caps =
         [(''siren.sound@1.2.0'', siren_descriptor),
          (''siren.sound@1.10.0'', siren_descriptor\<lparr>d_version := ''1.10.0''\<rparr>)],
       rg_ents = [], rg_usage = Some NoDependencies \<rparr>"

text \<open>
  C20. Referential integrity. In every state that registrations, health reports and removals can
  reach, in any order and with other operations between the two phases of a removal, every
  capability that a registered entity names is registered, and it admits the entity's kind.
\<close>

theorem registered_entities_supported:
  assumes "registry_reachable r" and "(i, e) \<in> set (rg_ents r)" and "key \<in> set (en_capabilities e)"
  shows "\<exists>d. map_of (rg_caps r) (key_string key) = Some d \<and> descriptor_key d = key \<and>
    descriptor_validate d = None \<and> (d_entity_kinds d = [] \<or> en_kind e \<in> set (d_entity_kinds d))"
proof -
  have inv: "registry_inv r" by (rule reachable_inv [OF assms(1)])
  then have "names_registered r e" "clean_key key" using assms(2,3) by (fastforce simp: registry_inv_def)+
  then obtain d where d: "map_of (rg_caps r) (key_string key) = Some d"
    "d_entity_kinds d = [] \<or> en_kind e \<in> set (d_entity_kinds d)"
    using assms(3) by (auto simp: names_registered_iff)
  with inv map_of_SomeD [OF d(1)] have "key_string key = key_string (descriptor_key d)"
    "descriptor_validate d = None" by (auto simp: registry_inv_def)
  with d key_string_inj \<open>clean_key key\<close> show ?thesis by metis
qed

definition siren_entity :: entity_descriptor where
  "siren_entity =
     \<lparr> en_id = ''siren-1'', en_kind = ''siren'', en_provider = ''core'', en_integration = ''hub'',
       en_title = ''Siren'', en_description = [], en_area = [],
       en_capabilities = [Key ''siren.sound'' ''1.2.0''], en_visibility = VisibilityPublic,
       en_available = True, en_health = HealthHealthy \<rparr>"

lemma siren_entity_normal: "normalize_entity siren_entity = Inr siren_entity"
  by code_simp

theorem registered_entities_supported_witness:
  "\<exists>r d. registry_reachable r \<and> map_of (rg_caps r) ''siren.sound@1.2.0'' = Some d \<and>
     d_entity_kinds d \<noteq> [] \<and> ''siren'' \<in> set (d_entity_kinds d)"
proof -
  let ?k = "''siren.sound@1.2.0''"
  let ?r0 = "NewRegistry None" and ?r1 = "\<lparr>rg_caps = [(?k, siren_descriptor)], rg_ents = [], rg_usage = None\<rparr>"
  let ?r2 = "?r1\<lparr>rg_ents := [(''siren-1'', siren_entity)]\<rparr>"
  have key: "key_string (descriptor_key siren_descriptor) = ?k" by code_simp
  have "Register ?r0 siren_descriptor = Inr ?r1"
    by (simp add: Register_def siren_normal Let_def key NewRegistry_def)
  moreover have "first_err (entity_key_error ?r1 siren_entity) (en_capabilities siren_entity) = None" by code_simp
  then have "RegisterEntity ?r1 siren_entity = Inr ?r2"
    by (simp add: RegisterEntity_def siren_entity_normal) (simp add: siren_entity_def)
  ultimately have reach: "registry_reachable ?r2"
    by (blast intro: registry_reachable.intros registry_step.intros)
  from registered_entities_supported [OF reach, of "''siren-1''" siren_entity "Key ''siren.sound'' ''1.2.0''"]
  have "\<exists>d. map_of (rg_caps ?r2) ?k = Some d \<and> (d_entity_kinds d = [] \<or> en_kind siren_entity \<in> set (d_entity_kinds d))"
    by (auto simp: siren_entity_def key_string_def)
  moreover have "map_of (rg_caps ?r2) ?k = Some siren_descriptor" by simp
  moreover have "d_entity_kinds siren_descriptor = [''siren'']" by (simp add: siren_descriptor_def)
  moreover have "en_kind siren_entity = ''siren''" by (simp add: siren_entity_def)
  ultimately show ?thesis using reach by (intro exI [of _ ?r2] exI [of _ siren_descriptor]) simp
qed

text \<open>
  Resolution returns a copy of a registered capability of the requested id that is
  compatible with the requested version, and no compatible registered version is newer,
  whatever the order in which the map is traversed.
\<close>

theorem resolve_newest_compatible:
  assumes "ResolveCompatible r i required = Some c"
  shows "d_id c = i \<and> IsBackwardCompatible required (d_version c) \<and>
    (\<exists>(k, d) \<in> set (rg_caps r). cloneDescriptor d = Inr c) \<and>
    (\<forall>(k, d) \<in> set (rg_caps r). d_id d = i \<and> IsBackwardCompatible required (d_version d) \<longrightarrow>
       version_of d \<le> version_of c)"
proof -
  from assms obtain k d where d: "(k, d) \<in> set (rg_caps r)" "candidate i required d" "cloneDescriptor d = Inr c"
    "\<forall>(k', d') \<in> set (rg_caps r). candidate i required d' \<longrightarrow> version_of d' \<le> version_of d"
    by (rule resolve_Some)
  have "version_of c = version_of d" using clone_keeps [OF d(3)] by (simp add: version_of_def)
  with d resolve_promises [OF assms] show ?thesis by (auto simp: candidate_def)
qed

theorem resolve_newest_compatible_witness:
  "\<exists>c. ResolveCompatible siren_registry ''siren.sound'' ''1.1.0'' = Some c \<and> SemVer 1 10 0 \<le> version_of c"
proof -
  have "ResolveCompatible siren_registry ''siren.sound'' ''1.1.0'' \<noteq> None" by code_simp
  then obtain c where c: "ResolveCompatible siren_registry ''siren.sound'' ''1.1.0'' = Some c" by auto
  have "(''siren.sound@1.10.0'', siren_descriptor\<lparr>d_version := ''1.10.0''\<rparr>) \<in> set (rg_caps siren_registry)"
    by (simp add: siren_registry_def)
  moreover have "version_of (siren_descriptor\<lparr>d_version := ''1.10.0''\<rparr>) = SemVer 1 10 0"
    "d_id (siren_descriptor\<lparr>d_version := ''1.10.0''\<rparr>) = ''siren.sound''"
    "IsBackwardCompatible ''1.1.0'' (d_version (siren_descriptor\<lparr>d_version := ''1.10.0''\<rparr>))" by code_simp+
  ultimately have "SemVer 1 10 0 \<le> version_of c" using resolve_newest_compatible [OF c] by fastforce
  with c show ?thesis by blast
qed

text \<open>
  A list shows a role exactly the registered capabilities of the requested kind and category
  that the role may see and that are available, or all of those when unavailable ones are asked
  for, in the order of category, identifier and version.
\<close>

theorem listed_exactly_visible:
  assumes "List_capabilities r f = Inr ds" and "TrimSpace (fl_entity f) = []"
  shows "sorted (map (\<lambda>d. (d_category d, d_id d, version_of d)) ds) \<and>
    set ds = {d. \<exists>(k, s) \<in> set (rg_caps r). cloneDescriptor s = Inr d \<and>
      visibleTo (d_visibility d) (fl_role f) \<and> (d_available d \<or> fl_unavailable f) \<and>
      (fl_kind f \<noteq> CapKindOther [] \<longrightarrow> d_kind d = fl_kind f) \<and>
      (fl_category f \<noteq> [] \<longrightarrow> d_category d = fl_category f)}" (is "_ \<and> _ = ?shown")
proof -
  from assms obtain out where
    t: "traverse (cloneDescriptor \<circ> snd) (filter (listed f None) (rg_caps r)) = Inr out" and
    ds: "ds = sort_key (\<lambda>d. (d_category d, d_id d, version_of d)) out"
    by (auto simp: List_capabilities_def split: option.splits)
  have same: "d_visibility d = d_visibility s \<and> d_available d = d_available s \<and> d_kind d = d_kind s \<and>
      d_category d = d_category s" if "cloneDescriptor s = Inr d" for s d
    using clone_keeps [OF that] by simp
  have "set out = {d. \<exists>x \<in> set (filter (listed f None) (rg_caps r)). (cloneDescriptor \<circ> snd) x = Inr d}"
    by (rule traverse_set_eq [OF t])
  also have "\<dots> = ?shown" using same by (fastforce simp: listed_def)
  finally show ?thesis by (simp add: ds)
qed

theorem listed_exactly_visible_witness:
  "\<exists>ds. List_capabilities siren_registry
      \<lparr>fl_role = RoleViewer, fl_kind = KindAction, fl_category = [], fl_entity = [], fl_unavailable = False\<rparr> = Inr ds \<and>
    sorted (map (\<lambda>d. (d_category d, d_id d, version_of d)) ds)"
  (is "\<exists>ds. ?L = Inr ds \<and> _")
proof -
  have "or_none ?L \<noteq> None" by code_simp
  then obtain ds where "?L = Inr ds" by (cases ?L) (auto simp: or_none_def)
  moreover have "TrimSpace [] = ([] :: string)" by code_simp
  ultimately show ?thesis using listed_exactly_visible [of siren_registry _ ds] by simp
qed

text \<open>
  A capability is removed if and only if it is registered, no registered entity names it, a
  dependency resolver is configured and that resolver reports no scenario which uses it; then
  its key alone disappears. In every other case the registry reports an error.
\<close>

theorem Remove_iff:
  "Remove r key = Inr r' \<longleftrightarrow>
     map_of (rg_caps r) (key_string key) \<noteq> None \<and>
     (\<forall>(i, e) \<in> set (rg_ents r). key \<notin> set (en_capabilities e)) \<and>
     (\<exists>u. rg_usage r = Some u \<and> uses_capability u key = Inr []) \<and>
     r' = r\<lparr>rg_caps := AList.delete (key_string key) (rg_caps r)\<rparr>"
proof -
  have "entityReference r key = None \<longleftrightarrow> (\<forall>(i, e) \<in> set (rg_ents r). key \<notin> set (en_capabilities e))"
    by (auto simp: entityReference_def find_None_iff)
  moreover have "usage_guard r (\<lambda>u. uses_capability u key) = None \<longleftrightarrow>
      (\<exists>u. rg_usage r = Some u \<and> uses_capability u key = Inr [])"
    by (auto simp: usage_guard_def split: option.splits sum.splits)
  moreover have "remove_guard r key = None \<longleftrightarrow>
      map_of (rg_caps r) (key_string key) \<noteq> None \<and> entityReference r key = None"
    by (auto simp: remove_guard_def checks_None)
  moreover have "Remove r key = Inr r' \<longleftrightarrow>
      remove_guard r key = None \<and> usage_guard r (\<lambda>u. uses_capability u key) = None \<and>
      r' = r\<lparr>rg_caps := AList.delete (key_string key) (rg_caps r)\<rparr>"
    by (cases "remove_guard r key"; cases "usage_guard r (\<lambda>u. uses_capability u key)")
       (auto simp: Remove_def remove_commit_def)
  ultimately show ?thesis by simp
qed

theorem Remove_iff_witness:
  "Remove siren_registry (Key ''siren.sound'' ''1.2.0'') =
     Inr (siren_registry\<lparr>rg_caps := AList.delete ''siren.sound@1.2.0'' (rg_caps siren_registry)\<rparr>)"
  unfolding Remove_iff by (simp add: siren_registry_def NoDependencies_def key_string_def)

end
