(* ===== verification/Resolution.thy ===== *)
theory Resolution
  imports Diagnostics Registry
begin

text \<open>
  The first passes of the compiler: the type environment of a scenario, \<open>compiler/bindings.go\<close>,
  and the resolution of its capability references, \<open>compiler/resolve.go\<close>.

  The passes ask the registry one question, \<open>ResolveCompatible\<close>. What they rely on is the locale
  \<open>capability_source\<close>; the registry is its interpretation. The sets \<open>seenPerms\<close>,
  \<open>seenResources\<close> and \<open>seenEntities\<close> of the code always hold the keys of the lists beside them
  and are read off these lists here.
\<close>

section \<open>The type environment\<close>

definition home_mode_type :: type_ref where
  "home_mode_type =
     TypeRef TypeEnum [] ''home_mode'' []
       [''armed_away'', ''armed_home'', ''armed_night'', ''disarmed'', ''vacation''] None"

definition standard_env :: type_env where
  "standard_env =
     [''state.home.mode'' \<mapsto> home_mode_type, ''state.home.presence'' \<mapsto> plain_type TypeBool,
      ''home.mode'' \<mapsto> home_mode_type]"

definition bind_param :: "param \<Rightarrow> type_env \<times> diagnostics \<Rightarrow> type_env \<times> diagnostics" where
  "bind_param p s =
     (case s of (env, ds) \<Rightarrow>
        (case type_normalize (pa_type p) of
           Inl _ \<Rightarrow>
             (env, ds @ [Diag CodeTypeMismatch SeverityError (''parameters['' @ pa_id p @ ''].type'')])
         | Inr t \<Rightarrow> (env(''parameter.'' @ pa_id p \<mapsto> t), ds)))"

definition bind_output :: "string \<Rightarrow> field_schema \<Rightarrow> type_env \<Rightarrow> type_env" where
  "bind_output i f env =
     (let env' = env(''trigger.'' @ fs_name f \<mapsto> fs_type f) in
      if i = [] then env' else env'(''trigger.'' @ i @ ''.'' @ fs_name f \<mapsto> fs_type f))"

definition bind_default :: "string \<times> type_ref \<Rightarrow> type_env \<Rightarrow> type_env" where
  "bind_default b env = (case env (fst b) of None \<Rightarrow> env(fst b \<mapsto> snd b) | Some _ \<Rightarrow> env)"

definition trigger_defaults :: "(string \<times> type_ref) list" where
  "trigger_defaults =
     [(''trigger.person.name'', plain_type TypeString), (''trigger.snapshot'', plain_type TypeArtifactRef),
      (''trigger.confidence'', TypeRef TypeConfidence ''ratio'' [] [] [] None),
      (''trigger.timestamp'', plain_type TypeTimestamp)]"

definition bind_trigger :: "registry option \<Rightarrow> trigger \<Rightarrow> type_env \<Rightarrow> type_env" where
  "bind_trigger reg t env =
     fold bind_default trigger_defaults
       (case reg of
          None \<Rightarrow> env
        | Some r \<Rightarrow>
            if cr_id (tg_capability t) = [] then env
            else (case ResolveCompatible r (cr_id (tg_capability t)) (cr_version (tg_capability t)) of
                    None \<Rightarrow> env
                  | Some d \<Rightarrow> fold (bind_output (tg_id t)) (d_output d) env))"

definition bind_state :: "string \<Rightarrow> field_schema \<Rightarrow> type_env \<Rightarrow> type_env" where
  "bind_state i f env =
     env(''device.'' @ i @ ''.'' @ fs_name f \<mapsto> fs_type f, ''state.'' @ i @ ''.'' @ fs_name f \<mapsto> fs_type f)"

definition bind_entity_capability :: "registry \<Rightarrow> string \<Rightarrow> cap_key \<Rightarrow> type_env \<Rightarrow> type_env" where
  "bind_entity_capability r i key env =
     (case Get r (k_id key) (k_version key) of
        None \<Rightarrow> env
      | Some d \<Rightarrow> if d_kind d = KindState then fold (bind_state i) (d_state d) env else env)"

definition bind_entities :: "registry option \<Rightarrow> type_env \<Rightarrow> type_env" where
  "bind_entities reg env =
     (case reg of
        None \<Rightarrow> env
      | Some r \<Rightarrow>
          (case Snapshot r of
             Inl _ \<Rightarrow> env
           | Inr snap \<Rightarrow>
               fold (\<lambda>e. fold (bind_entity_capability r (en_id e)) (en_capabilities e))
                 (sn_entities snap) env))"

definition BuildTypeEnvironment :: "scenario \<Rightarrow> registry option \<Rightarrow> type_env \<times> diagnostics" where
  "BuildTypeEnvironment s reg =
     (case fold bind_param (scn_parameters s) (standard_env, []) of
        (env, ds) \<Rightarrow> (bind_entities reg (fold (bind_trigger reg) (scn_triggers s) env), ds))"

section \<open>Resolved capabilities\<close>

record resolved_capabilities =
  rs_descriptors :: "string \<Rightarrow> descriptor option"
  rs_entities :: "entity_ref list"
  rs_permissions :: "string list"
  rs_resources :: "string list"
  rs_versions :: "(string \<times> string) list"

definition no_capabilities :: resolved_capabilities where
  "no_capabilities =
     \<lparr> rs_descriptors = Map.empty, rs_entities = [], rs_permissions = [], rs_resources = [],
       rs_versions = [] \<rparr>"

definition resource_key :: "entity_ref \<Rightarrow> string" where
  "resource_key e = er_kind e @ '':'' @ er_id e"

definition add_once :: "('a \<Rightarrow> 'b) \<Rightarrow> 'a \<Rightarrow> 'a list \<Rightarrow> 'a list" where
  "add_once key x xs = (if key x \<in> key ` set xs then xs else xs @ [x])"

definition note_descriptor :: "descriptor \<Rightarrow> resolved_capabilities \<Rightarrow> resolved_capabilities" where
  "note_descriptor d r =
     r\<lparr> rs_descriptors := (rs_descriptors r)(d_id d \<mapsto> d),
        rs_versions := AList.update (d_id d) (d_version d) (rs_versions r),
        rs_permissions :=
          (if d_permission d = [] then rs_permissions r
           else add_once id (d_permission d) (rs_permissions r)) \<rparr>"

definition note_entity :: "entity_ref option \<Rightarrow> resolved_capabilities \<Rightarrow> resolved_capabilities" where
  "note_entity x r =
     (case x of
        None \<Rightarrow> r
      | Some e \<Rightarrow> if er_id e = [] then r else r\<lparr>rs_entities := add_once resource_key e (rs_entities r)\<rparr>)"

definition note_resource :: "entity_ref option \<Rightarrow> resolved_capabilities \<Rightarrow> resolved_capabilities" where
  "note_resource x r =
     (case x of
        None \<Rightarrow> r
      | Some e \<Rightarrow>
          if er_id e = [] then r
          else r\<lparr>rs_resources := add_once id (resource_key e) (rs_resources r)\<rparr>)"

type_synonym resolve_state = "resolved_capabilities \<times> diagnostics"

definition resolve_trigger ::
    "(string \<Rightarrow> string \<Rightarrow> descriptor option) \<Rightarrow> nat \<times> trigger \<Rightarrow> resolve_state \<Rightarrow> resolve_state" where
  "resolve_trigger resolve x s =
     (case (x, s) of ((i, t), (r, ds)) \<Rightarrow>
        let c = tg_capability t in
        if cr_id c = [] then s
        else (case resolve (cr_id c) (cr_version c) of
                None \<Rightarrow>
                  (r, ds @ [Diag CodeCapabilityNotFound SeverityError
                              (''triggers['' @ show_nat i @ ''].capability'')])
              | Some d \<Rightarrow> (note_entity (cr_entity c) (note_descriptor d r), ds)))"

definition resolve_action ::
    "(string \<Rightarrow> string \<Rightarrow> descriptor option) \<Rightarrow> string \<Rightarrow> action_step \<Rightarrow> resolve_state \<Rightarrow> resolve_state" where
  "resolve_action resolve path a s =
     (case s of (r, ds) \<Rightarrow>
        let c = ac_capability a in
        (case resolve (cr_id c) (cr_version c) of
           None \<Rightarrow> (r, ds @ [Diag CodeCapabilityNotFound SeverityError path])
         | Some d \<Rightarrow>
             (note_resource (cr_entity c) (note_entity (cr_entity c) (note_descriptor d r)),
              ds @ report_if (d_health d = HealthOffline) CodeCapabilityUnavailable SeverityWarning path)))"

text \<open>The loop goes on with the next step, past the nested flows, when an action is not found.\<close>

definition action_found :: "(string \<Rightarrow> string \<Rightarrow> descriptor option) \<Rightarrow> step \<Rightarrow> bool" where
  "action_found resolve st =
     (case st_action st of
        None \<Rightarrow> True
      | Some a \<Rightarrow> resolve (cr_id (ac_capability a)) (cr_version (ac_capability a)) \<noteq> None)"

definition resolve_walker ::
    "(string \<Rightarrow> string \<Rightarrow> descriptor option) \<Rightarrow> (string, resolve_state) walker" where
  "resolve_walker resolve =
     path_walker (\<lambda>st _. action_found resolve st)
       (\<lambda>q st s. case st_action st of
          None \<Rightarrow> s
        | Some a \<Rightarrow> resolve_action resolve (q @ ''.action.capability'') a s)
       (\<lambda>_ _ _ s. s)"

definition resolve_with ::
    "(string \<Rightarrow> string \<Rightarrow> descriptor option) \<Rightarrow> scenario \<Rightarrow> resolve_state" where
  "resolve_with resolve s =
     walk_flow (resolve_walker resolve) ''flow'' (scn_flow s)
       (fold (resolve_trigger resolve) (enumerate 0 (scn_triggers s)) (no_capabilities, []))"

definition ResolveCapabilities :: "scenario \<Rightarrow> registry option \<Rightarrow> resolve_state" where
  "ResolveCapabilities s reg =
     (case reg of
        None \<Rightarrow> (no_capabilities, [])
      | Some r \<Rightarrow> resolve_with (ResolveCompatible r) s)"

section \<open>What resolution records\<close>

text \<open>
  The record is consistent: descriptors are filed under their own identifier with the version
  and the permission that belong to them, and nothing is listed twice.
\<close>

definition resolved_inv :: "resolved_capabilities \<Rightarrow> bool" where
  "resolved_inv r \<longleftrightarrow>
     (\<forall>i d. rs_descriptors r i = Some d \<longrightarrow>
        d_id d = i \<and> map_of (rs_versions r) i = Some (d_version d) \<and>
        (d_permission d = [] \<or> d_permission d \<in> set (rs_permissions r))) \<and>
     fst ` set (rs_versions r) = dom (rs_descriptors r) \<and>
     distinct (rs_permissions r) \<and> distinct (rs_resources r) \<and> distinct (map resource_key (rs_entities r))"

lemma add_once_set [simp]: "set (add_once id x xs) = insert x (set xs)"
  by (auto simp: add_once_def)

lemma add_once_keys [simp]: "key ` set (add_once key x xs) = insert (key x) (key ` set xs)"
  by (auto simp: add_once_def)

lemma add_once_distinct: "distinct (map key xs) \<Longrightarrow> distinct (map key (add_once key x xs))"
  by (auto simp: add_once_def)

lemma add_once_distinct_id: "distinct xs \<Longrightarrow> distinct (add_once id x xs)"
  by (auto simp: add_once_def)

lemma note_descriptor_fields [simp]:
  "rs_descriptors (note_descriptor d r) = (rs_descriptors r)(d_id d \<mapsto> d)"
  "rs_versions (note_descriptor d r) = AList.update (d_id d) (d_version d) (rs_versions r)"
  "rs_permissions (note_descriptor d r) =
     (if d_permission d = [] then rs_permissions r else add_once id (d_permission d) (rs_permissions r))"
  "rs_resources (note_descriptor d r) = rs_resources r" "rs_entities (note_descriptor d r) = rs_entities r"
  by (simp_all add: note_descriptor_def)

lemma note_entity_fields [simp]:
  "rs_descriptors (note_entity x r) = rs_descriptors r" "rs_versions (note_entity x r) = rs_versions r"
  "rs_permissions (note_entity x r) = rs_permissions r" "rs_resources (note_entity x r) = rs_resources r"
  "rs_entities (note_entity x r) =
     (case x of None \<Rightarrow> rs_entities r
      | Some e \<Rightarrow> if er_id e = [] then rs_entities r else add_once resource_key e (rs_entities r))"
  by (simp_all add: note_entity_def split: option.splits)

lemma note_resource_fields [simp]:
  "rs_descriptors (note_resource x r) = rs_descriptors r" "rs_versions (note_resource x r) = rs_versions r"
  "rs_permissions (note_resource x r) = rs_permissions r" "rs_entities (note_resource x r) = rs_entities r"
  "rs_resources (note_resource x r) =
     (case x of None \<Rightarrow> rs_resources r
      | Some e \<Rightarrow> if er_id e = [] then rs_resources r else add_once id (resource_key e) (rs_resources r))"
  by (simp_all add: note_resource_def split: option.splits)

lemma resolved_inv_none [simp]: "resolved_inv no_capabilities"
  by (simp add: resolved_inv_def no_capabilities_def)

lemma resolved_inv_descriptor: "resolved_inv r \<Longrightarrow> resolved_inv (note_descriptor d r)"
  by (auto simp: resolved_inv_def add_once_distinct_id AList.update_conv AList.dom_update)

lemma resolved_inv_entity: "resolved_inv r \<Longrightarrow> resolved_inv (note_entity x r)"
  by (auto simp: resolved_inv_def add_once_distinct split: option.splits)

lemma resolved_inv_resource: "resolved_inv r \<Longrightarrow> resolved_inv (note_resource x r)"
  by (auto simp: resolved_inv_def add_once_distinct_id split: option.splits)

lemmas resolved_inv_intros = resolved_inv_descriptor resolved_inv_entity resolved_inv_resource

lemma resolve_trigger_inv: "resolved_inv (fst s) \<Longrightarrow> resolved_inv (fst (resolve_trigger resolve x s))"
  by (cases x; cases s) (auto simp: resolve_trigger_def Let_def resolved_inv_intros split: option.splits)

lemma resolve_action_inv: "resolved_inv (fst s) \<Longrightarrow> resolved_inv (fst (resolve_action resolve q a s))"
  by (cases s) (auto simp: resolve_action_def Let_def resolved_inv_intros split: option.splits)

lemma fold_preserves: "P s \<Longrightarrow> (\<And>x s. P s \<Longrightarrow> P (g x s)) \<Longrightarrow> P (fold g xs s)"
  by (induction xs arbitrary: s) auto

lemma resolve_event:
  "enter (resolve_walker resolve) q st c s = s"
  "visit (resolve_walker resolve) q st s =
     (case st_action st of None \<Rightarrow> s | Some a \<Rightarrow> resolve_action resolve (q @ ''.action.capability'') a s)"
  by (simp_all add: resolve_walker_def)

lemma resolve_with_preserves:
  assumes "P (no_capabilities, [])" and "\<And>x s. P s \<Longrightarrow> P (resolve_trigger resolve x s)"
    and "\<And>q a s. P s \<Longrightarrow> P (resolve_action resolve q a s)"
  shows "P (resolve_with resolve s)"
  unfolding resolve_with_def
proof (rule walk_preserves [where P = P])
  show "P (fold (resolve_trigger resolve) (enumerate 0 (scn_triggers s)) (no_capabilities, []))"
    using assms(1,2) by (rule fold_preserves)
  show "P (run_event (resolve_walker resolve) e t)" if "P t" for e t
    using that assms(3) by (cases e) (auto simp: resolve_event split: option.splits)
qed

lemma resolve_with_inv: "resolved_inv (fst (resolve_with resolve s))"
  by (rule resolve_with_preserves) (auto intro: resolve_trigger_inv resolve_action_inv)

text \<open>What a reference leaves in the record, and that it stays there.\<close>

definition use_noted :: "capability_ref \<Rightarrow> descriptor \<Rightarrow> resolved_capabilities \<Rightarrow> bool" where
  "use_noted c d r \<longleftrightarrow>
     rs_descriptors r (d_id d) \<noteq> None \<and>
     (d_permission d = [] \<or> d_permission d \<in> set (rs_permissions r)) \<and>
     (case cr_entity c of
        None \<Rightarrow> True
      | Some e \<Rightarrow>
          er_id e = [] \<or>
          resource_key e \<in> set (rs_resources r) \<and> resource_key e \<in> resource_key ` set (rs_entities r))"

lemma use_noted_action:
  "use_noted c d (fst s) \<Longrightarrow> use_noted c d (fst (resolve_action resolve q a s))"
  by (cases s) (auto simp: use_noted_def resolve_action_def Let_def split: option.splits)

lemma use_noted_new:
  "resolve (cr_id (ac_capability a)) (cr_version (ac_capability a)) = Some d \<Longrightarrow>
   use_noted (ac_capability a) d (fst (resolve_action resolve q a s))"
  by (cases s) (auto simp: use_noted_def resolve_action_def Let_def split: option.splits)

lemma errors_stay: "HasErrors (snd s) \<Longrightarrow> HasErrors (snd (resolve_action resolve q a s))"
  by (cases s) (auto simp: resolve_action_def Let_def split: option.splits)

lemma not_found_error:
  "resolve (cr_id (ac_capability a)) (cr_version (ac_capability a)) = None \<Longrightarrow>
   HasErrors (snd (resolve_action resolve q a s))"
  by (cases s) (auto simp: resolve_action_def Let_def HasErrors_def)

section \<open>Sources of capabilities\<close>

text \<open>
  What the passes rely on when they ask for a capability: the answer has the identifier that was
  asked for, and a version that a reader of the asked version can use.
\<close>

locale capability_source =
  fixes resolve :: "string \<Rightarrow> string \<Rightarrow> descriptor option"
  assumes resolve_id: "resolve i v = Some d \<Longrightarrow> d_id d = i"
    and resolve_version: "resolve i v = Some d \<Longrightarrow> IsBackwardCompatible v (d_version d)"
begin

lemma all_found:
  assumes "\<not> HasErrors (snd (resolve_with resolve s))" and "st \<in> set (all_steps (scn_flow s))"
    and "st_action st = Some a"
  shows "\<exists>d. resolve (cr_id (ac_capability a)) (cr_version (ac_capability a)) = Some d \<and>
    use_noted (ac_capability a) d (fst (resolve_with resolve s))"
proof -
  let ?w = "resolve_walker resolve"
  have desc: "descend ?w = (\<lambda>st _. action_found resolve st)" by (simp add: resolve_walker_def)
  have visited: "\<exists>q. Visit q x \<in> set (flow_events ?w ''flow'' (scn_flow s))"
    if "x \<in> set (steps_under (descend ?w) (scn_flow s))" for x
    using that by (simp add: visited_step)
  have found: "action_found resolve x" if x: "x \<in> set (steps_under (descend ?w) (scn_flow s))" for x
  proof (rule ccontr)
    assume "\<not> action_found resolve x"
    then obtain b where b: "st_action x = Some b"
      "resolve (cr_id (ac_capability b)) (cr_version (ac_capability b)) = None"
      by (auto simp: action_found_def split: option.splits)
    from visited [OF x] obtain q where q: "Visit q x \<in> set (flow_events ?w ''flow'' (scn_flow s))" by blast
    have "HasErrors (snd (resolve_with resolve s))"
      unfolding resolve_with_def
    proof (rule walk_establishes [OF q, where P = "\<lambda>t. HasErrors (snd t)"])
      show "HasErrors (snd (run_event ?w (Visit q x) t))" for t
        using b by (simp add: resolve_event not_found_error)
      show "HasErrors (snd (run_event ?w e t))" if "HasErrors (snd t)" for e t
        using that by (cases e) (auto simp: resolve_event errors_stay split: option.splits)
    qed
    with assms(1) show False by blast
  qed
  have "steps_under (descend ?w) (scn_flow s) = all_steps (scn_flow s)"
    by (rule steps_under_all) (use found in \<open>simp add: desc\<close>)
  with assms(2) have st: "st \<in> set (steps_under (descend ?w) (scn_flow s))" by simp
  from found [OF st] assms(3) obtain d where
    d: "resolve (cr_id (ac_capability a)) (cr_version (ac_capability a)) = Some d"
    by (auto simp: action_found_def)
  from visited [OF st] obtain q where q: "Visit q st \<in> set (flow_events ?w ''flow'' (scn_flow s))" by blast
  have "use_noted (ac_capability a) d (fst (resolve_with resolve s))"
    unfolding resolve_with_def
  proof (rule walk_establishes [OF q, where P = "\<lambda>t. use_noted (ac_capability a) d (fst t)"])
    show "use_noted (ac_capability a) d (fst (run_event ?w (Visit q st) t))" for t
      using assms(3) d by (simp add: resolve_event use_noted_new)
    show "use_noted (ac_capability a) d (fst (run_event ?w e t))" if "use_noted (ac_capability a) d (fst t)" for e t
      using that by (cases e) (auto simp: resolve_event use_noted_action split: option.splits)
  qed
  with d show ?thesis by blast
qed

text \<open>Whatever is filed under an identifier is an answer to a question about that identifier.\<close>

definition answers :: "resolved_capabilities \<Rightarrow> bool" where
  "answers r \<longleftrightarrow> (\<forall>i d. rs_descriptors r i = Some d \<longrightarrow> (\<exists>v. resolve i v = Some d))"

lemma resolve_with_answers: "answers (fst (resolve_with resolve s))"
proof (rule resolve_with_preserves)
  show "answers (fst (no_capabilities, []))" by (simp add: answers_def no_capabilities_def)
  have noted: "answers (note_descriptor d r)" if "answers r" "resolve i v = Some d" for i v d r
    using that resolve_id [OF that(2)] by (auto simp: answers_def)
  show "answers (fst (resolve_trigger resolve x t))" if "answers (fst t)" for x t
    using that noted [unfolded answers_def]
    by (cases x; cases t) (auto simp: resolve_trigger_def Let_def answers_def split: option.splits)
  show "answers (fst (resolve_action resolve q a t))" if "answers (fst t)" for q a t
    using that noted [unfolded answers_def]
    by (cases t) (auto simp: resolve_action_def Let_def answers_def split: option.splits)
qed

lemma resolved_descriptor:
  assumes "rs_descriptors (fst (resolve_with resolve s)) i = Some d"
  shows "\<exists>v. resolve i v = Some d \<and> IsBackwardCompatible v (d_version d)"
  using resolve_with_answers [of s] resolve_version assms unfolding answers_def by blast

end

interpretation registry_source: capability_source "ResolveCompatible r" for r
  by unfold_locales (auto dest: resolve_promises)

lemma actions_are_resolved:
  assumes "ResolveCapabilities s (Some r) = (res, ds)" and "\<not> HasErrors ds"
    and "st \<in> set (all_steps (scn_flow s))" and "st_action st = Some a"
  obtains d where "ResolveCompatible r (cr_id (ac_capability a)) (cr_version (ac_capability a)) = Some d"
    and "use_noted (ac_capability a) d res"
  using registry_source.all_found [of r s st a] assms by (auto simp: ResolveCapabilities_def)

section \<open>Examples\<close>

definition act :: "string \<Rightarrow> string \<Rightarrow> entity_ref option \<Rightarrow> arguments \<Rightarrow> step" where
  "act i cap e args =
     Step i StepAction (Some (ActionStep (CapabilityRef cap ''1.1.0'' e) args None))
       None None None None None None None None"

definition branch :: "string \<Rightarrow> step list \<Rightarrow> step" where
  "branch i steps =
     Step i StepIf None None
       (Some (IfStep (Literal (Value (plain_type TypeBool) (Some (JBool True)))) (Flow steps) None))
       None None None None None None"

definition siren_step :: step where
  "siren_step =
     act ''sound'' ''siren.sound'' (Some (EntityRef ''siren-1'' ''siren''))
       [(''seconds'', Literal (Value (plain_type TypeInt) (Some (JInt 30))))]"

definition siren_trigger :: trigger where
  "siren_trigger =
     \<lparr> tg_id = ''t1'', tg_kind = TriggerManual, tg_capability = CapabilityRef ''siren.sound'' ''1.2.0'' None,
       tg_parameters = [], tg_filter = Expr [] [] None [], tg_temporal = [] \<rparr>"

definition siren_scenario :: scenario where
  "siren_scenario =
     \<lparr> scn_id = ''night'', scn_revision = ''rev_1'', scn_version = 0, scn_name = ''Night alarm'',
       scn_description = [], scn_enabled = True, scn_triggers = [siren_trigger],
       scn_condition = Expr [] [] None [],
       scn_flow = Flow (branch ''night'' [siren_step] # flow_steps stop_flow),
       scn_parameters = [], scn_metadata = \<lparr> md_tags = [], md_labels = [], md_layout = [] \<rparr> \<rparr>"

section \<open>Properties\<close>

text \<open>
  If resolution reports no error then every action of the flow, at any depth, refers to a
  capability that the registry resolves to a compatible version; its permission is among the
  required permissions and the entity it acts on among the physical resources. What is filed
  under an identifier is an answer of the registry for that identifier, with its version.
\<close>

theorem actions_resolved:
  assumes "ResolveCapabilities s (Some r) = (res, ds)" and "\<not> HasErrors ds"
    and "st \<in> set (all_steps (scn_flow s))" and "st_action st = Some a"
  shows "(\<exists>d. ResolveCompatible r (cr_id (ac_capability a)) (cr_version (ac_capability a)) = Some d \<and>
      d_id d = cr_id (ac_capability a) \<and>
      IsBackwardCompatible (cr_version (ac_capability a)) (d_version d) \<and>
      (d_permission d = [] \<or> d_permission d \<in> set (rs_permissions res))) \<and>
    (\<exists>d v. rs_descriptors res (cr_id (ac_capability a)) = Some d \<and> d_id d = cr_id (ac_capability a) \<and>
      ResolveCompatible r (d_id d) v = Some d \<and> map_of (rs_versions res) (d_id d) = Some (d_version d)) \<and>
    (\<forall>e. cr_entity (ac_capability a) = Some e \<longrightarrow> er_id e \<noteq> [] \<longrightarrow>
      er_kind e @ '':'' @ er_id e \<in> set (rs_resources res))"
proof -
  have res: "res = fst (resolve_with (ResolveCompatible r) s)" "ds = snd (resolve_with (ResolveCompatible r) s)"
    using assms(1) by (simp_all add: ResolveCapabilities_def)
  from actions_are_resolved [OF assms] obtain d where
    d: "ResolveCompatible r (cr_id (ac_capability a)) (cr_version (ac_capability a)) = Some d" and
    u: "use_noted (ac_capability a) d res" .
  note id = registry_source.resolve_id [OF d] and version = registry_source.resolve_version [OF d]
  from u id obtain d' where d': "rs_descriptors res (cr_id (ac_capability a)) = Some d'"
    by (auto simp: use_noted_def)
  have inv: "resolved_inv res" using resolve_with_inv [of "ResolveCompatible r" s] res by simp
  from d' inv have "d_id d' = cr_id (ac_capability a)" "map_of (rs_versions res) (d_id d') = Some (d_version d')"
    by (auto simp: resolved_inv_def)
  moreover obtain v where "ResolveCompatible r (cr_id (ac_capability a)) v = Some d'"
    using registry_source.resolved_descriptor [of r s] d' res by blast
  moreover have "\<forall>e. cr_entity (ac_capability a) = Some e \<longrightarrow> er_id e \<noteq> [] \<longrightarrow>
      er_kind e @ '':'' @ er_id e \<in> set (rs_resources res)"
    using u by (auto simp: use_noted_def resource_key_def)
  moreover have "d_permission d = [] \<or> d_permission d \<in> set (rs_permissions res)"
    using u by (simp add: use_noted_def)
  ultimately show ?thesis using d d' id version by metis
qed

lemma siren_resolves:
  "snd (ResolveCapabilities siren_scenario (Some siren_registry)) = []"
  by code_simp

theorem actions_resolved_witness:
  "''siren:siren-1'' \<in> set (rs_resources (fst (ResolveCapabilities siren_scenario (Some siren_registry))))"
proof -
  let ?res = "fst (ResolveCapabilities siren_scenario (Some siren_registry))"
  have "ResolveCapabilities siren_scenario (Some siren_registry) = (?res, [])"
    using siren_resolves by (simp add: prod_eq_iff)
  moreover have "siren_step \<in> set (all_steps (scn_flow siren_scenario))" by code_simp
  moreover have "st_action siren_step =
      Some (ActionStep (CapabilityRef ''siren.sound'' ''1.1.0'' (Some (EntityRef ''siren-1'' ''siren'')))
        [(''seconds'', Literal (Value (plain_type TypeInt) (Some (JInt 30))))] None)"
    by (simp add: siren_step_def act_def)
  ultimately show ?thesis
    using actions_resolved [of siren_scenario siren_registry ?res "[]" siren_step] by fastforce
qed

end
