(* ===== verification/TypeCheck.thy ===== *)
theory TypeCheck
  imports Resolution
begin

text \<open>
  The type checking pass of the compiler, \<open>compiler/typecheck.go\<close>, and what it has to do with
  the two other checks of the same things: \<open>ValidateTypes\<close> of the data model and
  \<open>ValidateActionArguments\<close> of the capabilities.
\<close>

section \<open>The pass\<close>

abbreviation type_mismatch :: "string \<Rightarrow> diagnostic" where
  "type_mismatch \<equiv> Diag CodeTypeMismatch SeverityError"

definition report_bool :: "type_env \<Rightarrow> expr \<Rightarrow> string \<Rightarrow> diagnostics" where
  "report_bool env e path =
     (case check_expr env e of
        Inl _ \<Rightarrow> [type_mismatch path]
      | Inr t \<Rightarrow> report_if (tr_kind t \<noteq> TypeBool) CodeTypeMismatch SeverityError path)"

definition report_argument ::
    "type_env \<Rightarrow> descriptor option \<Rightarrow> string \<Rightarrow> string \<times> expr \<Rightarrow> diagnostics" where
  "report_argument env desc step_path arg =
     (case arg of (name, e) \<Rightarrow>
        let path = step_path @ ''.action.arguments['' @ name @ '']'' in
        (case check_expr env e of
           Inl _ \<Rightarrow> [type_mismatch path]
         | Inr t \<Rightarrow>
             (case desc of
                None \<Rightarrow> []
              | Some d \<Rightarrow>
                  (case find (\<lambda>f. fs_name f = name) (d_input d) of
                     None \<Rightarrow> [Diag CodeUnknownArgument SeverityError path]
                   | Some f \<Rightarrow>
                       report_if (\<not> type_compatible (fs_type f) t) CodeTypeMismatch SeverityError path @
                       report_if (\<not> enum_allows f e) CodeInvalidEnumValue SeverityError path))))"

definition report_missing :: "descriptor option \<Rightarrow> string \<Rightarrow> arguments \<Rightarrow> diagnostics" where
  "report_missing desc step_path args =
     (case desc of
        None \<Rightarrow> []
      | Some d \<Rightarrow>
          concat (map
            (\<lambda>f. report_if (fs_required f \<and> fs_default f = None \<and> fs_name f \<notin> fst ` set args)
               CodeMissingRequiredArg SeverityError (step_path @ ''.action.arguments'')) (d_input d)))"

definition report_action ::
    "type_env \<Rightarrow> (string \<Rightarrow> descriptor option) \<Rightarrow> string \<Rightarrow> action_step \<Rightarrow> diagnostics" where
  "report_action env descs step_path a =
     (let desc = descs (cr_id (ac_capability a)) in
      concat (map (report_argument env desc step_path) (ac_arguments a)) @
      report_missing desc step_path (ac_arguments a))"

definition report_subflow :: "type_env \<Rightarrow> string \<Rightarrow> subflow_step \<Rightarrow> diagnostics" where
  "report_subflow env step_path f =
     concat (map
       (\<lambda>(name, e).
          (case check_expr env e of
             Inl _ \<Rightarrow> [type_mismatch (step_path @ ''.subflow.arguments['' @ name @ '']'')]
           | Inr _ \<Rightarrow> [])) (sf_arguments f))"

definition report_step ::
    "type_env \<Rightarrow> (string \<Rightarrow> descriptor option) \<Rightarrow> string \<Rightarrow> step \<Rightarrow> diagnostics" where
  "report_step env descs q st =
     (case st_action st of None \<Rightarrow> [] | Some a \<Rightarrow> report_action env descs q a) @
     (case st_subflow st of None \<Rightarrow> [] | Some f \<Rightarrow> report_subflow env q f)"

text \<open>The condition that guards a nested flow, reported before the flow is checked.\<close>

fun condition_path :: "string \<Rightarrow> child \<Rightarrow> string" where
  "condition_path q (CCase j) = q @ ''.switch.cases['' @ show_nat j @ ''].when''"
| "condition_path q _ = q @ ''.if.condition''"

definition report_condition :: "type_env \<Rightarrow> string \<Rightarrow> step \<Rightarrow> child \<Rightarrow> diagnostics" where
  "report_condition env q st c =
     (case child_condition st c of None \<Rightarrow> [] | Some e \<Rightarrow> report_bool env e (condition_path q c))"

definition TypeCheckScenario :: "scenario \<Rightarrow> type_env \<Rightarrow> resolved_capabilities \<Rightarrow> diagnostics" where
  "TypeCheckScenario s env resolved =
     walk_flow
       (reporting (\<lambda>_ _. True) (report_step env (rs_descriptors resolved)) (report_condition env))
       ''flow'' (scn_flow s)
       ((if expr_is_zero (scn_condition s) then [] else report_bool env (scn_condition s) ''condition'') @
        concat (map
          (\<lambda>(i, t).
             if expr_is_zero (tg_filter t) then []
             else report_bool env (tg_filter t) (''triggers['' @ show_nat i @ ''].filter''))
          (enumerate 0 (scn_triggers s))))"

section \<open>A scenario without type errors\<close>

lemma report_bool_errors: "HasErrors (report_bool env e path) \<longleftrightarrow> requireBool env e \<noteq> None"
  by (auto simp: report_bool_def HasErrors_def requireBool_def needs_bool_def split: sum.splits)

lemma report_argument_errors:
  "HasErrors (report_argument env desc q (name, e)) \<longleftrightarrow>
     \<not> (\<exists>t. check_expr env e = Inr t \<and>
          (\<forall>d. desc = Some d \<longrightarrow>
             (\<exists>f. find (\<lambda>f. fs_name f = name) (d_input d) = Some f \<and> type_compatible (fs_type f) t \<and>
                enum_allows f e)))"
  by (auto simp: report_argument_def Let_def HasErrors_def split: sum.splits option.splits)

lemma report_missing_errors:
  "HasErrors (report_missing (Some d) q args) \<longleftrightarrow>
     (\<exists>f \<in> set (d_input d). fs_required f \<and> fs_default f = None \<and> fs_name f \<notin> fst ` set args)"
  by (simp add: report_missing_def concat_errors)

lemma clean_step:
  assumes "\<not> HasErrors (TypeCheckScenario s env resolved)" and "st \<in> set (all_steps (scn_flow s))"
  obtains q where "\<not> HasErrors (report_step env (rs_descriptors resolved) q st)"
    and "\<And>c g. (c, g) \<in> set (step_children st) \<Longrightarrow> \<not> HasErrors (report_condition env q st c)"
proof -
  let ?init = "(if expr_is_zero (scn_condition s) then [] else report_bool env (scn_condition s) ''condition'') @
        concat (map
          (\<lambda>(i, t).
             if expr_is_zero (tg_filter t) then []
             else report_bool env (tg_filter t) (''triggers['' @ show_nat i @ ''].filter''))
          (enumerate 0 (scn_triggers s)))"
  obtain q where v: "set (report_step env (rs_descriptors resolved) q st) \<subseteq> set (TypeCheckScenario s env resolved)"
    and c: "\<And>c g. (c, g) \<in> set (step_children st) \<Longrightarrow>
      set (report_condition env q st c) \<subseteq> set (TypeCheckScenario s env resolved)"
    unfolding TypeCheckScenario_def
    by (rule reported_step [OF assms(2), of "report_step env (rs_descriptors resolved)"
        "report_condition env" "''flow''" ?init]) simp
  show thesis
    using errors_subset [OF v assms(1)] errors_subset [OF c assms(1)] by (rule that)
qed

lemma clean_head:
  assumes "\<not> HasErrors (TypeCheckScenario s env resolved)"
  shows "expr_is_zero (scn_condition s) \<or> requireBool env (scn_condition s) = None"
    and "\<forall>t \<in> set (scn_triggers s). expr_is_zero (tg_filter t) \<or> requireBool env (tg_filter t) = None"
proof -
  from assms have h: "\<not> HasErrors (if expr_is_zero (scn_condition s) then []
      else report_bool env (scn_condition s) ''condition'')"
    and t: "\<not> HasErrors (concat (map
          (\<lambda>(i, t).
             if expr_is_zero (tg_filter t) then []
             else report_bool env (tg_filter t) (''triggers['' @ show_nat i @ ''].filter''))
          (enumerate 0 (scn_triggers s))))"
    by (simp_all add: TypeCheckScenario_def reporting_append)
  from h show "expr_is_zero (scn_condition s) \<or> requireBool env (scn_condition s) = None"
    by (auto simp: report_bool_errors split: if_splits)
  show "\<forall>t \<in> set (scn_triggers s). expr_is_zero (tg_filter t) \<or> requireBool env (tg_filter t) = None"
  proof
    fix t assume "t \<in> set (scn_triggers s)"
    then obtain i where "(i, t) \<in> set (enumerate 0 (scn_triggers s))"
      using member_enumerate [of t _ 0] by blast
    with t show "expr_is_zero (tg_filter t) \<or> requireBool env (tg_filter t) = None"
      by (fastforce simp: concat_errors report_bool_errors split: if_splits)
  qed
qed

lemma validate_fields_distinct:
  "validate_fields seen fs = None \<Longrightarrow> distinct (map fs_name fs) \<and> fs_name ` set fs \<inter> set seen = {}"
proof (induction seen fs rule: validate_fields.induct)
  case (2 seen f fs)
  from "2.prems" have v: "field_validate f seen = None" "validate_fields (fs_name f # seen) fs = None"
    by (auto split: option.splits)
  from v(1) have "fs_name f \<notin> set seen"
    by (auto simp: field_validate_def checks_None split: sum.splits)
  with "2.IH" v show ?case by auto
qed simp

lemma find_field:
  "distinct (map fs_name fs) \<Longrightarrow> f \<in> set fs \<Longrightarrow> find (\<lambda>g. fs_name g = fs_name f) fs = Some f"
  by (induction fs) auto

lemma clean_arguments:
  assumes "\<not> HasErrors (report_action env descs q a)" and "(name, e) \<in> set (ac_arguments a)"
  shows "\<exists>t. check_expr env e = Inr t \<and>
    (\<forall>d. descs (cr_id (ac_capability a)) = Some d \<longrightarrow>
      (\<exists>f. find (\<lambda>f. fs_name f = name) (d_input d) = Some f \<and> type_compatible (fs_type f) t \<and> enum_allows f e))"
proof -
  from assms have "\<not> HasErrors (report_argument env (descs (cr_id (ac_capability a))) q (name, e))"
    by (auto simp: report_action_def Let_def concat_errors)
  then show ?thesis by (simp only: report_argument_errors not_not)
qed

lemma clean_action_types:
  "\<not> HasErrors (report_action env descs q a) \<Longrightarrow> check_arguments env (ac_arguments a) = None"
  by (auto simp: check_arguments_None dest: clean_arguments)

lemma clean_action_schema:
  assumes c: "\<not> HasErrors (report_action env descs q a)" and d: "descs (cr_id (ac_capability a)) = Some d"
    and v: "schema_validate (d_input d) = None" and k: "d_kind d = KindAction"
  shows "ValidateActionArguments d (ac_arguments a) env = None"
proof -
  have names: "distinct (map fs_name (d_input d))"
    using v validate_fields_distinct by (simp add: schema_validate_def)
  have known: "name \<in> set (map fs_name (d_input d))" if "(name, e) \<in> set (ac_arguments a)" for name e
    using clean_arguments [OF c that] d by (auto simp: find_Some_iff)
  have "check_field (ac_arguments a) env f = None" if f: "f \<in> set (d_input d)" for f
  proof (cases "map_of (ac_arguments a) (fs_name f)")
    case None
    have "\<not> HasErrors (report_missing (Some d) q (ac_arguments a))"
      using c d by (simp add: report_action_def Let_def)
    with f None have "\<not> (fs_required f \<and> fs_default f = None)"
      by (auto simp: report_missing_errors map_of_eq_None_iff)
    with None show ?thesis by (simp add: check_field_def Let_def)
  next
    case (Some e)
    from clean_arguments [OF c map_of_SomeD [OF Some]] d find_field [OF names f]
    obtain t where "check_expr env e = Inr t" "type_compatible (fs_type f) t" "enum_allows f e" by auto
    with Some show ?thesis by (auto simp: check_field_def Let_def checks_None dest: typed_nonzero)
  qed
  with known k show ?thesis by (auto simp: ValidateActionArguments_def checks_None first_err_None)
qed

section \<open>The compiler's check implies the model's\<close>

lemma clean_children:
  "\<not> HasErrors (report_condition env q st c) \<Longrightarrow> check_child env st c = None"
  by (auto simp: report_condition_def check_child_def report_bool_errors split: option.splits)

lemma clean_step_types:
  assumes "\<not> HasErrors (report_step env descs q st)" shows "check_step_arguments env st = None"
proof -
  have "\<not> HasErrors (report_subflow env q f) \<Longrightarrow> check_arguments env (sf_arguments f) = None" for f
    unfolding report_subflow_def concat_errors check_arguments_None
    by (fastforce split: sum.splits)
  with assms show ?thesis
    by (auto simp: check_step_arguments_def checks_None report_step_def clean_action_types split: option.splits)
qed

lemma clean_flow:
  assumes "\<not> HasErrors (TypeCheckScenario s env resolved)"
  shows "validateFlowTypes ''flow'' (scn_flow s) env = None"
  unfolding flow_types_None
proof
  let ?w = "path_walker (\<lambda>_ _. True) (\<lambda>_ st s. or_else s (check_step_arguments env st))
         (\<lambda>_ st c s. or_else s (check_child env st c))"
  fix e assume e: "e \<in> set (flow_events ?w ''flow'' (scn_flow s))"
  show "(case e of Visit q st \<Rightarrow> check_step_arguments env st | Enter q st c \<Rightarrow> check_child env st c) = None"
  proof (cases e)
    case v: (Visit q st)
    with e have "st \<in> set (all_steps (scn_flow s))" using visited_step [of st ?w] by auto
    from clean_step [OF assms this] v show ?thesis by (metis clean_step_types event.simps(5))
  next
    case n: (Enter q st c)
    with e enter_visits [of q st c ?w] obtain g where
      "Visit q st \<in> set (flow_events ?w ''flow'' (scn_flow s))" and g: "(c, g) \<in> set (step_children st)" by auto
    then have "st \<in> set (all_steps (scn_flow s))" using visited_step [of st ?w] by auto
    from clean_step [OF assms this] g n show ?thesis by (metis clean_children event.simps(6))
  qed
qed

text \<open>The compiler's environment gives every parameter its declared type.\<close>

definition parameter_name :: "string \<Rightarrow> bool" where
  "parameter_name k \<longleftrightarrow> take 10 k = ''parameter.''"

lemma parameter_name_append: "parameter_name (''parameter.'' @ p)"
  by (simp add: parameter_name_def)

lemma other_names:
  "\<not> parameter_name (''trigger.'' @ x)" "\<not> parameter_name (''device.'' @ x)" "\<not> parameter_name (''state.'' @ x)"
  by (simp_all add: parameter_name_def)

lemma parameter_kept:
  assumes "parameter_name k"
  shows "bind_output i f env k = env k" "bind_state i f env k = env k"
    "x \<in> set trigger_defaults \<Longrightarrow> bind_default x env k = env k"
proof -
  have k: "k \<noteq> ''trigger.'' @ y" "k \<noteq> ''device.'' @ y" "k \<noteq> ''state.'' @ y" for y
    using assms other_names by blast+
  then show "bind_output i f env k = env k" "bind_state i f env k = env k"
    by (simp_all add: bind_output_def bind_state_def Let_def del: append_Cons)
  assume "x \<in> set trigger_defaults"
  then have "fst x \<noteq> k" using assms by (auto simp: trigger_defaults_def parameter_name_def)
  then show "bind_default x env k = env k" by (simp add: bind_default_def split: option.splits)
qed

lemma fold_keeps:
  "(\<And>x s. x \<in> set xs \<Longrightarrow> g x s k = s k) \<Longrightarrow> fold g xs s k = s k"
  by (induction xs arbitrary: s) auto

lemma parameter_kept_trigger: "parameter_name k \<Longrightarrow> bind_trigger reg t env k = env k"
  unfolding bind_trigger_def
  by (subst fold_keeps) (auto simp: parameter_kept fold_keeps split: option.splits)

lemma parameter_kept_entities:
  assumes "parameter_name k" shows "bind_entities reg env k = env k"
proof -
  have "bind_entity_capability r i key e k = e k" for r i key e
    using assms by (auto simp: bind_entity_capability_def fold_keeps parameter_kept split: option.splits)
  then show ?thesis by (auto simp: bind_entities_def fold_keeps split: option.splits sum.splits)
qed

lemma bind_params:
  assumes "\<forall>p \<in> set ps. type_normalize (pa_type p) = Inr (pa_type p)"
  shows "fold bind_param ps (env, ds) =
    (env ++ map_of (rev (map (\<lambda>p. (''parameter.'' @ pa_id p, pa_type p)) ps)), ds)"
  using assms by (induction ps arbitrary: env) (auto simp: bind_param_def)

lemma bound_parameters:
  assumes "\<forall>p \<in> set (scn_parameters s). type_normalize (pa_type p) = Inr (pa_type p)"
    and env: "BuildTypeEnvironment s reg = (env, ds)"
  shows "ds = []" and "scenario_env s env = env"
proof -
  let ?m = "map_of (rev (map (\<lambda>p. (''parameter.'' @ pa_id p, pa_type p)) (scn_parameters s)))"
  from env show "ds = []" by (simp add: BuildTypeEnvironment_def bind_params [OF assms(1)])
  from env have e: "env = bind_entities reg (fold (bind_trigger reg) (scn_triggers s) (standard_env ++ ?m))"
    by (simp add: BuildTypeEnvironment_def bind_params [OF assms(1)])
  have keep: "env k = (standard_env ++ ?m) k" if "parameter_name k" for k
    unfolding e parameter_kept_entities [OF that] by (rule fold_keeps) (rule parameter_kept_trigger [OF that])
  have "(env ++ ?m) k = env k" for k
  proof (cases "?m k")
    case None
    then show ?thesis by (simp add: map_add_def)
  next
    case (Some t)
    then have "parameter_name k" using parameter_name_append by (auto dest!: map_of_SomeD simp del: append_Cons)
    with Some keep [of k] show ?thesis by (simp add: map_add_def)
  qed
  then show "scenario_env s env = env" by (simp add: scenario_env_def fun_eq_iff)
qed

lemma normalized_parameter_types:
  "Normalize tz enc s = Inr n \<Longrightarrow> \<forall>p \<in> set (scn_parameters n). type_normalize (pa_type p) = Inr (pa_type p)"
proof -
  assume "Normalize tz enc s = Inr n"
  then obtain ps where ps: "traverse normalize_param (scn_parameters s) = Inr ps"
    and n: "scn_parameters n = sort_key pa_id ps" by (auto simp: Normalize_Inr)
  have "type_normalize (pa_type q) = Inr (pa_type q)" if "normalize_param p = Inr q" for p q
    using that by (auto simp: normalize_param_def dest: type_normalize_idem)
  with ps n show ?thesis by (auto dest!: traverse_set)
qed

section \<open>Properties\<close>

text \<open>
  C36. The compiler's type check refines the data model's: when the compiler finds no type error
  in a normalised scenario, in the environment it builds itself, then \<open>ValidateTypes\<close> accepts
  the scenario in that environment, provided no trigger has an \<open>until\<close> condition, which the
  compiler does not look at.
\<close>

theorem compiler_types_refine_model:
  assumes "Normalize tz enc source = Inr s" and "BuildTypeEnvironment s reg = (env, ds)"
    and "\<not> HasErrors (TypeCheckScenario s env resolved)"
    and "\<forall>t \<in> set (scn_triggers s). \<forall>spec \<in> set (tg_temporal t). ts_kind spec \<noteq> TemporalUntil"
  shows "ds = [] \<and> ValidateTypes s env = None"
proof -
  note b = bound_parameters [OF normalized_parameter_types [OF assms(1)] assms(2)]
  have "trigger_types env t = None" if "t \<in> set (scn_triggers s)" for t
    using clean_head(2) [OF assms(3)] assms(4) that
    by (auto simp: trigger_types_def checks_None first_err_None)
  with b clean_head(1) [OF assms(3)] clean_flow [OF assms(3)] show ?thesis
    by (auto simp: ValidateTypes_def Let_def checks_None first_err_None)
qed

definition siren_env :: type_env where
  "siren_env = fst (BuildTypeEnvironment siren_scenario (Some siren_registry))"

definition siren_resolved :: resolved_capabilities where
  "siren_resolved = no_capabilities\<lparr>rs_descriptors := [''siren.sound'' \<mapsto> siren_descriptor]\<rparr>"

lemma siren_scenario_normal: "Normalize (\<lambda>_. True) ex_ref siren_scenario = Inr siren_scenario"
  by code_simp

lemma siren_typed: "\<not> HasErrors (TypeCheckScenario siren_scenario env siren_resolved)"
  by code_simp

theorem compiler_types_refine_model_witness:
  "ValidateTypes siren_scenario siren_env = None"
proof -
  have "BuildTypeEnvironment siren_scenario (Some siren_registry) =
      (siren_env, snd (BuildTypeEnvironment siren_scenario (Some siren_registry)))"
    by (simp add: siren_env_def)
  moreover have "\<forall>t \<in> set (scn_triggers siren_scenario). tg_temporal t = []" by code_simp
  ultimately show ?thesis
    using compiler_types_refine_model [OF siren_scenario_normal _ siren_typed] by auto
qed

text \<open>
  The compiler's check of an action agrees with the capability's own: when it finds no type
  error, every action of the flow, at any depth, passes \<open>ValidateActionArguments\<close> of the
  descriptor it was resolved to, if that describes an action and has a valid schema.
\<close>

theorem compiled_action_arguments:
  assumes "\<not> HasErrors (TypeCheckScenario s env resolved)"
    and "st \<in> set (all_steps (scn_flow s))" and "st_action st = Some a"
    and "rs_descriptors resolved (cr_id (ac_capability a)) = Some d"
    and "d_kind d = KindAction" and "schema_validate (d_input d) = None"
  shows "ValidateActionArguments d (ac_arguments a) env = None"
proof -
  obtain q where "\<not> HasErrors (report_step env (rs_descriptors resolved) q st)"
    using clean_step [OF assms(1,2)] by metis
  with assms(3) have "\<not> HasErrors (report_action env (rs_descriptors resolved) q a)"
    by (simp add: report_step_def)
  then show ?thesis using assms(4-6) by (intro clean_action_schema)
qed

theorem compiled_action_arguments_witness:
  "\<exists>d. d_kind d = KindAction \<and>
     ValidateActionArguments d [(''seconds'', Literal (Value (plain_type TypeInt) (Some (JInt 30))))] siren_env = None"
proof -
  let ?args = "[(''seconds'', Literal (Value (plain_type TypeInt) (Some (JInt 30))))]"
  let ?st = "act ''sound'' ''siren.sound'' (Some (EntityRef ''siren-1'' ''siren'')) ?args"
  let ?a = "ActionStep (CapabilityRef ''siren.sound'' ''1.1.0'' (Some (EntityRef ''siren-1'' ''siren''))) ?args None"
  have "map_option (\<lambda>d. (d_kind d, schema_validate (d_input d))) (rs_descriptors siren_resolved ''siren.sound'') =
      Some (KindAction, None)" by code_simp
  then obtain d where d: "rs_descriptors siren_resolved ''siren.sound'' = Some d" "d_kind d = KindAction"
    "schema_validate (d_input d) = None" by auto
  have "?st \<in> set (all_steps (scn_flow siren_scenario))" by code_simp
  moreover have "st_action ?st = Some ?a" by (simp add: act_def)
  ultimately have "ValidateActionArguments d (ac_arguments ?a) siren_env = None"
    using d by (intro compiled_action_arguments [OF siren_typed]) simp_all
  with d show ?thesis by auto
qed

end
