(* ===== verification/TemporalAnalysis.thy ===== *)
theory TemporalAnalysis
  imports Diagnostics
begin

text \<open>
  The temporal analysis of the compiler, \<open>compiler/temporal.go\<close>: which time spans a scenario
  depends on and which of them have to survive a restart. The pass reports no diagnostics.

  \<open>duration_string\<close> is the text that Go's formatting gives to a duration of so many nanoseconds.
\<close>

section \<open>Texts of durations\<close>

abbreviation second :: int where "second \<equiv> 1000000000"

definition pad_digits :: "nat \<Rightarrow> int \<Rightarrow> string" where
  "pad_digits n i = (let s = show_int i in replicate (n - length s) (CHR ''0'') @ s)"

definition fraction_text :: "int \<Rightarrow> nat \<Rightarrow> string" where
  "fraction_text v prec =
     (let digits = rev (dropWhile (\<lambda>c. c = CHR ''0'') (rev (pad_digits prec (v mod 10 ^ prec)))) in
      if prec = 0 \<or> digits = [] then [] else CHR ''.'' # digits)"

definition unit_text :: "int \<Rightarrow> nat \<Rightarrow> string \<Rightarrow> string" where
  "unit_text v prec u = show_int (v div 10 ^ prec) @ fraction_text v prec @ u"

definition duration_magnitude :: "int \<Rightarrow> string" where
  "duration_magnitude u =
     (if u = 0 then ''0s''
      else if u < 1000 then unit_text u 0 ''ns''
      else if u < 1000000 then unit_text u 3 (map char_of [0xC2, 0xB5 :: nat] @ ''s'')
      else if u < second then unit_text u 6 ''ms''
      else
        (let s = u div second; m = s div 60; h = m div 60 in
         (if h > 0 then show_int h @ ''h'' else []) @
         (if m > 0 then show_int (m mod 60) @ ''m'' else []) @
         show_int (s mod 60) @ fraction_text (u mod second) 9 @ ''s''))"

definition duration_string :: "int \<Rightarrow> string" where
  "duration_string d = (if d < 0 then CHR ''-'' # duration_magnitude (- d) else duration_magnitude d)"

section \<open>The pass\<close>

record temporal_requirement =
  rq_kind :: string
  rq_spec :: string
  rq_duration :: int
  rq_timezone :: string
  rq_durable :: bool

abbreviation requirement :: "string \<Rightarrow> string \<Rightarrow> int \<Rightarrow> string \<Rightarrow> bool \<Rightarrow> temporal_requirement" where
  "requirement kind spec duration timezone durable \<equiv>
     \<lparr> rq_kind = kind, rq_spec = spec, rq_duration = duration, rq_timezone = timezone, rq_durable = durable \<rparr>"

definition window_text :: "temporal_spec \<Rightarrow> string" where
  "window_text t =
     (case (ts_start t, ts_end t) of
        (Some a, Some b) \<Rightarrow> tod_string a @ ''-'' @ tod_string b
      | _ \<Rightarrow> [])"

definition require_temporal :: "temporal_spec \<Rightarrow> temporal_requirement list" where
  "require_temporal t =
     (case ts_kind t of
        TemporalDebounce \<Rightarrow> [requirement ''debounce'' [] (ts_duration t) [] (ts_duration t > 5 * second)]
      | TemporalThrottle \<Rightarrow> [requirement ''throttle'' [] (ts_duration t) [] (ts_duration t > 5 * second)]
      | TemporalRepeatWithin \<Rightarrow> [requirement ''repeat_within'' [] (ts_duration t) [] True]
      | TemporalScheduleWindow \<Rightarrow> [requirement ''schedule_window'' (window_text t) 0 (ts_timezone t) False]
      | TemporalUntil \<Rightarrow> [requirement ''until'' [] 0 [] True]
      | _ \<Rightarrow> [])"

definition require_trigger :: "trigger \<Rightarrow> temporal_requirement list" where
  "require_trigger t =
     (if tg_kind t = TriggerSchedule then [requirement ''schedule'' (cr_id (tg_capability t)) 0 [] True] else []) @
     concat (map require_temporal (tg_temporal t))"

definition require_step :: "step \<Rightarrow> temporal_requirement list" where
  "require_step st =
     (case st_wait st of None \<Rightarrow> [] | Some w \<Rightarrow> [requirement ''wait'' [] (wt_duration w) [] True]) @
     (case st_human st of
        None \<Rightarrow> []
      | Some h \<Rightarrow>
          if ha_timeout h > 0 then [requirement ''human_approval_timeout'' [] (ha_timeout h) [] True] else [])"

definition AnalyzeTemporal :: "scenario \<Rightarrow> temporal_requirement list \<times> diagnostics" where
  "AnalyzeTemporal s =
     (walk_flow (reporting (\<lambda>_ _. True) (\<lambda>_. require_step) (\<lambda>_ _ _. [])) ''flow'' (scn_flow s)
        (concat (map require_trigger (scn_triggers s))), [])"

section \<open>What is required\<close>

lemma requirements:
  "set (fst (AnalyzeTemporal s)) =
     (\<Union>t \<in> set (scn_triggers s). set (require_trigger t)) \<union>
     (\<Union>st \<in> set (all_steps (scn_flow s)). set (require_step st))"
proof -
  let ?w = "reporting (\<lambda>_ _. True) (\<lambda>_. require_step) (\<lambda>_ _ _. []) :: (string, temporal_requirement list) walker"
  have "x \<in> set (fst (AnalyzeTemporal s)) \<longleftrightarrow>
      x \<in> set (concat (map require_trigger (scn_triggers s))) \<or>
      (\<exists>st. st \<in> set (all_steps (scn_flow s)) \<and> x \<in> set (require_step st))" for x
  proof -
    have "x \<in> set (fst (AnalyzeTemporal s)) \<longleftrightarrow>
      x \<in> set (concat (map require_trigger (scn_triggers s))) \<or>
      (\<exists>st. (\<exists>q. Visit q st \<in> set (flow_events ?w ''flow'' (scn_flow s))) \<and> x \<in> set (require_step st))"
      unfolding AnalyzeTemporal_def fst_conv reported by (simp del: set_concat) blast
    then show ?thesis by (simp only: visited_step reporting_descend)
  qed
  then have "x \<in> set (fst (AnalyzeTemporal s)) \<longleftrightarrow>
      x \<in> (\<Union>t \<in> set (scn_triggers s). set (require_trigger t)) \<union>
        (\<Union>st \<in> set (all_steps (scn_flow s)). set (require_step st))" for x
    by (simp only: set_concat set_map UN_iff Un_iff image_iff) blast
  then show ?thesis by blast
qed

lemma durations: "map duration_string [0, 1500, 30 * second, 300 * second, 5400 * second + 250000000] =
    [''0s'', ''1.5'' @ map char_of [0xC2, 0xB5 :: nat] @ ''s'', ''30s'', ''5m0s'', ''1h30m0.25s'']"
  by code_simp

end
