(* ===== verification/SafetyPass.thy ===== *)
theory SafetyPass
  imports TypeCheck TemporalAnalysis
begin

text \<open>
  The safety compiler, \<open>compiler/safety.go\<close>, with the graphs and effects of
  \<open>compiler/manifest.go\<close> that it builds: an approval gate, a resource lock, a read and a
  verification around every door unlock, a duration limit and a compensation around every siren.

  The pass walks the steps of the flow and of the branches of \<open>if\<close> steps, and appends to two
  chains of nodes; each new node becomes the successor of the node before it.
\<close>

section \<open>Graphs and effects\<close>

record graph_node =
  gn_id :: string
  gn_kind :: string
  gn_title :: string
  gn_system :: bool
  gn_risk :: risk_level
  gn_next :: "string list"

record safety_augmentation =
  ag_node :: string
  ag_system :: bool
  ag_kind :: string
  ag_description :: string
  ag_risk :: risk_level
  ag_reason :: string

record external_effect =
  ef_capability :: string
  ef_resource :: string
  ef_permission :: string
  ef_risk :: risk_level
  ef_idempotency :: string
  ef_timeout :: int
  ef_retries :: int
  ef_read_before :: bool
  ef_verify_after :: bool
  ef_reconciliation :: bool
  ef_compensation :: string

text \<open>Why a scenario needs the durable runtime, as data; the code keeps the formatted texts.\<close>

datatype reason =
    UnlockReason | SirenReason | ApprovalReason | WaitReason int | SubflowReason string "64 word"
  | ParallelReason
  | TemporalReason string int | StepCountReason nat | WaitStepReason string int
  | ApprovalStepReason string | ForkStepReason string | SubflowStepReason string
  | SwitchStepReason string | RetryReason string int | RiskReason string risk_level
  | EffectReason string | StatelessReason

record safety_result =
  sa_augmentations :: "safety_augmentation list"
  sa_effects :: "external_effect list"
  sa_user :: "graph_node list"
  sa_system :: "graph_node list"
  sa_requires :: bool
  sa_reasons :: "reason list"

definition MaxSirenDuration :: int where "MaxSirenDuration = 5 * (60 * second)"

definition DefaultActionTimeout :: int where "DefaultActionTimeout = 30 * second"

definition plain_node :: "string \<Rightarrow> string \<Rightarrow> string \<Rightarrow> risk_level \<Rightarrow> graph_node" where
  "plain_node i kind title risk =
     \<lparr> gn_id = i, gn_kind = kind, gn_title = title, gn_system = False, gn_risk = risk, gn_next = [] \<rparr>"

definition system_node :: "string \<Rightarrow> string \<Rightarrow> string \<Rightarrow> risk_level \<Rightarrow> graph_node" where
  "system_node i kind title risk =
     \<lparr> gn_id = i, gn_kind = kind, gn_title = title, gn_system = True, gn_risk = risk, gn_next = [] \<rparr>"

definition augmentation :: "string \<Rightarrow> string \<Rightarrow> string \<Rightarrow> risk_level \<Rightarrow> string \<Rightarrow> safety_augmentation" where
  "augmentation i kind description risk why =
     \<lparr> ag_node = i, ag_system = True, ag_kind = kind, ag_description = description, ag_risk = risk,
       ag_reason = why \<rparr>"

text \<open>Appending a node makes it the only successor of the last one.\<close>

definition append_node :: "graph_node list \<Rightarrow> graph_node \<Rightarrow> graph_node list" where
  "append_node ns n =
     (if ns = [] then [n] else butlast ns @ [(last ns)\<lparr>gn_next := [gn_id n]\<rparr>, n])"

definition append_nodes :: "graph_node list \<Rightarrow> graph_node list \<Rightarrow> graph_node list" where
  "append_nodes ns new = fold (\<lambda>n ns. append_node ns n) new ns"

section \<open>Actions\<close>

definition is_unlock :: "string \<Rightarrow> bool" where
  "is_unlock cap \<longleftrightarrow> contains_str (ToLower cap) ''unlock'' \<or> contains_str (ToLower cap) ''door.open''"

definition is_siren :: "string \<Rightarrow> bool" where
  "is_siren cap \<longleftrightarrow> contains_str (ToLower cap) ''siren'' \<or> contains_str (ToLower cap) ''alarm''"

definition action_resource :: "capability_ref \<Rightarrow> string" where
  "action_resource c = (case cr_entity c of None \<Rightarrow> [] | Some e \<Rightarrow> resource_key e)"

definition action_risk :: "descriptor option \<Rightarrow> string \<Rightarrow> risk_level" where
  "action_risk desc cap =
     (if is_unlock cap then RiskCritical else case desc of None \<Rightarrow> RiskLow | Some d \<Rightarrow> d_risk d)"

definition unlock_nodes :: "string \<Rightarrow> string \<Rightarrow> string \<Rightarrow> graph_node list" where
  "unlock_nodes i cap resource =
     [system_node (''system_safety_approval_'' @ i) ''human_approval'' ''Mandatory Admin Approval'' RiskCritical,
      system_node (''system_safety_lock_'' @ i) ''resource_reservation'' (''Reserve Resource: '' @ resource) RiskHigh,
      system_node (''system_safety_read_'' @ i) ''read_before_write'' ''Read Current Door State'' RiskLow,
      plain_node (''system_action_'' @ i) ''action'' (''Desired Unlock: '' @ cap) RiskCritical,
      system_node (''system_safety_verify_'' @ i) ''verify_after_write'' ''Verify Unlock Confirmed'' RiskLow]"

definition unlock_augmentations :: "string \<Rightarrow> string \<Rightarrow> safety_augmentation list" where
  "unlock_augmentations i resource =
     [augmentation (''system_safety_approval_'' @ i) ''human_approval''
        ''Mandatory human administrator confirmation required before unlock'' RiskCritical
        ''Safety policy forbids autonomous door unlock without interactive confirmation'',
      augmentation (''system_safety_lock_'' @ i) ''resource_reservation''
        (''Single-writer reservation for '' @ resource) RiskHigh
        ''Prevent concurrent conflicting operations on door lock'',
      augmentation (''system_safety_verify_'' @ i) ''verify_write''
        ''Post-write status verification via telemetry readback'' RiskLow
        ''Ensure physical actuator confirmed desired state'']"

definition unlock_effect :: "string \<Rightarrow> string \<Rightarrow> external_effect" where
  "unlock_effect cap resource =
     \<lparr> ef_capability = cap, ef_resource = resource, ef_permission = ''door:unlock'',
       ef_risk = RiskCritical, ef_idempotency = ''required'', ef_timeout = 15 * second, ef_retries = 2,
       ef_read_before = True, ef_verify_after = True, ef_reconciliation = True,
       ef_compensation = ''reconcile'' \<rparr>"

definition siren_nodes :: "string \<Rightarrow> string \<Rightarrow> graph_node list" where
  "siren_nodes i cap =
     [system_node (''system_safety_duration_'' @ i) ''duration_limit''
        (''Clamp Max Siren Duration ('' @ duration_string MaxSirenDuration @ '')'') RiskMedium,
      plain_node (''system_action_'' @ i) ''action'' (''Sound Siren: '' @ cap) RiskHigh,
      system_node (''system_safety_comp_'' @ i) ''compensation'' ''Ensure Siren Disabled On Finish/Cancel'' RiskLow]"

definition siren_augmentations :: "string \<Rightarrow> safety_augmentation list" where
  "siren_augmentations i =
     [augmentation (''system_safety_duration_'' @ i) ''duration_limit''
        (''Hard clamp siren duration to maximum '' @ duration_string MaxSirenDuration) RiskMedium
        ''Noise pollution and acoustic safety limits'',
      augmentation (''system_safety_comp_'' @ i) ''compensation''
        ''Register fail-safe compensation to ensure siren is deactivated'' RiskLow
        ''Ensure siren does not remain active indefinitely on error or workflow cancellation'']"

definition siren_effect :: "string \<Rightarrow> string \<Rightarrow> external_effect" where
  "siren_effect cap resource =
     \<lparr> ef_capability = cap, ef_resource = resource, ef_permission = ''siren:sound'',
       ef_risk = RiskHigh, ef_idempotency = ''supported'', ef_timeout = MaxSirenDuration, ef_retries = 1,
       ef_read_before = False, ef_verify_after = True, ef_reconciliation = True,
       ef_compensation = ''ensure_disabled'' \<rparr>"

fun idempotency_text :: "idempotency \<Rightarrow> string" where
  "idempotency_text IdempotencyNone = ''none''"
| "idempotency_text IdempotencySupported = ''supported''"
| "idempotency_text IdempotencyRequired = ''required''"
| "idempotency_text (IdempotencyOther s) = s"

fun compensation_text :: "compensation_class \<Rightarrow> string" where
  "compensation_text CompensationNone = ''none''"
| "compensation_text CompensationAutomatic = ''automatic''"
| "compensation_text CompensationManual = ''manual''"
| "compensation_text CompensationReconcile = ''reconcile''"
| "compensation_text (CompensationOther s) = s"

definition ordinary_effect :: "descriptor \<Rightarrow> string \<Rightarrow> external_effect" where
  "ordinary_effect d resource =
     \<lparr> ef_capability = d_id d, ef_resource = resource, ef_permission = d_permission d,
       ef_risk = d_risk d, ef_idempotency = idempotency_text (d_idempotency d),
       ef_timeout = DefaultActionTimeout, ef_retries = 3, ef_read_before = False,
       ef_verify_after = (d_verification d = VerificationReadback),
       ef_reconciliation = (d_compensation d = CompensationReconcile),
       ef_compensation = compensation_text (d_compensation d) \<rparr>"

text \<open>What one step adds: nodes of both chains, augmentations, effects and reasons.\<close>

record safety_parts =
  sp_user :: graph_node
  sp_system :: "graph_node list"
  sp_augmentations :: "safety_augmentation list"
  sp_effects :: "external_effect list"
  sp_reasons :: "reason list"

definition extend :: "safety_parts \<Rightarrow> safety_result \<Rightarrow> safety_result" where
  "extend p r =
     \<lparr> sa_augmentations = sa_augmentations r @ sp_augmentations p, sa_effects = sa_effects r @ sp_effects p,
       sa_user = append_nodes (sa_user r) [sp_user p], sa_system = append_nodes (sa_system r) (sp_system p),
       sa_requires = (sa_requires r \<or> sp_reasons p \<noteq> []), sa_reasons = sa_reasons r @ sp_reasons p \<rparr>"

definition action_parts :: "descriptor option \<Rightarrow> string \<Rightarrow> action_step \<Rightarrow> safety_parts" where
  "action_parts desc i a =
     (let cap = cr_id (ac_capability a); resource = action_resource (ac_capability a);
          node = plain_node i ''action'' (''Action: '' @ cap) (action_risk desc cap) in
      if is_unlock cap then
        \<lparr> sp_user = node, sp_system = unlock_nodes i cap resource,
          sp_augmentations = unlock_augmentations i resource,
          sp_effects = [unlock_effect cap resource], sp_reasons = [UnlockReason] \<rparr>
      else if is_siren cap then
        \<lparr> sp_user = node, sp_system = siren_nodes i cap, sp_augmentations = siren_augmentations i,
          sp_effects = [siren_effect cap resource], sp_reasons = [SirenReason] \<rparr>
      else
        \<lparr> sp_user = node, sp_system = [node], sp_augmentations = [],
          sp_effects =
            (case desc of None \<Rightarrow> [] | Some d \<Rightarrow> if d_external_effect d then [ordinary_effect d resource] else []),
          sp_reasons = [] \<rparr>)"

definition both_graphs :: "graph_node \<Rightarrow> reason list \<Rightarrow> safety_parts" where
  "both_graphs n reasons =
     \<lparr> sp_user = n, sp_system = [n], sp_augmentations = [], sp_effects = [], sp_reasons = reasons \<rparr>"

definition step_parts :: "(string \<Rightarrow> descriptor option) \<Rightarrow> string \<Rightarrow> step \<Rightarrow> safety_parts" where
  "step_parts descs i st =
     (case st_action st of
        Some a \<Rightarrow> action_parts (descs (cr_id (ac_capability a))) i a
      | None \<Rightarrow>
     (case st_human st of
        Some h \<Rightarrow>
          both_graphs (plain_node i ''human_approval'' (''Approval: '' @ ha_prompt h) (ha_risk h)) [ApprovalReason]
      | None \<Rightarrow>
     (case st_wait st of
        Some w \<Rightarrow>
          both_graphs (plain_node i ''wait'' (''Wait '' @ duration_string (wt_duration w)) RiskLow)
            [WaitReason (wt_duration w)]
      | None \<Rightarrow>
     (case st_subflow st of
        Some f \<Rightarrow>
          both_graphs (plain_node i ''subflow'' (''Subflow: '' @ sf_scenario f) RiskMedium)
            [SubflowReason (sf_scenario f) (sf_version f)]
      | None \<Rightarrow>
     (case st_parallel st of
        Some p \<Rightarrow> both_graphs (plain_node i ''parallel'' ''Parallel Branches'' RiskLow) [ParallelReason]
      | None \<Rightarrow>
     (case st_if st of
        Some x \<Rightarrow> both_graphs (plain_node i ''if'' ''Decision / Branch'' RiskLow) []
      | None \<Rightarrow>
          both_graphs (plain_node i (step_kind_text (st_kind st)) (step_kind_text (st_kind st)) RiskLow) []))))))"

text \<open>Only the branches of an \<open>if\<close> are entered, and only when no other payload comes first.\<close>

definition enters_branch :: "step \<Rightarrow> child \<Rightarrow> bool" where
  "enters_branch st c \<longleftrightarrow>
     (c = CThen \<or> c = CElse) \<and> st_action st = None \<and> st_human st = None \<and> st_wait st = None \<and>
     st_subflow st = None \<and> st_parallel st = None"

definition node_id :: "string \<Rightarrow> nat \<Rightarrow> step \<Rightarrow> string" where
  "node_id p i st = (if step_id st = [] then p @ ''_step_'' @ show_nat i else step_id st)"

definition branch_prefix :: "string \<Rightarrow> child \<Rightarrow> string" where
  "branch_prefix i c = (if c = CThen then i @ ''_then'' else i @ ''_else'')"

definition safety_walker :: "(string \<Rightarrow> descriptor option) \<Rightarrow> (string, safety_result) walker" where
  "safety_walker descs =
     \<lparr> at_step = node_id, at_child = branch_prefix, descend = enters_branch,
       visit = (\<lambda>i st. extend (step_parts descs i st)), enter = (\<lambda>_ _ _ r. r) \<rparr>"

definition entry_node :: graph_node where
  "entry_node = plain_node ''entry'' ''trigger'' ''Triggers'' RiskLow"

definition safety_start :: safety_result where
  "safety_start =
     \<lparr> sa_augmentations = [], sa_effects = [], sa_user = [entry_node], sa_system = [entry_node],
       sa_requires = False, sa_reasons = [] \<rparr>"

definition ApplySafetyPass :: "scenario \<Rightarrow> resolved_capabilities \<Rightarrow> safety_result \<times> diagnostics" where
  "ApplySafetyPass s resolved =
     (walk_flow (safety_walker (rs_descriptors resolved)) ''flow'' (scn_flow s) safety_start, [])"

section \<open>Chains\<close>

text \<open>The chain of a list of nodes: each but the last has the next one as its only successor.\<close>

fun link :: "graph_node list \<Rightarrow> graph_node list" where
  "link [] = []"
| "link [n] = [n\<lparr>gn_next := []\<rparr>]"
| "link (n # m # ns) = n\<lparr>gn_next := [gn_id m]\<rparr> # link (m # ns)"

lemma link_Nil [simp]: "link ns = [] \<longleftrightarrow> ns = []"
  by (cases ns rule: link.cases) simp_all

lemma append_link: "gn_next n = [] \<Longrightarrow> append_node (link ns) n = link (ns @ [n])"
proof (induction ns rule: link.induct)
  case (3 a b ns)
  then have "append_node (link (b # ns)) n = link (b # ns @ [n])" by simp
  then show ?case by (simp add: append_node_def)
qed (simp_all add: append_node_def)

lemma append_links: "\<forall>n \<in> set new. gn_next n = [] \<Longrightarrow> append_nodes (link ns) new = link (ns @ new)"
  by (induction new arbitrary: ns) (simp_all add: append_nodes_def append_link)

lemma link_prefix: "\<exists>us'. link (us @ m # ws) = us' @ link (m # ws)"
proof (induction us rule: link.induct)
  case (2 a)
  then show ?case by (intro exI [of _ "[a\<lparr>gn_next := [gn_id m]\<rparr>]"]) simp
next
  case (3 a b us)
  then obtain us' where "link ((b # us) @ m # ws) = us' @ link (m # ws)" by blast
  then show ?case by (intro exI [of _ "a\<lparr>gn_next := [gn_id b]\<rparr> # us'"]) simp
qed simp

lemma link_ids [simp]: "map gn_id (link ns) = map gn_id ns"
  by (induction ns rule: link.induct) simp_all

lemma link_member: "n \<in> set ns \<Longrightarrow> \<exists>x. n\<lparr>gn_next := x\<rparr> \<in> set (link ns)"
  by (induction ns rule: link.induct) auto

lemma member_link: "m \<in> set (link ns) \<Longrightarrow> \<exists>n \<in> set ns. \<exists>x. m = n\<lparr>gn_next := x\<rparr>"
  by (induction ns rule: link.induct) auto

section \<open>The result in closed form\<close>

fun event_visit :: "'p event \<Rightarrow> ('p \<times> step) list" where
  "event_visit (Visit q st) = [(q, st)]"
| "event_visit (Enter q st c) = []"

definition visits :: "('p, 's, 'z) walker_scheme \<Rightarrow> 'p \<Rightarrow> flow \<Rightarrow> ('p \<times> step) list" where
  "visits w p f = concat (map event_visit (flow_events w p f))"

lemma visits_member: "(q, st) \<in> set (visits w p f) \<longleftrightarrow> Visit q st \<in> set (flow_events w p f)"
proof -
  have "(q, st) \<in> set (event_visit e) \<longleftrightarrow> e = Visit q st" for e by (cases e) auto
  then show ?thesis by (simp add: visits_def)
qed

lemma visits_steps: "map snd (visits w p f) = steps_under (descend w) f"
proof -
  have "map snd (event_visit e) = event_step e" for e :: "'a event" by (cases e) simp_all
  then have "map snd (visits w p f) = concat (map event_step (flow_events w p f))"
    by (simp add: visits_def map_concat comp_def)
  then show ?thesis by (simp add: events_steps)
qed

definition safety_visits :: "(string \<Rightarrow> descriptor option) \<Rightarrow> flow \<Rightarrow> safety_parts list" where
  "safety_visits descs f = map (\<lambda>(i, st). step_parts descs i st) (visits (safety_walker descs) ''flow'' f)"

definition collected :: "safety_parts list \<Rightarrow> safety_result" where
  "collected ps =
     \<lparr> sa_augmentations = concat (map sp_augmentations ps), sa_effects = concat (map sp_effects ps),
       sa_user = link (entry_node # map sp_user ps),
       sa_system = link (entry_node # concat (map sp_system ps)),
       sa_requires = (concat (map sp_reasons ps) \<noteq> []), sa_reasons = concat (map sp_reasons ps) \<rparr>"

definition loose :: "safety_parts \<Rightarrow> bool" where
  "loose p \<longleftrightarrow> gn_next (sp_user p) = [] \<and> (\<forall>n \<in> set (sp_system p). gn_next n = [])"

lemma node_fields [simp]:
  "gn_next (plain_node i k t r) = []" "gn_next (system_node i k t r) = []"
  "gn_id (plain_node i k t r) = i" "gn_id (system_node i k t r) = i"
  "gn_kind (plain_node i k t r) = k" "gn_kind (system_node i k t r) = k"
  "gn_system (plain_node i k t r) = False" "gn_system (system_node i k t r) = True"
  "gn_risk (plain_node i k t r) = r" "gn_risk (system_node i k t r) = r"
  by (simp_all add: plain_node_def system_node_def)

lemma loose_parts: "loose (step_parts descs i st)"
  by (simp add: step_parts_def loose_def action_parts_def Let_def both_graphs_def unlock_nodes_def
      siren_nodes_def split: option.splits)

lemma extend_collected: "loose p \<Longrightarrow> extend p (collected ps) = collected (ps @ [p])"
  by (simp add: extend_def collected_def append_links loose_def)

lemma collected_start: "safety_start = collected []"
  by (simp add: safety_start_def collected_def entry_node_def plain_node_def)

lemma safety_event:
  "run_event (safety_walker descs) e r =
     fold (\<lambda>(i, st). extend (step_parts descs i st)) (event_visit e) r"
  by (cases e) (simp_all add: safety_walker_def)

lemma fold_extend:
  "fold (\<lambda>(i, st). extend (step_parts descs i st)) vs (collected ps) =
     collected (ps @ map (\<lambda>(i, st). step_parts descs i st) vs)"
  by (induction vs arbitrary: ps) (auto simp: extend_collected loose_parts)

lemma safety_closed_form:
  "fst (ApplySafetyPass s resolved) = collected (safety_visits (rs_descriptors resolved) (scn_flow s))"
proof -
  let ?d = "rs_descriptors resolved"
  have "walk_flow (safety_walker ?d) p f r =
      fold (\<lambda>(i, st). extend (step_parts ?d i st)) (visits (safety_walker ?d) p f) r" for p f r
    unfolding walk_flow_events visits_def fold_concat_map by (intro fold_eqI) (rule safety_event)
  then show ?thesis
    by (simp add: ApplySafetyPass_def collected_start fold_extend safety_visits_def)
qed

lemma safety_visit:
  assumes "st \<in> set (steps_under enters_branch (scn_flow s))"
  obtains i where "step_parts descs i st \<in> set (safety_visits descs (scn_flow s))"
    and "(i, st) \<in> set (visits (safety_walker descs) ''flow'' (scn_flow s))"
proof -
  have "descend (safety_walker descs) = enters_branch" by (simp add: safety_walker_def)
  with assms have "st \<in> set (map snd (visits (safety_walker descs) ''flow'' (scn_flow s)))"
    by (simp only: visits_steps)
  then obtain i where "(i, st) \<in> set (visits (safety_walker descs) ''flow'' (scn_flow s))" by auto
  then show thesis by (intro that [of i]) (force simp: safety_visits_def)+
qed

section \<open>Properties\<close>

lemma in_parts:
  assumes "p \<in> set (safety_visits descs f)" obtains i st where "p = step_parts descs i st"
  using assms by (auto simp: safety_visits_def)

lemma unlock_gates:
  assumes "st \<in> set (steps_under enters_branch (scn_flow s))" and "st_action st = Some a"
    and "is_unlock (cr_id (ac_capability a))"
  shows "\<exists>us approval lock read unlock verify ws.
    sa_system (fst (ApplySafetyPass s resolved)) = us @ [approval, lock, read, unlock, verify] @ ws \<and>
    gn_kind approval = ''human_approval'' \<and> gn_system approval \<and> gn_next approval = [gn_id lock] \<and>
    gn_risk approval = RiskCritical \<and>
    gn_kind lock = ''resource_reservation'' \<and> gn_system lock \<and> gn_next lock = [gn_id read] \<and>
    gn_kind read = ''read_before_write'' \<and> gn_system read \<and> gn_next read = [gn_id unlock] \<and>
    gn_kind unlock = ''action'' \<and> gn_risk unlock = RiskCritical \<and> gn_next unlock = [gn_id verify] \<and>
    gn_kind verify = ''verify_after_write'' \<and> gn_system verify"
proof -
  let ?d = "rs_descriptors resolved"
  from safety_visit [OF assms(1)] obtain i where "step_parts ?d i st \<in> set (safety_visits ?d (scn_flow s))"
    by blast
  then obtain ps qs where ps: "safety_visits ?d (scn_flow s) = ps @ step_parts ?d i st # qs"
    by (auto dest: split_list)
  let ?us = "entry_node # concat (map sp_system ps)" and ?ws = "concat (map sp_system qs)"
  let ?n = "unlock_nodes i (cr_id (ac_capability a)) (action_resource (ac_capability a))"
  have "sp_system (step_parts ?d i st) = ?n"
    using assms(2,3) by (simp add: step_parts_def action_parts_def Let_def)
  with ps have sys: "sa_system (fst (ApplySafetyPass s resolved)) = link (?us @ ?n @ ?ws)"
    by (simp add: safety_closed_form collected_def)
  obtain A L R U V where n: "?n = [A, L, R, U, V]"
    and f: "gn_kind A = ''human_approval'' \<and> gn_system A \<and> gn_risk A = RiskCritical" "gn_kind L = ''resource_reservation'' \<and> gn_system L"
      "gn_kind R = ''read_before_write'' \<and> gn_system R" "gn_kind U = ''action'' \<and> gn_risk U = RiskCritical"
      "gn_kind V = ''verify_after_write'' \<and> gn_system V"
    by (simp add: unlock_nodes_def)
  obtain us' where us': "link (?us @ A # [L, R, U, V] @ ?ws) = us' @ link (A # [L, R, U, V] @ ?ws)"
    using link_prefix by blast
  obtain x ws' where v: "link (V # ?ws) = V\<lparr>gn_next := x\<rparr> # ws'" by (cases ?ws) auto
  have "sa_system (fst (ApplySafetyPass s resolved)) =
      us' @ [A\<lparr>gn_next := [gn_id L]\<rparr>, L\<lparr>gn_next := [gn_id R]\<rparr>, R\<lparr>gn_next := [gn_id U]\<rparr>,
        U\<lparr>gn_next := [gn_id V]\<rparr>, V\<lparr>gn_next := x\<rparr>] @ ws'"
    using sys us' v by (simp add: n)
  with f show ?thesis by (intro exI conjI) (assumption | simp)+
qed

text \<open>
  Every unlock that the pass reaches is guarded in the system graph: the chain runs through an
  approval by a person, a reservation of the door, a read of its state, the unlock itself and a
  verification, each having the next one as its only successor; the guards belong to the system
  and cannot be edited away.
\<close>

theorem unlock_is_gated:
  assumes "st \<in> set (steps_under enters_branch (scn_flow s))" and "st_action st = Some a"
    and "is_unlock (cr_id (ac_capability a))"
  shows "\<exists>us approval lock read unlock verify ws.
    sa_system (fst (ApplySafetyPass s resolved)) = us @ [approval, lock, read, unlock, verify] @ ws \<and>
    gn_kind approval = ''human_approval'' \<and> gn_system approval \<and> gn_next approval = [gn_id lock] \<and>
    gn_risk approval = RiskCritical \<and>
    gn_kind lock = ''resource_reservation'' \<and> gn_system lock \<and> gn_next lock = [gn_id read] \<and>
    gn_kind read = ''read_before_write'' \<and> gn_system read \<and> gn_next read = [gn_id unlock] \<and>
    gn_kind unlock = ''action'' \<and> gn_risk unlock = RiskCritical \<and> gn_next unlock = [gn_id verify] \<and>
    gn_kind verify = ''verify_after_write'' \<and> gn_system verify"
  using assms by (rule unlock_gates)

definition door :: "entity_ref option" where "door = Some (EntityRef ''front'' ''door'')"

definition unlock_step :: step where
  "unlock_step = act ''open'' ''door.unlock'' door []"

definition unlock_scenario :: scenario where
  "unlock_scenario = siren_scenario\<lparr>scn_flow := Flow [branch ''night'' [unlock_step]]\<rparr>"

theorem unlock_is_gated_witness:
  "\<exists>us approval lock ws.
     sa_system (fst (ApplySafetyPass unlock_scenario no_capabilities)) = us @ [approval, lock] @ ws \<and>
     gn_kind approval = ''human_approval'' \<and> gn_next approval = [gn_id lock] \<and> gn_system lock"
proof -
  have "unlock_step \<in> set (steps_under enters_branch (scn_flow unlock_scenario))"
    by (simp add: unlock_scenario_def) code_simp
  moreover have "st_action unlock_step = Some (ActionStep (CapabilityRef ''door.unlock'' ''1.1.0'' door) [] None)"
    by (simp add: unlock_step_def act_def)
  moreover have "is_unlock ''door.unlock''" by code_simp
  ultimately obtain us approval lock read unlock verify ws where
    "sa_system (fst (ApplySafetyPass unlock_scenario no_capabilities)) = us @ [approval, lock, read, unlock, verify] @ ws"
    "gn_kind approval = ''human_approval''" "gn_next approval = [gn_id lock]" "gn_system lock"
    using unlock_is_gated [of unlock_step unlock_scenario _ no_capabilities] by fastforce
  then show ?thesis by (intro exI [of _ us] exI [of _ approval] exI [of _ lock] exI [of _ "[read, unlock, verify] @ ws"]) simp
qed

text \<open>
  The pass stops at a parallel step: an unlock in one of its branches gets no gate, and its node
  does not even appear in the graph.
\<close>

definition hidden_unlock :: flow where
  "hidden_unlock =
     Flow [Step ''fork'' StepParallel None None None None
       (Some (ParallelStep [Flow [unlock_step], stop_flow])) None None None None]"

lemma parallel_unlock_has_no_gate:
  "unlock_step \<in> set (all_steps hidden_unlock) \<and>
   map gn_kind (sa_system (fst (ApplySafetyPass (siren_scenario\<lparr>scn_flow := hidden_unlock\<rparr>) no_capabilities))) =
     [''trigger'', ''parallel'']"
proof
  show "unlock_step \<in> set (all_steps hidden_unlock)" by code_simp
  have "map gn_kind (sa_system (walk_flow (safety_walker Map.empty) ''flow'' hidden_unlock safety_start)) =
     [''trigger'', ''parallel'']" by code_simp
  then show "map gn_kind (sa_system (fst (ApplySafetyPass (siren_scenario\<lparr>scn_flow := hidden_unlock\<rparr>) no_capabilities))) =
     [''trigger'', ''parallel'']" by (simp add: ApplySafetyPass_def no_capabilities_def)
qed

lemma visit_path: "Visit q st \<in> set (flow_events w p f) \<Longrightarrow> \<exists>p' i. q = at_step w p' i st"
proof (induction w p f rule: flow_events.induct)
  case (1 w p ss)
  from "1.prems" show ?case
    unfolding in_flow_events
  proof (elim exE conjE disjE)
    fix i x d h
    assume x: "(i, x) \<in> set (enumerate 0 ss)" and h: "(d, h) \<in> set (step_children x)" "descend w x d"
      and v: "Visit q st \<in> set (flow_events w (at_child w (at_step w p i x) d) h)"
    from "1.IH" [OF x refl, of "(d, h)" d h] h v show ?thesis by simp
  qed auto
qed

lemma parts_user: "gn_id (sp_user (step_parts descs i st)) = i" "\<not> gn_system (sp_user (step_parts descs i st))"
  by (simp_all add: step_parts_def action_parts_def Let_def both_graphs_def split: option.splits)

lemma user_ids:
  assumes "\<forall>st \<in> set (steps_under enters_branch f). step_id st \<noteq> []"
  shows "map (gn_id \<circ> sp_user) (safety_visits descs f) = map step_id (steps_under enters_branch f)"
proof -
  let ?w = "safety_walker descs"
  have d: "descend ?w = enters_branch" by (simp add: safety_walker_def)
  have "i = step_id st" if "(i, st) \<in> set (visits ?w ''flow'' f)" for i st
  proof -
    from that have v: "Visit i st \<in> set (flow_events ?w ''flow'' f)" by (simp add: visits_member)
    then have "st \<in> set (steps_under enters_branch f)" using visited_step [of st ?w] d by auto
    with visit_path [OF v] assms show ?thesis by (auto simp: safety_walker_def node_id_def)
  qed
  then have "map (gn_id \<circ> sp_user) (safety_visits descs f) = map (step_id \<circ> snd) (visits ?w ''flow'' f)"
    by (auto simp: safety_visits_def parts_user)
  also have "\<dots> = map step_id (steps_under enters_branch f)"
    using visits_steps [of ?w "''flow''" f] by (simp add: d flip: map_map)
  finally show ?thesis .
qed

lemma parts_guards:
  "(\<exists>cap res. sp_augmentations (step_parts descs i st) = unlock_augmentations i res \<and>
      sp_system (step_parts descs i st) = unlock_nodes i cap res) \<or>
   (\<exists>cap. sp_augmentations (step_parts descs i st) = siren_augmentations i \<and>
      sp_system (step_parts descs i st) = siren_nodes i cap) \<or>
   sp_augmentations (step_parts descs i st) = []"
proof (cases "st_action st")
  case (Some a)
  then show ?thesis by (simp add: step_parts_def action_parts_def Let_def) blast
qed (simp add: step_parts_def both_graphs_def split: option.splits)

lemma parts_augmentations:
  assumes "g \<in> set (sp_augmentations (step_parts descs i st))"
  shows "\<exists>n \<in> set (sp_system (step_parts descs i st)). gn_id n = ag_node g \<and> gn_system n \<and> gn_risk n = ag_risk g"
proof -
  have "\<forall>g \<in> set (unlock_augmentations i res). \<exists>n \<in> set (unlock_nodes i cap res).
      gn_id n = ag_node g \<and> gn_system n \<and> gn_risk n = ag_risk g" for cap res
    by (simp add: unlock_augmentations_def unlock_nodes_def augmentation_def)
  moreover have "\<forall>g \<in> set (siren_augmentations i). \<exists>n \<in> set (siren_nodes i cap).
      gn_id n = ag_node g \<and> gn_system n \<and> gn_risk n = ag_risk g" for cap
    by (simp add: siren_augmentations_def siren_nodes_def augmentation_def)
  ultimately show ?thesis using parts_guards [of descs i st] assms by fastforce
qed

text \<open>
  The user graph is the user's intent and nothing else: after the entry it has one node for
  each step of the flow and of the branches of its decisions, in order, none of them owned by the
  system, while the system graph contains every node that an augmentation names, owned by the
  system and of the same risk.
\<close>

theorem graphs_keep_intent:
  assumes "\<forall>st \<in> set (steps_under enters_branch (scn_flow s)). step_id st \<noteq> []"
  shows "map gn_id (sa_user (fst (ApplySafetyPass s resolved))) =
      ''entry'' # map step_id (steps_under enters_branch (scn_flow s)) \<and>
    (\<forall>n \<in> set (sa_user (fst (ApplySafetyPass s resolved))). \<not> gn_system n) \<and>
    (\<forall>g \<in> set (sa_augmentations (fst (ApplySafetyPass s resolved))).
      \<exists>n \<in> set (sa_system (fst (ApplySafetyPass s resolved))).
        gn_id n = ag_node g \<and> gn_system n \<and> gn_risk n = ag_risk g)"
proof (intro conjI ballI)
  let ?ps = "safety_visits (rs_descriptors resolved) (scn_flow s)"
  have e: "gn_id entry_node = ''entry''" "\<not> gn_system entry_node" by (simp_all add: entry_node_def)
  show "map gn_id (sa_user (fst (ApplySafetyPass s resolved))) =
      ''entry'' # map step_id (steps_under enters_branch (scn_flow s))"
    using user_ids [OF assms] by (simp add: safety_closed_form collected_def e)
  show "\<not> gn_system n" if "n \<in> set (sa_user (fst (ApplySafetyPass s resolved)))" for n
  proof -
    from that obtain m x where "m \<in> set (entry_node # map sp_user ?ps)" and "n = m\<lparr>gn_next := x\<rparr>"
      by (auto simp: safety_closed_form collected_def dest: member_link)
    then show ?thesis using e by (auto simp: parts_user elim!: in_parts)
  qed
  show "\<exists>n \<in> set (sa_system (fst (ApplySafetyPass s resolved))).
      gn_id n = ag_node g \<and> gn_system n \<and> gn_risk n = ag_risk g"
    if "g \<in> set (sa_augmentations (fst (ApplySafetyPass s resolved)))" for g
  proof -
    from that obtain p where p: "p \<in> set ?ps" "g \<in> set (sp_augmentations p)"
      by (auto simp: safety_closed_form collected_def)
    then obtain n where "n \<in> set (sp_system p)" and n: "gn_id n = ag_node g" "gn_system n" "gn_risk n = ag_risk g"
      using in_parts [OF p(1)] parts_augmentations by metis
    with p(1) have "n \<in> set (entry_node # concat (map sp_system ?ps))" by auto
    from link_member [OF this] obtain x where
      "n\<lparr>gn_next := x\<rparr> \<in> set (sa_system (fst (ApplySafetyPass s resolved)))"
      by (auto simp: safety_closed_form collected_def)
    with n show ?thesis by (intro bexI [of _ "n\<lparr>gn_next := x\<rparr>"]) simp_all
  qed
qed

theorem graphs_keep_intent_witness:
  "map gn_id (sa_user (fst (ApplySafetyPass unlock_scenario no_capabilities))) = [''entry'', ''night'', ''open'']"
proof -
  have steps: "steps_under enters_branch (scn_flow unlock_scenario) = [branch ''night'' [unlock_step], unlock_step]"
    by (simp add: unlock_scenario_def) code_simp
  have "step_id (branch ''night'' [unlock_step]) = ''night''" "step_id unlock_step = ''open''" by code_simp+
  then show ?thesis using graphs_keep_intent [of unlock_scenario no_capabilities] by (simp add: steps)
qed

lemma ordinary_parts:
  "e \<in> set (sp_effects (step_parts descs i st)) \<Longrightarrow>
   \<exists>a. st_action st = Some a \<and> (let cap = cr_id (ac_capability a); res = action_resource (ac_capability a) in
     is_unlock cap \<and> e = unlock_effect cap res \<or>
     \<not> is_unlock cap \<and> is_siren cap \<and> e = siren_effect cap res \<or>
     \<not> is_unlock cap \<and> \<not> is_siren cap \<and> (\<exists>d. descs cap = Some d \<and> e = ordinary_effect d res))"
  by (auto simp: step_parts_def action_parts_def Let_def both_graphs_def split: option.splits if_splits)

text \<open>
  Every external effect of a resolved scenario is bounded: it times out after a positive time,
  at most the longest time that a siren may sound, and is retried between one and three times. The
  effects of unlocks are critical, read before and verified after the write and reconciled; those
  of sirens are verified and compensated by switching the siren off.
\<close>

theorem effects_bounded:
  assumes "ResolveCapabilities s reg = (resolved, ds)"
    and "e \<in> set (sa_effects (fst (ApplySafetyPass s resolved)))"
  shows "0 < ef_timeout e \<and> ef_timeout e \<le> MaxSirenDuration \<and> 1 \<le> ef_retries e \<and> ef_retries e \<le> 3 \<and>
    (if is_unlock (ef_capability e)
     then ef_risk e = RiskCritical \<and> ef_read_before e \<and> ef_verify_after e \<and> ef_reconciliation e
     else if is_siren (ef_capability e)
     then ef_timeout e = MaxSirenDuration \<and> ef_verify_after e \<and> ef_compensation e = ''ensure_disabled''
     else ef_timeout e = DefaultActionTimeout)"
proof -
  have inv: "resolved_inv resolved"
    using assms(1) resolve_with_inv resolved_inv_none
    by (auto simp: ResolveCapabilities_def split: option.splits) (metis fst_conv)
  from assms(2) obtain p where "p \<in> set (safety_visits (rs_descriptors resolved) (scn_flow s))"
    and "e \<in> set (sp_effects p)" by (auto simp: safety_closed_form collected_def)
  then obtain i st where "e \<in> set (sp_effects (step_parts (rs_descriptors resolved) i st))"
    by (auto elim!: in_parts)
  from ordinary_parts [OF this] obtain cap res where
    "is_unlock cap \<and> e = unlock_effect cap res \<or>
     \<not> is_unlock cap \<and> is_siren cap \<and> e = siren_effect cap res \<or>
     \<not> is_unlock cap \<and> \<not> is_siren cap \<and> (\<exists>d. rs_descriptors resolved cap = Some d \<and> e = ordinary_effect d res)"
    by (auto simp: Let_def)
  then show ?thesis
  proof (elim disjE conjE exE)
    fix d assume d: "rs_descriptors resolved cap = Some d" and "e = ordinary_effect d res"
      "\<not> is_unlock cap" "\<not> is_siren cap"
    moreover have "d_id d = cap" using inv d by (simp add: resolved_inv_def)
    ultimately show ?thesis by (simp add: ordinary_effect_def DefaultActionTimeout_def MaxSirenDuration_def)
  qed (simp_all add: unlock_effect_def siren_effect_def MaxSirenDuration_def)
qed

theorem effects_bounded_witness:
  "\<exists>e \<in> set (sa_effects (fst (ApplySafetyPass unlock_scenario no_capabilities))).
     ef_read_before e \<and> 0 < ef_timeout e \<and> ef_timeout e \<le> MaxSirenDuration"
proof -
  let ?e = "unlock_effect ''door.unlock'' ''door:front''"
  have r: "ResolveCapabilities unlock_scenario None = (no_capabilities, [])"
    by (simp add: ResolveCapabilities_def)
  have "sa_effects (walk_flow (safety_walker Map.empty) ''flow'' (Flow [branch ''night'' [unlock_step]]) safety_start) =
      [?e]" by code_simp
  then have e: "?e \<in> set (sa_effects (fst (ApplySafetyPass unlock_scenario no_capabilities)))"
    by (simp add: ApplySafetyPass_def no_capabilities_def unlock_scenario_def)
  have "is_unlock (ef_capability ?e)" by code_simp
  with effects_bounded [OF r e] e show ?thesis by (intro bexI [of _ ?e]) auto
qed

end
