(* ===== verification/RuntimeClass.thy ===== *)
theory RuntimeClass
  imports SafetyPass
begin

text \<open>
  The choice of a runtime, \<open>compiler/classify.go\<close>: the reactive one, Axiom, for scenarios that
  keep no state and do nothing dangerous, and the durable one, ADGO, for the others.

  The pass descends into the branches of \<open>if\<close> steps only. That it overlooks nothing is a theorem:
  the outermost step of another kind that contains a flow is a reason for ADGO itself.
\<close>

section \<open>The pass\<close>

datatype runtime = RuntimeAxiom | RuntimeADGO

datatype classification = Classification (cl_runtime: runtime) (cl_reasons: "reason list")

definition steps_reason :: "flow \<Rightarrow> reason list" where
  "steps_reason f = (if length (flow_steps f) > 2 then [StepCountReason (length (flow_steps f))] else [])"

definition action_reasons :: "(string \<Rightarrow> descriptor option) \<Rightarrow> string \<Rightarrow> action_step \<Rightarrow> reason list" where
  "action_reasons descs i a =
     (case ac_retry a of
        None \<Rightarrow> []
      | Some r \<Rightarrow> if rh_attempts r > 1 then [RetryReason i (rh_attempts r)] else []) @
     (case descs (cr_id (ac_capability a)) of
        None \<Rightarrow> []
      | Some d \<Rightarrow>
          (if d_risk d = RiskHigh \<or> d_risk d = RiskCritical then [RiskReason (d_id d) (d_risk d)] else []) @
          (if d_external_effect d then [EffectReason (d_id d)] else []))"

text \<open>The code reads the payload that the kind promises; a valid step has it.\<close>

definition kind_reasons :: "(string \<Rightarrow> descriptor option) \<Rightarrow> step \<Rightarrow> reason list" where
  "kind_reasons descs st =
     (case st_kind st of
        StepWait \<Rightarrow>
          (case st_wait st of None \<Rightarrow> [] | Some w \<Rightarrow> [WaitStepReason (step_id st) (wt_duration w)])
      | StepHumanApproval \<Rightarrow> [ApprovalStepReason (step_id st)]
      | StepParallel \<Rightarrow> [ForkStepReason (step_id st)]
      | StepJoin \<Rightarrow> [ForkStepReason (step_id st)]
      | StepSubflow \<Rightarrow> [SubflowStepReason (step_id st)]
      | StepSwitch \<Rightarrow> [SwitchStepReason (step_id st)]
      | StepAction \<Rightarrow>
          (case st_action st of None \<Rightarrow> [] | Some a \<Rightarrow> action_reasons descs (step_id st) a)
      | _ \<Rightarrow> [])"

definition child_flow :: "step \<Rightarrow> child \<Rightarrow> flow" where
  "child_flow st c = (case map_of (step_children st) c of None \<Rightarrow> Flow [] | Some f \<Rightarrow> f)"

definition inspect_flow :: "(string \<Rightarrow> descriptor option) \<Rightarrow> flow \<Rightarrow> reason list" where
  "inspect_flow descs f =
     walk_flow
       (reporting (\<lambda>_ c. c = CThen \<or> c = CElse) (\<lambda>_. kind_reasons descs)
         (\<lambda>_ st c. steps_reason (child_flow st c)))
       ''flow'' f (steps_reason f)"

definition ClassifyRuntime ::
    "scenario \<Rightarrow> temporal_requirement list \<Rightarrow> safety_result \<Rightarrow> resolved_capabilities \<Rightarrow> classification" where
  "ClassifyRuntime s reqs safety resolved =
     (let reasons =
        (if sa_requires safety then sa_reasons safety else []) @
        map (\<lambda>r. TemporalReason (rq_kind r) (rq_duration r)) (filter rq_durable reqs) @
        inspect_flow (rs_descriptors resolved) (scn_flow s) in
      if keep_first [] reasons \<noteq> [] then Classification RuntimeADGO (keep_first [] reasons)
      else Classification RuntimeAxiom [StatelessReason])"

section \<open>What Axiom runs\<close>

lemma keep_first_Nil: "keep_first [] xs = [] \<longleftrightarrow> xs = []"
proof
  assume "keep_first [] xs = []"
  then have "set (keep_first [] xs) = {}" by simp
  then show "xs = []" by simp
qed simp

lemma runtime_axiom:
  "cl_runtime (ClassifyRuntime s reqs safety resolved) = RuntimeAxiom \<longleftrightarrow>
     (sa_requires safety \<longrightarrow> sa_reasons safety = []) \<and> (\<forall>r \<in> set reqs. \<not> rq_durable r) \<and>
     inspect_flow (rs_descriptors resolved) (scn_flow s) = []"
proof -
  let ?reasons = "(if sa_requires safety then sa_reasons safety else []) @
        map (\<lambda>r. TemporalReason (rq_kind r) (rq_duration r)) (filter rq_durable reqs) @
        inspect_flow (rs_descriptors resolved) (scn_flow s)"
  have "cl_runtime (ClassifyRuntime s reqs safety resolved) = RuntimeAxiom \<longleftrightarrow> ?reasons = []"
    by (simp only: ClassifyRuntime_def Let_def keep_first_Nil) (simp del: append_is_Nil_conv)
  also have "\<dots> \<longleftrightarrow> (sa_requires safety \<longrightarrow> sa_reasons safety = []) \<and> (\<forall>r \<in> set reqs. \<not> rq_durable r) \<and>
     inspect_flow (rs_descriptors resolved) (scn_flow s) = []"
    by (simp add: filter_empty_conv)
  finally show ?thesis .
qed

lemma inspect_nothing:
  assumes "inspect_flow descs f = []" and "st \<in> set (steps_under (\<lambda>_ c. c = CThen \<or> c = CElse) f)"
  shows "kind_reasons descs st = []"
proof -
  obtain q where "set (kind_reasons descs st) \<subseteq> set (inspect_flow descs f)"
    unfolding inspect_flow_def
    by (rule reported_step [OF assms(2), of "\<lambda>_. kind_reasons descs"
        "\<lambda>_ st c. steps_reason (child_flow st c)" "''flow''" "steps_reason f"])
  with assms(1) show ?thesis by simp
qed

lemma kind_reasons_Nil:
  assumes "kind_reasons descs st = []" and "validate_step st = None"
  shows "st_wait st = None" "st_human st = None" "st_parallel st = None" "st_join st = None"
    "st_subflow st = None" "st_switch st = None"
    "st_action st = Some a \<Longrightarrow> action_reasons descs (step_id st) a = []"
proof -
  note shape = validated_shape [OF assms(2)]
  have "st_kind st \<noteq> StepWait" using assms(1) shape(2) by (auto simp: kind_reasons_def)
  with shape(2) show "st_wait st = None" by simp
  have "st_kind st \<noteq> StepHumanApproval" using assms(1) by (auto simp: kind_reasons_def)
  with shape(7) show "st_human st = None" by simp
  have "st_kind st \<noteq> StepParallel" using assms(1) by (auto simp: kind_reasons_def)
  with shape(5) show "st_parallel st = None" by simp
  have "st_kind st \<noteq> StepJoin" using assms(1) by (auto simp: kind_reasons_def)
  with shape(6) show "st_join st = None" by simp
  have "st_kind st \<noteq> StepSubflow" using assms(1) by (auto simp: kind_reasons_def)
  with shape(8) show "st_subflow st = None" by simp
  have "st_kind st \<noteq> StepSwitch" using assms(1) by (auto simp: kind_reasons_def)
  with shape(4) show "st_switch st = None" by simp
  show "action_reasons descs (step_id st) a = []" if "st_action st = Some a"
    using assms(1) shape(1) that by (simp add: kind_reasons_def)
qed

lemma action_reasons_Nil:
  assumes "action_reasons descs i a = []"
  shows "ac_retry a = Some r \<Longrightarrow> rh_attempts r \<le> 1"
    and "descs (cr_id (ac_capability a)) = Some d \<Longrightarrow>
      d_risk d \<noteq> RiskHigh \<and> d_risk d \<noteq> RiskCritical \<and> \<not> d_external_effect d"
  using assms by (auto simp: action_reasons_def split: if_splits)

text \<open>Without switches and parallel steps, every nested flow is the branch of an \<open>if\<close>.\<close>

lemma only_branches:
  assumes "st_switch st = None" and "st_parallel st = None" and "(c, g) \<in> set (step_children st)"
  shows "c = CThen \<or> c = CElse"
  using assms by (auto simp: step_children_def split: option.splits if_step.splits)

lemma steps_under_relevant:
  "\<forall>st \<in> set (steps_under d f). \<forall>c g. (c, g) \<in> set (step_children st) \<longrightarrow> d st c \<Longrightarrow>
   steps_under d f = all_steps f"
proof (induction d f rule: steps_under.induct)
  case (1 d ss)
  have "concat (map (\<lambda>(c, f). steps_under d f) (filter (\<lambda>(c, f). d st c) (step_children st))) =
      concat (map (\<lambda>(c, f). all_steps f) (filter (\<lambda>(c, f). True) (step_children st)))"
    if st: "st \<in> set ss" for st
  proof -
    have "st \<in> set (steps_under d (Flow ss))" using st unfolding in_steps_under by blast
    then have d: "d st c" if "(c, g) \<in> set (step_children st)" for c g using "1.prems" that by blast
    have in_all: "\<forall>x \<in> set (steps_under d g). \<forall>c h. (c, h) \<in> set (step_children x) \<longrightarrow> d x c"
      if "(c, g) \<in> set (step_children st)" for c g
    proof
      fix x assume "x \<in> set (steps_under d g)"
      with st that d [OF that] have "x \<in> set (steps_under d (Flow ss))" unfolding in_steps_under by blast
      with "1.prems" show "\<forall>c h. (c, h) \<in> set (step_children x) \<longrightarrow> d x c" by blast
    qed
    have "steps_under d g = all_steps g" if g: "(c, g) \<in> set (step_children st)" for c g
      by (rule "1.IH" [OF st _ refl in_all [OF g]]) (use g d [OF g] in simp)
    then have "map (\<lambda>(c, f). steps_under d f) (step_children st) = map (\<lambda>(c, f). all_steps f) (step_children st)"
      by (intro map_cong) auto
    then have "concat (map (\<lambda>(c, f). steps_under d f) (step_children st)) =
        concat (map (\<lambda>(c, f). all_steps f) (step_children st))" by (rule arg_cong)
    moreover have "filter (\<lambda>(c, f). d st c) (step_children st) = step_children st"
      using d by (intro filter_True) auto
    moreover have "filter (\<lambda>(c, f). True) (step_children st) = step_children st" by simp
    ultimately show ?thesis by (simp only:)
  qed
  then show ?case
    unfolding steps_under.simps by (intro arg_cong [where f = concat] map_cong refl) (simp only:)
qed

lemma steps_under_mono: "x \<in> set (steps_under d f) \<Longrightarrow> x \<in> set (all_steps f)"
proof (induction d f arbitrary: x rule: steps_under.induct)
  case (1 d ss)
  from "1.prems" show ?case
    unfolding in_steps_under [of x d] 
  proof (elim bexE disjE exE conjE)
    fix st c g assume st: "st \<in> set ss" and g: "(c, g) \<in> set (step_children st)" "d st c"
      and x: "x \<in> set (steps_under d g)"
    from "1.IH" [OF st, of "(c, g)" c g x] g x have "x \<in> set (all_steps g)" by simp
    with st g show ?thesis unfolding in_steps_under by blast
  qed (auto simp: in_steps_under)
qed

lemma safety_quiet:
  assumes "sa_requires (fst (ApplySafetyPass s resolved)) \<longrightarrow> sa_reasons (fst (ApplySafetyPass s resolved)) = []"
    and "p \<in> set (safety_visits (rs_descriptors resolved) (scn_flow s))"
  shows "sp_reasons p = []"
proof -
  have "concat (map sp_reasons (safety_visits (rs_descriptors resolved) (scn_flow s))) = []"
    using assms(1) unfolding safety_closed_form collected_def by simp blast
  with assms(2) show ?thesis by simp
qed

lemma unlock_needs_adgo:
  assumes "st \<in> set (steps_under enters_branch (scn_flow s))" and "st_action st = Some a"
    and "is_unlock (cr_id (ac_capability a))"
  shows "cl_runtime (ClassifyRuntime s reqs (fst (ApplySafetyPass s resolved)) resolved) \<noteq> RuntimeAxiom"
proof
  assume "cl_runtime (ClassifyRuntime s reqs (fst (ApplySafetyPass s resolved)) resolved) = RuntimeAxiom"
  then have q: "sa_requires (fst (ApplySafetyPass s resolved)) \<longrightarrow> sa_reasons (fst (ApplySafetyPass s resolved)) = []"
    unfolding runtime_axiom by blast
  from assms(1) obtain j where
    "step_parts (rs_descriptors resolved) j st \<in> set (safety_visits (rs_descriptors resolved) (scn_flow s))"
    by (rule safety_visit)
  with q have "sp_reasons (step_parts (rs_descriptors resolved) j st) = []" by (rule safety_quiet)
  with assms(2,3) show False by (simp add: step_parts_def action_parts_def Let_def)
qed

section \<open>Properties\<close>

text \<open>
  C25. Axiom runs nothing that needs care. When a valid scenario is classified for Axiom then no
  step of its flow, at any depth, waits, asks a person, forks, joins, switches or runs another
  scenario; no action unlocks a door, sounds a siren or retries; what an action was resolved to is
  neither of high risk nor has an external effect; and nothing durable is required of time.
\<close>

theorem axiom_is_harmless:
  assumes "validate_flow (scn_flow s) = None"
    and "cl_runtime (ClassifyRuntime s reqs (fst (ApplySafetyPass s resolved)) resolved) = RuntimeAxiom"
  shows "(\<forall>r \<in> set reqs. \<not> rq_durable r) \<and>
    (\<forall>st \<in> set (all_steps (scn_flow s)).
      st_wait st = None \<and> st_human st = None \<and> st_parallel st = None \<and> st_join st = None \<and>
      st_subflow st = None \<and> st_switch st = None \<and>
      (\<forall>a. st_action st = Some a \<longrightarrow>
        \<not> is_unlock (cr_id (ac_capability a)) \<and> \<not> is_siren (cr_id (ac_capability a)) \<and>
        (\<forall>r. ac_retry a = Some r \<longrightarrow> rh_attempts r \<le> 1) \<and>
        (\<forall>d. rs_descriptors resolved (cr_id (ac_capability a)) = Some d \<longrightarrow>
          d_risk d \<noteq> RiskHigh \<and> d_risk d \<noteq> RiskCritical \<and> \<not> d_external_effect d)))"
proof -
  let ?d = "rs_descriptors resolved" and ?f = "scn_flow s"
  let ?br = "\<lambda>(_ :: step) c. c = CThen \<or> c = CElse"
  from assms(2) have q: "sa_requires (fst (ApplySafetyPass s resolved)) \<longrightarrow>
      sa_reasons (fst (ApplySafetyPass s resolved)) = []"
    and r: "\<forall>r \<in> set reqs. \<not> rq_durable r" and i: "inspect_flow ?d ?f = []"
    unfolding runtime_axiom by blast+
  have quiet: "kind_reasons ?d st = []" "validate_step st = None" if "st \<in> set (steps_under ?br ?f)" for st
    using inspect_nothing [OF i that] validated_steps [OF assms(1) that] by blast+
  have all: "steps_under ?br ?f = all_steps ?f"
  proof (rule steps_under_relevant, intro ballI allI impI)
    fix st c g assume st: "st \<in> set (steps_under ?br ?f)" and c: "(c, g) \<in> set (step_children st)"
    from kind_reasons_Nil [OF quiet [OF st]] c show "c = CThen \<or> c = CElse" by (auto dest: only_branches)
  qed
  have safe: "steps_under enters_branch ?f = all_steps ?f"
  proof (rule steps_under_relevant, intro ballI allI impI)
    fix st c g assume st: "st \<in> set (steps_under enters_branch ?f)" and c: "(c, g) \<in> set (step_children st)"
    have v: "validate_step st = None" using validated_steps [OF assms(1) st] .
    have "st \<in> set (all_steps ?f)" using st steps_under_mono by blast
    with all have st': "st \<in> set (steps_under ?br ?f)" by simp
    note n = kind_reasons_Nil [OF quiet [OF st']]
    have "c = CThen \<or> c = CElse" using only_branches n c by blast
    moreover have "st_if st \<noteq> None" using c n by (cases "st_if st") (auto simp: step_children_def)
    then have "st_action st = None" using validated_shape [OF v] by auto
    ultimately show "enters_branch st c" using n by (simp add: enters_branch_def)
  qed
  have "\<not> is_unlock (cr_id (ac_capability a)) \<and> \<not> is_siren (cr_id (ac_capability a))"
    if st: "st \<in> set (all_steps ?f)" and a: "st_action st = Some a" for st a
  proof -
    from st safe have "st \<in> set (steps_under enters_branch ?f)" by simp
    then obtain j where "step_parts ?d j st \<in> set (safety_visits ?d ?f)" by (rule safety_visit)
    with q have "sp_reasons (step_parts ?d j st) = []" by (rule safety_quiet)
    with a show ?thesis by (auto simp: step_parts_def action_parts_def Let_def split: if_splits)
  qed
  moreover have "action_reasons ?d (step_id st) a = []"
    if "st \<in> set (all_steps ?f)" "st_action st = Some a" for st a
    using kind_reasons_Nil(7) [OF quiet] that all by simp
  then have "\<forall>r. ac_retry a = Some r \<longrightarrow> rh_attempts r \<le> 1"
    and "\<forall>d. ?d (cr_id (ac_capability a)) = Some d \<longrightarrow>
      d_risk d \<noteq> RiskHigh \<and> d_risk d \<noteq> RiskCritical \<and> \<not> d_external_effect d"
    if "st \<in> set (all_steps ?f)" "st_action st = Some a" for st a
    using that action_reasons_Nil by metis+
  moreover have "st_wait st = None \<and> st_human st = None \<and> st_parallel st = None \<and> st_join st = None \<and>
      st_subflow st = None \<and> st_switch st = None" if "st \<in> set (all_steps ?f)" for st
    using kind_reasons_Nil(1-6) [OF quiet] that all by simp
  ultimately show ?thesis using r by blast
qed

definition lamp_scenario :: scenario where
  "lamp_scenario =
     siren_scenario\<lparr>scn_flow := Flow [act ''lamp'' ''light.on'' (Some (EntityRef ''lamp-1'' ''light'')) []]\<rparr>"

theorem axiom_is_harmless_witness:
  "cl_runtime (ClassifyRuntime lamp_scenario [] (fst (ApplySafetyPass lamp_scenario no_capabilities)) no_capabilities)
     = RuntimeAxiom \<and> \<not> is_unlock ''light.on''"
proof -
  let ?st = "act ''lamp'' ''light.on'' (Some (EntityRef ''lamp-1'' ''light'')) []"
  have flow: "scn_flow lamp_scenario = Flow [?st]" by (simp add: lamp_scenario_def)
  have v: "validate_flow (scn_flow lamp_scenario) = None" unfolding flow by code_simp
  have "sa_requires (walk_flow (safety_walker Map.empty) ''flow'' (Flow [?st]) safety_start) = False" by code_simp
  then have "\<not> sa_requires (fst (ApplySafetyPass lamp_scenario no_capabilities))"
    by (simp add: ApplySafetyPass_def no_capabilities_def flow)
  moreover have "inspect_flow Map.empty (Flow [?st]) = []" by code_simp
  ultimately have c: "cl_runtime (ClassifyRuntime lamp_scenario []
      (fst (ApplySafetyPass lamp_scenario no_capabilities)) no_capabilities) = RuntimeAxiom"
    by (simp add: runtime_axiom no_capabilities_def flow)
  have "?st \<in> set (all_steps (scn_flow lamp_scenario))" unfolding flow by code_simp
  moreover have "st_action ?st = Some (ActionStep (CapabilityRef ''light.on'' ''1.1.0''
      (Some (EntityRef ''lamp-1'' ''light''))) [] None)" by (simp add: act_def)
  ultimately have "\<not> is_unlock ''light.on''" using axiom_is_harmless [OF v c] by fastforce
  with c show ?thesis by blast
qed

end
