(* ===== verification/StaticAnalysis.thy ===== *)
theory StaticAnalysis
  imports Resolution
begin

text \<open>
  The checks before publication, \<open>compiler/static_analysis.go\<close>: direct recursion, conflicting
  actions in parallel branches, steps after a stop, and triggers that an action may fire again.

  The map from resources to capabilities is an association list in the order of first use; the
  code ranges over it in an unspecified order. Of a step with an \<open>if\<close> and a \<open>parallel\<close> payload,
  which no valid flow contains, the model looks at the parallel branches first.
\<close>

section \<open>Recursion\<close>

definition report_recursion :: "string \<Rightarrow> string \<Rightarrow> step \<Rightarrow> diagnostics" where
  "report_recursion scenario_id q st =
     (case st_subflow st of
        None \<Rightarrow> []
      | Some f \<Rightarrow>
          report_if (sf_scenario f = scenario_id) CodeSelfRecursion SeverityError
            (q @ ''.subflow.scenarioId''))"

definition check_self_recursion :: "scenario \<Rightarrow> diagnostics" where
  "check_self_recursion s =
     walk_flow (reporting (\<lambda>_ _. True) (report_recursion (scn_id s)) (\<lambda>_ _ _. [])) ''flow'' (scn_flow s) []"

section \<open>Conflicts\<close>

type_synonym resource_actions = "(string \<times> string list) list"

fun note_use :: "string \<Rightarrow> string \<Rightarrow> resource_actions \<Rightarrow> resource_actions" where
  "note_use key cap [] = [(key, [cap])]"
| "note_use key cap ((k, caps) # rest) =
     (if k = key then (k, caps @ [cap]) # rest else (k, caps) # note_use key cap rest)"

text \<open>An action on an entity: the resource and the capability.\<close>

definition step_use :: "step \<Rightarrow> (string \<times> string) option" where
  "step_use st =
     (case st_action st of
        None \<Rightarrow> None
      | Some a \<Rightarrow>
          map_option (\<lambda>e. (resource_key e, cr_id (ac_capability a))) (cr_entity (ac_capability a)))"

definition branch_step ::
    "step \<Rightarrow> (string \<Rightarrow> string option) \<times> diagnostics \<Rightarrow> (string \<Rightarrow> string option) \<times> diagnostics" where
  "branch_step st s =
     (case step_use st of
        None \<Rightarrow> s
      | Some (key, cap) \<Rightarrow>
          (case s of (used, ds) \<Rightarrow>
             (used(key \<mapsto> cap),
              ds @ report_if (case used key of None \<Rightarrow> False | Some prev \<Rightarrow> prev \<noteq> cap)
                CodeOppositeDesiredState SeverityError ''flow'')))"

definition parallel_conflicts :: "step \<Rightarrow> diagnostics" where
  "parallel_conflicts st =
     (case st_parallel st of
        None \<Rightarrow> []
      | Some p \<Rightarrow> snd (fold branch_step (concat (map flow_steps (par_branches p))) (Map.empty, [])))"

definition collect_step :: "step \<Rightarrow> resource_actions \<times> diagnostics \<Rightarrow> resource_actions \<times> diagnostics" where
  "collect_step st s =
     (case s of (acts, ds) \<Rightarrow>
        ((case step_use st of None \<Rightarrow> acts | Some (key, cap) \<Rightarrow> note_use key cap acts),
         ds @ parallel_conflicts st))"

definition collect_walker :: "(string, resource_actions \<times> diagnostics) walker" where
  "collect_walker =
     path_walker (\<lambda>_ c. c = CThen \<or> c = CElse) (\<lambda>_. collect_step) (\<lambda>_ _ _ s. s)"

definition collect_resource_actions :: "flow \<Rightarrow> resource_actions \<times> diagnostics" where
  "collect_resource_actions f = walk_flow collect_walker ''flow'' f ([], [])"

section \<open>Reachability\<close>

text \<open>
  The place of a step here is the text of its path, the steps of the flow it stands in, and
  whether a step before it in that flow stops.
\<close>

datatype place = Place (pl_path: string) (pl_steps: "step list") (pl_stopped: bool)

definition place_step :: "place \<Rightarrow> nat \<Rightarrow> step \<Rightarrow> place" where
  "place_step p i st =
     Place (path_step (pl_path p) i st) [st]
       (list_ex (\<lambda>x. st_kind x = StepStop) (take i (pl_steps p)))"

definition child_steps :: "step list \<Rightarrow> child \<Rightarrow> step list" where
  "child_steps sts c =
     (case sts of
        [st] \<Rightarrow> (case map_of (step_children st) c of None \<Rightarrow> [] | Some f \<Rightarrow> flow_steps f)
      | _ \<Rightarrow> [])"

definition place_child :: "place \<Rightarrow> child \<Rightarrow> place" where
  "place_child p c = Place (path_child (pl_path p) c) (child_steps (pl_steps p) c) False"

definition unreachable_walker :: "(place, diagnostics) walker" where
  "unreachable_walker =
     \<lparr> at_step = place_step, at_child = place_child,
       descend = (\<lambda>_ c. case c of CBranch _ \<Rightarrow> False | _ \<Rightarrow> True),
       visit = (\<lambda>p st ds. ds @ report_if (pl_stopped p) CodeUnreachableStep SeverityWarning (pl_path p)),
       enter = (\<lambda>_ _ _ ds. ds) \<rparr>"

definition check_unreachable :: "flow \<Rightarrow> diagnostics" where
  "check_unreachable f = walk_flow unreachable_walker (Place ''flow'' (flow_steps f) False) f []"

section \<open>Feedback and the whole analysis\<close>

definition equal_fold :: "string \<Rightarrow> string \<Rightarrow> bool" where
  "equal_fold a b \<longleftrightarrow> ToLower a = ToLower b"

definition check_feedback :: "trigger list \<Rightarrow> resource_actions \<Rightarrow> diagnostics" where
  "check_feedback ts acts =
     concat (map
       (\<lambda>t. concat (map
          (\<lambda>(_, caps). concat (map
             (\<lambda>cap. report_if (cr_id (tg_capability t) \<noteq> [] \<and> equal_fold (cr_id (tg_capability t)) cap)
                CodeCircularDependency SeverityWarning ''triggers'') caps))
          acts))
       ts)"

definition StaticConflictAnalysis :: "scenario \<Rightarrow> diagnostics" where
  "StaticConflictAnalysis s =
     check_self_recursion s @ snd (collect_resource_actions (scn_flow s)) @
     check_unreachable (scn_flow s) @
     check_feedback (scn_triggers s) (fst (collect_resource_actions (scn_flow s)))"

section \<open>Recursion is found everywhere\<close>

lemma self_recursion_reported:
  "HasErrors (check_self_recursion s) \<longleftrightarrow>
     (\<exists>st \<in> set (all_steps (scn_flow s)). \<exists>f. st_subflow st = Some f \<and> sf_scenario f = scn_id s)"
proof
  assume "HasErrors (check_self_recursion s)"
  then obtain d where "d \<in> set (check_self_recursion s)" by (auto simp: HasErrors_member)
  then obtain q st where "st \<in> set (all_steps (scn_flow s))" "d \<in> set (report_recursion (scn_id s) q st)"
    unfolding check_self_recursion_def by (auto elim!: reported_from)
  then show "\<exists>st \<in> set (all_steps (scn_flow s)). \<exists>f. st_subflow st = Some f \<and> sf_scenario f = scn_id s"
    by (cases "st_subflow st") (auto simp: report_recursion_def split: if_splits)
next
  assume "\<exists>st \<in> set (all_steps (scn_flow s)). \<exists>f. st_subflow st = Some f \<and> sf_scenario f = scn_id s"
  then obtain st f where st: "st \<in> set (all_steps (scn_flow s))" and f: "st_subflow st = Some f" "sf_scenario f = scn_id s"
    by blast
  obtain q where "set (report_recursion (scn_id s) q st) \<subseteq> set (check_self_recursion s)"
    unfolding check_self_recursion_def using reported_step [OF st] by metis
  moreover have "HasErrors (report_recursion (scn_id s) q st)" using f by (simp add: report_recursion_def)
  ultimately show "HasErrors (check_self_recursion s)" using errors_subset by blast
qed

text \<open>Two actions in the branches of a parallel step that want different things of one resource.\<close>

definition conflicting :: "step list \<Rightarrow> bool" where
  "conflicting sts \<longleftrightarrow>
     (\<exists>x \<in> set sts. \<exists>y \<in> set sts. \<exists>key c d.
        step_use x = Some (key, c) \<and> step_use y = Some (key, d) \<and> c \<noteq> d)"

definition clashes :: "(string \<Rightarrow> string option) \<Rightarrow> step \<Rightarrow> bool" where
  "clashes used st \<longleftrightarrow> (\<exists>key c d. step_use st = Some (key, c) \<and> used key = Some d \<and> c \<noteq> d)"

lemma clashes_update:
  "clashes (used(key \<mapsto> cap)) x \<or> (\<exists>d. used key = Some d \<and> cap \<noteq> d) \<longleftrightarrow>
     (\<exists>c. step_use x = Some (key, c) \<and> c \<noteq> cap) \<or> clashes used x \<or> (\<exists>d. used key = Some d \<and> cap \<noteq> d)"
proof (cases "step_use x")
  case None
  then show ?thesis by (simp add: clashes_def)
next
  case (Some u)
  obtain k c where u: "u = (k, c)" by (cases u)
  show ?thesis by (cases "k = key"; cases "used key") (auto simp: clashes_def Some u)
qed

lemma conflicting_Cons:
  "conflicting (st # sts) \<longleftrightarrow>
     conflicting sts \<or>
     (\<exists>key cap. step_use st = Some (key, cap) \<and> (\<exists>x \<in> set sts. \<exists>c. step_use x = Some (key, c) \<and> c \<noteq> cap))"
proof (cases "step_use st")
  case None
  then show ?thesis by (simp add: conflicting_def)
next
  case (Some u)
  obtain k c where u: "u = (k, c)" by (cases u)
  show ?thesis by (simp add: conflicting_def Some u) blast
qed

lemma branch_errors:
  "HasErrors (snd (fold branch_step sts (used, ds))) \<longleftrightarrow>
     HasErrors ds \<or> (\<exists>x \<in> set sts. clashes used x) \<or> conflicting sts"
proof (induction sts arbitrary: used ds)
  case Nil
  then show ?case by (simp add: conflicting_def)
next
  case (Cons st sts)
  show ?case
  proof (cases "step_use st")
    case None
    with Cons.IH [of used ds] show ?thesis by (simp add: branch_step_def conflicting_Cons clashes_def)
  next
    case (Some u)
    obtain key cap where u: "u = (key, cap)" by (cases u)
    let ?now = "\<exists>d. used key = Some d \<and> cap \<noteq> d"
    let ?other = "\<exists>x \<in> set sts. \<exists>c. step_use x = Some (key, c) \<and> c \<noteq> cap"
    have now: "(case used key of None \<Rightarrow> False | Some prev \<Rightarrow> prev \<noteq> cap) \<longleftrightarrow> ?now"
      by (auto split: option.splits)
    have "fold branch_step (st # sts) (used, ds) =
        fold branch_step sts (used(key \<mapsto> cap), ds @ report_if ?now CodeOppositeDesiredState SeverityError ''flow'')"
      using Some u by (simp add: branch_step_def now)
    then have "HasErrors (snd (fold branch_step (st # sts) (used, ds))) \<longleftrightarrow>
        HasErrors ds \<or> (\<exists>x \<in> set sts. clashes (used(key \<mapsto> cap)) x) \<or> ?now \<or> conflicting sts"
      by (simp only: Cons.IH HasErrors_append report_if_errors) blast
    also have "\<dots> \<longleftrightarrow> HasErrors ds \<or> ?other \<or> (\<exists>x \<in> set sts. clashes used x) \<or> ?now \<or> conflicting sts"
      using clashes_update [of used key cap] by blast
    also have "\<dots> \<longleftrightarrow> HasErrors ds \<or> (\<exists>x \<in> set (st # sts). clashes used x) \<or> conflicting (st # sts)"
      using Some u by (auto simp: conflicting_Cons clashes_def)
    finally show ?thesis .
  qed
qed

lemma parallel_errors:
  "HasErrors (parallel_conflicts st) \<longleftrightarrow>
     (\<exists>p. st_parallel st = Some p \<and> conflicting (concat (map flow_steps (par_branches p))))"
  by (simp add: parallel_conflicts_def branch_errors clashes_def split: option.splits)

lemma collect_errors:
  "HasErrors (snd (collect_resource_actions f)) \<longleftrightarrow>
     (\<exists>st \<in> set (steps_under (\<lambda>_ c. c = CThen \<or> c = CElse) f). HasErrors (parallel_conflicts st))"
proof -
  have "HasErrors (snd (fold (run_event collect_walker) es s)) \<longleftrightarrow>
      HasErrors (snd s) \<or> (\<exists>st \<in> set (concat (map event_step es)). HasErrors (parallel_conflicts st))" for es s
  proof (induction es arbitrary: s)
    case (Cons e es)
    show ?case
    proof (cases e)
      case v: (Visit q st)
      show ?thesis
      proof -
        have "snd (run_event collect_walker e s) = snd s @ parallel_conflicts st"
          by (cases s) (simp add: v collect_walker_def collect_step_def)
        with v show ?thesis by (simp add: Cons.IH)
      qed
    next
      case (Enter q st c)
      then have "run_event collect_walker e s = s" by (simp add: collect_walker_def)
      with Enter show ?thesis by (simp add: Cons.IH)
    qed
  qed simp
  from this [of "flow_events collect_walker ''flow'' f" "([], [])"]
  have "HasErrors (snd (collect_resource_actions f)) \<longleftrightarrow>
      (\<exists>st \<in> set (concat (map event_step (flow_events collect_walker ''flow'' f))). HasErrors (parallel_conflicts st))"
    by (simp only: collect_resource_actions_def walk_flow_events snd_conv HasErrors_Nil simp_thms)
  moreover have "descend collect_walker = (\<lambda>_ c. c = CThen \<or> c = CElse)" by (simp add: collect_walker_def)
  ultimately show ?thesis by (simp only: events_steps)
qed

lemma unreachable_warnings: "\<not> HasErrors (check_unreachable f)"
proof -
  have "\<not> HasErrors (run_event unreachable_walker e ds)" if "\<not> HasErrors ds" for e ds
    using that by (cases e) (simp_all add: unreachable_walker_def)
  then show ?thesis
    unfolding check_unreachable_def by (intro walk_preserves [where P = "\<lambda>ds. \<not> HasErrors ds"]) simp_all
qed

lemma feedback_warnings: "\<not> HasErrors (check_feedback ts acts)"
  by (auto simp: check_feedback_def concat_errors)

section \<open>Properties\<close>

text \<open>
  The static analysis rejects a scenario in exactly two cases: somewhere in the flow, at any
  depth, a subflow step runs the scenario itself; or in a parallel step that is not itself nested
  in a switch or a parallel step two actions of the branches use one resource with different
  capabilities.
\<close>

theorem static_analysis_rejects:
  "HasErrors (StaticConflictAnalysis s) \<longleftrightarrow>
     (\<exists>st \<in> set (all_steps (scn_flow s)). \<exists>f. st_subflow st = Some f \<and> sf_scenario f = scn_id s) \<or>
     (\<exists>st \<in> set (steps_under (\<lambda>_ c. c = CThen \<or> c = CElse) (scn_flow s)). \<exists>p. st_parallel st = Some p \<and>
       (\<exists>x \<in> set (concat (map flow_steps (par_branches p))). \<exists>y \<in> set (concat (map flow_steps (par_branches p))).
          \<exists>key c d. step_use x = Some (key, c) \<and> step_use y = Some (key, d) \<and> c \<noteq> d))"
  unfolding StaticConflictAnalysis_def HasErrors_append self_recursion_reported collect_errors parallel_errors
    conflicting_def
  by (simp add: unreachable_warnings feedback_warnings)

definition lamp :: "string \<Rightarrow> string \<Rightarrow> step" where
  "lamp i cap = act i cap (Some (EntityRef ''lamp-1'' ''light'')) []"

theorem static_analysis_rejects_witness:
  "HasErrors (StaticConflictAnalysis
     (siren_scenario\<lparr>scn_flow :=
        Flow [Step ''fork'' StepParallel None None None None
          (Some (ParallelStep [Flow [lamp ''a'' ''light.on''], Flow [lamp ''b'' ''light.off'']]))
          None None None None]\<rparr>))"
  (is "HasErrors (StaticConflictAnalysis (siren_scenario\<lparr>scn_flow := ?f\<rparr>))")
proof -
  let ?p = "ParallelStep [Flow [lamp ''a'' ''light.on''], Flow [lamp ''b'' ''light.off'']]"
  let ?fork = "Step ''fork'' StepParallel None None None None (Some ?p) None None None None"
  have "?fork \<in> set (steps_under (\<lambda>_ c. c = CThen \<or> c = CElse) ?f)" by code_simp
  moreover have "step_use (lamp ''a'' ''light.on'') = Some (''light:lamp-1'', ''light.on'')"
    "step_use (lamp ''b'' ''light.off'') = Some (''light:lamp-1'', ''light.off'')" by code_simp+
  ultimately show ?thesis
    unfolding static_analysis_rejects by (intro disjI2 bexI [of _ ?fork]) (simp_all add: ex_disj_distrib)
qed

end
