(* ===== verification/Compilation.thy ===== *)
theory Compilation
  imports RuntimeClass StaticAnalysis
begin

text \<open>
  Lowering and the compiler as a whole: \<open>compiler/axiom.go\<close>, \<open>compiler/adgo.go\<close>,
  \<open>compiler/manifest.go\<close>, \<open>compiler/digest.go\<close> and \<open>compiler/compiler.go\<close>.

  \<open>plan_hash\<close> is the SHA-256 text of the JSON of the plan, or the error of encoding it; like
  \<open>tz\<close>, \<open>enc\<close> and \<open>hash\<close> of the data model it is a parameter.
\<close>

section \<open>Axiom\<close>

text \<open>The value of an argument: the decoded literal, or the text of the reference.\<close>

datatype plan_argument = LiteralArgument "json option" | ReferenceArgument string

record axiom_plan =
  ap_module :: string
  ap_trigger :: string
  ap_condition :: "expr option"
  ap_action :: string
  ap_arguments :: "(string \<times> plan_argument) list"

definition plan_argument :: "expr \<Rightarrow> plan_argument" where
  "plan_argument e =
     (if ex_op e = ''literal'' then
        (case ex_value e of
           None \<Rightarrow> ReferenceArgument (ex_ref e)
         | Some v \<Rightarrow> LiteralArgument (v_data v))
      else ReferenceArgument (ex_ref e))"

definition LowerToAxiom :: "scenario \<Rightarrow> axiom_plan option \<times> diagnostics" where
  "LowerToAxiom s =
     (case scn_triggers s of
        [] \<Rightarrow> (None, [Diag CodeAxiomUnsupportedFeature SeverityError ''triggers''])
      | t # _ \<Rightarrow>
          (let action = (case flow_steps (scn_flow s) of [] \<Rightarrow> None | st # _ \<Rightarrow> st_action st) in
           (Some
             \<lparr> ap_module = ''axiom_mod_'' @ scn_id s, ap_trigger = tg_id t,
               ap_condition = (if expr_is_zero (scn_condition s) then None else Some (scn_condition s)),
               ap_action = (case action of None \<Rightarrow> [] | Some a \<Rightarrow> cr_id (ac_capability a)),
               ap_arguments =
                 (case action of
                    None \<Rightarrow> []
                  | Some a \<Rightarrow> map (\<lambda>(k, e). (k, plan_argument e)) (ac_arguments a)) \<rparr>, [])))"

section \<open>ADGO\<close>

datatype plan_value = RiskValue risk_level | TextValue string

record adgo_node =
  an_id :: string
  an_type :: string
  an_system :: bool
  an_transitions :: "string list"
  an_properties :: "(string \<times> plan_value) list"

record adgo_plan =
  dp_workflow :: string
  dp_entry :: string
  dp_nodes :: "adgo_node list"
  dp_resources :: "string list"

definition node_types :: "(string \<times> string) list" where
  "node_types =
     [(''trigger'', ''Trigger''), (''action'', ''Activity''), (''wait'', ''Wait''),
      (''human_approval'', ''Human''), (''parallel'', ''Fork''), (''join'', ''Join''),
      (''subflow'', ''Subflow''), (''if'', ''Decision''), (''decision'', ''Decision''),
      (''resource_reservation'', ''ResourceLock''), (''read_before_write'', ''ReadState''),
      (''verify_after_write'', ''VerifyWrite''), (''compensation'', ''Compensation''),
      (''duration_limit'', ''DurationLimit'')]"

definition node_type :: "string \<Rightarrow> string" where
  "node_type kind = (case map_of node_types kind of None \<Rightarrow> ''Activity'' | Some t \<Rightarrow> t)"

definition lower_node :: "graph_node \<Rightarrow> adgo_node" where
  "lower_node n =
     \<lparr> an_id = gn_id n, an_type = node_type (gn_kind n), an_system = gn_system n,
       an_transitions = gn_next n,
       an_properties =
         (if gn_kind n = ''human_approval'' then [(''risk'', RiskValue (gn_risk n))] else []) \<rparr>"

definition LowerToADGO :: "scenario \<Rightarrow> safety_result \<Rightarrow> adgo_plan option \<times> diagnostics" where
  "LowerToADGO s safety =
     (Some
       \<lparr> dp_workflow = ''adgo_wf_'' @ scn_id s @ ''_'' @ scn_revision s, dp_entry = ''entry'',
         dp_nodes = map lower_node (sa_system safety),
         dp_resources = filter (\<lambda>k. k \<noteq> []) (map ef_resource (sa_effects safety)) \<rparr>, [])"

section \<open>The manifest\<close>

definition CompilerVersion :: string where "CompilerVersion = ''1.0.0''"

record manifest =
  mf_scenario :: string
  mf_revision :: string
  mf_semantic_digest :: string
  mf_compiler :: string
  mf_versions :: "(string \<times> string) list"
  mf_runtime :: runtime
  mf_reasons :: "reason list"
  mf_plan_digest :: string
  mf_permissions :: "string list"
  mf_entities :: "entity_ref list"
  mf_resources :: "string list"
  mf_effects :: "external_effect list"
  mf_augmentations :: "safety_augmentation list"
  mf_temporal :: "temporal_requirement list"
  mf_compatible_from :: string
  mf_user :: "graph_node list"
  mf_system :: "graph_node list"
  mf_axiom :: "axiom_plan option"
  mf_adgo :: "adgo_plan option"
  mf_diagnostics :: diagnostics

text \<open>What the plan digest covers.\<close>

record plan_payload =
  pp_scenario :: string
  pp_semantic_digest :: string
  pp_compiler :: string
  pp_versions :: "(string \<times> string) list"
  pp_runtime :: runtime
  pp_permissions :: "string list"
  pp_resources :: "string list"
  pp_effects :: "external_effect list"
  pp_augmentations :: "safety_augmentation list"
  pp_axiom :: "axiom_plan option"
  pp_adgo :: "adgo_plan option"

definition plan_payload_of :: "manifest \<Rightarrow> plan_payload" where
  "plan_payload_of m =
     \<lparr> pp_scenario = mf_scenario m, pp_semantic_digest = mf_semantic_digest m,
       pp_compiler = mf_compiler m, pp_versions = mf_versions m, pp_runtime = mf_runtime m,
       pp_permissions = mf_permissions m, pp_resources = mf_resources m, pp_effects = mf_effects m,
       pp_augmentations = mf_augmentations m, pp_axiom = mf_axiom m, pp_adgo = mf_adgo m \<rparr>"

definition ComputePlanDigest ::
    "(plan_payload \<Rightarrow> go_error + string) \<Rightarrow> manifest option \<Rightarrow> go_error + string" where
  "ComputePlanDigest plan_hash m =
     (case m of
        None \<Rightarrow> Inl (Error ''compiler: manifest is nil'')
      | Some m \<Rightarrow> sum_bind (plan_hash (plan_payload_of m)) (\<lambda>h. Inr (''sha256:'' @ h)))"

section \<open>The compiler\<close>

text \<open>The manifest of a normalised scenario, before its plan digest, with all diagnostics.\<close>

definition assemble :: "scenario \<Rightarrow> string \<Rightarrow> registry option \<Rightarrow> manifest" where
  "assemble s digest reg =
     (case BuildTypeEnvironment s reg of (env, env_diags) \<Rightarrow>
      case ResolveCapabilities s reg of (resolved, resolve_diags) \<Rightarrow>
      case AnalyzeTemporal s of (reqs, temp_diags) \<Rightarrow>
      case ApplySafetyPass s resolved of (safety, safety_diags) \<Rightarrow>
        let classification = ClassifyRuntime s reqs safety resolved;
            axiom = (if cl_runtime classification = RuntimeAxiom then LowerToAxiom s else (None, []));
            adgo = (if cl_runtime classification = RuntimeAxiom then (None, []) else LowerToADGO s safety) in
        \<lparr> mf_scenario = scn_id s, mf_revision = scn_revision s, mf_semantic_digest = digest,
          mf_compiler = CompilerVersion, mf_versions = rs_versions resolved,
          mf_runtime = cl_runtime classification, mf_reasons = cl_reasons classification,
          mf_plan_digest = [], mf_permissions = rs_permissions resolved,
          mf_entities = rs_entities resolved, mf_resources = rs_resources resolved,
          mf_effects = sa_effects safety, mf_augmentations = sa_augmentations safety,
          mf_temporal = reqs, mf_compatible_from = ''1.0.0'', mf_user = sa_user safety,
          mf_system = sa_system safety, mf_axiom = fst axiom, mf_adgo = fst adgo,
          mf_diagnostics =
            env_diags @ resolve_diags @ TypeCheckScenario s env resolved @ temp_diags @ safety_diags @
            StaticConflictAnalysis s @ snd axiom @ snd adgo \<rparr>)"

definition Compile ::
    "(string \<Rightarrow> bool) \<Rightarrow> (expr \<Rightarrow> string) \<Rightarrow> (semantic \<Rightarrow> string) \<Rightarrow> (plan_payload \<Rightarrow> go_error + string) \<Rightarrow>
     registry option \<Rightarrow> scenario \<Rightarrow> manifest option \<times> diagnostics" where
  "Compile tz enc hash plan_hash reg source =
     (case Normalize tz enc source of
        Inl _ \<Rightarrow> (None, [Diag CodeMalformedStructure SeverityError ''scenario''])
      | Inr s \<Rightarrow>
          (case SemanticDigest tz enc hash s of
             Inl _ \<Rightarrow> (None, [Diag CodeCompilerInvariantBroken SeverityError ''scenario''])
           | Inr digest \<Rightarrow>
               (let m = assemble s digest reg in
                case ComputePlanDigest plan_hash (Some m) of
                  Inl _ \<Rightarrow> (Some m, mf_diagnostics m @ [Diag CodeCompilerInvariantBroken SeverityError ''plan''])
                | Inr d \<Rightarrow> (Some (m\<lparr>mf_plan_digest := d\<rparr>), mf_diagnostics m))))"

section \<open>What the compiler delivers\<close>

lemma assemble_fields:
  assumes "BuildTypeEnvironment s reg = (env, eds)" and "ResolveCapabilities s reg = (resolved, rds)"
  shows "mf_diagnostics (assemble s digest reg) =
      eds @ rds @ TypeCheckScenario s env resolved @ StaticConflictAnalysis s @
      (if cl_runtime (ClassifyRuntime s (fst (AnalyzeTemporal s)) (fst (ApplySafetyPass s resolved)) resolved) =
          RuntimeAxiom then snd (LowerToAxiom s) else [])"
    and "mf_runtime (assemble s digest reg) =
      cl_runtime (ClassifyRuntime s (fst (AnalyzeTemporal s)) (fst (ApplySafetyPass s resolved)) resolved)"
    and "mf_system (assemble s digest reg) = sa_system (fst (ApplySafetyPass s resolved))"
    and "mf_effects (assemble s digest reg) = sa_effects (fst (ApplySafetyPass s resolved))"
    and "mf_permissions (assemble s digest reg) = rs_permissions resolved"
    and "mf_resources (assemble s digest reg) = rs_resources resolved"
    and "mf_semantic_digest (assemble s digest reg) = digest"
    and "mf_adgo (assemble s digest reg) =
      (if mf_runtime (assemble s digest reg) = RuntimeAxiom then None
       else fst (LowerToADGO s (fst (ApplySafetyPass s resolved))))"
    and "mf_axiom (assemble s digest reg) =
      (if mf_runtime (assemble s digest reg) = RuntimeAxiom then fst (LowerToAxiom s) else None)"
    and "mf_versions (assemble s digest reg) = rs_versions resolved"
  using assms by (simp_all add: assemble_def Let_def AnalyzeTemporal_def ApplySafetyPass_def LowerToADGO_def)

lemma Compile_Some:
  assumes "Compile tz enc hash plan_hash reg source = (Some m, ds)"
  obtains s digest where "Normalize tz enc source = Inr s" and "SemanticDigest tz enc hash s = Inr digest"
    and "\<exists>d. m = (assemble s digest reg)\<lparr>mf_plan_digest := d\<rparr>"
    and "\<exists>es. ds = mf_diagnostics (assemble s digest reg) @ es"
proof -
  from assms obtain s where n: "Normalize tz enc source = Inr s"
    by (auto simp: Compile_def split: sum.splits)
  with assms obtain digest where d: "SemanticDigest tz enc hash s = Inr digest"
    by (auto simp: Compile_def split: sum.splits)
  let ?m = "assemble s digest reg"
  have "m = ?m \<or> (\<exists>d. m = ?m\<lparr>mf_plan_digest := d\<rparr>)" and es: "\<exists>es. ds = mf_diagnostics ?m @ es"
    using assms n d by (auto simp: Compile_def Let_def split: sum.splits)
  moreover have "?m = ?m\<lparr>mf_plan_digest := mf_plan_digest ?m\<rparr>" by simp
  ultimately have "\<exists>d. m = ?m\<lparr>mf_plan_digest := d\<rparr>" by metis
  with n d es show thesis using that by blast
qed

section \<open>Examples\<close>

lemma unlock_scenario_normal: "Normalize (\<lambda>_. True) ex_ref unlock_scenario = Inr unlock_scenario"
  by code_simp

lemma siren_scenario_compiles:
  "\<exists>m ds. Compile (\<lambda>_. True) ex_ref trigger_names (\<lambda>_. Inr ''plan'') (Some siren_registry) siren_scenario =
     (Some m, ds) \<and> \<not> HasErrors ds \<and> map fst (mf_versions m) = [''siren.sound'']"
proof -
  let ?r = "Some siren_registry"
  obtain env eds where e: "BuildTypeEnvironment siren_scenario ?r = (env, eds)" by fastforce
  obtain resolved rds where rs: "ResolveCapabilities siren_scenario ?r = (resolved, rds)" by fastforce
  have "eds = []" using bound_parameters(1) [OF normalized_parameter_types [OF siren_scenario_normal] e] .
  moreover have "rds = []" using siren_resolves rs by simp
  moreover have "\<not> HasErrors (TypeCheckScenario siren_scenario env (fst (ResolveCapabilities siren_scenario ?r)))"
    by code_simp
  then have "\<not> HasErrors (TypeCheckScenario siren_scenario env resolved)" by (simp add: rs)
  moreover have "StaticConflictAnalysis siren_scenario = [Diag CodeCircularDependency SeverityWarning ''triggers'']"
    by code_simp
  moreover have "snd (LowerToAxiom siren_scenario) = []" by code_simp
  ultimately have clean: "\<not> HasErrors (mf_diagnostics (assemble siren_scenario digest ?r))" for digest
    by (simp add: assemble_fields(1) [OF e rs])
  have "SemanticDigest (\<lambda>_. True) ex_ref trigger_names siren_scenario =
      Inr (''sha256:'' @ trigger_names (semantic_part siren_scenario))"
    by (simp add: SemanticDigest_def siren_scenario_normal)
  moreover have "map fst (rs_versions (fst (ResolveCapabilities siren_scenario ?r))) = [''siren.sound'']"
    by code_simp
  then have "map fst (mf_versions (assemble siren_scenario digest ?r)) = [''siren.sound'']" for digest
    by (simp add: assemble_fields(10) [OF e rs] rs)
  ultimately show ?thesis using clean
    by (simp add: Compile_def siren_scenario_normal Let_def ComputePlanDigest_def)
qed

definition unlock_manifest :: manifest where
  "unlock_manifest =
     (assemble unlock_scenario ''sha256:t1'' None)\<lparr>mf_plan_digest := ''sha256:plan''\<rparr>"

lemma unlock_compiled:
  "Compile (\<lambda>_. True) ex_ref trigger_names (\<lambda>_. Inr ''plan'') None unlock_scenario =
     (Some unlock_manifest, mf_diagnostics (assemble unlock_scenario ''sha256:t1'' None))"
proof -
  have "trigger_names (semantic_part unlock_scenario) = ''t1''" by code_simp
  then show ?thesis
    by (simp add: Compile_def unlock_scenario_normal SemanticDigest_def Let_def ComputePlanDigest_def
        unlock_manifest_def)
qed

lemma unlock_scenario_clean: "\<not> HasErrors (mf_diagnostics (assemble unlock_scenario ''sha256:t1'' None))"
  by code_simp

end
