(* ===== verification/Dependencies.thy ===== *)
theory Dependencies
  imports Compilation
begin

text \<open>
  The dependency graph of the catalog, \<open>catalog/dependency.go\<close>: which capabilities, entities and
  other scenarios the active scenarios use, indexed both ways.

  A Go map of sets is a partial map to sets. The graph keeps three indices of the same shape; an
  index is a forward map from scenarios to what they use and a reverse map from what is used to
  its users. The lists that the queries return have no specified order and are sets here.
\<close>

section \<open>One index\<close>

record dependency_index =
  ix_forward :: "string \<Rightarrow> string set option"
  ix_users :: "string \<Rightarrow> string set option"

definition empty_index :: dependency_index where
  "empty_index = \<lparr> ix_forward = Map.empty, ix_users = Map.empty \<rparr>"

definition drop_user :: "string \<Rightarrow> string set \<Rightarrow> string set option" where
  "drop_user i us = (if us - {i} = {} then None else Some (us - {i}))"

definition clear_index :: "string \<Rightarrow> dependency_index \<Rightarrow> dependency_index" where
  "clear_index i ix =
     (case ix_forward ix i of
        None \<Rightarrow> ix
      | Some deps \<Rightarrow>
          \<lparr> ix_forward = (ix_forward ix)(i := None),
            ix_users =
              (\<lambda>d. case ix_users ix d of
                 None \<Rightarrow> None
               | Some us \<Rightarrow> if d \<in> deps then drop_user i us else Some us) \<rparr>)"

definition add_user ::
    "string \<Rightarrow> string \<Rightarrow> (string \<Rightarrow> string set option) \<Rightarrow> (string \<Rightarrow> string set option)" where
  "add_user i d users = users(d \<mapsto> insert i (case users d of None \<Rightarrow> {} | Some us \<Rightarrow> us))"

definition write_index :: "string \<Rightarrow> string list \<Rightarrow> dependency_index \<Rightarrow> dependency_index" where
  "write_index i ds ix =
     \<lparr> ix_forward = (ix_forward ix)(i \<mapsto> set ds), ix_users = fold (add_user i) ds (ix_users ix) \<rparr>"

definition index_users :: "dependency_index \<Rightarrow> string \<Rightarrow> string set" where
  "index_users ix d = (case ix_users ix d of None \<Rightarrow> {} | Some us \<Rightarrow> us)"

section \<open>The graph\<close>

record dependency_graph =
  dg_capabilities :: dependency_index
  dg_entities :: dependency_index
  dg_subflows :: dependency_index
  dg_templates :: "string \<Rightarrow> string set option"

definition NewDependencyGraph :: dependency_graph where
  "NewDependencyGraph =
     \<lparr> dg_capabilities = empty_index, dg_entities = empty_index, dg_subflows = empty_index,
       dg_templates = Map.empty \<rparr>"

definition RemoveScenario :: "string \<Rightarrow> dependency_graph \<Rightarrow> dependency_graph" where
  "RemoveScenario i g =
     \<lparr> dg_capabilities = clear_index i (dg_capabilities g), dg_entities = clear_index i (dg_entities g),
       dg_subflows = clear_index i (dg_subflows g), dg_templates = (dg_templates g)(i := None) \<rparr>"

text \<open>The scenarios that the subflow nodes of the plan name in a property.\<close>

definition subflow_ids :: "manifest \<Rightarrow> string list" where
  "subflow_ids m =
     (case mf_adgo m of
        None \<Rightarrow> []
      | Some plan \<Rightarrow>
          concat (map
            (\<lambda>n. if an_type n \<noteq> ''Subflow'' then []
               else (case map_of (an_properties n) ''scenarioId'' of
                       Some (TextValue s) \<Rightarrow> if s = [] then [] else [s]
                     | _ \<Rightarrow> [])) (dp_nodes plan)))"

definition UpdateScenarioDependencies ::
    "string \<Rightarrow> manifest option \<Rightarrow> string \<Rightarrow> dependency_graph \<Rightarrow> dependency_graph" where
  "UpdateScenarioDependencies i manifest template g =
     (let g' = RemoveScenario i g in
      case manifest of
        None \<Rightarrow> g'
      | Some m \<Rightarrow>
          \<lparr> dg_capabilities = write_index i (map fst (mf_versions m)) (dg_capabilities g'),
            dg_entities = write_index i (map resource_key (mf_entities m)) (dg_entities g'),
            dg_subflows = write_index i (subflow_ids m) (dg_subflows g'),
            dg_templates =
              (if template = [] then dg_templates g' else (dg_templates g')(i \<mapsto> {template})) \<rparr>)"

definition GetScenariosUsingCapability :: "dependency_graph \<Rightarrow> string \<Rightarrow> string set" where
  "GetScenariosUsingCapability g cap = index_users (dg_capabilities g) cap"

definition GetScenariosUsingEntity :: "dependency_graph \<Rightarrow> string \<Rightarrow> string \<Rightarrow> string set" where
  "GetScenariosUsingEntity g kind i = index_users (dg_entities g) (kind @ '':'' @ i)"

definition GetParentScenariosForSubflow :: "dependency_graph \<Rightarrow> string \<Rightarrow> string set" where
  "GetParentScenariosForSubflow g i = index_users (dg_subflows g) i"

section \<open>What an index promises\<close>

text \<open>
  A reverse index: rows of dependencies that can be written and dropped one at a time, and the
  users of a dependency, which are those whose row contains it. After any history of writes the
  users of a dependency are those whose last write contained it.
\<close>

locale reverse_index =
  fixes ok :: "'g \<Rightarrow> bool"
    and row :: "'g \<Rightarrow> string \<Rightarrow> string set"
    and users :: "'g \<Rightarrow> string \<Rightarrow> string set"
    and overwrite :: "string \<Rightarrow> string list option \<Rightarrow> 'g \<Rightarrow> 'g"
  assumes overwrite_ok: "ok g \<Longrightarrow> ok (overwrite i ds g)"
    and overwrite_row: "ok g \<Longrightarrow>
      row (overwrite i ds g) j = (if j = i then (case ds of None \<Rightarrow> {} | Some xs \<Rightarrow> set xs) else row g j)"
    and users_row: "ok g \<Longrightarrow> i \<in> users g d \<longleftrightarrow> d \<in> row g i"
begin

abbreviation run :: "(string \<times> string list option) list \<Rightarrow> 'g \<Rightarrow> 'g" where
  "run h g \<equiv> fold (\<lambda>(i, ds). overwrite i ds) h g"

lemma run_ok: "ok g \<Longrightarrow> ok (run h g)"
  by (induction h arbitrary: g) (auto intro: overwrite_ok)

lemma run_row:
  "ok g \<Longrightarrow>
   row (run h g) j =
     (case map_of (rev h) j of
        None \<Rightarrow> row g j
      | Some ds \<Rightarrow> (case ds of None \<Rightarrow> {} | Some xs \<Rightarrow> set xs))"
proof (induction h arbitrary: g)
  case (Cons x h)
  obtain i ds where x: "x = (i, ds)" by (cases x)
  from Cons.IH [OF overwrite_ok [OF Cons.prems, of i ds]] overwrite_row [OF Cons.prems]
  show ?case by (simp add: x map_add_def split: option.splits)
qed simp

lemma run_users:
  assumes "ok g" and "\<And>j. row g j = {}"
  shows "users (run h g) d = {j. \<exists>xs. map_of (rev h) j = Some (Some xs) \<and> d \<in> set xs}"
proof -
  have "j \<in> users (run h g) d \<longleftrightarrow> (\<exists>xs. map_of (rev h) j = Some (Some xs) \<and> d \<in> set xs)" for j
    using assms by (auto simp: users_row [OF run_ok] run_row split: option.splits)
  then show ?thesis by blast
qed

end

section \<open>The index keeps the promise\<close>

definition index_row :: "dependency_index \<Rightarrow> string \<Rightarrow> string set" where
  "index_row ix i = (case ix_forward ix i of None \<Rightarrow> {} | Some ds \<Rightarrow> ds)"

definition index_inv :: "dependency_index \<Rightarrow> bool" where
  "index_inv ix \<longleftrightarrow> (\<forall>d. ix_users ix d \<noteq> Some {} \<and> (\<forall>i. i \<in> index_users ix d \<longleftrightarrow> d \<in> index_row ix i))"

definition overwrite_index :: "string \<Rightarrow> string list option \<Rightarrow> dependency_index \<Rightarrow> dependency_index" where
  "overwrite_index i ds ix =
     (case ds of None \<Rightarrow> clear_index i ix | Some xs \<Rightarrow> write_index i xs (clear_index i ix))"

lemma empty_index_inv: "index_inv empty_index" "index_row empty_index i = {}"
  by (simp_all add: index_inv_def index_users_def index_row_def empty_index_def)

lemma clear_index_row: "index_row (clear_index i ix) j = (if j = i then {} else index_row ix j)"
  by (simp add: clear_index_def index_row_def split: option.splits)

lemma clear_index_forward: "ix_forward (clear_index i ix) i = None"
  by (simp add: clear_index_def split: option.splits)

lemma clear_index_users:
  assumes "index_inv ix" shows "index_users (clear_index i ix) d = index_users ix d - {i}"
proof (cases "ix_forward ix i")
  case None
  then have "d \<notin> index_row ix i" by (simp add: index_row_def)
  with assms None show ?thesis by (auto simp: index_inv_def clear_index_def)
next
  case (Some deps)
  have "i \<in> index_users ix d \<longleftrightarrow> d \<in> deps" using assms Some by (simp add: index_inv_def index_row_def)
  with Some show ?thesis by (auto simp: clear_index_def index_users_def drop_user_def split: option.splits)
qed

lemma clear_index_inv:
  assumes "index_inv ix" shows "index_inv (clear_index i ix)"
proof -
  have "ix_users (clear_index i ix) d \<noteq> Some {}" for d
    using assms by (auto simp: clear_index_def index_inv_def drop_user_def split: option.splits if_splits)
  with assms show ?thesis
    by (simp add: index_inv_def clear_index_row clear_index_users [OF assms])
qed

lemma fold_add_user:
  "(case fold (add_user i) ds users d of None \<Rightarrow> {} | Some us \<Rightarrow> us) =
     (case users d of None \<Rightarrow> {} | Some us \<Rightarrow> us) \<union> (if d \<in> set ds then {i} else {})"
  by (induction ds arbitrary: users) (auto simp: add_user_def split: option.splits if_splits)

lemma fold_add_user_nonempty:
  "\<forall>d. users d \<noteq> Some {} \<Longrightarrow> fold (add_user i) ds users d \<noteq> Some {}"
  by (induction ds arbitrary: users) (auto simp: add_user_def)

lemma write_index_row: "index_row (write_index i xs ix) j = (if j = i then set xs else index_row ix j)"
  by (simp add: write_index_def index_row_def)

lemma write_index_inv:
  assumes "index_inv ix" and "ix_forward ix i = None" shows "index_inv (write_index i xs ix)"
proof -
  have "index_users (write_index i xs ix) d = index_users ix d \<union> (if d \<in> set xs then {i} else {})" for d
    by (simp add: write_index_def index_users_def fold_add_user)
  moreover have "ix_users (write_index i xs ix) d \<noteq> Some {}" for d
    using assms(1) by (simp add: write_index_def index_inv_def fold_add_user_nonempty)
  moreover have "index_row ix i = {}" using assms(2) by (simp add: index_row_def)
  ultimately show ?thesis using assms(1) by (auto simp: index_inv_def write_index_row)
qed

interpretation scenario_index: reverse_index index_inv index_row index_users overwrite_index
proof
  show "index_inv (overwrite_index i ds ix)" if "index_inv ix" for i ds ix
    using that by (auto simp: overwrite_index_def clear_index_inv write_index_inv clear_index_forward split: option.splits)
  show "index_row (overwrite_index i ds ix) j =
      (if j = i then (case ds of None \<Rightarrow> {} | Some xs \<Rightarrow> set xs) else index_row ix j)" for i ds ix j
    by (simp add: overwrite_index_def clear_index_row write_index_row split: option.splits)
  show "i \<in> index_users ix d \<longleftrightarrow> d \<in> index_row ix i" if "index_inv ix" for i ix d
    using that by (simp add: index_inv_def)
qed

section \<open>The graph after any history of writes\<close>

text \<open>What the catalog does to the graph: it indexes the manifest that became active, or drops a scenario.\<close>

datatype graph_write = Indexed string "manifest option" string | Dropped string

definition apply_write :: "graph_write \<Rightarrow> dependency_graph \<Rightarrow> dependency_graph" where
  "apply_write w g =
     (case w of
        Indexed i m template \<Rightarrow> UpdateScenarioDependencies i m template g
      | Dropped i \<Rightarrow> RemoveScenario i g)"

definition write_target :: "graph_write \<Rightarrow> string" where
  "write_target w = (case w of Indexed i _ _ \<Rightarrow> i | Dropped i \<Rightarrow> i)"

definition write_manifest :: "graph_write \<Rightarrow> manifest option" where
  "write_manifest w = (case w of Indexed _ m _ \<Rightarrow> m | Dropped _ \<Rightarrow> None)"

text \<open>The manifest of the last write to a scenario.\<close>

definition last_manifest :: "graph_write list \<Rightarrow> string \<Rightarrow> manifest option" where
  "last_manifest ws i =
     (case find (\<lambda>w. write_target w = i) (rev ws) of None \<Rightarrow> None | Some w \<Rightarrow> write_manifest w)"

definition index_history ::
    "(manifest \<Rightarrow> string list) \<Rightarrow> graph_write list \<Rightarrow> (string \<times> string list option) list" where
  "index_history keys ws = map (\<lambda>w. (write_target w, map_option keys (write_manifest w))) ws"

lemma apply_write_indices:
  "dg_capabilities (apply_write w g) =
     overwrite_index (write_target w) (map_option (\<lambda>m. map fst (mf_versions m)) (write_manifest w)) (dg_capabilities g)"
  "dg_entities (apply_write w g) =
     overwrite_index (write_target w) (map_option (\<lambda>m. map resource_key (mf_entities m)) (write_manifest w)) (dg_entities g)"
  "dg_subflows (apply_write w g) =
     overwrite_index (write_target w) (map_option subflow_ids (write_manifest w)) (dg_subflows g)"
  by (simp_all add: apply_write_def write_target_def write_manifest_def overwrite_index_def
      UpdateScenarioDependencies_def RemoveScenario_def Let_def split: graph_write.split option.split)

lemma fold_apply_write:
  "dg_capabilities (fold apply_write ws g) =
     scenario_index.run (index_history (\<lambda>m. map fst (mf_versions m)) ws) (dg_capabilities g)"
  "dg_entities (fold apply_write ws g) =
     scenario_index.run (index_history (\<lambda>m. map resource_key (mf_entities m)) ws) (dg_entities g)"
  "dg_subflows (fold apply_write ws g) = scenario_index.run (index_history subflow_ids ws) (dg_subflows g)"
  by (induction ws arbitrary: g) (simp_all add: index_history_def apply_write_indices)

lemma map_of_history:
  "map_of (rev (index_history keys ws)) i =
     map_option (\<lambda>w. map_option keys (write_manifest w)) (find (\<lambda>w. write_target w = i) (rev ws))"
proof -
  have "map_of (map (\<lambda>w. (write_target w, map_option keys (write_manifest w))) vs) i =
      map_option (\<lambda>w. map_option keys (write_manifest w)) (find (\<lambda>w. write_target w = i) vs)" for vs
    by (induction vs) simp_all
  then show ?thesis by (simp add: index_history_def rev_map)
qed

lemma history_users:
  "index_users (scenario_index.run (index_history keys ws) empty_index) d =
     {i. \<exists>m. last_manifest ws i = Some m \<and> d \<in> set (keys m)}"
  unfolding scenario_index.run_users [OF empty_index_inv]
  by (auto simp: map_of_history last_manifest_def split: option.splits)

lemma graph_after_writes:
  "GetScenariosUsingCapability (fold apply_write ws NewDependencyGraph) cap =
     {i. \<exists>m. last_manifest ws i = Some m \<and> cap \<in> fst ` set (mf_versions m)} \<and>
   GetScenariosUsingEntity (fold apply_write ws NewDependencyGraph) kind e =
     {i. \<exists>m. last_manifest ws i = Some m \<and> kind @ '':'' @ e \<in> resource_key ` set (mf_entities m)} \<and>
   GetParentScenariosForSubflow (fold apply_write ws NewDependencyGraph) sub =
     {i. \<exists>m. last_manifest ws i = Some m \<and> sub \<in> set (subflow_ids m)}"
  by (simp add: GetScenariosUsingCapability_def GetScenariosUsingEntity_def GetParentScenariosForSubflow_def
      fold_apply_write NewDependencyGraph_def history_users)

lemma last_manifest_other:
  "\<forall>w \<in> set us. write_target w \<noteq> i \<Longrightarrow> last_manifest (ws @ us) i = last_manifest ws i"
proof -
  assume "\<forall>w \<in> set us. write_target w \<noteq> i"
  then have "find (\<lambda>w. write_target w = i) (rev us @ vs) = find (\<lambda>w. write_target w = i) vs" for vs
    by (induction us arbitrary: vs rule: rev_induct) simp_all
  then show ?thesis by (simp add: last_manifest_def)
qed

lemma last_manifest_snoc: "last_manifest (ws @ [w]) (write_target w) = write_manifest w"
  by (simp add: last_manifest_def)

text \<open>
  The dependency graph tells who is affected: after any sequence of publications, roll-backs
  and removals, the scenarios that use a capability, an entity or a subflow are exactly those
  whose last indexed manifest names it; stale entries never remain and none is lost.
\<close>

theorem dependency_index_last_write:
  "GetScenariosUsingCapability (fold apply_write ws NewDependencyGraph) cap =
     {i. \<exists>m. last_manifest ws i = Some m \<and> cap \<in> fst ` set (mf_versions m)} \<and>
   GetScenariosUsingEntity (fold apply_write ws NewDependencyGraph) kind e =
     {i. \<exists>m. last_manifest ws i = Some m \<and> kind @ '':'' @ e \<in> resource_key ` set (mf_entities m)} \<and>
   GetParentScenariosForSubflow (fold apply_write ws NewDependencyGraph) sub =
     {i. \<exists>m. last_manifest ws i = Some m \<and> sub \<in> set (subflow_ids m)}"
  by (rule graph_after_writes)

text \<open>
  No node of a lowered plan has a property that names a scenario, so the compiler never
  makes a parent of a subflow known to the graph.
\<close>

lemma subflow_parents_unknown:
  assumes "Compile tz enc hash plan_hash reg source = (Some m, ds)"
  shows "subflow_ids m = []"
proof -
  from assms obtain s digest where "\<exists>d. m = (assemble s digest reg)\<lparr>mf_plan_digest := d\<rparr>"
    by (rule Compile_Some)
  then have "mf_adgo m = mf_adgo (assemble s digest reg)" by auto
  then have "mf_adgo m = None \<or> (\<exists>safety. mf_adgo m = fst (LowerToADGO s safety))"
    by (auto simp: assemble_def Let_def split: prod.splits)
  then show ?thesis by (auto simp: subflow_ids_def LowerToADGO_def lower_node_def split: option.splits)
qed

end
