(* ===== verification/Catalog.thy ===== *)
theory Catalog
  imports Dependencies
begin

text \<open>
  The scenario catalog, \<open>catalog/catalog.go\<close> and \<open>catalog/model.go\<close>: revisions of scenarios from
  draft to publication, roll-back, status and audit log.

  Every method holds the catalog's lock from its first access to the records to its return, so a
  method is one step; a method that fails changes nothing. The records are an association list
  over the Go map. A revision that Go changes through a pointer into the record's slice is the
  first one with its id here as there. Times are nanoseconds since 1970, the reading of the
  clock is an argument, and so is \<open>etag\<close>, the shortened SHA-256 of a text. The compiler is an
  argument of the methods that call it: its registry may differ from call to call.
\<close>

section \<open>State\<close>

datatype revision_state = StateDraft | StateValidated | StateSimulated | StateReviewed | StatePublished

datatype scenario_status = StatusActive | StatusDisabled | StatusArchived

record audit_entry =
  ae_time :: int
  ae_actor :: string
  ae_action :: string
  ae_reason :: string
  ae_revision :: string
  ae_version :: int

record simulation_summary =
  ss_time :: int
  ss_passed :: bool
  ss_steps :: int
  ss_summary :: string

record revision =
  rv_scenario_id :: string
  rv_id :: string
  rv_version :: int
  rv_state :: revision_state
  rv_etag :: string
  rv_author :: string
  rv_created :: int
  rv_updated :: int
  rv_published_at :: "int option"
  rv_published_by :: string
  rv_reason :: string
  rv_scenario :: scenario
  rv_manifest :: "manifest option"
  rv_simulation :: "simulation_summary option"

record scenario_record =
  sr_id :: string
  sr_name :: string
  sr_description :: string
  sr_status :: scenario_status
  sr_active_revision :: string
  sr_active_version :: int
  sr_draft_revision :: string
  sr_created :: int
  sr_updated :: int
  sr_revisions :: "revision list"
  sr_audit :: "audit_entry list"

record catalog =
  ct_records :: "(string \<times> scenario_record) list"
  ct_graph :: dependency_graph

datatype catalog_error =
    ErrInvalidScenario go_error
  | ErrScenarioIDRequired
  | ErrRecordNotFound
  | ErrRevisionNotFound string
  | ErrVersionNotFound int
  | ErrConflict string string
  | ErrImmutable
  | ErrNotValidated diagnostics
  | ErrNoActiveRevision
  | NilManifestPanic

type_synonym compile_function = "scenario \<Rightarrow> manifest option \<times> diagnostics"

definition NewCatalog :: catalog where
  "NewCatalog = \<lparr> ct_records = [], ct_graph = NewDependencyGraph \<rparr>"

definition state_text :: "scenario_status \<Rightarrow> string" where
  "state_text st =
     (case st of StatusActive \<Rightarrow> ''active'' | StatusDisabled \<Rightarrow> ''disabled'' | StatusArchived \<Rightarrow> ''archived'')"

section \<open>Lookup\<close>

definition find_error :: "'e \<Rightarrow> 'a option \<Rightarrow> 'e + 'a" where
  "find_error e x = (case x of None \<Rightarrow> Inl e | Some y \<Rightarrow> Inr y)"

definition GetScenario :: "catalog \<Rightarrow> string \<Rightarrow> catalog_error + scenario_record" where
  "GetScenario c sid = find_error ErrRecordNotFound (map_of (ct_records c) sid)"

definition record_GetRevision :: "scenario_record \<Rightarrow> string \<Rightarrow> catalog_error + revision" where
  "record_GetRevision r rid = find_error (ErrRevisionNotFound rid) (find (\<lambda>v. rv_id v = rid) (sr_revisions r))"

definition record_GetVersion :: "scenario_record \<Rightarrow> int \<Rightarrow> catalog_error + revision" where
  "record_GetVersion r n =
     find_error (ErrVersionNotFound n)
       (find (\<lambda>v. rv_version v = n \<and> rv_state v = StatePublished) (sr_revisions r))"

definition GetRevision :: "catalog \<Rightarrow> string \<Rightarrow> string \<Rightarrow> catalog_error + revision" where
  "GetRevision c sid rid = sum_bind (GetScenario c sid) (\<lambda>r. record_GetRevision r rid)"

definition GetActiveRevision :: "catalog \<Rightarrow> string \<Rightarrow> catalog_error + revision" where
  "GetActiveRevision c sid =
     sum_bind (GetScenario c sid) (\<lambda>r.
       if sr_active_revision r = [] then Inl ErrNoActiveRevision
       else record_GetRevision r (sr_active_revision r))"

text \<open>No filter is the empty status of the code.\<close>

definition ListScenarios :: "catalog \<Rightarrow> scenario_status option \<Rightarrow> scenario_record list" where
  "ListScenarios c filter_by =
     filter (\<lambda>r. filter_by = None \<or> filter_by = Some (sr_status r)) (map snd (ct_records c))"

definition CanDeleteCapability :: "catalog \<Rightarrow> string \<Rightarrow> bool \<times> string set" where
  "CanDeleteCapability c cap =
     (let users = GetScenariosUsingCapability (ct_graph c) cap in (users = {}, users))"

definition CanDeleteEntity :: "catalog \<Rightarrow> string \<Rightarrow> string \<Rightarrow> bool \<times> string set" where
  "CanDeleteEntity c kind i =
     (let users = GetScenariosUsingEntity (ct_graph c) kind i in (users = {}, users))"

section \<open>Changes\<close>

text \<open>The entry that an operation appends to the log of its record.\<close>

definition audit :: "int \<Rightarrow> string \<Rightarrow> string \<Rightarrow> string \<Rightarrow> string \<Rightarrow> int \<Rightarrow> audit_entry" where
  "audit now actor action reason rid version =
     \<lparr> ae_time = now, ae_actor = actor, ae_action = action, ae_reason = reason, ae_revision = rid,
       ae_version = version \<rparr>"

definition put_record :: "string \<Rightarrow> scenario_record \<Rightarrow> catalog \<Rightarrow> catalog" where
  "put_record sid r c = c\<lparr>ct_records := AList.update sid r (ct_records c)\<rparr>"

text \<open>A write through the pointer that \<open>GetRevision\<close> returns: to the first revision with the id.\<close>

fun update_first :: "('a \<Rightarrow> bool) \<Rightarrow> ('a \<Rightarrow> 'a) \<Rightarrow> 'a list \<Rightarrow> 'a list" where
  "update_first P f [] = []"
| "update_first P f (x # xs) = (if P x then f x # xs else x # update_first P f xs)"

definition put_revision :: "revision \<Rightarrow> scenario_record \<Rightarrow> scenario_record" where
  "put_revision v r = r\<lparr>sr_revisions := update_first (\<lambda>w. rv_id w = rv_id v) (\<lambda>_. v) (sr_revisions r)\<rparr>"

definition draft_etag :: "(string \<Rightarrow> string) \<Rightarrow> string \<Rightarrow> string \<Rightarrow> int \<Rightarrow> string" where
  "draft_etag etag sid rid now = etag (sid @ '':'' @ rid @ '':'' @ show_int now)"

definition first_draft :: "(string \<Rightarrow> string) \<Rightarrow> int \<Rightarrow> scenario \<Rightarrow> string \<Rightarrow> revision" where
  "first_draft etag now s author =
     (let rid = ''rev_'' @ show_int now in
      \<lparr> rv_scenario_id = scn_id s, rv_id = rid, rv_version = 0, rv_state = StateDraft,
        rv_etag = draft_etag etag (scn_id s) rid now, rv_author = author, rv_created = now,
        rv_updated = now, rv_published_at = None, rv_published_by = [], rv_reason = [],
        rv_scenario = s\<lparr>scn_revision := rid\<rparr>, rv_manifest = None, rv_simulation = None \<rparr>)"

definition first_record :: "int \<Rightarrow> scenario \<Rightarrow> string \<Rightarrow> revision \<Rightarrow> scenario_record" where
  "first_record now s author v =
     \<lparr> sr_id = scn_id s, sr_name = scn_name s, sr_description = scn_description s,
       sr_status = StatusDisabled, sr_active_revision = [], sr_active_version = 0,
       sr_draft_revision = rv_id v, sr_created = now, sr_updated = now, sr_revisions = [v],
       sr_audit = [audit now author ''create_scenario'' [] (rv_id v) 0] \<rparr>"

definition add_draft :: "int \<Rightarrow> string \<Rightarrow> revision \<Rightarrow> scenario_record \<Rightarrow> scenario_record" where
  "add_draft now author v r =
     r\<lparr> sr_draft_revision := rv_id v, sr_updated := now, sr_revisions := sr_revisions r @ [v],
        sr_audit := sr_audit r @ [audit now author ''create_draft'' [] (rv_id v) 0] \<rparr>"

definition CreateDraft ::
    "(string \<Rightarrow> bool) \<Rightarrow> (string \<Rightarrow> string) \<Rightarrow> int \<Rightarrow> scenario \<Rightarrow> string \<Rightarrow> catalog \<Rightarrow>
     catalog_error + (scenario_record \<times> revision) \<times> catalog" where
  "CreateDraft tz etag now s author c =
     (case scenario_validate tz s of
        Some e \<Rightarrow> Inl (ErrInvalidScenario e)
      | None \<Rightarrow>
          if scn_id s = [] then Inl ErrScenarioIDRequired
          else
            (let v = first_draft etag now s author;
                 r = (case map_of (ct_records c) (scn_id s) of
                        None \<Rightarrow> first_record now s author v
                      | Some r \<Rightarrow> add_draft now author v r)
             in Inr ((r, v), put_record (scn_id s) r c)))"

definition edited ::
    "(string \<Rightarrow> string) \<Rightarrow> int \<Rightarrow> string \<Rightarrow> string \<Rightarrow> scenario \<Rightarrow> string \<Rightarrow> revision \<Rightarrow> revision" where
  "edited etag now sid rid s author v =
     v\<lparr> rv_scenario := s\<lparr> scn_id := sid, scn_revision := rid \<rparr>, rv_author := author, rv_updated := now,
        rv_state := StateDraft, rv_etag := draft_etag etag sid rid now, rv_manifest := None \<rparr>"

definition UpdateDraft ::
    "(string \<Rightarrow> bool) \<Rightarrow> (string \<Rightarrow> string) \<Rightarrow> int \<Rightarrow> string \<Rightarrow> string \<Rightarrow> string \<Rightarrow> scenario \<Rightarrow> string \<Rightarrow>
     catalog \<Rightarrow> catalog_error + revision \<times> catalog" where
  "UpdateDraft tz etag now sid rid expected s author c =
     (case scenario_validate tz s of
        Some e \<Rightarrow> Inl (ErrInvalidScenario e)
      | None \<Rightarrow>
          sum_bind (GetScenario c sid) (\<lambda>r.
          sum_bind (record_GetRevision r rid) (\<lambda>rev.
            if rv_state rev = StatePublished then Inl ErrImmutable
            else if expected \<noteq> [] \<and> rv_etag rev \<noteq> expected then Inl (ErrConflict (rv_etag rev) expected)
            else
              (let rev' = edited etag now sid rid s author rev;
                   r' = (put_revision rev' r)
                          \<lparr> sr_updated := now, sr_name := scn_name s, sr_description := scn_description s,
                            sr_audit := sr_audit r @ [audit now author ''update_draft'' [] rid 0] \<rparr>
               in Inr (rev', put_record sid r' c)))))"

definition ValidateDraft ::
    "compile_function \<Rightarrow> string \<Rightarrow> string \<Rightarrow> catalog \<Rightarrow>
     catalog_error + (manifest option \<times> diagnostics) \<times> catalog" where
  "ValidateDraft compile sid rid c =
     sum_bind (GetScenario c sid) (\<lambda>r.
     sum_bind (record_GetRevision r rid) (\<lambda>rev.
       case compile (rv_scenario rev) of (manifest, diags) \<Rightarrow>
         Inr ((manifest, diags),
           if HasErrors diags then c
           else put_record sid
             (put_revision (rev\<lparr> rv_state := StateValidated, rv_manifest := manifest \<rparr>) r) c)))"

definition simulated :: "simulation_summary \<Rightarrow> revision \<Rightarrow> revision" where
  "simulated summary v =
     v\<lparr> rv_simulation := Some summary,
        rv_state :=
          (if ss_passed summary \<and> rv_state v \<in> {StateDraft, StateValidated} then StateSimulated
           else rv_state v) \<rparr>"

definition RecordSimulation ::
    "string \<Rightarrow> string \<Rightarrow> simulation_summary \<Rightarrow> catalog \<Rightarrow> catalog_error + unit \<times> catalog" where
  "RecordSimulation sid rid summary c =
     sum_bind (GetScenario c sid) (\<lambda>r.
     sum_bind (record_GetRevision r rid) (\<lambda>rev.
       Inr ((), put_record sid (put_revision (simulated summary rev) r) c)))"

definition published ::
    "(string \<Rightarrow> string) \<Rightarrow> int \<Rightarrow> string \<Rightarrow> int \<Rightarrow> manifest \<Rightarrow> string \<Rightarrow> string \<Rightarrow> revision \<Rightarrow> revision" where
  "published etag now sid version m author reason v =
     v\<lparr> rv_state := StatePublished, rv_version := version, rv_manifest := Some m,
        rv_published_at := Some now, rv_published_by := author, rv_reason := reason,
        rv_etag := etag (sid @ '':v'' @ show_int version @ '':'' @ mf_plan_digest m) \<rparr>"

definition PublishDraft ::
    "compile_function \<Rightarrow> (string \<Rightarrow> string) \<Rightarrow> int \<Rightarrow> string \<Rightarrow> string \<Rightarrow> string \<Rightarrow> string \<Rightarrow> catalog \<Rightarrow>
     catalog_error + revision \<times> catalog" where
  "PublishDraft compile etag now sid rid author reason c =
     sum_bind (GetScenario c sid) (\<lambda>r.
     sum_bind (record_GetRevision r rid) (\<lambda>rev.
       if rv_state rev = StatePublished then Inl ErrImmutable
       else
         (case compile (rv_scenario rev) of (manifest, diags) \<Rightarrow>
            if HasErrors diags then Inl (ErrNotValidated diags)
            else
              (case manifest of
                 None \<Rightarrow> Inl NilManifestPanic
               | Some m \<Rightarrow>
                   (let version = sr_active_version r + 1;
                        rev' = published etag now sid version m author reason rev;
                        r' = (put_revision rev' r)
                               \<lparr> sr_active_revision := rid, sr_active_version := version, sr_draft_revision := [],
                                 sr_status := StatusActive, sr_updated := now,
                                 sr_audit := sr_audit r @ [audit now author ''publish'' reason rid version] \<rparr>
                    in Inr (rev', (put_record sid r' c)
                         \<lparr>ct_graph := UpdateScenarioDependencies sid (Some m) [] (ct_graph c)\<rparr>))))))"

definition RollbackToVersion ::
    "int \<Rightarrow> string \<Rightarrow> int \<Rightarrow> string \<Rightarrow> string \<Rightarrow> catalog \<Rightarrow> catalog_error + revision \<times> catalog" where
  "RollbackToVersion now sid version author reason c =
     sum_bind (GetScenario c sid) (\<lambda>r.
     sum_bind (record_GetVersion r version) (\<lambda>rev.
       let r' = r\<lparr> sr_active_revision := rv_id rev, sr_active_version := rv_version rev,
                   sr_status := StatusActive, sr_updated := now,
                   sr_audit := sr_audit r @ [audit now author ''rollback'' reason (rv_id rev) version] \<rparr>
       in Inr (rev, (put_record sid r' c)
            \<lparr>ct_graph := UpdateScenarioDependencies sid (rv_manifest rev) [] (ct_graph c)\<rparr>)))"

definition SetScenarioStatus ::
    "int \<Rightarrow> string \<Rightarrow> scenario_status \<Rightarrow> string \<Rightarrow> string \<Rightarrow> catalog \<Rightarrow> catalog_error + unit \<times> catalog" where
  "SetScenarioStatus now sid status author reason c =
     sum_bind (GetScenario c sid) (\<lambda>r.
       let r' = r\<lparr> sr_status := status, sr_updated := now,
                   sr_audit := sr_audit r @ [audit now author (''set_status_'' @ state_text status) reason [] 0] \<rparr>
       in Inr ((), (put_record sid r' c)
            \<lparr>ct_graph := (if status = StatusArchived then RemoveScenario sid (ct_graph c) else ct_graph c)\<rparr>))"

section \<open>Runs of the catalog\<close>

text \<open>A call of one of the methods, with the reading of the clock and the compiler it meets.\<close>

datatype catalog_event =
    CreateCall int scenario string
  | UpdateCall int string string string scenario string
  | ValidateCall compile_function string string
  | SimulationCall string string simulation_summary
  | PublishCall compile_function int string string string string
  | RollbackCall int string int string string
  | StatusCall int string scenario_status string string

definition settle :: "catalog \<Rightarrow> 'e + 'a \<times> catalog \<Rightarrow> catalog" where
  "settle c x = (case x of Inl _ \<Rightarrow> c | Inr (_, c') \<Rightarrow> c')"

definition apply_event :: "(string \<Rightarrow> bool) \<Rightarrow> (string \<Rightarrow> string) \<Rightarrow> catalog_event \<Rightarrow> catalog \<Rightarrow> catalog" where
  "apply_event tz etag ev c =
     (case ev of
        CreateCall now s author \<Rightarrow> settle c (CreateDraft tz etag now s author c)
      | UpdateCall now sid rid expected s author \<Rightarrow> settle c (UpdateDraft tz etag now sid rid expected s author c)
      | ValidateCall compile sid rid \<Rightarrow> settle c (ValidateDraft compile sid rid c)
      | SimulationCall sid rid summary \<Rightarrow> settle c (RecordSimulation sid rid summary c)
      | PublishCall compile now sid rid author reason \<Rightarrow>
          settle c (PublishDraft compile etag now sid rid author reason c)
      | RollbackCall now sid version author reason \<Rightarrow>
          settle c (RollbackToVersion now sid version author reason c)
      | StatusCall now sid status author reason \<Rightarrow>
          settle c (SetScenarioStatus now sid status author reason c))"

text \<open>The compiler that a call meets, if it calls one.\<close>

definition event_compiler :: "catalog_event \<Rightarrow> compile_function option" where
  "event_compiler ev =
     (case ev of
        ValidateCall compile _ _ \<Rightarrow> Some compile
      | PublishCall compile _ _ _ _ _ \<Rightarrow> Some compile
      | _ \<Rightarrow> None)"

inductive catalog_reachable ::
    "(string \<Rightarrow> bool) \<Rightarrow> (string \<Rightarrow> string) \<Rightarrow> (compile_function \<Rightarrow> bool) \<Rightarrow> catalog \<Rightarrow> bool"
  for tz etag compiles where
  reachable_start: "catalog_reachable tz etag compiles NewCatalog"
| reachable_call: "catalog_reachable tz etag compiles c \<Longrightarrow> pred_option compiles (event_compiler ev) \<Longrightarrow>
    catalog_reachable tz etag compiles (apply_event tz etag ev c)"

inductive_cases reachable_cases: "catalog_reachable tz etag compiles c"

section \<open>What a call changes\<close>

lemma find_error_Inr [simp]: "find_error e x = Inr y \<longleftrightarrow> x = Some y"
  by (simp add: find_error_def split: option.split)

lemma GetScenario_Inr [simp]: "GetScenario c sid = Inr r \<longleftrightarrow> map_of (ct_records c) sid = Some r"
  by (simp add: GetScenario_def)

lemma record_GetRevision_Inr:
  "record_GetRevision r rid = Inr v \<Longrightarrow> v \<in> set (sr_revisions r) \<and> rv_id v = rid"
  by (auto simp: record_GetRevision_def find_Some_iff)

lemma record_GetVersion_Inr:
  "record_GetVersion r n = Inr v \<Longrightarrow>
     v \<in> set (sr_revisions r) \<and> rv_version v = n \<and> rv_state v = StatePublished"
  by (auto simp: record_GetVersion_def find_Some_iff)

lemma records_put [simp]: "map_of (ct_records (put_record sid r c)) = (map_of (ct_records c))(sid \<mapsto> r)"
  by (simp add: put_record_def update_conv')

lemma graph_put [simp]: "ct_graph (put_record sid r c) = ct_graph c"
  by (simp add: put_record_def)

lemma set_update_first: "set (update_first P f xs) \<subseteq> set xs \<union> f ` set xs"
  by (induction xs) auto

lemma map_update_first: "(\<And>x. P x \<Longrightarrow> g (f x) = g x) \<Longrightarrow> map g (update_first P f xs) = map g xs"
  by (induction xs) simp_all

lemma find_update_first:
  "find P xs = Some x \<Longrightarrow> P y \<Longrightarrow> find P (update_first P (\<lambda>_. y) xs) = Some y"
  by (induction xs) (auto split: if_splits)

lemma put_revision_set: "v' \<in> set (sr_revisions (put_revision v r)) \<Longrightarrow> v' = v \<or> v' \<in> set (sr_revisions r)"
  using set_update_first [of "\<lambda>w. rv_id w = rv_id v" "\<lambda>_. v" "sr_revisions r"]
  by (auto simp: put_revision_def)

lemma put_revision_ids [simp]: "map rv_id (sr_revisions (put_revision v r)) = map rv_id (sr_revisions r)"
  by (simp add: put_revision_def map_update_first)

lemma put_revision_found:
  "record_GetRevision r (rv_id v) = Inr w \<Longrightarrow>
     find (\<lambda>x. rv_id x = rv_id v) (sr_revisions (put_revision v r)) = Some v"
  by (auto simp: record_GetRevision_def put_revision_def intro: find_update_first)

lemma put_revision_fields [simp]:
  "sr_audit (put_revision v r) = sr_audit r" "sr_id (put_revision v r) = sr_id r"
  "sr_active_revision (put_revision v r) = sr_active_revision r"
  "sr_active_version (put_revision v r) = sr_active_version r" "sr_status (put_revision v r) = sr_status r"
  by (simp_all add: put_revision_def)

section \<open>Soundness of the records\<close>

text \<open>
  A revision knows where it belongs, and its manifest is never stale: it was accepted for the
  very scenario that the revision holds.
\<close>

definition revision_sound :: "(scenario \<Rightarrow> manifest \<Rightarrow> bool) \<Rightarrow> string \<Rightarrow> revision \<Rightarrow> bool" where
  "revision_sound accepts sid v \<longleftrightarrow>
     rv_id v \<noteq> [] \<and> rv_scenario_id v = sid \<and> scn_id (rv_scenario v) = sid \<and>
     scn_revision (rv_scenario v) = rv_id v \<and>
     pred_option (accepts (rv_scenario v)) (rv_manifest v) \<and>
     (rv_state v \<in> {StateValidated, StatePublished} \<longrightarrow> rv_manifest v \<noteq> None) \<and>
     (rv_state v = StatePublished \<longrightarrow> 1 \<le> rv_version v \<and> rv_published_at v \<noteq> None)"

definition record_sound :: "(scenario \<Rightarrow> manifest \<Rightarrow> bool) \<Rightarrow> string \<Rightarrow> scenario_record \<Rightarrow> bool" where
  "record_sound accepts sid r \<longleftrightarrow>
     sr_id r = sid \<and> (\<forall>v \<in> set (sr_revisions r). revision_sound accepts sid v) \<and>
     0 \<le> sr_active_version r \<and>
     (sr_active_revision r = [] \<longleftrightarrow> sr_active_version r = 0) \<and>
     (sr_active_revision r = [] \<or> sr_active_revision r \<in> rv_id ` set (sr_revisions r))"

definition catalog_sound :: "(scenario \<Rightarrow> manifest \<Rightarrow> bool) \<Rightarrow> catalog \<Rightarrow> bool" where
  "catalog_sound accepts c \<longleftrightarrow>
     (\<forall>sid r. map_of (ct_records c) sid = Some r \<longrightarrow> record_sound accepts sid r)"

lemma NewCatalog_sound: "catalog_sound accepts NewCatalog"
  by (simp add: catalog_sound_def NewCatalog_def)

lemma put_record_sound:
  "catalog_sound accepts c \<Longrightarrow> record_sound accepts sid r \<Longrightarrow> catalog_sound accepts (put_record sid r c)"
  by (simp add: catalog_sound_def)

lemma graph_update_sound [simp]:
  "catalog_sound accepts (c\<lparr>ct_graph := g\<rparr>) = catalog_sound accepts c"
  by (simp add: catalog_sound_def)

lemma found_sound:
  assumes "catalog_sound accepts c" and "map_of (ct_records c) sid = Some r"
  shows "record_sound accepts sid r"
  using assms by (simp add: catalog_sound_def)

lemma revision_found_sound:
  assumes "record_sound accepts sid r" and "record_GetRevision r rid = Inr v"
  shows "revision_sound accepts sid v \<and> rv_id v = rid \<and> rid \<noteq> []"
proof -
  from record_GetRevision_Inr [OF assms(2)] have "v \<in> set (sr_revisions r)" "rv_id v = rid" by simp_all
  with assms(1) show ?thesis by (auto simp: record_sound_def revision_sound_def)
qed

lemma put_revision_sound:
  assumes "record_sound accepts sid r" and "revision_sound accepts sid v"
  shows "record_sound accepts sid (put_revision v r)"
proof -
  have "rv_id ` set (sr_revisions (put_revision v r)) = rv_id ` set (sr_revisions r)"
    by (metis list.set_map put_revision_ids)
  with assms show ?thesis by (auto simp: record_sound_def dest: put_revision_set)
qed

lemma CreateDraft_Inr:
  assumes "CreateDraft tz etag now s author c = Inr ((r, w), c')"
  shows "scenario_validate tz s = None \<and> scn_id s \<noteq> [] \<and> c' = put_record (scn_id s) r c \<and>
    w = first_draft etag now s author \<and>
    r = (case map_of (ct_records c) (scn_id s) of
      None \<Rightarrow> first_record now s author w | Some q \<Rightarrow> add_draft now author w q)"
  using assms by (auto simp: CreateDraft_def Let_def split: option.splits if_splits)

lemma UpdateDraft_Inr:
  assumes "UpdateDraft tz etag now sid rid expected s author c = Inr (w, c')"
  obtains r v where "map_of (ct_records c) sid = Some r" and "record_GetRevision r rid = Inr v"
    and "rv_id v = rid" and "scenario_validate tz s = None" and "rv_state v \<noteq> StatePublished"
    and "expected = [] \<or> rv_etag v = expected" and "w = edited etag now sid rid s author v"
    and "c' = put_record sid ((put_revision w r)
        \<lparr> sr_updated := now, sr_name := scn_name s, sr_description := scn_description s,
          sr_audit := sr_audit r @ [audit now author ''update_draft'' [] rid 0] \<rparr>) c"
proof -
  from assms obtain r where r: "map_of (ct_records c) sid = Some r" "scenario_validate tz s = None"
    by (auto simp: UpdateDraft_def sum_bind_Inr split: option.splits)
  with assms obtain v where v: "record_GetRevision r rid = Inr v"
    by (auto simp: UpdateDraft_def sum_bind_Inr)
  show thesis
    using that [OF r(1) v conjunct2 [OF record_GetRevision_Inr [OF v]] r(2)] assms r v
    by (auto simp: UpdateDraft_def sum_bind_Inr Let_def split: if_splits)
qed

lemma ValidateDraft_Inr:
  assumes "ValidateDraft f sid rid c = Inr (x, c')"
  obtains r v manifest ds where "map_of (ct_records c) sid = Some r" and "record_GetRevision r rid = Inr v"
    and "rv_id v = rid" and "f (rv_scenario v) = (manifest, ds)" and "x = (manifest, ds)"
    and "c' = (if HasErrors ds then c
        else put_record sid (put_revision (v\<lparr> rv_state := StateValidated, rv_manifest := manifest \<rparr>) r) c)"
proof -
  from assms obtain r where r: "map_of (ct_records c) sid = Some r"
    by (auto simp: ValidateDraft_def sum_bind_Inr)
  with assms obtain v where v: "record_GetRevision r rid = Inr v"
    by (auto simp: ValidateDraft_def sum_bind_Inr)
  obtain manifest ds where f: "f (rv_scenario v) = (manifest, ds)" by fastforce
  show thesis
    using that [OF r v conjunct2 [OF record_GetRevision_Inr [OF v]] f] assms r v f
    by (simp add: ValidateDraft_def sum_bind_Inr)
qed

lemma RecordSimulation_Inr:
  assumes "RecordSimulation sid rid summary c = Inr (x, c')"
  obtains r v where "map_of (ct_records c) sid = Some r" and "record_GetRevision r rid = Inr v"
    and "rv_id v = rid" and "c' = put_record sid (put_revision (simulated summary v) r) c"
  using assms record_GetRevision_Inr by (auto simp: RecordSimulation_def sum_bind_Inr)

lemma PublishDraft_Inr:
  assumes "PublishDraft f etag now sid rid author reason c = Inr (w, c')"
  obtains r v m ds where "map_of (ct_records c) sid = Some r" and "record_GetRevision r rid = Inr v"
    and "rv_id v = rid" and "rv_state v \<noteq> StatePublished" and "f (rv_scenario v) = (Some m, ds)"
    and "\<not> HasErrors ds" and "w = published etag now sid (sr_active_version r + 1) m author reason v"
    and "c' = (put_record sid ((put_revision w r)
      \<lparr> sr_active_revision := rid, sr_active_version := sr_active_version r + 1, sr_draft_revision := [],
        sr_status := StatusActive, sr_updated := now,
        sr_audit := sr_audit r @ [audit now author ''publish'' reason rid (sr_active_version r + 1)] \<rparr>) c)
      \<lparr>ct_graph := UpdateScenarioDependencies sid (Some m) [] (ct_graph c)\<rparr>"
proof -
  from assms obtain r where r: "map_of (ct_records c) sid = Some r"
    by (auto simp: PublishDraft_def sum_bind_Inr)
  with assms obtain v where v: "record_GetRevision r rid = Inr v"
    by (auto simp: PublishDraft_def sum_bind_Inr)
  have np: "rv_state v \<noteq> StatePublished" using assms r v by (auto simp: PublishDraft_def sum_bind_Inr)
  obtain manifest ds where f: "f (rv_scenario v) = (manifest, ds)" by fastforce
  have ne: "\<not> HasErrors ds" using assms r v np f by (auto simp: PublishDraft_def sum_bind_Inr split: if_splits)
  obtain m where m: "manifest = Some m"
    using assms r v np f ne by (auto simp: PublishDraft_def sum_bind_Inr split: option.splits)
  show thesis
    by (rule that [OF r v _ np _ ne])
      (use assms r v np f ne m record_GetRevision_Inr [OF v] in \<open>auto simp: PublishDraft_def sum_bind_Inr Let_def\<close>)
qed

text \<open>The fields that say nothing about the revisions.\<close>

lemma record_sound_log [simp]:
  "record_sound accepts sid (r\<lparr>sr_audit := a\<rparr>) = record_sound accepts sid r"
  "record_sound accepts sid (r\<lparr>sr_updated := n\<rparr>) = record_sound accepts sid r"
  "record_sound accepts sid (r\<lparr>sr_name := x\<rparr>) = record_sound accepts sid r"
  "record_sound accepts sid (r\<lparr>sr_description := x\<rparr>) = record_sound accepts sid r"
  "record_sound accepts sid (r\<lparr>sr_status := st\<rparr>) = record_sound accepts sid r"
  "record_sound accepts sid (r\<lparr>sr_draft_revision := x\<rparr>) = record_sound accepts sid r"
  by (simp_all add: record_sound_def)

lemma activate_sound:
  "record_sound accepts sid r \<Longrightarrow> rid \<noteq> [] \<Longrightarrow> rid \<in> rv_id ` set (sr_revisions r) \<Longrightarrow> 1 \<le> n \<Longrightarrow>
     record_sound accepts sid (r\<lparr>sr_active_revision := rid, sr_active_version := n\<rparr>)"
  by (simp add: record_sound_def)

text \<open>
  What the catalog needs from the compiler: when it reports no error it delivers a manifest,
  and the manifest is one it accepts for the scenario it was given.
\<close>

locale compiler_service =
  fixes compiles :: "compile_function \<Rightarrow> bool"
    and accepts :: "scenario \<Rightarrow> manifest \<Rightarrow> bool"
  assumes delivers: "compiles f \<Longrightarrow> f s = (manifest, ds) \<Longrightarrow> \<not> HasErrors ds \<Longrightarrow>
    \<exists>m. manifest = Some m \<and> accepts s m"
begin

lemma create_sound:
  assumes "catalog_sound accepts c" and "CreateDraft tz etag now s author c = Inr ((r, w), c')"
  shows "catalog_sound accepts c'"
proof -
  from CreateDraft_Inr [OF assms(2)] have c': "c' = put_record (scn_id s) r c"
    and w: "w = first_draft etag now s author"
    and r: "r = (case map_of (ct_records c) (scn_id s) of
      None \<Rightarrow> first_record now s author w | Some q \<Rightarrow> add_draft now author w q)" by simp_all
  have draft: "revision_sound accepts (scn_id s) w" by (simp add: w revision_sound_def first_draft_def Let_def)
  have "record_sound accepts (scn_id s) r"
  proof (cases "map_of (ct_records c) (scn_id s)")
    case None
    with draft show ?thesis by (simp add: r record_sound_def first_record_def)
  next
    case (Some q)
    with draft found_sound [OF assms(1) Some] show ?thesis by (auto simp: r record_sound_def add_draft_def)
  qed
  then show ?thesis unfolding c' by (rule put_record_sound [OF assms(1)])
qed

lemma update_sound:
  assumes "catalog_sound accepts c"
    and "UpdateDraft tz etag now sid rid expected s author c = Inr (w, c')"
  shows "catalog_sound accepts c'"
  using assms(2)
proof (rule UpdateDraft_Inr)
  fix r v
  assume r: "map_of (ct_records c) sid = Some r" and v: "record_GetRevision r rid = Inr v"
    and w: "w = edited etag now sid rid s author v"
    and c': "c' = put_record sid ((put_revision w r)
        \<lparr> sr_updated := now, sr_name := scn_name s, sr_description := scn_description s,
          sr_audit := sr_audit r @ [audit now author ''update_draft'' [] rid 0] \<rparr>) c"
  have sound: "record_sound accepts sid r" using found_sound [OF assms(1) r] .
  have "revision_sound accepts sid w"
    using revision_found_sound [OF sound v] by (simp add: w edited_def revision_sound_def)
  from put_revision_sound [OF sound this] show ?thesis
    unfolding c' by (intro put_record_sound [OF assms(1)]) simp
qed

lemma validate_sound:
  assumes "catalog_sound accepts c" and "compiles f" and "ValidateDraft f sid rid c = Inr (x, c')"
  shows "catalog_sound accepts c'"
  using assms(3)
proof (rule ValidateDraft_Inr)
  fix r v manifest ds
  assume r: "map_of (ct_records c) sid = Some r" and v: "record_GetRevision r rid = Inr v"
    and f: "f (rv_scenario v) = (manifest, ds)"
    and c': "c' = (if HasErrors ds then c
        else put_record sid (put_revision (v\<lparr> rv_state := StateValidated, rv_manifest := manifest \<rparr>) r) c)"
  show ?thesis
  proof (cases "HasErrors ds")
    case False
    have sound: "record_sound accepts sid r" using found_sound [OF assms(1) r] .
    have "revision_sound accepts sid (v\<lparr> rv_state := StateValidated, rv_manifest := manifest \<rparr>)"
      using revision_found_sound [OF sound v] delivers [OF assms(2) f False] by (auto simp: revision_sound_def)
    from put_record_sound [OF assms(1) put_revision_sound [OF sound this]] False show ?thesis by (simp add: c')
  qed (simp add: c' assms(1))
qed

lemma simulation_sound:
  assumes "catalog_sound accepts c" and "RecordSimulation sid rid summary c = Inr (x, c')"
  shows "catalog_sound accepts c'"
  using assms(2)
proof (rule RecordSimulation_Inr)
  fix r v
  assume r: "map_of (ct_records c) sid = Some r" and v: "record_GetRevision r rid = Inr v"
    and c': "c' = put_record sid (put_revision (simulated summary v) r) c"
  have sound: "record_sound accepts sid r" using found_sound [OF assms(1) r] .
  have "revision_sound accepts sid (simulated summary v)"
    using revision_found_sound [OF sound v] by (auto simp: revision_sound_def simulated_def)
  from put_record_sound [OF assms(1) put_revision_sound [OF sound this]] show ?thesis by (simp add: c')
qed

lemma publish_sound:
  assumes "catalog_sound accepts c" and "compiles f"
    and "PublishDraft f etag now sid rid author reason c = Inr (w, c')"
  shows "catalog_sound accepts c'"
  using assms(3)
proof (rule PublishDraft_Inr)
  fix r v m ds
  assume r: "map_of (ct_records c) sid = Some r" and v: "record_GetRevision r rid = Inr v"
    and f: "f (rv_scenario v) = (Some m, ds)" and ne: "\<not> HasErrors ds"
    and w: "w = published etag now sid (sr_active_version r + 1) m author reason v"
    and c': "c' = (put_record sid ((put_revision w r)
      \<lparr> sr_active_revision := rid, sr_active_version := sr_active_version r + 1, sr_draft_revision := [],
        sr_status := StatusActive, sr_updated := now,
        sr_audit := sr_audit r @ [audit now author ''publish'' reason rid (sr_active_version r + 1)] \<rparr>) c)
      \<lparr>ct_graph := UpdateScenarioDependencies sid (Some m) [] (ct_graph c)\<rparr>"
  have sound: "record_sound accepts sid r" using found_sound [OF assms(1) r] .
  then have pos: "1 \<le> sr_active_version r + 1" by (simp add: record_sound_def)
  have "accepts (rv_scenario v) m" using delivers [OF assms(2) f ne] by simp
  with revision_found_sound [OF sound v] pos have "revision_sound accepts sid w"
    by (simp add: w published_def revision_sound_def)
  note q = put_revision_sound [OF sound this]
  have id: "rid \<noteq> []" using revision_found_sound [OF sound v] by simp
  have "rid \<in> rv_id ` set (sr_revisions (put_revision w r))"
    using record_GetRevision_Inr [OF v] by (metis imageI list.set_map put_revision_ids)
  from activate_sound [OF q id this pos] show ?thesis
    unfolding c' graph_update_sound by (intro put_record_sound [OF assms(1)]) simp
qed

lemma rollback_sound:
  assumes "catalog_sound accepts c" and "RollbackToVersion now sid version author reason c = Inr (w, c')"
  shows "catalog_sound accepts c'"
proof -
  from assms(2) obtain r where r: "map_of (ct_records c) sid = Some r"
    and v: "record_GetVersion r version = Inr w"
    and c': "c' = (put_record sid (r\<lparr> sr_active_revision := rv_id w, sr_active_version := rv_version w,
        sr_status := StatusActive, sr_updated := now,
        sr_audit := sr_audit r @ [audit now author ''rollback'' reason (rv_id w) version] \<rparr>) c)
        \<lparr>ct_graph := UpdateScenarioDependencies sid (rv_manifest w) [] (ct_graph c)\<rparr>"
    by (auto simp: RollbackToVersion_def sum_bind_Inr Let_def)
  have sound: "record_sound accepts sid r" using found_sound [OF assms(1) r] .
  note rv = record_GetVersion_Inr [OF v]
  with sound have "rv_id w \<noteq> []" "1 \<le> rv_version w" by (auto simp: record_sound_def revision_sound_def)
  with activate_sound [OF sound, of "rv_id w" "rv_version w"] rv
  have "record_sound accepts sid (r\<lparr>sr_active_revision := rv_id w, sr_active_version := rv_version w\<rparr>)" by blast
  then show ?thesis
    unfolding c' graph_update_sound by (intro put_record_sound [OF assms(1)]) simp
qed

lemma status_sound:
  assumes "catalog_sound accepts c" and "SetScenarioStatus now sid status author reason c = Inr (x, c')"
  shows "catalog_sound accepts c'"
  using assms found_sound [OF assms(1)]
  by (auto simp: SetScenarioStatus_def sum_bind_Inr Let_def intro!: put_record_sound)

lemma settle_sound:
  "catalog_sound accepts c \<Longrightarrow> (\<And>x c'. res = Inr (x, c') \<Longrightarrow> catalog_sound accepts c') \<Longrightarrow>
     catalog_sound accepts (settle c res)"
  by (auto simp: settle_def split: sum.split)

lemma event_sound:
  assumes "catalog_sound accepts c" and "pred_option compiles (event_compiler ev)"
  shows "catalog_sound accepts (apply_event tz etag ev c)"
  using assms
  by (cases ev)
    (auto simp: apply_event_def event_compiler_def intro!: settle_sound
      intro: create_sound update_sound validate_sound simulation_sound publish_sound rollback_sound status_sound)

theorem reachable_sound:
  assumes "catalog_reachable tz etag compiles c" shows "catalog_sound accepts c"
  using assms by induction (simp_all add: NewCatalog_sound event_sound)

end

text \<open>The compiler of this repository, with any registry, keeps the promise.\<close>

definition compiler_of ::
    "(string \<Rightarrow> bool) \<Rightarrow> (expr \<Rightarrow> string) \<Rightarrow> (semantic \<Rightarrow> string) \<Rightarrow> (plan_payload \<Rightarrow> go_error + string) \<Rightarrow>
     compile_function \<Rightarrow> bool" where
  "compiler_of tz enc hash plan_hash f \<longleftrightarrow> (\<exists>reg. f = Compile tz enc hash plan_hash reg)"

definition accepted_by ::
    "(string \<Rightarrow> bool) \<Rightarrow> (expr \<Rightarrow> string) \<Rightarrow> (semantic \<Rightarrow> string) \<Rightarrow> (plan_payload \<Rightarrow> go_error + string) \<Rightarrow>
     scenario \<Rightarrow> manifest \<Rightarrow> bool" where
  "accepted_by tz enc hash plan_hash s m \<longleftrightarrow>
     (\<exists>reg ds. Compile tz enc hash plan_hash reg s = (Some m, ds) \<and> \<not> HasErrors ds)"

lemma error_present [simp]: "HasErrors (Diag code SeverityError path # ds)"
  by (simp add: HasErrors_def)

lemma Compile_delivers:
  "Compile tz enc hash plan_hash reg s = (manifest, ds) \<Longrightarrow> \<not> HasErrors ds \<Longrightarrow> manifest \<noteq> None"
  by (auto simp: Compile_def Let_def split: sum.splits)

interpretation scenario_compiler:
  compiler_service "compiler_of tz enc hash plan_hash" "accepted_by tz enc hash plan_hash"
  for tz enc hash plan_hash
proof
  show "\<exists>m. manifest = Some m \<and> accepted_by tz enc hash plan_hash s m"
    if "compiler_of tz enc hash plan_hash f" "f s = (manifest, ds)" "\<not> HasErrors ds" for f s manifest ds
    using that Compile_delivers by (fastforce simp: compiler_of_def accepted_by_def)
qed

section \<open>What a run preserves\<close>

lemma GetRevision_Inr:
  "GetRevision c sid rid = Inr v \<longleftrightarrow>
     (\<exists>r. map_of (ct_records c) sid = Some r \<and> find (\<lambda>w. rv_id w = rid) (sr_revisions r) = Some v)"
  by (auto simp: GetRevision_def sum_bind_Inr record_GetRevision_def)

lemma find_update_other:
  "(\<And>x. P x \<Longrightarrow> \<not> Q x) \<Longrightarrow> (\<And>x. Q x \<Longrightarrow> \<not> P (f x)) \<Longrightarrow> find P (update_first Q f xs) = find P xs"
  by (induction xs) auto

lemma find_put_revision:
  "find (\<lambda>x. rv_id x = i) (sr_revisions (put_revision v r)) =
     (if i = rv_id v then map_option (\<lambda>_. v) (find (\<lambda>x. rv_id x = i) (sr_revisions r))
      else find (\<lambda>x. rv_id x = i) (sr_revisions r))"
proof (cases "i = rv_id v")
  case True
  have "find (\<lambda>x. rv_id x = rv_id v) (update_first (\<lambda>w. rv_id w = rv_id v) (\<lambda>_. v) xs) =
      map_option (\<lambda>_. v) (find (\<lambda>x. rv_id x = rv_id v) xs)" for xs :: "revision list"
    by (induction xs) auto
  with True show ?thesis by (simp add: put_revision_def)
qed (simp add: put_revision_def find_update_other)

text \<open>
  A call leaves the records alone, or it changes one of them: it adds a record, or it appends
  a draft, or it writes to one revision, or it writes to none; and it only appends to the log.
\<close>

definition record_change :: "scenario_record \<Rightarrow> scenario_record \<Rightarrow> revision option \<Rightarrow> revision option \<Rightarrow> bool" where
  "record_change r r' written added \<longleftrightarrow>
     prefix (sr_audit r) (sr_audit r') \<and>
     sr_revisions r' =
       (case written of None \<Rightarrow> sr_revisions r | Some v \<Rightarrow> sr_revisions (put_revision v r)) @
       (case added of None \<Rightarrow> [] | Some v \<Rightarrow> [v])"

lemma record_change_find:
  assumes "record_change r r' written added" and "find (\<lambda>v. rv_id v = rid) (sr_revisions r) = Some v"
  shows "find (\<lambda>v. rv_id v = rid) (sr_revisions r') =
    Some (case written of None \<Rightarrow> v | Some w \<Rightarrow> if rv_id w = rid then w else v)"
proof -
  have "find P xs = Some x \<Longrightarrow> find P (xs @ ys) = Some x" for P and x :: revision and xs ys
    by (induction xs) (auto split: if_splits)
  with assms show ?thesis by (auto simp: record_change_def find_put_revision split: option.splits)
qed

lemma record_change_ids:
  assumes "record_change r r' written added"
  shows "prefix (map rv_id (sr_revisions r)) (map rv_id (sr_revisions r'))"
  using assms by (auto simp: record_change_def split: option.splits)

text \<open>A published revision is written to by a validation of it, or to record a simulation.\<close>

definition touched :: "(string \<Rightarrow> bool) \<Rightarrow> scenario_record \<Rightarrow> scenario_record \<Rightarrow> bool" where
  "touched revalidated r r' \<longleftrightarrow>
     (\<exists>written added. record_change r r' written added \<and>
        (\<forall>w. written = Some w \<longrightarrow>
           (\<exists>v. record_GetRevision r (rv_id w) = Inr v \<and>
              (rv_state v = StatePublished \<longrightarrow>
                 revalidated (rv_id w) \<or> w = v\<lparr>rv_simulation := rv_simulation w\<rparr>))))"

lemma touched_unwritten:
  "prefix (sr_audit r) (sr_audit r') \<Longrightarrow> sr_revisions r' = sr_revisions r \<Longrightarrow> touched P r r'"
  unfolding touched_def record_change_def
  by (rule exI [of _ None], rule exI [of _ None]) simp

lemma touched_added:
  "prefix (sr_audit r) (sr_audit r') \<Longrightarrow> sr_revisions r' = sr_revisions r @ [v] \<Longrightarrow> touched P r r'"
  unfolding touched_def record_change_def
  by (rule exI [of _ None], rule exI [of _ "Some v"]) simp

lemma touched_written:
  "prefix (sr_audit r) (sr_audit r') \<Longrightarrow> sr_revisions r' = sr_revisions (put_revision w r) \<Longrightarrow>
   record_GetRevision r (rv_id w) = Inr v \<Longrightarrow>
   rv_state v \<noteq> StatePublished \<or> P (rv_id w) \<or> w = v\<lparr>rv_simulation := rv_simulation w\<rparr> \<Longrightarrow> touched P r r'"
  unfolding touched_def record_change_def
  by (rule exI [of _ "Some w"], rule exI [of _ None]) auto

definition records_touched :: "(string \<Rightarrow> string \<Rightarrow> bool) \<Rightarrow> catalog \<Rightarrow> catalog \<Rightarrow> bool" where
  "records_touched revalidated c c' \<longleftrightarrow>
     (\<forall>sid r. map_of (ct_records c) sid = Some r \<longrightarrow>
        (\<exists>r'. map_of (ct_records c') sid = Some r' \<and> touched (revalidated sid) r r'))"

lemma records_touched_refl: "records_touched P c c"
  by (auto simp: records_touched_def intro: touched_unwritten)

lemma records_touched_graph [simp]: "records_touched P c (c'\<lparr>ct_graph := g\<rparr>) = records_touched P c c'"
  by (simp add: records_touched_def)

lemma put_record_touched:
  assumes "\<And>r. map_of (ct_records c) sid = Some r \<Longrightarrow> touched (P sid) r r'"
  shows "records_touched P c (put_record sid r' c)"
  using assms touched_unwritten by (auto simp: records_touched_def)

definition revalidates :: "catalog_event \<Rightarrow> string \<Rightarrow> string \<Rightarrow> bool" where
  "revalidates ev sid rid \<longleftrightarrow> (case ev of ValidateCall _ i j \<Rightarrow> i = sid \<and> j = rid | _ \<Rightarrow> False)"

lemma settle_touched:
  "(\<And>x c'. res = Inr (x, c') \<Longrightarrow> records_touched P c c') \<Longrightarrow> records_touched P c (settle c res)"
  by (auto simp: settle_def records_touched_refl split: sum.split)

lemma event_touched: "records_touched (revalidates ev) c (apply_event tz etag ev c)"
proof (cases ev)
  case (CreateCall now s author)
  have "records_touched P c c'" if "CreateDraft tz etag now s author c = Inr (x, c')" for x c' P
  proof -
    obtain r w where "x = (r, w)" by (cases x)
    with CreateDraft_Inr that have c': "c' = put_record (scn_id s) r c" and
      r: "r = (case map_of (ct_records c) (scn_id s) of
        None \<Rightarrow> first_record now s author w | Some q \<Rightarrow> add_draft now author w q)" by blast+
    show ?thesis unfolding c'
      by (rule put_record_touched, rule touched_added [where v = w]) (simp_all add: r add_draft_def)
  qed
  then show ?thesis unfolding CreateCall apply_event_def catalog_event.case by (rule settle_touched)
next
  case (UpdateCall now sid rid expected s author)
  have "records_touched P c c'" if "UpdateDraft tz etag now sid rid expected s author c = Inr (x, c')" for x c' P
    using that
  proof (rule UpdateDraft_Inr)
    fix r v
    assume h: "map_of (ct_records c) sid = Some r" "record_GetRevision r rid = Inr v"
      "rv_state v \<noteq> StatePublished" "rv_id v = rid" and x: "x = edited etag now sid rid s author v"
      and c': "c' = put_record sid ((put_revision x r)
        \<lparr> sr_updated := now, sr_name := scn_name s, sr_description := scn_description s,
          sr_audit := sr_audit r @ [audit now author ''update_draft'' [] rid 0] \<rparr>) c"
    show ?thesis unfolding c'
      by (rule put_record_touched, rule touched_written [where w = x and v = v])
        (use h in \<open>simp_all add: x edited_def\<close>)
  qed
  then show ?thesis unfolding UpdateCall apply_event_def catalog_event.case by (rule settle_touched)
next
  case (ValidateCall f sid rid)
  have "records_touched (revalidates ev) c c'" if "ValidateDraft f sid rid c = Inr (x, c')" for x c'
    using that
  proof (rule ValidateDraft_Inr)
    fix r v manifest ds
    assume h: "map_of (ct_records c) sid = Some r" "record_GetRevision r rid = Inr v" "rv_id v = rid"
      and c': "c' = (if HasErrors ds then c
        else put_record sid (put_revision (v\<lparr> rv_state := StateValidated, rv_manifest := manifest \<rparr>) r) c)"
    show ?thesis
    proof (cases "HasErrors ds")
      case False
      show ?thesis unfolding c' if_not_P [OF False]
        by (rule put_record_touched, rule touched_written [where v = v
            and w = "v\<lparr> rv_state := StateValidated, rv_manifest := manifest \<rparr>"])
          (use h ValidateCall in \<open>simp_all add: revalidates_def\<close>)
    qed (simp add: c' records_touched_refl)
  qed
  then show ?thesis unfolding ValidateCall apply_event_def catalog_event.case by (rule settle_touched)
next
  case (SimulationCall sid rid summary)
  have "records_touched P c c'" if "RecordSimulation sid rid summary c = Inr (x, c')" for x c' P
    using that
  proof (rule RecordSimulation_Inr)
    fix r v
    assume h: "map_of (ct_records c) sid = Some r" "record_GetRevision r rid = Inr v" "rv_id v = rid"
      and c': "c' = put_record sid (put_revision (simulated summary v) r) c"
    show ?thesis unfolding c'
      by (rule put_record_touched, rule touched_written [where v = v and w = "simulated summary v"])
        (use h in \<open>auto simp: simulated_def\<close>)
  qed
  then show ?thesis unfolding SimulationCall apply_event_def catalog_event.case by (rule settle_touched)
next
  case (PublishCall f now sid rid author reason)
  have "records_touched P c c'" if "PublishDraft f etag now sid rid author reason c = Inr (x, c')" for x c' P
    using that
  proof (rule PublishDraft_Inr)
    fix r v m ds
    assume h: "map_of (ct_records c) sid = Some r" "record_GetRevision r rid = Inr v" "rv_id v = rid"
      "rv_state v \<noteq> StatePublished"
      and x: "x = published etag now sid (sr_active_version r + 1) m author reason v"
      and c': "c' = (put_record sid ((put_revision x r)
      \<lparr> sr_active_revision := rid, sr_active_version := sr_active_version r + 1, sr_draft_revision := [],
        sr_status := StatusActive, sr_updated := now,
        sr_audit := sr_audit r @ [audit now author ''publish'' reason rid (sr_active_version r + 1)] \<rparr>) c)
      \<lparr>ct_graph := UpdateScenarioDependencies sid (Some m) [] (ct_graph c)\<rparr>"
    show ?thesis unfolding c' records_touched_graph
      by (rule put_record_touched, rule touched_written [where w = x and v = v])
        (use h in \<open>simp_all add: x published_def\<close>)
  qed
  then show ?thesis unfolding PublishCall apply_event_def catalog_event.case by (rule settle_touched)
next
  case (RollbackCall now sid version author reason)
  have "records_touched P c c'" if "RollbackToVersion now sid version author reason c = Inr (x, c')" for x c' P
    using that
    by (auto simp: RollbackToVersion_def sum_bind_Inr Let_def intro!: put_record_touched touched_unwritten)
  then show ?thesis unfolding RollbackCall apply_event_def catalog_event.case by (rule settle_touched)
next
  case (StatusCall now sid status author reason)
  have "records_touched P c c'" if "SetScenarioStatus now sid status author reason c = Inr (x, c')" for x c' P
    using that
    by (auto simp: SetScenarioStatus_def sum_bind_Inr Let_def intro!: put_record_touched touched_unwritten)
  then show ?thesis unfolding StatusCall apply_event_def catalog_event.case by (rule settle_touched)
qed

section \<open>Properties of the catalog\<close>

lemma fold_events_touched:
  assumes "\<forall>ev \<in> set evs. \<not> revalidates ev sid rid" and "GetRevision c sid rid = Inr v"
    and "rv_state v = StatePublished"
  shows "\<exists>x. GetRevision (fold (apply_event tz etag) evs c) sid rid = Inr (v\<lparr>rv_simulation := x\<rparr>)"
  using assms
proof (induction evs arbitrary: c v)
  case Nil
  then show ?case by (auto intro: exI [of _ "rv_simulation v"])
next
  case (Cons ev evs)
  from Cons.prems(2) obtain r where r: "map_of (ct_records c) sid = Some r"
    and v: "find (\<lambda>w. rv_id w = rid) (sr_revisions r) = Some v" by (auto simp: GetRevision_Inr)
  from event_touched [of ev c tz etag] r obtain r' where
    r': "map_of (ct_records (apply_event tz etag ev c)) sid = Some r'" and t: "touched (revalidates ev sid) r r'"
    by (auto simp: records_touched_def)
  from t obtain written added where ch: "record_change r r' written added" and
    w: "\<And>w. written = Some w \<Longrightarrow> \<exists>u. record_GetRevision r (rv_id w) = Inr u \<and>
      (rv_state u = StatePublished \<longrightarrow> revalidates ev sid (rv_id w) \<or> w = u\<lparr>rv_simulation := rv_simulation w\<rparr>)"
    by (auto simp: touched_def)
  have "\<exists>x. (case written of None \<Rightarrow> v | Some w \<Rightarrow> if rv_id w = rid then w else v) = v\<lparr>rv_simulation := x\<rparr>"
  proof (cases "\<exists>w. written = Some w \<and> rv_id w = rid")
    case True
    then obtain w' where w': "written = Some w'" "rv_id w' = rid" by blast
    from w [OF w'(1)] v w'(2) have "rv_state v = StatePublished \<longrightarrow>
        revalidates ev sid rid \<or> w' = v\<lparr>rv_simulation := rv_simulation w'\<rparr>"
      by (auto simp: record_GetRevision_def)
    with Cons.prems(1,3) w' show ?thesis by auto
  next
    case False
    then have "(case written of None \<Rightarrow> v | Some w \<Rightarrow> if rv_id w = rid then w else v) = v\<lparr>rv_simulation := rv_simulation v\<rparr>"
      by (auto split: option.split)
    then show ?thesis by blast
  qed
  then obtain x where "GetRevision (apply_event tz etag ev c) sid rid = Inr (v\<lparr>rv_simulation := x\<rparr>)"
    using record_change_find [OF ch v] r' by (auto simp: GetRevision_Inr)
  from Cons.IH [OF _ this] Cons.prems(1,3) show ?case by simp
qed

lemma fold_events_extend:
  assumes "map_of (ct_records c) sid = Some r"
  shows "\<exists>r'. map_of (ct_records (fold (apply_event tz etag) evs c)) sid = Some r' \<and>
    prefix (sr_audit r) (sr_audit r') \<and> prefix (map rv_id (sr_revisions r)) (map rv_id (sr_revisions r'))"
  using assms
proof (induction evs arbitrary: c r)
  case (Cons ev evs)
  from event_touched [of ev c tz etag] Cons.prems obtain r1 where
    r1: "map_of (ct_records (apply_event tz etag ev c)) sid = Some r1" and t: "touched (revalidates ev sid) r r1"
    by (auto simp: records_touched_def)
  from t obtain written added where ch: "record_change r r1 written added" by (auto simp: touched_def)
  then have "prefix (sr_audit r) (sr_audit r1)" by (simp add: record_change_def)
  with Cons.IH [OF r1] record_change_ids [OF ch] show ?case
    by simp (meson prefix_order.trans)
qed simp

lemma reachable_revision_sound:
  assumes "catalog_reachable tz' etag (compiler_of tz enc hash plan_hash) c"
    and "GetRevision c sid rid = Inr v"
  shows "revision_sound (accepted_by tz enc hash plan_hash) sid v \<and> rv_id v = rid"
proof -
  have "catalog_sound (accepted_by tz enc hash plan_hash) c"
    using scenario_compiler.reachable_sound [OF assms(1)] .
  moreover from assms(2) obtain r where "map_of (ct_records c) sid = Some r" "record_GetRevision r rid = Inr v"
    by (auto simp: GetRevision_def sum_bind_Inr)
  ultimately show ?thesis using found_sound revision_found_sound by blast
qed

lemma publish_defined:
  assumes "compiler_of tz enc hash plan_hash f"
  shows "(\<exists>x. PublishDraft f etag now sid rid author reason c = Inr x) \<longleftrightarrow>
    (\<exists>v. GetRevision c sid rid = Inr v \<and> rv_state v \<noteq> StatePublished \<and> \<not> HasErrors (snd (f (rv_scenario v))))"
    (is "?L \<longleftrightarrow> ?R")
proof
  assume ?L
  then obtain w c' where "PublishDraft f etag now sid rid author reason c = Inr (w, c')" by auto
  then show ?R
  proof (rule PublishDraft_Inr)
    fix r v m ds
    assume "map_of (ct_records c) sid = Some r" "record_GetRevision r rid = Inr v" "rv_state v \<noteq> StatePublished"
      "f (rv_scenario v) = (Some m, ds)" "\<not> HasErrors ds"
    then show ?R by (intro exI [of _ v]) (simp add: GetRevision_def GetScenario_def find_error_def)
  qed
next
  assume ?R
  then obtain v r where v: "map_of (ct_records c) sid = Some r" "record_GetRevision r rid = Inr v"
    "rv_state v \<noteq> StatePublished" "\<not> HasErrors (snd (f (rv_scenario v)))"
    by (auto simp: GetRevision_def sum_bind_Inr)
  obtain manifest ds where f: "f (rv_scenario v) = (manifest, ds)" by fastforce
  from scenario_compiler.delivers [OF assms f] v(4) f obtain m where "manifest = Some m" by auto
  with v f show ?L by (simp add: PublishDraft_def GetScenario_def find_error_def Let_def)
qed

lemma publish_no_panic:
  assumes "compiler_of tz enc hash plan_hash f"
  shows "PublishDraft f etag now sid rid author reason c \<noteq> Inl NilManifestPanic"
proof
  assume panic: "PublishDraft f etag now sid rid author reason c = Inl NilManifestPanic"
  then obtain r where r: "map_of (ct_records c) sid = Some r"
    by (cases "map_of (ct_records c) sid") (simp_all add: PublishDraft_def GetScenario_def find_error_def)
  with panic obtain v where v: "record_GetRevision r rid = Inr v"
    by (cases "record_GetRevision r rid")
      (auto simp: PublishDraft_def GetScenario_def find_error_def record_GetRevision_def split: option.splits)
  obtain manifest ds where f: "f (rv_scenario v) = (manifest, ds)" by fastforce
  from panic r v f have "manifest = None" "\<not> HasErrors ds"
    by (auto simp: PublishDraft_def GetScenario_def find_error_def Let_def split: if_splits option.splits)
  with scenario_compiler.delivers [OF assms f] show False by simp
qed

lemma publish_effect:
  assumes "PublishDraft f etag now sid rid author reason c = Inr (w, c')" and "rid \<noteq> []"
  shows "GetActiveRevision c' sid = Inr w \<and> rv_state w = StatePublished \<and>
    rv_manifest w = fst (f (rv_scenario w)) \<and>
    (\<exists>r. GetScenario c sid = Inr r \<and> rv_version w = sr_active_version r + 1)"
  using assms(1)
proof (rule PublishDraft_Inr)
  fix r v m ds
  assume r: "map_of (ct_records c) sid = Some r" and v: "record_GetRevision r rid = Inr v" "rv_id v = rid"
    and f: "f (rv_scenario v) = (Some m, ds)"
    and w: "w = published etag now sid (sr_active_version r + 1) m author reason v"
    and c': "c' = (put_record sid ((put_revision w r)
      \<lparr> sr_active_revision := rid, sr_active_version := sr_active_version r + 1, sr_draft_revision := [],
        sr_status := StatusActive, sr_updated := now,
        sr_audit := sr_audit r @ [audit now author ''publish'' reason rid (sr_active_version r + 1)] \<rparr>) c)
      \<lparr>ct_graph := UpdateScenarioDependencies sid (Some m) [] (ct_graph c)\<rparr>"
  have "rv_id w = rid" using v(2) by (simp add: w published_def)
  with put_revision_found [of r w v] v(1)
  have "find (\<lambda>x. rv_id x = rid) (sr_revisions (put_revision w r)) = Some w" by simp
  then have "GetActiveRevision c' sid = Inr w"
    using assms(2) by (simp add: c' GetActiveRevision_def GetScenario_def find_error_def record_GetRevision_def)
  then show ?thesis using r f by (simp add: w published_def GetScenario_def find_error_def)
qed

section \<open>An example\<close>

lemma show_samples: "show_int 1 = ''1''" "show_int 2 = ''2''" "show_int (0 + 1) = ''1''"
  by code_simp+

definition night_catalog :: "scenario \<Rightarrow> catalog" where
  "night_catalog s = put_record ''night'' (first_record 1 s ''ann'' (first_draft id 1 s ''ann'')) NewCatalog"

lemma night_catalog_created:
  assumes "scenario_validate (\<lambda>_. True) s = None" and "scn_id s = ''night''"
  shows "apply_event (\<lambda>_. True) id (CreateCall 1 s ''ann'') NewCatalog = night_catalog s"
  using assms by (simp add: apply_event_def settle_def CreateDraft_def Let_def NewCatalog_def night_catalog_def)

lemma night_catalog_draft:
  "GetRevision (night_catalog s) ''night'' ''rev_1'' = Inr (first_draft id 1 s ''ann'')"
  by (simp add: night_catalog_def GetRevision_Inr first_record_def first_draft_def Let_def show_samples)

lemma night_published:
  assumes "scenario_validate (\<lambda>_. True) s = None" and "scn_id s = ''night''"
    and "s\<lparr>scn_revision := ''rev_1''\<rparr> = s" and "f s = (Some m, ds)" and "\<not> HasErrors ds" and "compiles f"
  obtains w c' where
    "PublishDraft f id 2 ''night'' ''rev_1'' ''ann'' ''go'' (night_catalog s) = Inr (w, c')"
    and "GetRevision c' ''night'' ''rev_1'' = Inr w" and "rv_state w = StatePublished"
    and "rv_manifest w = Some m" and "rv_scenario w = s"
    and "catalog_reachable (\<lambda>_. True) id compiles (night_catalog s)"
    and "catalog_reachable (\<lambda>_. True) id compiles c'"
proof -
  let ?v = "first_draft id 1 s ''ann''"
  have v: "rv_scenario ?v = s" "rv_state ?v \<noteq> StatePublished" "rv_id ?v = ''rev_1''"
    using assms(3) by (simp_all add: first_draft_def Let_def show_samples)
  let ?r = "first_record 1 s ''ann'' ?v"
  have r: "map_of (ct_records (night_catalog s)) ''night'' = Some ?r"
    by (simp add: night_catalog_def)
  have g: "record_GetRevision ?r ''rev_1'' = Inr ?v"
    using v(3) by (simp add: record_GetRevision_def first_record_def)
  obtain w c' where p: "PublishDraft f id 2 ''night'' ''rev_1'' ''ann'' ''go'' (night_catalog s) = Inr (w, c')"
    using r g v assms(4,5) by (simp add: PublishDraft_def GetScenario_def find_error_def Let_def)
  then have w: "w = published id 2 ''night'' 1 m ''ann'' ''go'' ?v"
    using r g v assms(4,5)
    by (simp add: PublishDraft_def GetScenario_def find_error_def Let_def) (simp add: first_record_def)
  have start: "catalog_reachable (\<lambda>_. True) id compiles (night_catalog s)"
    using reachable_call [OF reachable_start, of compiles "CreateCall 1 s ''ann''" "\<lambda>_. True" id]
    by (simp add: night_catalog_created [OF assms(1,2)] event_compiler_def)
  have "apply_event (\<lambda>_. True) id (PublishCall f 2 ''night'' ''rev_1'' ''ann'' ''go'') (night_catalog s) = c'"
    by (simp add: apply_event_def p settle_def)
  with reachable_call [OF start, of "PublishCall f 2 ''night'' ''rev_1'' ''ann'' ''go''"] assms(6)
  have reach: "catalog_reachable (\<lambda>_. True) id compiles c'" by (simp add: event_compiler_def)
  have "GetActiveRevision c' ''night'' = Inr w" and active: "sr_active_revision q = ''rev_1''"
    if "map_of (ct_records c') ''night'' = Some q" for q
    using publish_effect [OF p] p that by (auto elim!: PublishDraft_Inr)
  moreover obtain q where q: "map_of (ct_records c') ''night'' = Some q"
    using p by (auto elim!: PublishDraft_Inr)
  ultimately have "GetRevision c' ''night'' ''rev_1'' = Inr w"
    by (simp add: GetActiveRevision_def GetRevision_def GetScenario_def find_error_def)
  then show thesis using that [OF p _ _ _ _ start reach] v by (simp add: w published_def)
qed

lemma siren_in_catalog:
  "scenario_validate (\<lambda>_. True) siren_scenario = None" "scn_id siren_scenario = ''night''"
  "siren_scenario\<lparr>scn_revision := ''rev_1''\<rparr> = siren_scenario"
  using Normalize_valid [OF siren_scenario_normal] by (simp_all add: siren_scenario_def)

abbreviation sample_compile :: compile_function where
  "sample_compile \<equiv> Compile (\<lambda>_. True) ex_ref trigger_names (\<lambda>_. Inr ''plan'') (Some siren_registry)"

abbreviation sample_compiler :: "compile_function \<Rightarrow> bool" where
  "sample_compiler \<equiv> compiler_of (\<lambda>_. True) ex_ref trigger_names (\<lambda>_. Inr ''plan'')"

lemma sample_compiler: "sample_compiler sample_compile"
  by (auto simp: compiler_of_def)

lemma siren_published:
  obtains w c' m where
    "PublishDraft sample_compile id 2 ''night'' ''rev_1'' ''ann'' ''go'' (night_catalog siren_scenario) = Inr (w, c')"
    and "GetRevision c' ''night'' ''rev_1'' = Inr w" and "rv_state w = StatePublished"
    and "rv_manifest w = Some m" and "rv_scenario w = siren_scenario"
    and "map fst (mf_versions m) = [''siren.sound'']"
    and "catalog_reachable (\<lambda>_. True) id sample_compiler (night_catalog siren_scenario)"
    and "catalog_reachable (\<lambda>_. True) id sample_compiler c'"
proof -
  from siren_scenario_compiles obtain m ds where m: "sample_compile siren_scenario = (Some m, ds)"
    "\<not> HasErrors ds" "map fst (mf_versions m) = [''siren.sound'']" by (elim exE conjE) (rule that)
  show thesis
    using night_published [where f = sample_compile and compiles = sample_compiler, OF siren_in_catalog m(1,2) sample_compiler]
    by (blast intro: that m(3))
qed

text \<open>
  C9. A published revision is immutable: whatever is called later, as long as nobody validates that
  revision again, it can be read unchanged, its scenario, manifest, version, tag and publication
  data included; only the record of a simulation may be added.
\<close>

theorem published_immutable:
  assumes "GetRevision c sid rid = Inr v" and "rv_state v = StatePublished"
    and "\<forall>ev \<in> set evs. \<not> revalidates ev sid rid"
  shows "\<exists>x. GetRevision (fold (apply_event tz etag) evs c) sid rid = Inr (v\<lparr>rv_simulation := x\<rparr>)"
  using fold_events_touched [OF assms(3,1,2)] .

theorem published_immutable_witness:
  "\<exists>c w x. rv_manifest w \<noteq> None \<and>
     GetRevision (fold (apply_event (\<lambda>_. True) id)
       [StatusCall 3 ''night'' StatusDisabled ''ann'' [], UpdateCall 4 ''night'' ''rev_1'' [] unlock_scenario ''bob''] c)
       ''night'' ''rev_1'' = Inr (w\<lparr>rv_simulation := x\<rparr>)"
proof (rule siren_published)
  fix w c' m
  assume g: "GetRevision c' ''night'' ''rev_1'' = Inr w" "rv_state w = StatePublished" "rv_manifest w = Some m"
  let ?evs = "[StatusCall 3 ''night'' StatusDisabled ''ann'' [], UpdateCall 4 ''night'' ''rev_1'' [] unlock_scenario ''bob'']"
  have "\<forall>ev \<in> set ?evs. \<not> revalidates ev ''night'' ''rev_1''" by (simp add: revalidates_def)
  from published_immutable [OF g(1,2) this, of "\<lambda>_. True" id] g(3) show ?thesis by blast
qed

text \<open>
  History is append-only: no sequence of calls removes a scenario, drops or reorders its
  revisions, or takes back or alters an entry of its audit log.
\<close>

theorem history_append_only:
  assumes "GetScenario c sid = Inr r"
  shows "\<exists>r'. GetScenario (fold (apply_event tz etag) evs c) sid = Inr r' \<and>
    prefix (sr_audit r) (sr_audit r') \<and> prefix (map rv_id (sr_revisions r)) (map rv_id (sr_revisions r'))"
  using fold_events_extend [of c sid r] assms by simp

theorem history_append_only_witness:
  "\<exists>r'. GetScenario (fold (apply_event (\<lambda>_. True) id) [StatusCall 3 ''night'' StatusArchived ''ann'' []]
       (night_catalog siren_scenario)) ''night'' = Inr r' \<and>
     prefix [audit 1 ''ann'' ''create_scenario'' [] ''rev_1'' 0] (sr_audit r')"
proof -
  let ?v = "first_draft id 1 siren_scenario ''ann''"
  have r: "GetScenario (night_catalog siren_scenario) ''night'' = Inr (first_record 1 siren_scenario ''ann'' ?v)"
    by (simp add: night_catalog_def)
  have "sr_audit (first_record 1 siren_scenario ''ann'' ?v) = [audit 1 ''ann'' ''create_scenario'' [] ''rev_1'' 0]"
    by (simp add: first_record_def first_draft_def Let_def show_samples)
  with history_append_only [OF r, of "\<lambda>_. True" id "[StatusCall 3 ''night'' StatusArchived ''ann'' []]"]
  show ?thesis by auto
qed

text \<open>
  C8. What is published was compiled: in every state that calls can reach from the empty catalog, a
  manifest kept with a revision is the compiler's accepted result for the very scenario of that
  revision under some registry, a validated or published revision has one, and a published
  revision has a version of at least 1 and the time of its publication.
\<close>

theorem published_was_compiled:
  assumes "catalog_reachable tz' etag (compiler_of tz enc hash plan_hash) c"
    and "GetRevision c sid rid = Inr v"
  shows "(\<forall>m. rv_manifest v = Some m \<longrightarrow>
      (\<exists>reg ds. Compile tz enc hash plan_hash reg (rv_scenario v) = (Some m, ds) \<and> \<not> HasErrors ds)) \<and>
    (rv_state v \<in> {StateValidated, StatePublished} \<longrightarrow> rv_manifest v \<noteq> None) \<and>
    (rv_state v = StatePublished \<longrightarrow> 1 \<le> rv_version v \<and> rv_published_at v \<noteq> None) \<and>
    scn_id (rv_scenario v) = sid \<and> scn_revision (rv_scenario v) = rid"
proof -
  have "revision_sound (accepted_by tz enc hash plan_hash) sid v \<and> rv_id v = rid"
    using reachable_revision_sound [OF assms] .
  then show ?thesis by (auto simp: revision_sound_def accepted_by_def)
qed

theorem published_was_compiled_witness:
  "\<exists>c w m reg ds. GetRevision c ''night'' ''rev_1'' = Inr w \<and> rv_state w = StatePublished \<and> rv_manifest w = Some m \<and>
     Compile (\<lambda>_. True) ex_ref trigger_names (\<lambda>_. Inr ''plan'') reg (rv_scenario w) = (Some m, ds)"
proof (rule siren_published)
  fix w c' m
  assume g: "GetRevision c' ''night'' ''rev_1'' = Inr w" "rv_state w = StatePublished" "rv_manifest w = Some m"
    and r: "catalog_reachable (\<lambda>_. True) id sample_compiler c'"
  from published_was_compiled [OF r g(1)] g show ?thesis by blast
qed

text \<open>
  Publishing: a revision is published exactly when it exists, is not published yet and the
  compiler finds no error now; then it is the active revision with the next version and the
  manifest just compiled, and the call never meets a missing manifest.
\<close>

theorem publish_iff:
  assumes "compiler_of tz enc hash plan_hash f"
  shows "((\<exists>x. PublishDraft f etag now sid rid author reason c = Inr x) \<longleftrightarrow>
      (\<exists>v. GetRevision c sid rid = Inr v \<and> rv_state v \<noteq> StatePublished \<and>
        \<not> HasErrors (snd (f (rv_scenario v))))) \<and>
    PublishDraft f etag now sid rid author reason c \<noteq> Inl NilManifestPanic \<and>
    (\<forall>w c'. PublishDraft f etag now sid rid author reason c = Inr (w, c') \<longrightarrow>
      rid \<noteq> [] \<longrightarrow>
      GetActiveRevision c' sid = Inr w \<and> rv_state w = StatePublished \<and>
      rv_manifest w = fst (f (rv_scenario w)) \<and>
      (\<exists>r. GetScenario c sid = Inr r \<and> rv_version w = sr_active_version r + 1))"
  by (intro conjI [OF publish_defined [OF assms]] conjI [OF publish_no_panic [OF assms]] allI impI)
    (rule publish_effect)

theorem publish_iff_witness:
  "(\<exists>x. PublishDraft sample_compile id 2 ''night'' ''rev_1'' ''ann'' ''go'' (night_catalog siren_scenario) = Inr x) \<and>
   \<not> (\<exists>x. PublishDraft sample_compile id 2 ''day'' ''rev_1'' ''ann'' ''go'' (night_catalog siren_scenario) = Inr x)"
proof -
  note iff = publish_iff [OF sample_compiler, THEN conjunct1]
  have "\<exists>x. PublishDraft sample_compile id 2 ''night'' ''rev_1'' ''ann'' ''go'' (night_catalog siren_scenario) = Inr x"
    by (rule siren_published) blast
  moreover have "\<nexists>v. GetRevision (night_catalog siren_scenario) ''day'' ''rev_1'' = Inr v"
    by (simp add: GetRevision_Inr night_catalog_def NewCatalog_def)
  ultimately show ?thesis unfolding iff by blast
qed

text \<open>
  No lost update: of two writers that read the same revision, the second one fails with a
  conflict that names the current tag, unless the new tag happens to equal the old one.
\<close>

theorem no_lost_update:
  assumes "UpdateDraft tz etag now sid rid tag s author c = Inr (w, c')" and "tag \<noteq> []"
    and "rv_etag w \<noteq> tag" and "scenario_validate tz s' = None"
  shows "UpdateDraft tz etag now' sid rid tag s' author' c' = Inl (ErrConflict (rv_etag w) tag)"
  using assms(1)
proof (rule UpdateDraft_Inr)
  fix r v
  assume h: "record_GetRevision r rid = Inr v" "rv_id v = rid" "w = edited etag now sid rid s author v"
    "c' = put_record sid ((put_revision w r)
        \<lparr> sr_updated := now, sr_name := scn_name s, sr_description := scn_description s,
          sr_audit := sr_audit r @ [audit now author ''update_draft'' [] rid 0] \<rparr>) c"
  have id: "rv_id w = rid" and st: "rv_state w = StateDraft" using h by (simp_all add: edited_def)
  have "find (\<lambda>x. rv_id x = rid) (sr_revisions (put_revision w r)) = Some w"
    using put_revision_found [of r w v] h(1) id by simp
  then show ?thesis using assms(2-4) st
    by (simp add: UpdateDraft_def GetScenario_def record_GetRevision_def find_error_def h(4))
qed

theorem no_lost_update_witness:
  "\<exists>c' current. UpdateDraft (\<lambda>_. True) id 3 ''night'' ''rev_1'' ''night:rev_1:1'' siren_scenario ''bob'' c' =
     Inl (ErrConflict current ''night:rev_1:1'')"
proof -
  let ?c = "night_catalog siren_scenario"
  have "GetRevision ?c ''night'' ''rev_1'' = Inr (first_draft id 1 siren_scenario ''ann'')" by (rule night_catalog_draft)
  moreover have "rv_etag (first_draft id 1 siren_scenario ''ann'') = ''night:rev_1:1''"
    "rv_state (first_draft id 1 siren_scenario ''ann'') = StateDraft"
    by (simp_all add: first_draft_def Let_def draft_etag_def show_samples siren_in_catalog)
  ultimately obtain w c' where
    u: "UpdateDraft (\<lambda>_. True) id 2 ''night'' ''rev_1'' ''night:rev_1:1'' siren_scenario ''ann'' ?c = Inr (w, c')"
    by (auto simp: UpdateDraft_def GetRevision_def sum_bind_Inr siren_in_catalog Let_def)
  then have "rv_etag w = ''night:rev_1:2''"
    by (auto simp: edited_def draft_etag_def show_samples elim!: UpdateDraft_Inr)
  then show ?thesis using no_lost_update [OF u _ _ siren_in_catalog(1), of 3 "''bob''"] by auto
qed

section \<open>Two weaknesses\<close>

text \<open>
  \<open>ValidateDraft\<close> does not ask whether the revision is published: it takes a published
  revision back to \<open>validated\<close>, and then it can be edited in place.
\<close>

lemma published_revision_edited:
  assumes "GetRevision c sid rid = Inr v" and "rv_state v = StatePublished"
    and "\<not> HasErrors (snd (f (rv_scenario v)))" and "scenario_validate tz s = None"
  shows "\<exists>w. GetRevision (apply_event tz etag (UpdateCall now sid rid [] s author)
      (apply_event tz etag (ValidateCall f sid rid) c)) sid rid = Inr w \<and>
    rv_state w = StateDraft \<and> rv_scenario w = s\<lparr> scn_id := sid, scn_revision := rid \<rparr>"
proof -
  obtain manifest ds where f: "f (rv_scenario v) = (manifest, ds)" by fastforce
  from assms(1) obtain r where r: "map_of (ct_records c) sid = Some r"
    and v: "find (\<lambda>w. rv_id w = rid) (sr_revisions r) = Some v" by (auto simp: GetRevision_Inr)
  have id: "rv_id v = rid" using v by (auto simp: find_Some_iff)
  let ?v = "v\<lparr> rv_state := StateValidated, rv_manifest := manifest \<rparr>"
  let ?c = "put_record sid (put_revision ?v r) c"
  have c: "apply_event tz etag (ValidateCall f sid rid) c = ?c"
    using assms(3) f r v
    by (simp add: apply_event_def settle_def ValidateDraft_def GetScenario_def record_GetRevision_def find_error_def)
  have v': "find (\<lambda>w. rv_id w = rid) (sr_revisions (put_revision ?v r)) = Some ?v"
    using v id by (simp add: find_put_revision)
  let ?w = "edited etag now sid rid s author ?v"
  have wid: "rv_id ?w = rid" using id by (simp add: edited_def)
  have "apply_event tz etag (UpdateCall now sid rid [] s author) ?c =
      put_record sid ((put_revision ?w (put_revision ?v r))
        \<lparr> sr_updated := now, sr_name := scn_name s, sr_description := scn_description s,
          sr_audit := sr_audit r @ [audit now author ''update_draft'' [] rid 0] \<rparr>) ?c"
    using assms(4) v'
    by (simp add: apply_event_def settle_def UpdateDraft_def GetScenario_def record_GetRevision_def
        find_error_def Let_def)
  moreover have "find (\<lambda>w. rv_id w = rid) (sr_revisions (put_revision ?w (put_revision ?v r))) = Some ?w"
    using v' wid by (simp add: find_put_revision)
  ultimately have "GetRevision (apply_event tz etag (UpdateCall now sid rid [] s author) ?c) sid rid = Inr ?w"
    by (simp add: GetRevision_Inr)
  with c show ?thesis by (intro exI [of _ ?w]) (simp add: edited_def)
qed

text \<open>
  After a roll-back the version counter starts over from the old version: the next publication
  gets the number after it, whether or not a published revision bears that number already.
\<close>

lemma version_given_again:
  assumes "RollbackToVersion now sid n author reason c = Inr (u, c1)"
    and "PublishDraft f etag now' sid rid author' reason' c1 = Inr (w, c')"
  shows "rv_version w = n + 1"
  using assms(2)
proof (rule PublishDraft_Inr)
  fix q v m ds
  assume q: "map_of (ct_records c1) sid = Some q"
    and w: "w = published etag now' sid (sr_active_version q + 1) m author' reason' v"
  from assms(1) have "sr_active_version q = rv_version u" "rv_version u = n" using q
    by (auto simp: RollbackToVersion_def sum_bind_Inr Let_def dest: record_GetVersion_Inr)
  then show ?thesis by (simp add: w published_def)
qed

section \<open>Dependencies of the active revisions\<close>

text \<open>The calls that may change which dependencies of a scenario are indexed.\<close>

definition reindexes :: "catalog_event \<Rightarrow> string \<Rightarrow> bool" where
  "reindexes ev sid \<longleftrightarrow>
     (case ev of
        PublishCall _ _ i _ _ _ \<Rightarrow> i = sid
      | RollbackCall _ i _ _ _ \<Rightarrow> i = sid
      | StatusCall _ i status _ _ \<Rightarrow> i = sid \<and> status = StatusArchived
      | _ \<Rightarrow> False)"

lemma settle_writes:
  assumes "\<And>x c'. res = Inr (x, c') \<Longrightarrow> \<exists>ws. ct_graph c' = fold apply_write ws (ct_graph c) \<and> P ws" and "P []"
  shows "\<exists>ws. ct_graph (settle c res) = fold apply_write ws (ct_graph c) \<and> P ws"
  using assms by (auto simp: settle_def intro: exI [of _ "[]"] split: sum.split)

lemma same_graph: "ct_graph c' = ct_graph c \<Longrightarrow> P [] \<Longrightarrow> \<exists>ws. ct_graph c' = fold apply_write ws (ct_graph c) \<and> P ws"
  by (rule exI [of _ "[]"]) simp

lemma one_write:
  "ct_graph c' = apply_write w (ct_graph c) \<Longrightarrow> P [w] \<Longrightarrow> \<exists>ws. ct_graph c' = fold apply_write ws (ct_graph c) \<and> P ws"
  by (rule exI [of _ "[w]"]) simp

lemma event_writes:
  "\<exists>ws. ct_graph (apply_event tz etag ev c) = fold apply_write ws (ct_graph c) \<and>
     (\<forall>sid. \<not> reindexes ev sid \<longrightarrow> (\<forall>w \<in> set ws. write_target w \<noteq> sid))"
proof (cases ev)
  case (CreateCall now s author)
  show ?thesis unfolding CreateCall apply_event_def catalog_event.case
    by (rule settle_writes) (auto intro!: same_graph simp: dest: CreateDraft_Inr)
next
  case (UpdateCall now sid rid expected s author)
  show ?thesis unfolding UpdateCall apply_event_def catalog_event.case
    by (rule settle_writes) (auto intro!: same_graph elim!: UpdateDraft_Inr)
next
  case (ValidateCall f sid rid)
  show ?thesis unfolding ValidateCall apply_event_def catalog_event.case
    by (rule settle_writes) (auto intro!: same_graph elim!: ValidateDraft_Inr)
next
  case (SimulationCall sid rid summary)
  show ?thesis unfolding SimulationCall apply_event_def catalog_event.case
    by (rule settle_writes) (auto intro!: same_graph elim!: RecordSimulation_Inr)
next
  case (PublishCall f now sid rid author reason)
  show ?thesis unfolding PublishCall apply_event_def catalog_event.case
  proof (rule settle_writes)
    fix x c'
    assume "PublishDraft f etag now sid rid author reason c = Inr (x, c')"
    then obtain m where "ct_graph c' = UpdateScenarioDependencies sid (Some m) [] (ct_graph c)"
      by (auto elim!: PublishDraft_Inr)
    then show "\<exists>ws. ct_graph c' = fold apply_write ws (ct_graph c) \<and>
        (\<forall>i. \<not> reindexes (PublishCall f now sid rid author reason) i \<longrightarrow> (\<forall>w \<in> set ws. write_target w \<noteq> i))"
      by (intro one_write [where w = "Indexed sid (Some m) []"])
        (simp_all add: apply_write_def write_target_def reindexes_def)
  qed simp
next
  case (RollbackCall now sid version author reason)
  show ?thesis unfolding RollbackCall apply_event_def catalog_event.case
  proof (rule settle_writes)
    fix x c'
    assume "RollbackToVersion now sid version author reason c = Inr (x, c')"
    then have "ct_graph c' = UpdateScenarioDependencies sid (rv_manifest x) [] (ct_graph c)"
      by (auto simp: RollbackToVersion_def sum_bind_Inr Let_def)
    then show "\<exists>ws. ct_graph c' = fold apply_write ws (ct_graph c) \<and>
        (\<forall>i. \<not> reindexes (RollbackCall now sid version author reason) i \<longrightarrow> (\<forall>w \<in> set ws. write_target w \<noteq> i))"
      by (intro one_write [where w = "Indexed sid (rv_manifest x) []"])
        (simp_all add: apply_write_def write_target_def reindexes_def)
  qed simp
next
  case (StatusCall now sid status author reason)
  show ?thesis unfolding StatusCall apply_event_def catalog_event.case
  proof (rule settle_writes)
    fix x c'
    assume "SetScenarioStatus now sid status author reason c = Inr (x, c')"
    then have c': "ct_graph c' = (if status = StatusArchived then RemoveScenario sid (ct_graph c) else ct_graph c)"
      by (auto simp: SetScenarioStatus_def sum_bind_Inr Let_def)
    show "\<exists>ws. ct_graph c' = fold apply_write ws (ct_graph c) \<and>
        (\<forall>i. \<not> reindexes (StatusCall now sid status author reason) i \<longrightarrow> (\<forall>w \<in> set ws. write_target w \<noteq> i))"
    proof (cases "status = StatusArchived")
      case True
      with c' show ?thesis
        by (intro one_write [where w = "Dropped sid"])
          (simp_all add: apply_write_def write_target_def reindexes_def)
    next
      case False
      with c' show ?thesis by (intro same_graph) simp_all
    qed
  qed simp
qed

lemma run_writes:
  "\<exists>ws. ct_graph (fold (apply_event tz etag) evs c) = fold apply_write ws (ct_graph c) \<and>
     (\<forall>sid. (\<forall>ev \<in> set evs. \<not> reindexes ev sid) \<longrightarrow> (\<forall>w \<in> set ws. write_target w \<noteq> sid))"
proof (induction evs arbitrary: c)
  case (Cons ev evs)
  from event_writes [of tz etag ev c] obtain us where
    us: "ct_graph (apply_event tz etag ev c) = fold apply_write us (ct_graph c)"
      "\<forall>sid. \<not> reindexes ev sid \<longrightarrow> (\<forall>w \<in> set us. write_target w \<noteq> sid)" by blast
  from Cons.IH [of "apply_event tz etag ev c"] obtain vs where
    vs: "ct_graph (fold (apply_event tz etag) evs (apply_event tz etag ev c)) =
        fold apply_write vs (ct_graph (apply_event tz etag ev c))"
      "\<forall>sid. (\<forall>ev \<in> set evs. \<not> reindexes ev sid) \<longrightarrow> (\<forall>w \<in> set vs. write_target w \<noteq> sid)" by blast
  show ?case
    by (rule exI [of _ "us @ vs"]) (use us vs in \<open>auto simp: us(1)\<close>)
qed (auto intro: exI [of _ "[]"])

lemma reachable_writes:
  "catalog_reachable tz etag compiles c \<Longrightarrow> \<exists>ws. ct_graph c = fold apply_write ws NewDependencyGraph"
proof (induction rule: catalog_reachable.induct)
  case reachable_start
  then show ?case by (auto simp: NewCatalog_def intro: exI [of _ "[]"])
next
  case (reachable_call c ev)
  then obtain ws where "ct_graph c = fold apply_write ws NewDependencyGraph" by blast
  moreover from event_writes [of tz etag ev c] obtain us where
    "ct_graph (apply_event tz etag ev c) = fold apply_write us (ct_graph c)" by blast
  ultimately show ?case by (intro exI [of _ "ws @ us"]) simp
qed

lemma published_manifest_indexed:
  assumes "catalog_reachable tz etag compiles c"
    and "PublishDraft f etag now sid rid author reason c = Inr (w, c')" and "rv_manifest w = Some m"
    and "\<forall>ev \<in> set evs. \<not> reindexes ev sid"
  obtains ws where "ct_graph (fold (apply_event tz etag) evs c') = fold apply_write ws NewDependencyGraph"
    and "last_manifest ws sid = Some m"
proof -
  from reachable_writes [OF assms(1)] obtain us where us: "ct_graph c = fold apply_write us NewDependencyGraph"
    by blast
  let ?w = "Indexed sid (Some m) []"
  from assms(2,3) have "ct_graph c' = apply_write ?w (ct_graph c)"
    by (auto simp: apply_write_def published_def elim!: PublishDraft_Inr)
  with us have c': "ct_graph c' = fold apply_write (us @ [?w]) NewDependencyGraph" by simp
  from run_writes [of tz etag evs c'] assms(4) obtain vs where
    vs: "ct_graph (fold (apply_event tz etag) evs c') = fold apply_write vs (ct_graph c')"
      "\<forall>w \<in> set vs. write_target w \<noteq> sid" by blast
  have "last_manifest ((us @ [?w]) @ vs) sid = last_manifest (us @ [?w]) sid"
    using vs(2) by (rule last_manifest_other)
  also have "\<dots> = Some m"
    using last_manifest_snoc [of us ?w] by (simp add: write_target_def write_manifest_def)
  finally show thesis using that [of "(us @ [?w]) @ vs"] vs(1) c' by simp
qed

text \<open>
  C16. What an active scenario needs cannot be deleted: from the publication of a revision on, and
  until the scenario is published or rolled back again or archived, no capability version and
  no entity of its manifest counts as unused, whatever else is called in between.
\<close>

theorem dependencies_protected:
  assumes "catalog_reachable tz etag compiles c"
    and "PublishDraft f etag now sid rid author reason c = Inr (w, c')" and "rv_manifest w = Some m"
    and "\<forall>ev \<in> set evs. \<not> reindexes ev sid"
  shows "(\<forall>cap \<in> fst ` set (mf_versions m).
      \<not> fst (CanDeleteCapability (fold (apply_event tz etag) evs c') cap) \<and>
      sid \<in> snd (CanDeleteCapability (fold (apply_event tz etag) evs c') cap)) \<and>
    (\<forall>e \<in> set (mf_entities m).
      \<not> fst (CanDeleteEntity (fold (apply_event tz etag) evs c') (er_kind e) (er_id e)) \<and>
      sid \<in> snd (CanDeleteEntity (fold (apply_event tz etag) evs c') (er_kind e) (er_id e)))"
proof -
  from published_manifest_indexed [OF assms] obtain ws where
    g: "ct_graph (fold (apply_event tz etag) evs c') = fold apply_write ws NewDependencyGraph" and
    l: "last_manifest ws sid = Some m" .
  have "sid \<in> GetScenariosUsingCapability (fold apply_write ws NewDependencyGraph) cap"
    if "cap \<in> fst ` set (mf_versions m)" for cap
    using that l graph_after_writes [of ws cap] by auto
  moreover have "sid \<in> GetScenariosUsingEntity (fold apply_write ws NewDependencyGraph) (er_kind e) (er_id e)"
    if "e \<in> set (mf_entities m)" for e
  proof -
    have "er_kind e @ '':'' @ er_id e \<in> resource_key ` set (mf_entities m)"
      using that by (auto simp: resource_key_def)
    with l graph_after_writes [of ws _ "er_kind e" "er_id e"] show ?thesis by blast
  qed
  ultimately show ?thesis by (auto simp: CanDeleteCapability_def CanDeleteEntity_def Let_def g)
qed

theorem dependencies_protected_witness:
  "\<exists>c. \<not> fst (CanDeleteCapability (fold (apply_event (\<lambda>_. True) id)
     [StatusCall 3 ''night'' StatusDisabled ''ann'' [], CreateCall 4 unlock_scenario ''bob''] c) ''siren.sound'')"
proof (rule siren_published)
  fix w c' m
  assume p: "PublishDraft sample_compile id 2 ''night'' ''rev_1'' ''ann'' ''go'' (night_catalog siren_scenario) = Inr (w, c')"
    and m: "rv_manifest w = Some m" "map fst (mf_versions m) = [''siren.sound'']"
    and r: "catalog_reachable (\<lambda>_. True) id sample_compiler (night_catalog siren_scenario)"
  let ?evs = "[StatusCall 3 ''night'' StatusDisabled ''ann'' [], CreateCall 4 unlock_scenario ''bob'']"
  have e: "\<forall>ev \<in> set ?evs. \<not> reindexes ev ''night''" by (simp add: reindexes_def)
  have "''siren.sound'' \<in> fst ` set (mf_versions m)" using m(2) by (metis list.set_intros(1) list.set_map)
  with dependencies_protected [OF r p m(1) e] show ?thesis by blast
qed

text \<open>
  An archived scenario that is set to active again is not indexed again, although its revision is
  in force: nothing it uses is protected.
\<close>

lemma reactivated_scenario_unindexed:
  assumes "catalog_reachable tz etag compiles c" and "GetScenario c sid = Inr r"
    and "c' = apply_event tz etag (StatusCall now' sid StatusActive author' reason')
      (apply_event tz etag (StatusCall now sid StatusArchived author reason) c)"
  shows "(\<exists>r'. GetScenario c' sid = Inr r' \<and> sr_status r' = StatusActive \<and>
      sr_active_revision r' = sr_active_revision r) \<and>
    sid \<notin> snd (CanDeleteCapability c' cap)"
proof -
  from reachable_writes [OF assms(1)] obtain us where us: "ct_graph c = fold apply_write us NewDependencyGraph"
    by blast
  have "last_manifest (us @ [Dropped sid]) sid = None"
    using last_manifest_snoc [of us "Dropped sid"] by (simp add: write_target_def write_manifest_def)
  then have "sid \<notin> GetScenariosUsingCapability (RemoveScenario sid (ct_graph c)) cap"
    using graph_after_writes [of "us @ [Dropped sid]" cap] by (simp add: us apply_write_def)
  then show ?thesis using assms(2)
    by (simp add: assms(3) apply_event_def settle_def SetScenarioStatus_def GetScenario_def find_error_def Let_def
        CanDeleteCapability_def split: option.splits)
qed

end
