(* ===== verification/Evaluation.thy ===== *)
theory Evaluation
  imports Flows
begin

text \<open>
  The evaluator of expressions, \<open>simulator/evaluator.go\<close>. It reads arguments by index without
  counting them, so an expression that was not validated may make it panic; a panic is an
  outcome of its own here, next to an error, because the simulator survives one and not the
  other. The arguments are evaluated from left to right and only as far as the code looks at
  them; evaluation has no effects, so the results of all of them can be handed to the operator.

  The environment is a finite map from names to values. \<open>eq\<close> compares the raw JSON texts; here
  the JSON values are compared, which is the same for texts that \<open>json.Marshal\<close> wrote.
\<close>

section \<open>Evaluate\<close>

datatype eval_error = EvalError go_error | EvalPanic

type_synonym eval_env = "string \<Rightarrow> val option"

definition eval_result :: "go_error + 'a \<Rightarrow> eval_error + 'a" where
  "eval_result r = map_sum EvalError id r"

definition eval_fail :: "string \<Rightarrow> eval_error + 'a" where
  "eval_fail msg = Inl (EvalError (Error msg))"

text \<open>\<open>json.Unmarshal\<close> into a \<open>bool\<close>, a \<open>float64\<close> and a \<open>string\<close>.\<close>

definition value_bool :: "val \<Rightarrow> bool option" where
  "value_bool v = Option.bind (v_data v) json_bool"

fun json_float :: "json \<Rightarrow> rat option" where
  "json_float JNull = Some 0"
| "json_float (JInt n) = number_float64 (JInt n)"
| "json_float (JFrac r) = number_float64 (JFrac r)"
| "json_float _ = None"

definition value_float :: "val \<Rightarrow> rat option" where
  "value_float v = Option.bind (v_data v) json_float"

definition value_text :: "val \<Rightarrow> string" where
  "value_text v = (case Option.bind (v_data v) (json_string []) of None \<Rightarrow> [] | Some s \<Rightarrow> s)"

definition needs :: "'a option \<Rightarrow> string \<Rightarrow> ('a \<Rightarrow> eval_error + 'b) \<Rightarrow> eval_error + 'b" where
  "needs x msg f = (case x of None \<Rightarrow> eval_fail msg | Some a \<Rightarrow> f a)"

definition bool_value :: "bool \<Rightarrow> eval_error + val" where
  "bool_value b = eval_result (ValueOf (JBool b))"

text \<open>A result beyond the range of \<open>float64\<close> is an infinity, which \<open>json.Marshal\<close> rejects.\<close>

definition float_value :: "rat option \<Rightarrow> eval_error + val" where
  "float_value x = eval_result (sum_bind (finite_or x) (\<lambda>r. ValueOf (json_of_float r)))"

fun eval1 :: "(eval_error + val) list \<Rightarrow> (val \<Rightarrow> eval_error + 'b) \<Rightarrow> eval_error + 'b" where
  "eval1 (a # _) f = sum_bind a f"
| "eval1 [] f = Inl EvalPanic"

fun eval2 :: "(eval_error + val) list \<Rightarrow> (val \<Rightarrow> val \<Rightarrow> eval_error + 'b) \<Rightarrow> eval_error + 'b" where
  "eval2 (a # rs) f = sum_bind a (\<lambda>x. eval1 rs (f x))"
| "eval2 [] f = Inl EvalPanic"

fun eval3 :: "(eval_error + val) list \<Rightarrow> (val \<Rightarrow> val \<Rightarrow> val \<Rightarrow> eval_error + 'b) \<Rightarrow> eval_error + 'b" where
  "eval3 (a # rs) f = sum_bind a (\<lambda>x. eval2 rs (f x))"
| "eval3 [] f = Inl EvalPanic"

text \<open>The loops of \<open>and\<close> and \<open>or\<close> stop at the first argument that decides.\<close>

fun eval_until :: "bool \<Rightarrow> (eval_error + val) list \<Rightarrow> eval_error + bool" where
  "eval_until stop [] = Inr (\<not> stop)"
| "eval_until stop (r # rs) =
     sum_bind r (\<lambda>v. needs (value_bool v) ''eval: argument not a bool'' (\<lambda>b.
       if b = stop then Inr stop else eval_until stop rs))"

definition compare_floats :: "expr_op \<Rightarrow> rat \<Rightarrow> rat \<Rightarrow> bool" where
  "compare_floats op l r =
     (case op of OpGt \<Rightarrow> r < l | OpGte \<Rightarrow> r \<le> l | OpLt \<Rightarrow> l < r | _ \<Rightarrow> l \<le> r)"

definition eval_arithmetic :: "expr_op \<Rightarrow> val \<Rightarrow> val \<Rightarrow> eval_error + val" where
  "eval_arithmetic op left right =
     (if op = OpAdd \<and> tr_kind (v_type left) = TypeString \<and> tr_kind (v_type right) = TypeString then
        eval_result (ValueOf (JStr (value_text left @ value_text right)))
      else
        needs (value_float left) ''eval: arithmetic requires numeric left operand'' (\<lambda>x.
        needs (value_float right) ''eval: arithmetic requires numeric right operand'' (\<lambda>y.
          case op of
            OpAdd \<Rightarrow> float_value (f64_round (x + y))
          | OpSub \<Rightarrow> float_value (f64_round (x - y))
          | OpMul \<Rightarrow> float_value (f64_round (x * y))
          | _ \<Rightarrow> if y = 0 then eval_fail ''eval: division by zero'' else float_value (f64_round (x / y)))))"

definition evaluate_op ::
    "eval_env \<Rightarrow> expr_op \<Rightarrow> string \<Rightarrow> val option \<Rightarrow> expr list \<Rightarrow> (eval_error + val) list \<Rightarrow> eval_error + val" where
  "evaluate_op env op ref v args rs =
     (case op of
        OpLiteral \<Rightarrow> needs v ''eval: literal expression has nil value'' Inr
      | OpRef \<Rightarrow> needs (env (TrimSpace ref)) ''eval: reference not found in runtime environment'' Inr
      | OpNot \<Rightarrow> eval1 rs (\<lambda>a. needs (value_bool a) ''eval: not requires bool value'' (\<lambda>b. bool_value (\<not> b)))
      | OpExists \<Rightarrow> (case args of [] \<Rightarrow> Inl EvalPanic | a # _ \<Rightarrow> bool_value (env (ex_ref a) \<noteq> None))
      | OpMissing \<Rightarrow> (case args of [] \<Rightarrow> Inl EvalPanic | a # _ \<Rightarrow> bool_value (env (ex_ref a) = None))
      | OpAnd \<Rightarrow> sum_bind (eval_until False rs) bool_value
      | OpOr \<Rightarrow> sum_bind (eval_until True rs) bool_value
      | OpEq \<Rightarrow> eval2 rs (\<lambda>l r. bool_value (v_data l = v_data r))
      | OpNe \<Rightarrow> eval2 rs (\<lambda>l r. bool_value (v_data l \<noteq> v_data r))
      | OpBetween \<Rightarrow>
          eval3 rs (\<lambda>a l u.
            needs (value_float a) ''eval: between requires numeric target'' (\<lambda>x.
            needs (value_float l) ''eval: between requires numeric lower bound'' (\<lambda>lo.
            needs (value_float u) ''eval: between requires numeric upper bound'' (\<lambda>hi.
              bool_value (lo \<le> x \<and> x \<le> hi)))))
      | OpChanged \<Rightarrow> eval_fail ''eval: unsupported operator''
      | OpIn \<Rightarrow> eval_fail ''eval: unsupported operator''
      | OpUnknown \<Rightarrow> eval_fail ''eval: unsupported operator''
      | _ \<Rightarrow>
          if op \<in> {OpAdd, OpSub, OpMul, OpDiv} then eval2 rs (eval_arithmetic op)
          else
            eval2 rs (\<lambda>l r.
              needs (value_float l) ''eval: ordering requires numeric left operand'' (\<lambda>x.
              needs (value_float r) ''eval: ordering requires numeric right operand'' (\<lambda>y.
                bool_value (compare_floats op x y)))))"

fun Evaluate :: "eval_env \<Rightarrow> expr \<Rightarrow> eval_error + val" where
  "Evaluate env (Expr op ref v args) =
     (if expr_is_zero (Expr op ref v args) then eval_fail ''eval: cannot evaluate empty expression''
      else evaluate_op env (classify_op op) ref v args (map (Evaluate env) args))"

declare Evaluate.simps [simp del]

definition EvaluateBool :: "eval_env \<Rightarrow> expr \<Rightarrow> eval_error + bool" where
  "EvaluateBool env e =
     sum_bind (Evaluate env e) (\<lambda>v. needs (value_bool v) ''eval: expected boolean result'' Inr)"

section \<open>No panic\<close>

definition no_panic :: "eval_error + 'a \<Rightarrow> bool" where
  "no_panic r \<longleftrightarrow> r \<noteq> Inl EvalPanic"

lemma no_panic_simps [simp, intro]:
  "no_panic (Inr a)" "no_panic (eval_fail msg)" "no_panic (eval_result r)" "no_panic (bool_value b)"
  "no_panic (float_value x)" "\<not> no_panic (Inl EvalPanic)"
  by (cases r; simp add: no_panic_def eval_fail_def eval_result_def)
    (simp_all add: no_panic_def eval_fail_def eval_result_def bool_value_def float_value_def map_sum_def
      split: sum.split)

lemma needs_no_panic [intro]: "(\<And>a. x = Some a \<Longrightarrow> no_panic (f a)) \<Longrightarrow> no_panic (needs x msg f)"
  by (cases x) (simp_all add: needs_def)

lemma sum_bind_no_panic [intro]:
  "no_panic x \<Longrightarrow> (\<And>a. x = Inr a \<Longrightarrow> no_panic (f a)) \<Longrightarrow> no_panic (sum_bind x f)"
  by (cases x) (simp_all add: no_panic_def)

lemma eval1_no_panic [intro]:
  "1 \<le> length rs \<Longrightarrow> list_all no_panic rs \<Longrightarrow> (\<And>a. no_panic (f a)) \<Longrightarrow> no_panic (eval1 rs f)"
  by (cases rs) (auto intro!: sum_bind_no_panic)

lemma eval2_no_panic [intro]:
  "2 \<le> length rs \<Longrightarrow> list_all no_panic rs \<Longrightarrow> (\<And>a b. no_panic (f a b)) \<Longrightarrow> no_panic (eval2 rs f)"
  by (cases rs) (auto intro!: sum_bind_no_panic eval1_no_panic)

lemma eval3_no_panic [intro]:
  "3 \<le> length rs \<Longrightarrow> list_all no_panic rs \<Longrightarrow> (\<And>a b c. no_panic (f a b c)) \<Longrightarrow> no_panic (eval3 rs f)"
  by (cases rs) (auto intro!: sum_bind_no_panic eval2_no_panic)

lemma eval_until_no_panic: "list_all no_panic rs \<Longrightarrow> no_panic (eval_until stop rs)"
  by (induction stop rs rule: eval_until.induct) (auto intro!: sum_bind_no_panic needs_no_panic)

lemma eval_arithmetic_no_panic: "no_panic (eval_arithmetic op l r)"
proof -
  have "no_panic (case op of OpAdd \<Rightarrow> float_value a | OpSub \<Rightarrow> float_value b | OpMul \<Rightarrow> float_value c
      | _ \<Rightarrow> if y = 0 then eval_fail msg else float_value d)" for a b c d msg and y :: rat
    by (simp split: expr_op.split)
  then show ?thesis by (auto simp: eval_arithmetic_def intro!: needs_no_panic)
qed

lemma evaluate_op_no_panic:
  assumes "op = OpUnknown \<or> arity_ok op (length args)" and "length rs = length args"
    and "list_all no_panic rs"
  shows "no_panic (evaluate_op env op ref v args rs)"
  using assms
  by (cases op)
    (auto simp: evaluate_op_def intro!: eval_until_no_panic eval_arithmetic_no_panic
      eval1_no_panic eval2_no_panic eval3_no_panic needs_no_panic split: list.split)

text \<open>The expressions that the evaluator survives: every node has the arguments it reads.\<close>

fun arities_ok :: "expr \<Rightarrow> bool" where
  "arities_ok (Expr op ref v args) \<longleftrightarrow>
     (classify_op op = OpUnknown \<or> arity_ok (classify_op op) (length args)) \<and> list_all arities_ok args"

lemma Evaluate_no_panic: "arities_ok e \<Longrightarrow> no_panic (Evaluate env e)"
proof (induction e)
  case (Expr op ref v args)
  then have "list_all no_panic (map (Evaluate env) args)" by (auto simp: list_all_iff)
  with Expr.prems show ?case by (simp add: Evaluate.simps evaluate_op_no_panic)
qed

lemma EvaluateBool_no_panic: "arities_ok e \<Longrightarrow> no_panic (EvaluateBool env e)"
  by (auto simp: EvaluateBool_def Evaluate_no_panic intro!: sum_bind_no_panic needs_no_panic)

lemma validate_arities: "expr_validate e = None \<Longrightarrow> arities_ok e"
proof (induction e)
  case (Expr op ref v args)
  show ?case
  proof (cases "expr_is_zero (Expr op ref v args)")
    case True
    then show ?thesis by (simp add: expr_is_zero_def)
  next
    case False
    have "classify_op op \<noteq> OpUnknown \<and> arity_ok (classify_op op) (length args) \<and>
        (\<forall>a \<in> set args. expr_validate a = None)"
      using Expr.prems False
      by (cases "classify_op op")
        (auto simp: expr_validate.simps checks_None first_err_None split: option.splits)
    with Expr.IH show ?thesis by (simp add: list_all_iff)
  qed
qed

text \<open>Putting an expression in canonical form does not change how many arguments a node has.\<close>

lemma normalized_arities: "normalize_expr enc e = Inr n \<Longrightarrow> arities_ok e"
proof (induction e arbitrary: n)
  case (Expr op ref v args)
  show ?case
  proof (cases "expr_is_zero (Expr op ref v args)")
    case True
    then show ?thesis by (simp add: expr_is_zero_def)
  next
    case False
    from normalize_expr_Inr [OF Expr.prems False] obtain v' args' where
      args': "list_all2 (\<lambda>x y. normalize_expr enc x = Inr y) args args'" and
      n: "n = Expr (op_key op) (TrimSpace ref) v'
        (if op_key op = ''and'' \<or> op_key op = ''or'' then sort_key enc args' else args')" and
      ok: "expr_validate n = None" .
    have "arities_ok a" if "a \<in> set args" for a
    proof -
      from that args' obtain y where "normalize_expr enc a = Inr y"
        by (auto simp: list_all2_conv_all_nth in_set_conv_nth)
      then show ?thesis by (rule Expr.IH [OF that])
    qed
    then have "list_all arities_ok args" by (simp add: list_all_iff)
    moreover have "length args' = length args" using args' by (simp add: list_all2_lengthD)
    moreover have "arities_ok n" by (rule validate_arities [OF ok])
    ultimately show ?thesis by (simp add: n split: if_splits)
  qed
qed

section \<open>Well-typed expressions\<close>

text \<open>A value can be read the way an operator of the type reads it.\<close>

definition number_like :: "type_ref \<Rightarrow> bool" where
  "number_like t \<longleftrightarrow> type_numeric t \<or> tr_kind t = TypeDuration"

definition value_fits :: "type_ref \<Rightarrow> val \<Rightarrow> bool" where
  "value_fits t v \<longleftrightarrow>
     (tr_kind t = TypeBool \<longrightarrow> value_bool v \<noteq> None) \<and>
     (number_like t \<longrightarrow> value_float v \<noteq> None) \<and>
     (tr_kind t = TypeString \<longleftrightarrow> tr_kind (v_type v) = TypeString)"

text \<open>What depends on the data and not on the types.\<close>

definition data_errors :: "go_error list" where
  "data_errors =
     [Error ''eval: reference not found in runtime environment'', Error ''eval: division by zero'',
      Error ''unsupported value: Inf'', Error ''value out of range'']"

definition evaluates_to :: "type_ref \<Rightarrow> eval_error + val \<Rightarrow> bool" where
  "evaluates_to t r \<longleftrightarrow>
     (case r of Inr v \<Rightarrow> value_fits t v | Inl EvalPanic \<Rightarrow> False | Inl (EvalError e) \<Rightarrow> e \<in> set data_errors)"

definition env_typed :: "type_env \<Rightarrow> eval_env \<Rightarrow> bool" where
  "env_typed tenv env \<longleftrightarrow>
     (\<forall>r v. env r = Some v \<longrightarrow> canonical v = Inr v \<and> (\<forall>t. tenv r = Some t \<longrightarrow> type_normalize t = Inr (v_type v)))"

fun canonical_literals :: "expr \<Rightarrow> bool" where
  "canonical_literals (Expr op ref v args) \<longleftrightarrow>
     (case v of None \<Rightarrow> True | Some x \<Rightarrow> canonical x = Inr x) \<and> list_all canonical_literals args"

text \<open>The evaluator has no \<open>changed\<close> and \<open>in\<close>, and it orders numbers only.\<close>

fun supported :: "type_env \<Rightarrow> expr \<Rightarrow> bool" where
  "supported tenv (Expr op ref v args) \<longleftrightarrow>
     classify_op op \<noteq> OpChanged \<and> classify_op op \<noteq> OpIn \<and>
     (classify_op op \<in> {OpGt, OpGte, OpLt, OpLte, OpBetween} \<longrightarrow>
        list_all (\<lambda>a. case check_expr tenv a of Inl _ \<Rightarrow> False | Inr t \<Rightarrow> number_like t) args) \<and>
     list_all (supported tenv) args"

lemma f64_round_int64:
  assumes "in_int64 n" shows "f64_round (of_int n) \<noteq> None"
proof (cases "n = 0")
  case True
  then show ?thesis by (simp add: f64_round_def)
next
  case False
  define r where "r = (of_int n :: rat)"
  define e where "e = f64_exponent r"
  have r0: "0 < \<bar>r\<bar>" using False by (simp add: r_def)
  have "\<bar>n\<bar> \<le> 2 ^ 63" using assms by (auto simp: in_int64_def)
  then have "(of_int \<bar>n\<bar> :: rat) \<le> of_int (2 ^ 63)" by (simp only: of_int_le_iff)
  then have "\<bar>r\<bar> < 2 powi 64" by (simp add: r_def power_int_def)
  with floor_log2_bounds(1) [OF r0] have "floor_log2 \<bar>r\<bar> < 64" by (intro powi_2_less) linarith
  then have e: "e \<le> 11" by (simp add: e_def f64_exponent_def)
  have "\<bar>r\<bar> < 2 powi (floor_log2 \<bar>r\<bar> + 1)" using floor_log2_bounds r0 by simp
  also have "\<dots> \<le> 2 powi (e + 53)" by (rule powi_2_mono) (simp add: e_def f64_exponent_def)
  also have "\<dots> = 2 ^ 53 * 2 powi e" by (simp add: power_int_add)
  finally have "\<bar>r / 2 powi e\<bar> \<le> of_int (2 ^ 53)" by (simp add: abs_divide divide_le_eq)
  then have "\<bar>round_half_even (r / 2 powi e)\<bar> \<le> 2 ^ 53" by (rule round_half_even_bound)
  then have "(of_int \<bar>round_half_even (r / 2 powi e)\<bar> :: rat) \<le> of_int (2 ^ 53)" by (simp only: of_int_le_iff)
  then have "of_int \<bar>round_half_even (r / 2 powi e)\<bar> * 2 powi e \<le> (2 ^ 53 :: rat) * 2 powi 11"
    using powi_2_mono [OF e] by (intro mult_mono) simp_all
  moreover have "(2 ^ 53 :: rat) * 2 powi 11 < 2 powi 1024"
    using powi_2_mono [of 65 1024] by (simp add: power_int_def)
  ultimately have "\<bar>of_int (round_half_even (r / 2 powi e)) * 2 powi e\<bar> < (2 powi 1024 :: rat)"
    by (simp add: abs_mult)
  then show ?thesis using False by (simp add: f64_round_def Let_def r_def e_def)
qed

lemma json_float_of_float: "f64_round x = Some x \<Longrightarrow> json_float (json_of_float x) = Some x"
  by (auto simp: json_of_float_def)

lemma canonical_fits:
  assumes "canonical v = Inr v" shows "value_fits (v_type v) v"
proof -
  obtain k u n e en el where t: "v_type v = TypeRef k u n e en el" by (cases "v_type v")
  from assms obtain d where d: "v_data v = Some d" and c: "canonical_data (v_type v) d = Inr d"
    by (cases v) (auto simp: canonical_def split: option.splits)
  have "value_bool v \<noteq> None" if "k = TypeBool"
    using c that by (auto simp: t d value_bool_def)
  moreover have "value_float v \<noteq> None" if "number_like (v_type v)"
  proof (cases "k = TypeInt \<or> k = TypeDuration")
    case True
    then obtain i where i: "Option.bind (json_number d) number_int64 = Some i" "d = JInt i"
      using c by (auto simp: t simp del: bind_eq_Some_conv)
    from json_int_range [OF i(1)] i(2) show ?thesis by (simp add: value_float_def d f64_round_int64)
  next
    case False
    with that have k: "k \<in> set float_kinds" by (auto simp: number_like_def type_numeric_def t float_kinds_def)
    with c obtain x where x: "Option.bind (json_number d) number_float64 = Some x" "d = json_of_float x"
      by (cases k) (auto simp: t float_kinds_def split: option.splits)
    from json_float_of_float [OF number_float64_rounded [OF x(1)]] show ?thesis
      by (simp add: value_float_def d x(2))
  qed
  ultimately show ?thesis by (simp add: value_fits_def t)
qed

lemma bool_value: "bool_value b = Inr (Value bool_type (Some (JBool b)))"
  by (simp add: bool_value_def eval_result_def ValueOf_def NewTypedValue_def plain_type_normal canonical_def
      or_type_error_def del: type_normalize.simps)

lemma evaluates_bool: "evaluates_to bool_type (bool_value b)"
  by (simp add: evaluates_to_def bool_value value_fits_def value_bool_def number_like_def type_numeric_def)

lemma evaluates_text: "evaluates_to (plain_type TypeString) (eval_result (ValueOf (JStr s)))"
proof -
  have "eval_result (ValueOf (JStr s)) = Inr (Value (plain_type TypeString) (Some (JStr s)))"
    by (simp add: eval_result_def ValueOf_def NewTypedValue_def plain_type_normal canonical_def
        or_type_error_def del: type_normalize.simps)
  then show ?thesis by (simp add: evaluates_to_def value_fits_def number_like_def type_numeric_def)
qed

lemma evaluates_float:
  assumes "tr_kind t \<noteq> TypeBool" and "tr_kind t \<noteq> TypeString"
  shows "evaluates_to t (float_value (f64_round x))"
proof (cases "f64_round x")
  case None
  then show ?thesis by (simp add: evaluates_to_def float_value_def finite_or_def eval_result_def data_errors_def)
next
  case (Some r)
  then have r: "f64_round r = Some r" by (rule f64_round_idem)
  show ?thesis
  proof (cases "json_of_float r")
    case (JInt n)
    show ?thesis
    proof (cases "in_int64 n")
      case True
      then have "float_value (f64_round x) = Inr (Value (plain_type TypeInt) (Some (JInt n)))"
        using Some JInt
        by (simp add: float_value_def finite_or_def eval_result_def ValueOf_def NewTypedValue_def
            plain_type_normal canonical_def or_type_error_def del: type_normalize.simps)
      with True assms show ?thesis
        by (simp add: evaluates_to_def value_fits_def value_float_def f64_round_int64)
    next
      case False
      then show ?thesis using Some JInt
        by (simp add: float_value_def finite_or_def eval_result_def ValueOf_def evaluates_to_def data_errors_def)
    qed
  next
    case (JFrac q)
    then have q: "q = r" by (auto simp: json_of_float_def split: if_splits)
    have "float_value (f64_round x) = Inr (Value (plain_type TypeFloat) (Some (json_of_float r)))"
      using Some JFrac r q
      by (simp add: float_value_def finite_or_def eval_result_def ValueOf_def NewTypedValue_def
          plain_type_normal canonical_def float_checks_def fails_if_def guarded_def del: type_normalize.simps)
    with assms json_float_of_float [OF r] show ?thesis
      by (simp add: evaluates_to_def value_fits_def value_float_def)
  qed (auto simp: json_of_float_def split: if_splits)
qed

lemma evaluates_needs:
  "x \<noteq> None \<Longrightarrow> (\<And>a. x = Some a \<Longrightarrow> evaluates_to t (f a)) \<Longrightarrow> evaluates_to t (needs x msg f)"
  by (auto simp: needs_def)

lemma evaluates_bind:
  "evaluates_to s x \<Longrightarrow> (\<And>a. x = Inr a \<Longrightarrow> value_fits s a \<Longrightarrow> evaluates_to t (f a)) \<Longrightarrow>
   evaluates_to t (sum_bind x f)"
  by (cases x) (auto simp: evaluates_to_def)

lemma evaluates_arithmetic:
  assumes "arithmetic_result op l r = Inr t" and "op \<in> {OpAdd, OpSub, OpMul, OpDiv}"
    and "value_fits l v" and "value_fits r w"
  shows "evaluates_to t (eval_arithmetic op v w)"
proof (cases "op = OpAdd \<and> tr_kind l = TypeString \<and> tr_kind r = TypeString")
  case True
  with assms show ?thesis
    by (auto simp: arithmetic_result_def eval_arithmetic_def value_fits_def evaluates_text)
next
  case False
  then have no_text: "\<not> (op = OpAdd \<and> tr_kind l = TypeString \<and> tr_kind r = TypeString)" .
  have num: "type_numeric l \<and> type_numeric r"
  proof (rule ccontr)
    assume "\<not> ?thesis"
    with assms(1) no_text show False by (simp add: arithmetic_result_def Let_def split: if_splits)
  qed
  have "t = plain_type TypeFloat \<or> t = plain_type TypeInt \<or> t = l"
    using assms(1) no_text num by (simp add: arithmetic_result_def Let_def split: if_splits)
  moreover have numeric: "tr_kind x \<noteq> TypeBool" "tr_kind x \<noteq> TypeString" if "type_numeric x" for x
    using that by (auto simp: type_numeric_def)
  ultimately have t: "tr_kind t \<noteq> TypeBool" "tr_kind t \<noteq> TypeString" using num by auto
  have "tr_kind (v_type v) \<noteq> TypeString" "value_float v \<noteq> None" "value_float w \<noteq> None"
    using num assms(3,4) numeric by (simp_all add: value_fits_def number_like_def del: not_None_eq)
  moreover have "evaluates_to t (eval_fail ''eval: division by zero'')"
    by (simp add: evaluates_to_def eval_fail_def data_errors_def)
  moreover have "evaluates_to t (case op of OpAdd \<Rightarrow> float_value (f64_round (x + y))
      | OpSub \<Rightarrow> float_value (f64_round (x - y)) | OpMul \<Rightarrow> float_value (f64_round (x * y))
      | _ \<Rightarrow> if y = 0 then eval_fail ''eval: division by zero'' else float_value (f64_round (x / y)))" for x y
    using evaluates_float [OF t] calculation(4) by (simp split: expr_op.split)
  ultimately show ?thesis
    unfolding eval_arithmetic_def by (simp del: not_None_eq add: evaluates_needs)
qed

lemma evaluates_until:
  assumes "\<And>r. r \<in> set rs \<Longrightarrow> \<exists>t. tr_kind t = TypeBool \<and> evaluates_to t r"
  shows "evaluates_to bool_type (sum_bind (eval_until stop rs) bool_value)"
  using assms
proof (induction rs)
  case Nil
  then show ?case by (simp add: evaluates_bool)
next
  case (Cons r rs)
  from Cons.prems obtain t where t: "tr_kind t = TypeBool" "evaluates_to t r" by auto
  show ?case
  proof (cases r)
    case (Inl e)
    then show ?thesis using t(2) by (cases e) (simp_all add: evaluates_to_def)
  next
    case (Inr v)
    then obtain b where b: "value_bool v = Some b" using t by (auto simp: evaluates_to_def value_fits_def)
    have "evaluates_to bool_type (sum_bind (eval_until stop rs) bool_value)"
      by (rule Cons.IH) (simp add: Cons.prems)
    then show ?thesis using Inr b by (cases "b = stop") (simp_all add: needs_def evaluates_bool)
  qed
qed

lemma evaluates_fail_ref: "evaluates_to t (needs None ''eval: reference not found in runtime environment'' f)"
  by (simp add: evaluates_to_def needs_def eval_fail_def data_errors_def)

definition args_typed :: "(go_error + type_ref) list \<Rightarrow> (eval_error + val) list \<Rightarrow> bool" where
  "args_typed ts rs \<longleftrightarrow> list_all2 (\<lambda>ct r. \<exists>s. ct = Inr s \<and> evaluates_to s r) ts rs"

lemma args_typed_Cons:
  assumes "args_typed (Inr a # ts) rs"
  obtains r rs' where "rs = r # rs'" and "evaluates_to a r" and "args_typed ts rs'"
  using assms by (auto simp: args_typed_def list_all2_Cons1)

lemma evaluates_eval1:
  assumes "args_typed (Inr a # ts) rs" and "\<And>x. value_fits a x \<Longrightarrow> evaluates_to t (f x)"
  shows "evaluates_to t (eval1 rs f)"
  using assms(1) by (rule args_typed_Cons) (auto intro!: evaluates_bind assms(2))

lemma evaluates_eval2:
  assumes "args_typed (Inr a # Inr b # ts) rs"
    and "\<And>x y. value_fits a x \<Longrightarrow> value_fits b y \<Longrightarrow> evaluates_to t (f x y)"
  shows "evaluates_to t (eval2 rs f)"
  using assms(1) by (rule args_typed_Cons) (auto intro!: evaluates_bind evaluates_eval1 assms(2))

lemma evaluates_eval3:
  assumes "args_typed (Inr a # Inr b # Inr c # ts) rs"
    and "\<And>x y z. value_fits a x \<Longrightarrow> value_fits b y \<Longrightarrow> value_fits c z \<Longrightarrow> evaluates_to t (f x y z)"
  shows "evaluates_to t (eval3 rs f)"
  using assms(1) by (rule args_typed_Cons) (auto intro!: evaluates_bind evaluates_eval2 assms(2))

lemma evaluates_op_leaf:
  assumes "check_op tenv op ref v args ts = Inr t" and "env_typed tenv env"
    and "\<And>x. v = Some x \<Longrightarrow> canonical x = Inr x" and "op = OpLiteral \<or> op = OpRef"
  shows "evaluates_to t (evaluate_op env op ref v args rs)"
proof (cases "op = OpLiteral")
  case True
  with assms(1) obtain x w where x: "v = Some x" "canonical x = Inr w" "t = v_type w"
    by (auto simp: check_op_def split: option.splits)
  with assms(3) have "w = x" by simp
  with x assms(3) True show ?thesis
    by (simp add: evaluate_op_def needs_def evaluates_to_def canonical_fits)
next
  case False
  with assms(4) have op: "op = OpRef" by simp
  with assms(1) obtain ty where ty: "tenv (TrimSpace ref) = Some ty" "type_normalize ty = Inr t"
    by (auto simp: check_op_def split: option.splits)
  show ?thesis
  proof (cases "env (TrimSpace ref)")
    case None
    then show ?thesis by (simp add: op evaluate_op_def evaluates_fail_ref)
  next
    case (Some x)
    with assms(2) ty have "canonical x = Inr x" "t = v_type x" by (auto simp: env_typed_def)
    then show ?thesis by (simp add: op evaluate_op_def Some needs_def evaluates_to_def canonical_fits)
  qed
qed

lemma evaluates_op_logic:
  assumes "check_op tenv op ref v args ts = Inr t" and "args_typed ts rs" and "length ts = length args"
    and "op \<in> {OpNot, OpExists, OpMissing, OpAnd, OpOr, OpEq, OpNe}"
  shows "evaluates_to t (evaluate_op env op ref v args rs)"
proof -
  have bools: "\<exists>s. tr_kind s = TypeBool \<and> evaluates_to s r" if "first_err needs_bool ts = None" "r \<in> set rs" for r
  proof -
    from that(2) obtain i where i: "i < length rs" "r = rs ! i" by (auto simp: in_set_conv_nth)
    with assms(2) obtain s where "ts ! i = Inr s" "evaluates_to s r" "i < length ts"
      by (auto simp: args_typed_def list_all2_conv_all_nth)
    moreover have "needs_bool (ts ! i) = None"
      using that(1) nth_mem [OF \<open>i < length ts\<close>] unfolding first_err_None by blast
    ultimately show ?thesis by (auto simp: needs_bool_None)
  qed
  from assms(4) consider "op = OpNot" | "op = OpExists" | "op = OpMissing" | "op = OpAnd" | "op = OpOr"
    | "op = OpEq" | "op = OpNe" by auto
  then show ?thesis
  proof cases
    case 1
    with assms(1) obtain a rest where "ts = Inr a # rest" "tr_kind a = TypeBool" and t: "t = bool_type"
      by (auto simp: check_op_def arg_Inr needs_bool_None)
    with assms(2) 1 show ?thesis
      by (auto simp: evaluate_op_def value_fits_def evaluates_bool intro!: evaluates_eval1 evaluates_needs)
  next
    case 2
    with assms(1,3) show ?thesis
      by (auto simp: check_op_def arg_Inr evaluate_op_def evaluates_bool split: list.splits)
  next
    case 3
    with assms(1,3) show ?thesis
      by (auto simp: check_op_def arg_Inr evaluate_op_def evaluates_bool split: list.splits)
  next
    case 4
    with assms(1) have "first_err needs_bool ts = None" "t = bool_type" by (auto simp: check_op_def)
    with 4 bools show ?thesis by (simp add: evaluate_op_def evaluates_until)
  next
    case 5
    with assms(1) have "first_err needs_bool ts = None" "t = bool_type" by (auto simp: check_op_def)
    with 5 bools show ?thesis by (simp add: evaluate_op_def evaluates_until)
  next
    case 6
    with assms(1) obtain a b rest where ts: "ts = Inr a # Inr b # rest" and t: "t = bool_type"
      by (auto simp: check_op_def arg_Inr)
    show ?thesis unfolding 6 t evaluate_op_def expr_op.case
      using assms(2) [unfolded ts] by (rule evaluates_eval2) (rule evaluates_bool)
  next
    case 7
    with assms(1) obtain a b rest where ts: "ts = Inr a # Inr b # rest" and t: "t = bool_type"
      by (auto simp: check_op_def arg_Inr)
    show ?thesis unfolding 7 t evaluate_op_def expr_op.case
      using assms(2) [unfolded ts] by (rule evaluates_eval2) (rule evaluates_bool)
  qed
qed

lemma evaluates_op_number:
  assumes "check_op tenv op ref v args ts = Inr t" and "args_typed ts rs"
    and "op \<in> {OpGt, OpGte, OpLt, OpLte, OpBetween} \<Longrightarrow> (\<And>s. Inr s \<in> set ts \<Longrightarrow> number_like s)"
    and "op \<in> {OpGt, OpGte, OpLt, OpLte, OpBetween, OpAdd, OpSub, OpMul, OpDiv}"
  shows "evaluates_to t (evaluate_op env op ref v args rs)"
proof -
  have number: "value_float x \<noteq> None" if "value_fits s x" "number_like s" for s x
    using that by (simp add: value_fits_def)
  from assms(4) consider (order) "op \<in> {OpGt, OpGte, OpLt, OpLte}" | (between) "op = OpBetween"
    | (arith) "op \<in> {OpAdd, OpSub, OpMul, OpDiv}" by blast
  then show ?thesis
  proof cases
    case order
    then have "\<exists>a b rest. ts = Inr a # Inr b # rest \<and> t = bool_type"
      using assms(1) by (elim insertE emptyE) (auto simp: check_op_def arg_Inr)
    then obtain a b rest where ts: "ts = Inr a # Inr b # rest" and t: "t = bool_type" by blast
    have num: "number_like a" "number_like b" using assms(3) order by (auto simp: ts)
    have "evaluates_to bool_type (eval2 rs (\<lambda>l r.
        needs (value_float l) ''eval: ordering requires numeric left operand'' (\<lambda>x.
        needs (value_float r) ''eval: ordering requires numeric right operand'' (\<lambda>y.
          bool_value (compare_floats op x y)))))"
      using assms(2) [unfolded ts]
      by (rule evaluates_eval2) (intro evaluates_needs number [OF _ num(1)] number [OF _ num(2)] evaluates_bool)
    then show ?thesis unfolding t using order by (elim insertE emptyE) (simp_all add: evaluate_op_def)
  next
    case between
    with assms(1) obtain a b c rest where ts: "ts = Inr a # Inr b # Inr c # rest" and t: "t = bool_type"
      by (auto simp: check_op_def arg_Inr)
    have num: "number_like a" "number_like b" "number_like c" using assms(3) between by (auto simp: ts)
    show ?thesis unfolding between t evaluate_op_def expr_op.case
      using assms(2) [unfolded ts]
      by (rule evaluates_eval3)
        (intro evaluates_needs number [OF _ num(1)] number [OF _ num(2)] number [OF _ num(3)] evaluates_bool)
  next
    case arith
    then have "\<exists>a b rest. ts = Inr a # Inr b # rest \<and> arithmetic_result op a b = Inr t"
      using assms(1) by (elim insertE emptyE) (auto simp: check_op_def arg_Inr)
    then obtain a b rest where ts: "ts = Inr a # Inr b # rest" and r: "arithmetic_result op a b = Inr t" by blast
    have "evaluates_to t (eval2 rs (eval_arithmetic op))"
      using assms(2) [unfolded ts] by (rule evaluates_eval2) (rule evaluates_arithmetic [OF r arith])
    then show ?thesis using arith by (elim insertE emptyE) (simp_all add: evaluate_op_def)
  qed
qed

lemma Evaluate_typed:
  assumes "check_expr tenv e = Inr t" and "canonical_literals e" and "supported tenv e" and "env_typed tenv env"
  shows "evaluates_to t (Evaluate env e)"
  using assms(1-3)
proof (induction e arbitrary: t)
  case (Expr op ref v args)
  let ?ts = "map (check_expr tenv) args" and ?rs = "map (Evaluate env) args"
  from Expr.prems(1) have c: "check_op tenv (classify_op op) ref v args ?ts = Inr t"
    by (simp add: check_expr_Inr)
  have lit: "canonical x = Inr x" if "v = Some x" for x using Expr.prems(2) that by simp
  have "\<exists>s. check_expr tenv a = Inr s \<and> evaluates_to s (Evaluate env a)" if "a \<in> set args" for a
  proof -
    from check_arg_types [OF Expr.prems(1) that] obtain s where s: "check_expr tenv a = Inr s" by blast
    have "canonical_literals a" "supported tenv a" using Expr.prems(2,3) that by (auto simp: list_all_iff)
    from Expr.IH [OF that s this] s show ?thesis by blast
  qed
  then have args: "args_typed ?ts ?rs" by (auto simp: args_typed_def list_all2_conv_all_nth)
  have num: "number_like s" if "classify_op op \<in> {OpGt, OpGte, OpLt, OpLte, OpBetween}" "Inr s \<in> set ?ts" for s
  proof -
    from that(2) obtain a where a: "a \<in> set args" "check_expr tenv a = Inr s" by (metis imageE list.set_map)
    from Expr.prems(3) that(1) have "list_all (\<lambda>a. case check_expr tenv a of Inl _ \<Rightarrow> False | Inr t \<Rightarrow> number_like t) args"
      unfolding supported.simps by blast
    with a show ?thesis by (auto simp: list_all_iff)
  qed
  have nz: "\<not> expr_is_zero (Expr op ref v args)" by (rule typed_nonzero [OF Expr.prems(1)])
  have "classify_op op \<notin> {OpChanged, OpIn, OpUnknown}"
    using Expr.prems(3) typed_known_op [OF Expr.prems(1)] by simp
  then consider "classify_op op = OpLiteral \<or> classify_op op = OpRef"
    | "classify_op op \<in> {OpNot, OpExists, OpMissing, OpAnd, OpOr, OpEq, OpNe}"
    | "classify_op op \<in> {OpGt, OpGte, OpLt, OpLte, OpBetween, OpAdd, OpSub, OpMul, OpDiv}"
    by (cases "classify_op op") simp_all
  then have "evaluates_to t (evaluate_op env (classify_op op) ref v args ?rs)"
  proof cases
    case 1
    show ?thesis by (rule evaluates_op_leaf [OF c assms(4) _ 1]) (rule lit)
  next
    case 2
    with evaluates_op_logic [OF c args] show ?thesis by simp
  next
    case 3
    with evaluates_op_number [OF c args num] show ?thesis by blast
  qed
  with nz show ?case by (simp add: Evaluate.simps)
qed

text \<open>
  C33. Well-typed expressions evaluate: an expression that the type checker accepts, with canonical
  literals, evaluates to a value that can be read as its type says, and a condition to a truth
  value. It fails only for a reference that has no value, a division by zero or a number out of
  range. It must not use \<open>changed\<close> or \<open>in\<close> or order other values than numbers: these the
  checker accepts and the evaluator does not have.
\<close>

theorem typed_expression_evaluates:
  assumes "check_expr tenv e = Inr t" and "canonical_literals e" and "supported tenv e" and "env_typed tenv env"
  shows "case Evaluate env e of
      Inr v \<Rightarrow> value_fits t v \<and> (tr_kind t = TypeBool \<longrightarrow> (\<exists>b. EvaluateBool env e = Inr b))
    | Inl err \<Rightarrow> err \<in> EvalError ` set data_errors"
proof (cases "Evaluate env e")
  case (Inl err)
  with Evaluate_typed [OF assms] show ?thesis by (cases err) (simp_all add: evaluates_to_def)
next
  case (Inr v)
  with Evaluate_typed [OF assms] show ?thesis
    by (auto simp: evaluates_to_def value_fits_def EvaluateBool_def needs_def split: option.split)
qed

definition warm_condition :: expr where
  "warm_condition =
     Expr ''and'' [] None
       [Expr ''gt'' [] None [Ref ''temp'', Literal (Value (plain_type TypeInt) (Some (JInt 20)))],
        Expr ''exists'' [] None [Ref ''temp'']]"

theorem typed_expression_evaluates_witness:
  "\<exists>b. EvaluateBool [''temp'' \<mapsto> Value (plain_type TypeInt) (Some (JInt 25))] warm_condition = Inr b"
proof -
  let ?tenv = "[''temp'' \<mapsto> plain_type TypeInt]"
  let ?env = "[''temp'' \<mapsto> Value (plain_type TypeInt) (Some (JInt 25))]"
  have c: "check_expr ?tenv warm_condition = Inr bool_type" by code_simp
  have l: "canonical_literals warm_condition" by code_simp
  have s: "supported ?tenv warm_condition" by code_simp
  have e: "env_typed ?tenv ?env"
    by (auto simp: env_typed_def canonical_def plain_type_normal or_type_error_def in_int64_def
        simp del: type_normalize.simps split: if_splits)
  have f: "f64_round 25 = Some 25" "f64_round 20 = Some 20"
    using f64_round_int [of 25] f64_round_int [of 20] by simp_all
  have ops: "classify_op ''and'' = OpAnd" "classify_op ''gt'' = OpGt" "classify_op ''exists'' = OpExists"
    "classify_op ''ref'' = OpRef" "classify_op ''literal'' = OpLiteral" "TrimSpace ''temp'' = ''temp''" by code_simp+
  have "Evaluate ?env warm_condition = Inr (Value bool_type (Some (JBool True)))"
    by (simp add: warm_condition_def Ref_def Literal_def Evaluate.simps expr_is_zero_def ops evaluate_op_def needs_def
        bool_value value_bool_def value_float_def compare_floats_def f)
  with typed_expression_evaluates [OF c l s e] show ?thesis by simp
qed

end
