(* ===== verification/Simulator.thy ===== *)
theory Simulator
  imports Evaluation Compilation
begin

text \<open>
  The dry run of a scenario, \<open>simulator/simulator.go\<close>, \<open>simulator/model.go\<close> and the virtual clock,
  \<open>simulator/clock.go\<close>.

  A run works on the scenario as it was handed in, after asking the compiler for errors. \<^const>\<open>None\<close>
  is a panic: a payload that is missing or an expression that lacks arguments. The maps of the
  context are association lists in the order in which a loop over the map sees the entries.
  The clock is the number of nanoseconds since 1970; no time is the zero \<open>time.Time\<close>. The texts
  that explain a trace entry are left out.
\<close>

section \<open>Data\<close>

datatype simulation_mode = ModePure | ModeHistorical | ModeWhatIf | ModeShadow

record hypothetical_effect =
  he_capability :: string
  he_resource :: string
  he_risk :: risk_level
  he_arguments :: "(string \<times> json) list"
  he_action :: string
  he_time :: int

record trace_step =
  tr_step :: string
  tr_name :: string
  tr_system :: bool
  tr_outcome :: string
  tr_inputs :: "(string \<times> json) list"
  tr_time :: int

record simulation_context =
  sx_mode :: simulation_mode
  sx_trigger :: "(string \<times> val) list"
  sx_home :: "(string \<times> val) list"
  sx_approvals :: "(string \<times> bool) list"
  sx_time :: "int option"
  sx_timezone :: string

datatype simulation_error =
    CompileError diagnostics
  | ConditionError go_error
  | IfConditionError string go_error

record simulation_result =
  res_scenario :: string
  res_revision :: string
  res_mode :: simulation_mode
  res_passed :: bool
  res_start :: "int option"
  res_end :: "int option"
  res_duration :: int
  res_traces :: "trace_step list"
  res_effects :: "hypothetical_effect list"
  res_outcome :: string
  res_errors :: "simulation_error list"

text \<open>What a run changes: the clock and the lists of the result.\<close>

record run_state =
  rn_clock :: int
  rn_traces :: "trace_step list"
  rn_effects :: "hypothetical_effect list"
  rn_errors :: "simulation_error list"
  rn_outcome :: string

section \<open>The virtual clock\<close>

text \<open>25 August 2026, noon.\<close>

definition default_time :: int where
  "default_time = 1787659200 * 10 ^ 9"

definition NewVirtualClock :: "int option \<Rightarrow> int" where
  "NewVirtualClock start = (case start of None \<Rightarrow> default_time | Some t \<Rightarrow> t)"

definition Advance :: "int \<Rightarrow> run_state \<Rightarrow> run_state" where
  "Advance d st = st\<lparr>rn_clock := rn_clock st + d\<rparr>"

text \<open>\<open>Time.Sub\<close> saturates.\<close>

definition time_sub :: "int \<Rightarrow> int \<Rightarrow> int" where
  "time_sub a b = max (- (2 ^ 63)) (min (2 ^ 63 - 1) (a - b))"

section \<open>Steps\<close>

definition record_trace ::
    "string \<Rightarrow> string \<Rightarrow> bool \<Rightarrow> string \<Rightarrow> (string \<times> json) list \<Rightarrow> run_state \<Rightarrow> run_state" where
  "record_trace i name system outcome inputs st =
     st\<lparr>rn_traces := rn_traces st @
       [\<lparr> tr_step = i, tr_name = name, tr_system = system, tr_outcome = outcome, tr_inputs = inputs,
          tr_time = rn_clock st \<rparr>]\<rparr>"

definition approval :: "simulation_context \<Rightarrow> string \<Rightarrow> bool" where
  "approval cx i = (case map_of (sx_approvals cx) i of None \<Rightarrow> True | Some b \<Rightarrow> b)"

definition sim_unlock :: "string \<Rightarrow> bool" where
  "sim_unlock cap \<longleftrightarrow> contains_str (ToLower cap) ''unlock''"

definition sim_siren :: "string \<Rightarrow> bool" where
  "sim_siren cap \<longleftrightarrow> contains_str (ToLower cap) ''siren''"

text \<open>\<open>json.Unmarshal\<close> into an \<open>any\<close>: numbers become \<open>float64\<close>, what does not fit stays \<open>nil\<close>.\<close>

fun decode_any :: "json \<Rightarrow> json" where
  "decode_any (JInt n) = (case f64_round (of_int n) of None \<Rightarrow> JNull | Some x \<Rightarrow> json_of_float x)"
| "decode_any (JFrac r) = (case f64_round r of None \<Rightarrow> JNull | Some x \<Rightarrow> json_of_float x)"
| "decode_any (JArr xs) = JArr (map decode_any xs)"
| "decode_any (JObj fs) = JObj (map (\<lambda>(k, x). (k, decode_any x)) fs)"
| "decode_any j = j"

definition input_value :: "val \<Rightarrow> json" where
  "input_value v = (case v_data v of None \<Rightarrow> JNull | Some d \<Rightarrow> decode_any d)"

text \<open>An argument that does not evaluate is left out.\<close>

fun action_inputs :: "eval_env \<Rightarrow> arguments \<Rightarrow> (string \<times> json) list option" where
  "action_inputs env [] = Some []"
| "action_inputs env ((k, e) # rest) =
     (case Evaluate env e of
        Inl EvalPanic \<Rightarrow> None
      | Inl (EvalError _) \<Rightarrow> action_inputs env rest
      | Inr v \<Rightarrow> map_option (\<lambda>xs. (k, input_value v) # xs) (action_inputs env rest))"

definition run_effect :: "capability_ref \<Rightarrow> (string \<times> json) list \<Rightarrow> run_state \<Rightarrow> run_state" where
  "run_effect c inputs st =
     st\<lparr>rn_effects := rn_effects st @
       [\<lparr> he_capability = cr_id c,
          he_resource = (case cr_entity c of None \<Rightarrow> [] | Some e \<Rightarrow> er_kind e @ '':'' @ er_id e),
          he_risk =
            (if sim_unlock (cr_id c) then RiskCritical else if sim_siren (cr_id c) then RiskHigh else RiskLow),
          he_arguments = inputs, he_action = ''WOULD_EXECUTE'', he_time = rn_clock st \<rparr>]\<rparr>"

text \<open>The result tells whether the flow goes on.\<close>

definition run_action ::
    "simulation_context \<Rightarrow> eval_env \<Rightarrow> string \<Rightarrow> action_step \<Rightarrow> run_state \<Rightarrow> (bool \<times> run_state) option" where
  "run_action cx env i a st =
     (let c = ac_capability a; unlock = sim_unlock (cr_id c) in
      if unlock \<and> \<not> approval cx i then
        Some (False,
          (record_trace (''safety_approval_'' @ i) ''human_approval'' True ''REJECTED'' [] st)
            \<lparr>rn_outcome := ''APPROVAL_REJECTED''\<rparr>)
      else
        (let st1 =
           (if unlock then record_trace (''safety_approval_'' @ i) ''human_approval'' True ''APPROVED'' [] st
            else st) in
         case action_inputs env (ac_arguments a) of
           None \<Rightarrow> None
         | Some inputs \<Rightarrow>
             Some (True, record_trace i ''action'' False ''WOULD_EXECUTE'' inputs (run_effect c inputs st1))))"

fun stop_text :: "stop_outcome \<Rightarrow> string" where
  "stop_text StopCompleted = ''completed''"
| "stop_text StopCanceled = ''canceled''"
| "stop_text StopRejected = ''rejected''"
| "stop_text (StopOther s) = s"

definition run_simple ::
    "simulation_context \<Rightarrow> eval_env \<Rightarrow> step \<Rightarrow> run_state \<Rightarrow> (bool \<times> run_state) option" where
  "run_simple cx env s st =
     (case st_kind s of
        StepAction \<Rightarrow>
          (case st_action s of None \<Rightarrow> None | Some a \<Rightarrow> run_action cx env (step_id s) a st)
      | StepWait \<Rightarrow>
          (case st_wait s of
             None \<Rightarrow> None
           | Some w \<Rightarrow>
               Some (True, record_trace (step_id s) ''wait'' False ''WAITED'' [] (Advance (wt_duration w) st)))
      | StepHumanApproval \<Rightarrow>
          if approval cx (step_id s) then
            (case st_human s of
               None \<Rightarrow> None
             | Some _ \<Rightarrow> Some (True, record_trace (step_id s) ''human_approval'' False ''APPROVED'' [] st))
          else
            (case st_human s of
               None \<Rightarrow> None
             | Some _ \<Rightarrow>
                 Some (False,
                   (record_trace (step_id s) ''human_approval'' False ''REJECTED'' [] st)
                     \<lparr>rn_outcome := ''APPROVAL_REJECTED''\<rparr>))
      | StepStop \<Rightarrow>
          (case st_stop s of
             None \<Rightarrow> None
           | Some out \<Rightarrow> Some (False, record_trace (step_id s) ''stop'' False (stop_text out) [] st))
      | _ \<Rightarrow> Some (True, st))"

function executeFlow ::
    "simulation_context \<Rightarrow> eval_env \<Rightarrow> step list \<Rightarrow> run_state \<Rightarrow> (bool \<times> run_state) option" where
  "executeFlow cx env [] st = Some (True, st)"
| "executeFlow cx env (s # rest) st =
     (case
        (if st_kind s \<noteq> StepIf then run_simple cx env s st
         else
           (case st_if s of
              None \<Rightarrow> None
            | Some (IfStep c yes no) \<Rightarrow>
                (case EvaluateBool env c of
                   Inl EvalPanic \<Rightarrow> None
                 | Inl (EvalError e) \<Rightarrow>
                     Some (False, st\<lparr>rn_errors := rn_errors st @ [IfConditionError (step_id s) e]\<rparr>)
                 | Inr b \<Rightarrow>
                     if b then
                       executeFlow cx env (flow_steps yes)
                         (record_trace (step_id s) ''if'' False ''BRANCH_THEN'' [] st)
                     else
                       (case no of
                          None \<Rightarrow> Some (True, st)
                        | Some f \<Rightarrow>
                            executeFlow cx env (flow_steps f)
                              (record_trace (step_id s) ''if'' False ''BRANCH_ELSE'' [] st))))) of
        None \<Rightarrow> None
      | Some (go_on, st') \<Rightarrow> if go_on then executeFlow cx env rest st' else Some (False, st'))"
  by pat_completeness auto
termination
proof (relation "measure (\<lambda>(cx, env, ss, st). size_list size ss)", simp_all)
  have flow: "size_list size (flow_steps f) < size f" for f by (cases f) simp
  show "size_list size (flow_steps yes) < Suc (size s + size_list size rest)"
    if "st_if s = Some (IfStep c yes no)" for s :: step and rest c yes no
    using if_children_smaller [OF that] flow [of yes] by linarith
  show "size_list size (flow_steps f) < Suc (size s + size_list size rest)"
    if "st_if s = Some (IfStep c yes (Some f))" for s :: step and rest c yes f
    using if_children_smaller [OF that] flow [of f] by fastforce
qed

declare executeFlow.simps [simp del]

section \<open>A run\<close>

definition simulation_env :: "scenario \<Rightarrow> simulation_context \<Rightarrow> eval_env" where
  "simulation_env s cx =
     fold (\<lambda>p env. case pa_default p of None \<Rightarrow> env | Some v \<Rightarrow> env(''parameter.'' @ pa_id p \<mapsto> v))
       (scn_parameters s)
       (fold (\<lambda>(k, v) env. env(''trigger.'' @ k \<mapsto> v)) (sx_trigger cx)
         (fold (\<lambda>(k, v) env. env(k \<mapsto> v, ''state.'' @ k \<mapsto> v)) (sx_home cx) Map.empty))"

fun match_triggers :: "eval_env \<Rightarrow> trigger list \<Rightarrow> run_state \<Rightarrow> (bool \<times> run_state) option" where
  "match_triggers env [] st = Some (False, st)"
| "match_triggers env (t # ts) st =
     (if expr_is_zero (tg_filter t) then Some (True, record_trace (tg_id t) ''trigger'' False ''MATCH'' [] st)
      else
        (case EvaluateBool env (tg_filter t) of
           Inl EvalPanic \<Rightarrow> None
         | Inl (EvalError _) \<Rightarrow>
             match_triggers env ts (record_trace (tg_id t) ''trigger_filter'' False ''ERROR'' [] st)
         | Inr b \<Rightarrow>
             if b then Some (True, record_trace (tg_id t) ''trigger'' False ''MATCH'' [] st)
             else match_triggers env ts
                    (record_trace (tg_id t) ''trigger_filter'' False ''FILTER_MISMATCH'' [] st)))"

definition finish ::
    "scenario \<Rightarrow> simulation_context \<Rightarrow> int \<Rightarrow> bool \<Rightarrow> int option \<Rightarrow> run_state \<Rightarrow> simulation_result" where
  "finish s cx start ok end_time st =
     \<lparr> res_scenario = scn_id s, res_revision = scn_revision s, res_mode = sx_mode cx, res_passed = ok,
       res_start = Some start, res_end = end_time,
       res_duration = (case end_time of None \<Rightarrow> 0 | Some t \<Rightarrow> time_sub t start),
       res_traces = rn_traces st, res_effects = rn_effects st, res_outcome = rn_outcome st,
       res_errors = rn_errors st \<rparr>"

definition run_flow ::
    "scenario \<Rightarrow> simulation_context \<Rightarrow> eval_env \<Rightarrow> int \<Rightarrow> run_state \<Rightarrow> (simulation_result \<times> int) option" where
  "run_flow s cx env start st =
     (case executeFlow cx env (flow_steps (scn_flow s)) st of
        None \<Rightarrow> None
      | Some (_, st') \<Rightarrow>
          Some (finish s cx start True (Some (rn_clock st'))
              (st'\<lparr>rn_outcome := (if rn_outcome st' = [] then ''COMPLETED'' else rn_outcome st')\<rparr>),
            rn_clock st'))"

text \<open>The result, and the reading of the clock afterwards; no clock is a new virtual clock.\<close>

definition Simulate ::
    "(scenario \<Rightarrow> manifest option \<times> diagnostics) \<Rightarrow> scenario \<Rightarrow> simulation_context \<Rightarrow> int option \<Rightarrow>
     (simulation_result \<times> int) option" where
  "Simulate compile s cx clock =
     (let start = (case clock of None \<Rightarrow> NewVirtualClock (sx_time cx) | Some t \<Rightarrow> t);
          diags = snd (compile s) in
      if HasErrors diags then
        Some (\<lparr> res_scenario = scn_id s, res_revision = scn_revision s, res_mode = sx_mode cx,
                res_passed = False, res_start = None, res_end = None, res_duration = 0, res_traces = [],
                res_effects = [], res_outcome = ''COMPILATION_FAILED'', res_errors = [CompileError diags] \<rparr>, start)
      else
        (let env = simulation_env s cx in
         case match_triggers env (scn_triggers s)
             \<lparr> rn_clock = start, rn_traces = [], rn_effects = [], rn_errors = [], rn_outcome = [] \<rparr> of
           None \<Rightarrow> None
         | Some (matched, st) \<Rightarrow>
             if \<not> matched then
               Some (finish s cx start True (Some (rn_clock st)) (st\<lparr>rn_outcome := ''TRIGGER_NOT_MATCHED''\<rparr>),
                 rn_clock st)
             else if expr_is_zero (scn_condition s) then run_flow s cx env start st
             else
               (case EvaluateBool env (scn_condition s) of
                  Inl EvalPanic \<Rightarrow> None
                | Inl (EvalError e) \<Rightarrow>
                    Some (finish s cx start False None
                        (record_trace ''condition'' ''condition'' False ''ERROR'' []
                          (st\<lparr>rn_errors := rn_errors st @ [ConditionError e], rn_outcome := ''CONDITION_ERROR''\<rparr>)),
                      rn_clock st)
                | Inr b \<Rightarrow>
                    if b then
                      run_flow s cx env start
                        (record_trace ''condition'' ''condition'' False ''CONDITION_TRUE'' [] st)
                    else
                      Some (finish s cx start True (Some (rn_clock st))
                          (record_trace ''condition'' ''condition'' False ''CONDITION_FALSE'' []
                            (st\<lparr>rn_outcome := ''CONDITION_SKIPPED''\<rparr>)),
                        rn_clock st))))"

section \<open>A compiled scenario can be run\<close>

text \<open>What a step must bring so that running it does not panic.\<close>

definition runnable_step :: "step \<Rightarrow> bool" where
  "runnable_step s \<longleftrightarrow>
     (case st_kind s of
        StepAction \<Rightarrow> (case st_action s of None \<Rightarrow> False | Some a \<Rightarrow> list_all (\<lambda>(k, e). arities_ok e) (ac_arguments a))
      | StepWait \<Rightarrow> st_wait s \<noteq> None
      | StepIf \<Rightarrow> (case st_if s of None \<Rightarrow> False | Some (IfStep c yes no) \<Rightarrow> arities_ok c)
      | StepHumanApproval \<Rightarrow> st_human s \<noteq> None
      | StepStop \<Rightarrow> st_stop s \<noteq> None
      | _ \<Rightarrow> True)"

lemma action_inputs_defined:
  "list_all (\<lambda>(k, e). arities_ok e) args \<Longrightarrow> action_inputs env args \<noteq> None"
proof (induction args)
  case (Cons x args)
  obtain k e where x: "x = (k, e)" by (cases x)
  with Cons have "no_panic (Evaluate env e)" "action_inputs env args \<noteq> None" by (simp_all add: Evaluate_no_panic)
  then show ?case by (auto simp: x no_panic_def split: sum.splits eval_error.splits)
qed simp

lemma run_simple_defined:
  assumes "runnable_step s" and "st_kind s \<noteq> StepIf" shows "run_simple cx env s st \<noteq> None"
proof (cases "st_kind s")
  case StepAction
  with assms(1) obtain a where a: "st_action s = Some a" "list_all (\<lambda>(k, e). arities_ok e) (ac_arguments a)"
    by (auto simp: runnable_step_def split: option.splits)
  from action_inputs_defined [OF a(2), of env] StepAction a(1) show ?thesis
    by (auto simp: run_simple_def run_action_def Let_def)
qed (use assms in \<open>auto simp: runnable_step_def run_simple_def\<close>)

lemma all_steps_flow:
  "set (all_steps f) = (\<Union>st \<in> set (flow_steps f). insert st (\<Union>(c, g) \<in> set (step_children st). set (all_steps g)))"
  by (cases f) (auto simp: steps_under.simps)

lemma all_steps_if:
  assumes "st \<in> set (flow_steps f)" and "st_if st = Some (IfStep c yes no)"
  shows "set (all_steps yes) \<subseteq> set (all_steps f)" and "no = Some g \<Longrightarrow> set (all_steps g) \<subseteq> set (all_steps f)"
proof -
  have sub: "set (all_steps h) \<subseteq> set (all_steps f)" if "(x, h) \<in> set (step_children st)" for x h
    using that assms(1) by (subst (2) all_steps_flow) blast
  show "set (all_steps yes) \<subseteq> set (all_steps f)"
    by (rule sub [of CThen]) (simp add: step_children_def assms(2))
  show "set (all_steps g) \<subseteq> set (all_steps f)" if "no = Some g"
    by (rule sub [of CElse]) (simp add: step_children_def assms(2) that)
qed

lemma executeFlow_defined:
  "\<forall>x \<in> set (all_steps (Flow ss)). runnable_step x \<Longrightarrow> executeFlow cx env ss st \<noteq> None"
proof (induction cx env ss st rule: executeFlow.induct)
  case (1 cx env st)
  then show ?case by (simp add: executeFlow.simps)
next
  case (2 cx env s rest st)
  have s: "runnable_step s" using "2.prems" by (simp add: steps_under.simps)
  have rest: "\<forall>x \<in> set (all_steps (Flow rest)). runnable_step x"
    using "2.prems" by (simp add: steps_under.simps)
  let ?head = "if st_kind s \<noteq> StepIf then run_simple cx env s st
         else
           (case st_if s of
              None \<Rightarrow> None
            | Some (IfStep c yes no) \<Rightarrow>
                (case EvaluateBool env c of
                   Inl EvalPanic \<Rightarrow> None
                 | Inl (EvalError e) \<Rightarrow>
                     Some (False, st\<lparr>rn_errors := rn_errors st @ [IfConditionError (step_id s) e]\<rparr>)
                 | Inr b \<Rightarrow>
                     if b then
                       executeFlow cx env (flow_steps yes)
                         (record_trace (step_id s) ''if'' False ''BRANCH_THEN'' [] st)
                     else
                       (case no of
                          None \<Rightarrow> Some (True, st)
                        | Some f \<Rightarrow>
                            executeFlow cx env (flow_steps f)
                              (record_trace (step_id s) ''if'' False ''BRANCH_ELSE'' [] st))))"
  have "?head \<noteq> None"
  proof (cases "st_kind s = StepIf")
    case False
    with run_simple_defined [OF s False, of cx env st] show ?thesis by simp
  next
    case True
    with s obtain c yes no where i: "st_if s = Some (IfStep c yes no)" "arities_ok c"
      by (auto simp: runnable_step_def split: option.splits if_step.splits)
    have yes: "\<forall>x \<in> set (all_steps (Flow (flow_steps yes))). runnable_step x"
      using all_steps_if(1) [OF _ i(1), of "Flow (s # rest)"] "2.prems" by (cases yes) auto
    have no: "\<forall>x \<in> set (all_steps (Flow (flow_steps f))). runnable_step x" if "no = Some f" for f
      using all_steps_if(2) [OF _ i(1) that, of "Flow (s # rest)"] "2.prems" by (cases f) auto
    have "no_panic (EvaluateBool env c)" by (rule EvaluateBool_no_panic [OF i(2)])
    then show ?thesis
      using True i(1) "2.IH"(1) [OF _ i(1) refl _ _ yes] "2.IH"(2) [OF _ i(1) refl _ _ _ no]
      by (auto simp: no_panic_def split: sum.splits eval_error.splits option.splits)
  qed
  then obtain go_on st' where h: "?head = Some (go_on, st')" by auto
  show ?case
    unfolding executeFlow.simps(2) h option.case prod.case
    using "2.IH"(3) [OF h refl] rest by auto
qed

lemma normalize_children:
  assumes "normalize_step enc st = Inr n" and "(x, f) \<in> set (step_children st)"
  shows "\<exists>g. normalize_flow enc f = Inr g"
proof (cases st)
  case (Step i k ac wt cond sw par jn ha sf stop)
  from assms(1) obtain cond' sw' par' where
    n: "norm_if enc (normalize_flow enc) cond = Inr cond'" "norm_switch enc (normalize_flow enc) sw = Inr sw'"
      "norm_parallel (normalize_flow enc) par = Inr par'"
    by (auto simp: Step normalize_step.simps)
  consider (a) c yes no where "cond = Some (IfStep c yes no)" "f = yes \<or> no = Some f"
    | (b) cs d where "sw = Some (SwitchStep cs d)" "f \<in> sc_flow ` set cs \<or> d = Some f"
    | (c) bs where "par = Some (ParallelStep bs)" "f \<in> set bs"
    using assms(2)
    by (auto simp: Step step_children_def split: option.splits if_step.splits switch_step.splits parallel_step.splits
        dest!: enumerate_member)
  then show ?thesis
  proof cases
    case a
    with n(1) show ?thesis by (auto simp: map_sum_def split: sum.splits)
  next
    case b
    from n(2) b(1) obtain cs' where t: "traverse (\<lambda>c. norm_case enc (normalize_flow enc) c) cs = Inr cs'"
      and d: "\<exists>d'. norm_option (normalize_flow enc) d = Inr d'" by auto
    from t have "\<exists>y. norm_case enc (normalize_flow enc) c = Inr y" if "c \<in> set cs" for c
      using that by (auto simp: traverse_Inr_iff list_all2_conv_all_nth in_set_conv_nth)
    then have "\<exists>g. normalize_flow enc (sc_flow c) = Inr g" if "c \<in> set cs" for c
      using that by (fastforce split: switch_case.splits)
    with b(2) d show ?thesis by (auto simp: map_sum_def split: sum.splits)
  next
    case c
    with n(3) show ?thesis by (auto simp: traverse_Inr_iff list_all2_conv_all_nth in_set_conv_nth)
  qed
qed

lemma normalized_steps:
  "normalize_flow enc f = Inr g \<Longrightarrow> st \<in> set (all_steps f) \<Longrightarrow> \<exists>n. normalize_step enc st = Inr n"
proof (induction "\<lambda>(_ :: step) (_ :: child). True" f arbitrary: g rule: steps_under.induct)
  case (1 ss)
  from "1.prems"(1) obtain ss' where t: "traverse (normalize_step enc) ss = Inr ss'"
    by (auto simp: normalize_flow.simps)
  have top: "\<exists>n. normalize_step enc x = Inr n" if "x \<in> set ss" for x
    using t that by (auto simp: traverse_Inr_iff list_all2_conv_all_nth in_set_conv_nth)
  from "1.prems"(2) consider "st \<in> set ss"
    | x c h where "x \<in> set ss" "(c, h) \<in> set (step_children x)" "st \<in> set (all_steps h)"
    by (subst (asm) all_steps_flow) auto
  then show ?case
  proof cases
    case 1
    then show ?thesis by (rule top)
  next
    case (2 x c h)
    from top [OF 2(1)] obtain n where "normalize_step enc x = Inr n" by blast
    from normalize_children [OF this 2(2)] obtain g' where "normalize_flow enc h = Inr g'" by blast
    from "1.hyps" [OF 2(1) _ refl this 2(3)] 2(2) show ?thesis by simp
  qed
qed

lemma normalize_map_entries:
  "normalize_map label g acc xs = Inr ys \<Longrightarrow> list_all (\<lambda>(k, x). \<exists>y. g x = Inr y) xs"
  by (induction label g acc xs rule: normalize_map.induct) (auto split: option.splits)

lemma normalized_runnable:
  assumes "normalize_step enc st = Inr n" shows "runnable_step st"
proof (cases st)
  case (Step i k ac wt cond sw par jn ha sf stop)
  from assms obtain ac' cond' sw' par' sf' where
    ac: "normalize_action enc ac = Inr ac'" and cond: "norm_if enc (normalize_flow enc) cond = Inr cond'" and
    n: "n = Step (TrimSpace i) k ac' wt cond' sw' par' jn (map_option normalize_human ha) sf' stop" and
    v: "validate_step n = None"
    by (auto simp: Step normalize_step.simps)
  show ?thesis
  proof (cases k)
    case StepAction
    with v have "ac' \<noteq> None" by (auto simp: n validate_step.simps checks_None split: option.splits)
    with ac obtain a args where a: "ac = Some a" "normalize_args enc (ac_arguments a) = Inr args"
      by (auto simp: normalize_action_def split: option.splits)
    have "list_all (\<lambda>(k, e). arities_ok e) (ac_arguments a)"
      using normalize_map_entries [OF a(2) [unfolded normalize_args_def]] normalized_arities
      by (fastforce simp: list_all_iff)
    with a(1) StepAction show ?thesis by (simp add: Step runnable_step_def)
  next
    case StepIf
    with v have "cond' \<noteq> None" by (auto simp: n validate_step.simps checks_None split: option.splits)
    with cond obtain c yes no c' where "cond = Some (IfStep c yes no)" "normalize_expr enc c = Inr c'"
      by (auto split: option.splits if_step.splits)
    with StepIf normalized_arities show ?thesis by (auto simp: Step runnable_step_def)
  qed (use v in \<open>auto simp: Step n runnable_step_def validate_step.simps checks_None split: option.splits\<close>)
qed

lemma match_triggers_defined:
  "list_all (\<lambda>t. arities_ok (tg_filter t)) ts \<Longrightarrow> match_triggers env ts st \<noteq> None"
proof (induction ts arbitrary: st)
  case (Cons t ts)
  then have "no_panic (EvaluateBool env (tg_filter t))" by (simp add: EvaluateBool_no_panic)
  with Cons show ?case by (auto simp: no_panic_def split: sum.splits eval_error.splits)
qed simp

lemma normalized_scenario_runnable:
  assumes "Normalize tz enc s = Inr n"
  shows "list_all (\<lambda>t. arities_ok (tg_filter t)) (scn_triggers s)" and "arities_ok (scn_condition s)"
    and "\<forall>x \<in> set (all_steps (scn_flow s)). runnable_step x"
proof -
  from assms obtain ts c f where ts: "traverse (normalize_trigger tz enc) (scn_triggers s) = Inr ts"
    and c: "normalize_expr enc (scn_condition s) = Inr c" and f: "normalize_flow enc (scn_flow s) = Inr f"
    by (auto simp: Normalize_def)
  from c show "arities_ok (scn_condition s)" by (rule normalized_arities)
  have "\<exists>y. normalize_trigger tz enc t = Inr y" if "t \<in> set (scn_triggers s)" for t
    using ts that by (auto simp: traverse_Inr_iff list_all2_conv_all_nth in_set_conv_nth)
  then have "\<exists>y. normalize_expr enc (tg_filter t) = Inr y" if "t \<in> set (scn_triggers s)" for t
    using that by (fastforce simp: normalize_trigger_def)
  then show "list_all (\<lambda>t. arities_ok (tg_filter t)) (scn_triggers s)"
    using normalized_arities by (fastforce simp: list_all_iff)
  show "\<forall>x \<in> set (all_steps (scn_flow s)). runnable_step x"
    using normalized_steps [OF f] normalized_runnable by blast
qed

lemma Compile_normalizes:
  "\<not> HasErrors (snd (Compile tz enc hash plan_hash reg s)) \<Longrightarrow> \<exists>n. Normalize tz enc s = Inr n"
  by (auto simp: Compile_def HasErrors_def split: sum.splits)

lemma run_flow_defined:
  assumes "\<forall>x \<in> set (all_steps (scn_flow s)). runnable_step x"
  shows "run_flow s cx env start st \<noteq> None"
proof -
  have "executeFlow cx env (flow_steps (scn_flow s)) st \<noteq> None"
    by (rule executeFlow_defined) (use assms in \<open>cases "scn_flow s"; simp\<close>)
  then show ?thesis by (auto simp: run_flow_def)
qed

section \<open>Invariants of a run\<close>

text \<open>
  What every step preserves, and the entries of decisions and errors, a whole run preserves. The
  steps may be assumed to satisfy what all steps of the flow satisfy.
\<close>

lemma executeFlow_invariant:
  assumes step: "\<And>x st go st'. Q x \<Longrightarrow> st_kind x \<noteq> StepIf \<Longrightarrow> P st \<Longrightarrow>
      run_simple cx env x st = Some (go, st') \<Longrightarrow> P st'"
    and branch: "\<And>st i out. P st \<Longrightarrow> P (record_trace i ''if'' False (''BRANCH_'' @ out) [] st)"
    and failure: "\<And>st es. P st \<Longrightarrow> P (st\<lparr>rn_errors := es\<rparr>)"
  shows "executeFlow cx env ss st = Some (go, st') \<Longrightarrow> P st \<Longrightarrow>
    \<forall>x \<in> set (all_steps (Flow ss)). Q x \<Longrightarrow> P st'"
proof (induction cx\<equiv>cx env\<equiv>env ss st arbitrary: go st' rule: executeFlow.induct)
  case (1 st)
  then show ?case by (simp add: executeFlow.simps)
next
  case (2 s rest st)
  have s: "Q s" and rest: "\<forall>x \<in> set (all_steps (Flow rest)). Q x"
    using "2.prems"(3) by (simp_all add: steps_under.simps)
  let ?head = "if st_kind s \<noteq> StepIf then run_simple cx env s st
         else
           (case st_if s of
              None \<Rightarrow> None
            | Some (IfStep c yes no) \<Rightarrow>
                (case EvaluateBool env c of
                   Inl EvalPanic \<Rightarrow> None
                 | Inl (EvalError e) \<Rightarrow>
                     Some (False, st\<lparr>rn_errors := rn_errors st @ [IfConditionError (step_id s) e]\<rparr>)
                 | Inr b \<Rightarrow>
                     if b then
                       executeFlow cx env (flow_steps yes)
                         (record_trace (step_id s) ''if'' False ''BRANCH_THEN'' [] st)
                     else
                       (case no of
                          None \<Rightarrow> Some (True, st)
                        | Some f \<Rightarrow>
                            executeFlow cx env (flow_steps f)
                              (record_trace (step_id s) ''if'' False ''BRANCH_ELSE'' [] st))))"
  from "2.prems"(1) obtain go1 st1 where h: "?head = Some (go1, st1)"
    and r: "(if go1 then executeFlow cx env rest st1 else Some (False, st1)) = Some (go, st')"
    unfolding executeFlow.simps(2) by (cases ?head) auto
  have "P st1"
  proof (cases "st_kind s = StepIf")
    case False
    with h have "run_simple cx env s st = Some (go1, st1)" by simp
    from step [OF s False "2.prems"(2) this] show ?thesis .
  next
    case True
    with h obtain c yes no where i: "st_if s = Some (IfStep c yes no)" by (auto split: option.splits if_step.splits)
    have yes: "\<forall>x \<in> set (all_steps (Flow (flow_steps yes))). Q x"
      using all_steps_if(1) [OF _ i, of "Flow (s # rest)"] "2.prems"(3) by (cases yes) auto
    have no: "\<forall>x \<in> set (all_steps (Flow (flow_steps f))). Q x" if "no = Some f" for f
      using all_steps_if(2) [OF _ i that, of "Flow (s # rest)"] "2.prems"(3) by (cases f) auto
    from branch [OF "2.prems"(2), of "step_id s" "''THEN''"] branch [OF "2.prems"(2), of "step_id s" "''ELSE''"]
    have br: "P (record_trace (step_id s) ''if'' False ''BRANCH_THEN'' [] st)"
      "P (record_trace (step_id s) ''if'' False ''BRANCH_ELSE'' [] st)" by simp_all
    show ?thesis
    proof (cases "EvaluateBool env c")
      case (Inl e)
      with h True i failure [OF "2.prems"(2)] show ?thesis by (cases e) auto
    next
      case (Inr b)
      show ?thesis
      proof (cases b)
        assume b: b
        with h True i Inr have "executeFlow cx env (flow_steps yes)
            (record_trace (step_id s) ''if'' False ''BRANCH_THEN'' [] st) = Some (go1, st1)" by simp
        with True show ?thesis using "2.hyps"(1) [OF _ i refl Inr b _ br(1) yes] by simp
      next
        assume b: "\<not> b"
        show ?thesis
        proof (cases no)
          case None
          with h True i Inr b "2.prems"(2) show ?thesis by simp
        next
          case (Some f)
          with h True i Inr b have "executeFlow cx env (flow_steps f)
              (record_trace (step_id s) ''if'' False ''BRANCH_ELSE'' [] st) = Some (go1, st1)" by simp
          with True show ?thesis using "2.hyps"(2) [OF _ i refl Inr b Some _ br(2) no [OF Some]] by simp
        qed
      qed
    qed
  qed
  then show ?case using r "2.hyps"(3) [OF h refl _ _ _ rest] by (cases go1) auto
qed

text \<open>
  An invariant of dry runs holds in an empty run and is kept by every step and by the entries
  that do not come from the system; then it holds of what a result reports.
\<close>

locale dry_run_invariant =
  fixes steps_ok :: "step \<Rightarrow> bool" and P :: "simulation_context \<Rightarrow> int \<Rightarrow> run_state \<Rightarrow> bool"
  assumes start: "P cx t0 \<lparr> rn_clock = t0, rn_traces = [], rn_effects = [], rn_errors = [], rn_outcome = [] \<rparr>"
    and entry: "P cx t0 st \<Longrightarrow> P cx t0 (record_trace i name False out inputs st)"
    and failure: "P cx t0 st \<Longrightarrow> P cx t0 (st\<lparr>rn_errors := es\<rparr>)"
    and outcome: "P cx t0 st \<Longrightarrow> P cx t0 (st\<lparr>rn_outcome := out\<rparr>)"
    and step: "steps_ok x \<Longrightarrow> st_kind x \<noteq> StepIf \<Longrightarrow> P cx t0 st \<Longrightarrow> run_simple cx env x st = Some (go, st') \<Longrightarrow> P cx t0 st'"
begin

lemma flow_keeps:
  "executeFlow cx env ss st = Some (go, st') \<Longrightarrow> P cx t0 st \<Longrightarrow> \<forall>x \<in> set (all_steps (Flow ss)). steps_ok x \<Longrightarrow> P cx t0 st'"
  by (rule executeFlow_invariant [where P = "P cx t0" and Q = steps_ok]) (auto intro: step entry failure)

lemma triggers_keep: "match_triggers env ts st = Some (m, st') \<Longrightarrow> P cx t0 st \<Longrightarrow> P cx t0 st'"
proof (induction ts arbitrary: st)
  case (Cons t ts)
  have p: "P cx t0 (record_trace (tg_id t) ''trigger'' False ''MATCH'' [] st)"
    "P cx t0 (record_trace (tg_id t) ''trigger_filter'' False ''ERROR'' [] st)"
    "P cx t0 (record_trace (tg_id t) ''trigger_filter'' False ''FILTER_MISMATCH'' [] st)"
    by (rule entry [OF Cons.prems(2)])+
  show ?case
    using Cons.prems(1) p Cons.IH by (auto split: if_splits sum.splits eval_error.splits)
qed simp

lemma run_flow_keeps:
  assumes "run_flow s cx env t st = Some (res, now)" and "P cx t0 st"
    and "\<forall>x \<in> set (all_steps (scn_flow s)). steps_ok x"
  shows "\<exists>st'. P cx t0 st' \<and> res_traces res = rn_traces st' \<and> res_effects res = rn_effects st' \<and>
    now = rn_clock st' \<and> res_start res = Some t \<and> res_end res = Some now \<and> res_duration res = time_sub now t"
proof -
  from assms(1) obtain go st' where e: "executeFlow cx env (flow_steps (scn_flow s)) st = Some (go, st')"
    by (auto simp: run_flow_def split: option.splits)
  have "\<forall>x \<in> set (all_steps (Flow (flow_steps (scn_flow s)))). steps_ok x" using assms(3) by (cases "scn_flow s") simp
  from flow_keeps [OF e assms(2) this] have "P cx t0 st'" .
  with assms(1) e show ?thesis
    by (intro exI [of _ st']) (auto simp: run_flow_def finish_def)
qed

lemma result_keeps:
  assumes "Simulate compile s cx clock = Some (res, now)" and "\<not> HasErrors (snd (compile s))"
    and "\<forall>x \<in> set (all_steps (scn_flow s)). steps_ok x"
  defines "t0 \<equiv> (case clock of None \<Rightarrow> NewVirtualClock (sx_time cx) | Some t \<Rightarrow> t)"
  shows "\<exists>st. P cx t0 st \<and> res_traces res = rn_traces st \<and> res_effects res = rn_effects st \<and> now = rn_clock st \<and>
    res_start res = Some t0 \<and>
    (\<forall>t. res_end res = Some t \<longrightarrow> t = now)"
proof -
  let ?env = "simulation_env s cx"
  let ?st = "\<lparr> rn_clock = t0, rn_traces = [], rn_effects = [], rn_errors = [], rn_outcome = [] \<rparr>"
  note sim = assms(1) [unfolded Simulate_def Let_def if_not_P [OF assms(2)], folded t0_def]
  from sim obtain m st where m: "match_triggers ?env (scn_triggers s) ?st = Some (m, st)"
    by (auto split: option.splits)
  have st: "P cx t0 st" by (rule triggers_keep [OF m start])
  have flow: "\<exists>st'. P cx t0 st' \<and> res_traces res = rn_traces st' \<and> res_effects res = rn_effects st' \<and> now = rn_clock st' \<and>
      res_start res = Some t0 \<and> (\<forall>t. res_end res = Some t \<longrightarrow> t = now)"
    if "run_flow s cx ?env t0 st1 = Some (res, now)" "P cx t0 st1" for st1
    using run_flow_keeps [OF that assms(3)] by auto
  have early: "\<exists>st'. P cx t0 st' \<and> res_traces res = rn_traces st' \<and> res_effects res = rn_effects st' \<and> now = rn_clock st' \<and>
      res_start res = Some t0 \<and> (\<forall>t. res_end res = Some t \<longrightarrow> t = now)"
    if "res = finish s cx t0 ok e st1" "now = rn_clock st1" "P cx t0 st1" "e = None \<or> e = Some now" for ok e st1
    using that by (intro exI [of _ st1]) (auto simp: finish_def)
  have clocks: "rn_clock (record_trace i name sys out inputs x) = rn_clock x" for i name sys out inputs x
    by (simp add: record_trace_def)
  show ?thesis
  proof (cases "\<not> m")
    case True
    with sim m show ?thesis
      by (intro early [OF _ _ outcome [OF st]]) auto
  next
    case matched: False
    show ?thesis
    proof (cases "expr_is_zero (scn_condition s)")
      case True
      with matched sim m have "run_flow s cx ?env t0 st = Some (res, now)"
        by simp
      then show ?thesis using st by (rule flow)
    next
      case nonzero: False
      show ?thesis
      proof (cases "EvaluateBool ?env (scn_condition s)")
        case (Inl err)
        then obtain e where e: "err = EvalError e"
          using nonzero matched sim m by (cases err) simp_all
        with Inl nonzero matched sim m show ?thesis
          by (intro early [OF _ _ entry [OF outcome [OF failure [OF st]]]])
            (auto simp: clocks)
      next
        case (Inr b)
        show ?thesis
        proof (cases b)
          case True
          with Inr nonzero matched sim m have "run_flow s cx ?env t0
              (record_trace ''condition'' ''condition'' False ''CONDITION_TRUE'' [] st) = Some (res, now)"
            by simp
          then show ?thesis using entry [OF st] by (rule flow)
        next
          case False
          with Inr nonzero matched sim m show ?thesis
            by (intro early [OF _ _ entry [OF outcome [OF st]]]) (auto simp: clocks)
        qed
      qed
    qed
  qed
qed

end

text \<open>Who approves an unlock, and what an effect says.\<close>

definition approvals_kept :: "simulation_context \<Rightarrow> int \<Rightarrow> run_state \<Rightarrow> bool" where
  "approvals_kept cx t0 st \<longleftrightarrow>
     length (filter (\<lambda>e. sim_unlock (he_capability e)) (rn_effects st)) =
       length (filter (\<lambda>t. tr_system t \<and> tr_outcome t = ''APPROVED'') (rn_traces st)) \<and>
     list_all
       (\<lambda>t. tr_system t \<and> tr_outcome t = ''APPROVED'' \<longrightarrow>
          (\<exists>i. tr_step t = ''safety_approval_'' @ i \<and> approval cx i)) (rn_traces st) \<and>
     list_all
       (\<lambda>e. he_action e = ''WOULD_EXECUTE'' \<and> (sim_unlock (he_capability e) \<longrightarrow> he_risk e = RiskCritical))
       (rn_effects st)"

lemma run_simple_approvals:
  assumes "approvals_kept cx t0 st" and "run_simple cx env x st = Some (go, st')"
  shows "approvals_kept cx t0 st'"
proof (cases "st_kind x = StepAction")
  case False
  with assms show ?thesis
    by (auto simp: run_simple_def approvals_kept_def record_trace_def Advance_def
        split: step_kind.splits option.splits if_splits)
next
  case True
  with assms(2) obtain a where a: "run_action cx env (step_id x) a st = Some (go, st')"
    by (auto simp: run_simple_def split: option.splits)
  show ?thesis
  proof (cases "sim_unlock (cr_id (ac_capability a))")
    case False
    with a assms(1) show ?thesis
      by (auto simp: run_action_def Let_def approvals_kept_def record_trace_def run_effect_def split: option.splits)
  next
    case unlock: True
    show ?thesis
    proof (cases "approval cx (step_id x)")
      case False
      with a assms(1) unlock show ?thesis
        by (auto simp: run_action_def Let_def approvals_kept_def record_trace_def)
    next
      case True
      with a assms(1) unlock show ?thesis
        by (auto simp: run_action_def Let_def approvals_kept_def record_trace_def run_effect_def split: option.splits)
    qed
  qed
qed

interpretation approvals: dry_run_invariant "\<lambda>_. True" approvals_kept
proof
  show "approvals_kept cx t0 st'"
    if "approvals_kept cx t0 st" "run_simple cx env x st = Some (go, st')" for cx t0 st st' x env go
    using that by (rule run_simple_approvals)
qed (simp_all add: approvals_kept_def record_trace_def)

text \<open>Time: entries and effects come in the order of the clock, which never goes back.\<close>

definition times_kept :: "simulation_context \<Rightarrow> int \<Rightarrow> run_state \<Rightarrow> bool" where
  "times_kept cx t0 st \<longleftrightarrow>
     sorted (map tr_time (rn_traces st)) \<and> sorted (map he_time (rn_effects st)) \<and> t0 \<le> rn_clock st \<and>
     list_all (\<lambda>t. t0 \<le> tr_time t \<and> tr_time t \<le> rn_clock st) (rn_traces st) \<and>
     list_all (\<lambda>e. t0 \<le> he_time e \<and> he_time e \<le> rn_clock st) (rn_effects st)"

definition waits_forward :: "step \<Rightarrow> bool" where
  "waits_forward x \<longleftrightarrow> (case st_wait x of None \<Rightarrow> True | Some w \<Rightarrow> st_kind x = StepWait \<longrightarrow> 0 \<le> wt_duration w)"

lemma times_entry: "times_kept cx t0 st \<Longrightarrow> times_kept cx t0 (record_trace i name sys out inputs st)"
  by (auto simp: times_kept_def record_trace_def sorted_append list_all_iff)

lemma times_effect: "times_kept cx t0 st \<Longrightarrow> times_kept cx t0 (run_effect c inputs st)"
  by (auto simp: times_kept_def run_effect_def sorted_append list_all_iff)

lemma times_advance: "times_kept cx t0 st \<Longrightarrow> 0 \<le> d \<Longrightarrow> times_kept cx t0 (Advance d st)"
  by (fastforce simp: times_kept_def Advance_def list_all_iff)

lemma times_outcome [simp]: "times_kept cx t0 (st\<lparr>rn_outcome := out\<rparr>) = times_kept cx t0 st"
  by (simp add: times_kept_def)

lemma run_action_times:
  assumes "times_kept cx t0 st" and "run_action cx env i a st = Some (go, st')"
  shows "times_kept cx t0 st'"
proof (cases "sim_unlock (cr_id (ac_capability a)) \<and> \<not> approval cx i")
  case True
  with assms show ?thesis by (auto simp: run_action_def Let_def times_entry)
next
  case False
  let ?st = "if sim_unlock (cr_id (ac_capability a))
    then record_trace (''safety_approval_'' @ i) ''human_approval'' True ''APPROVED'' [] st else st"
  have "times_kept cx t0 ?st" using assms(1) by (simp add: times_entry)
  moreover from False assms(2) obtain inputs where
    "st' = record_trace i ''action'' False ''WOULD_EXECUTE'' inputs (run_effect (ac_capability a) inputs ?st)"
    unfolding run_action_def Let_def by (auto split: option.splits)
  ultimately show ?thesis by (simp only: times_entry times_effect)
qed

lemma run_simple_times:
  assumes "waits_forward x" and "times_kept cx t0 st" and "run_simple cx env x st = Some (go, st')"
  shows "times_kept cx t0 st'"
proof (cases "st_kind x")
  case StepAction
  with assms(3) obtain a where a: "run_action cx env (step_id x) a st = Some (go, st')"
    by (cases "st_action x") (simp_all add: run_simple_def)
  with assms(2) show ?thesis by (rule run_action_times)
next
  case StepWait
  with assms(3) obtain w where w: "st_wait x = Some w"
    by (cases "st_wait x") (simp_all add: run_simple_def)
  with StepWait assms(1) have d: "0 \<le> wt_duration w" by (simp add: waits_forward_def)
  from w StepWait assms(3)
  have "st' = record_trace (step_id x) ''wait'' False ''WAITED'' [] (Advance (wt_duration w) st)"
    by (simp add: run_simple_def)
  with times_entry [OF times_advance [OF assms(2) d]] show ?thesis by simp
next
  case StepHumanApproval
  with assms(3) have "st' = record_trace (step_id x) ''human_approval'' False ''APPROVED'' [] st \<or>
      st' = (record_trace (step_id x) ''human_approval'' False ''REJECTED'' [] st)\<lparr>rn_outcome := ''APPROVAL_REJECTED''\<rparr>"
    by (simp add: run_simple_def split: option.splits if_splits)
  then show ?thesis by (elim disjE) (simp_all only: times_outcome times_entry assms(2))
next
  case StepStop
  with assms(3) have "\<exists>out. st' = record_trace (step_id x) ''stop'' False out [] st"
    by (cases "st_stop x") (auto simp: run_simple_def)
  then show ?thesis by (elim exE) (simp only: times_entry assms(2))
qed (use assms(2,3) in \<open>simp_all add: run_simple_def\<close>)

interpretation times: dry_run_invariant waits_forward times_kept
proof
  show "times_kept cx t0 st'"
    if "waits_forward x" "times_kept cx t0 st" "run_simple cx env x st = Some (go, st')" for cx t0 st st' x env go
    using that by (rule run_simple_times)
qed (simp_all add: times_entry, simp_all add: times_kept_def)

lemma normalized_waits:
  assumes "normalize_step enc st = Inr n" shows "waits_forward st"
proof (cases st)
  case (Step i k ac wt cond sw par jn ha sf stop)
  from assms obtain ac' cond' sw' par' sf' where
    v: "validate_step (Step (TrimSpace i) k ac' wt cond' sw' par' jn (map_option normalize_human ha) sf' stop) = None"
    by (auto simp: Step normalize_step.simps)
  have "0 < wt_duration w" if "k = StepWait" "wt = Some w" for w
  proof -
    from v that(1) have "(case wt of
                None \<Rightarrow> Some (Errorf ''wait step %q requires positive duration'' [TrimSpace i])
              | Some w \<Rightarrow> fails_if (wt_duration w \<le> 0)
                  (Errorf ''wait step %q requires positive duration'' [TrimSpace i])) = None"
      by (simp only: validate_step.simps checks_None list.set step_kind.case) blast
    with that(2) show ?thesis by simp
  qed
  then show ?thesis by (fastforce simp: Step waits_forward_def split: option.splits)
qed

lemma Simulate_clean:
  "\<not> HasErrors (snd (compile s)) \<Longrightarrow> Simulate compile s cx clock = Simulate (\<lambda>_. (None, [])) s cx clock"
  by (simp add: Simulate_def)

definition visit_context :: simulation_context where
  "visit_context =
     \<lparr> sx_mode = ModePure, sx_trigger = [], sx_home = [], sx_approvals = [(''open'', True)],
       sx_time = None, sx_timezone = [] \<rparr>"

definition visit_result :: "simulation_result \<times> int" where
  "visit_result = the (Simulate (\<lambda>_. (None, [])) unlock_scenario visit_context (Some 7))"

lemma visit_simulated:
  "Simulate (\<lambda>_. (None, [])) unlock_scenario visit_context (Some 7) = Some (fst visit_result, snd visit_result)"
  by code_simp

text \<open>
  C17. A simulation always answers: with the compiler of the repository, under any registry, the
  simulator returns a result for every scenario, context and clock. It neither panics nor runs
  on, whatever the scenario is made of.
\<close>

theorem simulation_answers:
  "\<exists>res now. Simulate (Compile tz enc hash plan_hash reg) s cx clock = Some (res, now)"
proof (cases "HasErrors (snd (Compile tz enc hash plan_hash reg s))")
  case True
  then show ?thesis by (simp add: Simulate_def Let_def)
next
  case False
  from Compile_normalizes [OF this] obtain n where n: "Normalize tz enc s = Inr n" by blast
  let ?env = "simulation_env s cx"
  let ?start = "case clock of None \<Rightarrow> NewVirtualClock (sx_time cx) | Some t \<Rightarrow> t"
  let ?st = "\<lparr> rn_clock = ?start, rn_traces = [], rn_effects = [], rn_errors = [], rn_outcome = [] \<rparr>"
  obtain matched st where m: "match_triggers ?env (scn_triggers s) ?st = Some (matched, st)"
    using match_triggers_defined [OF normalized_scenario_runnable(1) [OF n], of ?env ?st] by auto
  have flow: "\<exists>y. run_flow s cx ?env start st = Some y" for start st
    using run_flow_defined [OF normalized_scenario_runnable(3) [OF n]] by blast
  have "no_panic (EvaluateBool ?env (scn_condition s))"
    by (rule EvaluateBool_no_panic [OF normalized_scenario_runnable(2) [OF n]])
  then have "Simulate (Compile tz enc hash plan_hash reg) s cx clock \<noteq> None"
    using False m flow
    by (auto simp: Simulate_def Let_def no_panic_def split: sum.splits eval_error.splits)
  then show ?thesis by auto
qed

text \<open>
  C10. No unlock without an approval: in the result of a simulation every effect is hypothetical,
  every unlock among the effects is critical, there are exactly as many of them as there are
  approvals given in the name of the safety system, and none of these approvals is for a step
  that the context rejects.
\<close>

theorem simulated_unlocks_approved:
  assumes "Simulate compile s cx clock = Some (res, now)"
  shows "length (filter (\<lambda>e. sim_unlock (he_capability e)) (res_effects res)) =
      length (filter (\<lambda>t. tr_system t \<and> tr_outcome t = ''APPROVED'') (res_traces res)) \<and>
    (\<forall>t \<in> set (res_traces res). tr_system t \<and> tr_outcome t = ''APPROVED'' \<longrightarrow>
      (\<exists>i. tr_step t = ''safety_approval_'' @ i \<and> map_of (sx_approvals cx) i \<noteq> Some False)) \<and>
    (\<forall>e \<in> set (res_effects res). he_action e = ''WOULD_EXECUTE'' \<and>
      (sim_unlock (he_capability e) \<longrightarrow> he_risk e = RiskCritical))"
proof (cases "HasErrors (snd (compile s))")
  case True
  with assms have "res_effects res = []" "res_traces res = []" by (auto simp: Simulate_def Let_def)
  then show ?thesis by simp
next
  case False
  from approvals.result_keeps [OF assms False] obtain t0 st where
    st: "approvals_kept cx t0 st" "res_traces res = rn_traces st" "res_effects res = rn_effects st" by blast
  have approval: "approval cx i \<Longrightarrow> map_of (sx_approvals cx) i \<noteq> Some False" for i
    by (auto simp: approval_def)
  from st(1) show ?thesis unfolding st(2,3) approvals_kept_def list_all_iff using approval by blast
qed

theorem simulated_unlocks_approved_witness:
  "length (filter (\<lambda>e. sim_unlock (he_capability e)) (res_effects (fst visit_result))) =
     length (filter (\<lambda>t. tr_system t \<and> tr_outcome t = ''APPROVED'') (res_traces (fst visit_result))) \<and>
   map tr_outcome (res_traces (fst visit_result)) = [''MATCH'', ''BRANCH_THEN'', ''APPROVED'', ''WOULD_EXECUTE'']"
proof -
  have "map tr_outcome (res_traces (fst visit_result)) = [''MATCH'', ''BRANCH_THEN'', ''APPROVED'', ''WOULD_EXECUTE'']"
    by code_simp
  with simulated_unlocks_approved [OF visit_simulated] show ?thesis by blast
qed

text \<open>
  Simulated time: the entries and the effects of a simulation of a compiled scenario are in the
  order of the clock, none is before the start or after the end, and the clock ends where the
  result says, so the simulated duration is not negative.
\<close>

theorem simulated_time_ordered:
  assumes "Simulate (Compile tz enc hash plan_hash reg) s cx clock = Some (res, now)"
    and "res_outcome res \<noteq> ''COMPILATION_FAILED''"
  shows "\<exists>start. res_start res = Some start \<and> start \<le> now \<and>
    sorted (map tr_time (res_traces res)) \<and> sorted (map he_time (res_effects res)) \<and>
    (\<forall>t \<in> tr_time ` set (res_traces res) \<union> he_time ` set (res_effects res). start \<le> t \<and> t \<le> now) \<and>
    (res_end res = None \<or> res_end res = Some now)"
proof -
  let ?f = "Compile tz enc hash plan_hash reg"
  have ok: "\<not> HasErrors (snd (?f s))" using assms by (auto simp: Simulate_def Let_def)
  from Compile_normalizes [OF ok] obtain n where "Normalize tz enc s = Inr n" by blast
  then obtain f where "normalize_flow enc (scn_flow s) = Inr f" by (auto simp: Normalize_def)
  from normalized_steps [OF this] normalized_waits
  have "\<forall>x \<in> set (all_steps (scn_flow s)). waits_forward x" by blast
  from times.result_keeps [OF assms(1) ok this] obtain t0 st where
    st: "times_kept cx t0 st" "res_traces res = rn_traces st" "res_effects res = rn_effects st" "now = rn_clock st"
      "res_start res = Some t0" "\<forall>t. res_end res = Some t \<longrightarrow> t = now" by blast
  have "\<forall>t \<in> tr_time ` set (res_traces res) \<union> he_time ` set (res_effects res). t0 \<le> t \<and> t \<le> now"
    using st(1) by (auto simp: st(2-4) times_kept_def list_all_iff)
  moreover have "res_end res = None \<or> res_end res = Some now" using st(6) by (cases "res_end res") simp_all
  moreover have "sorted (map tr_time (res_traces res)) \<and> sorted (map he_time (res_effects res)) \<and> t0 \<le> now"
    using st(1) by (simp add: st(2-4) times_kept_def)
  ultimately show ?thesis using st(5) by blast
qed

theorem simulated_time_ordered_witness:
  "\<exists>res now. Simulate (Compile (\<lambda>_. True) ex_ref trigger_names (\<lambda>_. Inr ''plan'') None) unlock_scenario
      visit_context (Some 7) = Some (res, now) \<and> 7 \<le> now \<and> res_effects res \<noteq> []"
proof -
  let ?f = "Compile (\<lambda>_. True) ex_ref trigger_names (\<lambda>_. Inr ''plan'') None"
  have s: "Simulate ?f unlock_scenario visit_context (Some 7) = Some (fst visit_result, snd visit_result)"
    using Simulate_clean [of ?f unlock_scenario] visit_simulated by (simp add: unlock_compiled unlock_scenario_clean)
  have o: "res_outcome (fst visit_result) \<noteq> ''COMPILATION_FAILED''" by code_simp
  have e: "res_effects (fst visit_result) \<noteq> []" "res_start (fst visit_result) = Some 7" by code_simp+
  from simulated_time_ordered [OF s o] e(2) have "7 \<le> snd visit_result" by auto
  with s e(1) show ?thesis by blast
qed

end
