(* ===== verification/Tokens.thy ===== *)
theory Tokens
  imports Prelude
begin

text \<open>
  Signed callback tokens, \<open>security/callback/token.go\<close>: the claims of a token with their
  validity, signing with the active key of a key ring and verifying with any key of it.

  HMAC-SHA256 (\<open>mac key message\<close>) and the JSON of the claims (\<open>enc\<close>, \<open>dec\<close>) are parameters;
  the base64 alphabet for URLs without padding is modelled, with the line breaks that decoding
  skips. A time is the number of nanoseconds since 1970. A clock reading is an argument: where
  the sources fall back to \<open>time.Now\<close> because a clock shows the zero time, it is the reading of
  \<open>time.Now\<close>. The texts of errors are left out, as are the checks of nil receivers.
\<close>

section \<open>Base64\<close>

definition b64_char :: "nat \<Rightarrow> char" where
  "b64_char n =
     (if n < 26 then char_of (65 + n) else if n < 52 then char_of (71 + n)
      else if n < 62 then char_of (n - 4) else if n = 62 then CHR ''-'' else CHR ''_'')"

definition b64_index :: "char \<Rightarrow> nat option" where
  "b64_index ch =
     (let n = of_char ch :: nat
      in if 65 \<le> n \<and> n \<le> 90 then Some (n - 65) else if 97 \<le> n \<and> n \<le> 122 then Some (n - 71)
         else if 48 \<le> n \<and> n \<le> 57 then Some (n + 4) else if ch = CHR ''-'' then Some 62
         else if ch = CHR ''_'' then Some 63 else None)"

fun b64_digits :: "nat list \<Rightarrow> nat list" where
  "b64_digits (a # b # c # s) =
     a div 4 # (a mod 4 * 16 + b div 16) # (b mod 16 * 4 + c div 64) # c mod 64 # b64_digits s"
| "b64_digits [a, b] = [a div 4, a mod 4 * 16 + b div 16, b mod 16 * 4]"
| "b64_digits [a] = [a div 4, a mod 4 * 16]"
| "b64_digits [] = []"

fun b64_bytes :: "nat list \<Rightarrow> nat list option" where
  "b64_bytes (x # y # z # w # s) =
     map_option (\<lambda>r. (x * 4 + y div 16) # (y mod 16 * 16 + z div 4) # (z mod 4 * 64 + w) # r) (b64_bytes s)"
| "b64_bytes [x, y, z] = Some [x * 4 + y div 16, y mod 16 * 16 + z div 4]"
| "b64_bytes [x, y] = Some [x * 4 + y div 16]"
| "b64_bytes [x] = None"
| "b64_bytes [] = Some []"

definition b64_encode :: "string \<Rightarrow> string" where
  "b64_encode s = map b64_char (b64_digits (map of_char s))"

definition b64_decode :: "string \<Rightarrow> string option" where
  "b64_decode s =
     (case those (map b64_index (filter (\<lambda>ch. ch \<noteq> CHR 0x0D \<and> ch \<noteq> CHR 0x0A) s)) of
        None \<Rightarrow> None
      | Some ns \<Rightarrow> map_option (map char_of) (b64_bytes ns))"

lemma b64_index_char [simp]: "n < 64 \<Longrightarrow> b64_index (b64_char n) = Some n"
proof -
  assume n: "n < 64"
  then consider "n < 26" | "26 \<le> n" "n < 52" | "52 \<le> n" "n < 62" | "n = 62" | "n = 63" by linarith
  then show ?thesis
    by cases (auto simp: b64_char_def b64_index_def Let_def)
qed

lemma b64_char_plain:
  assumes "n < 64" shows "b64_char n \<notin> {CHR ''.'', CHR 0x0D, CHR 0x0A}"
proof
  assume "b64_char n \<in> {CHR ''.'', CHR 0x0D, CHR 0x0A}"
  then have "b64_index (b64_char n) = None" by (auto simp: b64_index_def Let_def)
  with assms show False by simp
qed

lemma pack_div [simp]: "d < k \<Longrightarrow> (m * k + d) div k = (m :: nat)"
  and pack_mod [simp]: "d < k \<Longrightarrow> (m * k + d) mod k = (d :: nat)"
  by simp_all

lemma pack_less: "m < j \<Longrightarrow> d < k \<Longrightarrow> m * k + d < j * (k :: nat)"
proof -
  assume "m < j" "d < k"
  then have "m * k + d < Suc m * k" by simp
  also have "\<dots> \<le> j * k" using \<open>m < j\<close> by (intro mult_le_mono1) simp
  finally show ?thesis .
qed

lemma byte_parts:
  fixes a :: nat
  assumes "a < 256"
  shows "a div 4 < 64" and "a div 16 < 16" and "a div 64 < 4"
  using assms by (simp_all add: less_mult_imp_div_less)

lemma b64_digits_small: "\<forall>a \<in> set s. a < 256 \<Longrightarrow> \<forall>n \<in> set (b64_digits s). n < 64"
proof (induction s rule: b64_digits.induct)
  case (1 a b c s)
  then have "a < 256" "b < 256" "c < 256" by simp_all
  with 1 show ?case
    using pack_less [of "a mod 4" 4 "b div 16" 16] pack_less [of "b mod 16" 16 "c div 64" 4]
    by (simp add: byte_parts)
next
  case (2 a b)
  then show ?case
    using pack_less [of "a mod 4" 4 "b div 16" 16] pack_less [of "b mod 16" 16 0 4] by (simp add: byte_parts)
next
  case (3 a)
  then show ?case using pack_less [of "a mod 4" 4 0 16] by (simp add: byte_parts)
qed simp

lemma b64_bytes_digits: "\<forall>a \<in> set s. a < 256 \<Longrightarrow> b64_bytes (b64_digits s) = Some s"
proof (induction s rule: b64_digits.induct)
  case (1 a b c s)
  then have "b < 256" "c < 256" by simp_all
  with 1 show ?case by (simp add: byte_parts)
next
  case (2 a b)
  then have "b < 256" by simp
  moreover have "b mod 16 * 4 div 4 = b mod 16" by simp
  ultimately show ?case by (simp add: byte_parts)
next
  case (3 a)
  then show ?case by simp
qed simp

lemma of_char_bytes: "\<forall>a \<in> set (map of_char (s :: string)). (a :: nat) < 256"
  by auto

lemma b64_decode_encode [simp]: "b64_decode (b64_encode s) = Some s"
proof -
  let ?ns = "b64_digits (map of_char s)"
  have small: "\<forall>n \<in> set ?ns. n < 64" by (rule b64_digits_small [OF of_char_bytes])
  have "filter (\<lambda>ch. ch \<noteq> CHR 0x0D \<and> ch \<noteq> CHR 0x0A) (map b64_char ?ns) = map b64_char ?ns"
    using small b64_char_plain by (auto simp: filter_id_conv)
  moreover have "those (map b64_index (map b64_char ns)) = Some ns" if "\<forall>n \<in> set ns. n < 64" for ns
    using that by (induction ns) simp_all
  ultimately show ?thesis
    using small by (simp add: b64_decode_def b64_encode_def b64_bytes_digits [OF of_char_bytes] map_idI)
qed

lemma b64_encode_plain: "CHR ''.'' \<notin> set (b64_encode s)"
  using b64_digits_small [OF of_char_bytes, of s] b64_char_plain by (fastforce simp: b64_encode_def)

lemma b64_encode_Nil [simp]: "b64_encode s = [] \<longleftrightarrow> s = []"
proof -
  have "b64_digits ns = [] \<longleftrightarrow> ns = []" for ns by (cases ns rule: b64_digits.cases) simp_all
  then show ?thesis by (simp add: b64_encode_def)
qed

section \<open>Claims\<close>

record claims =
  cl_key :: string
  cl_execution :: string
  cl_node :: string
  cl_event :: string
  cl_subject :: string
  cl_action :: string
  cl_nonce :: string
  cl_issued :: int
  cl_expires :: int

record callback_options =
  op_max_ttl :: int
  op_skew :: int

datatype callback_error =
    ErrInvalidKey | ErrInvalidToken | ErrExpired | ErrNotYetValid | ErrTTLExceeded | ErrUnknownKey
  | ErrBindingInvalid | ErrBindingMismatch | ErrReplay | ErrCapacity

definition DefaultOptions :: callback_options where
  "DefaultOptions = \<lparr> op_max_ttl = 15 * 60 * 10 ^ 9, op_skew = 30 * 10 ^ 9 \<rparr>"

definition normalizeOptions :: "callback_options \<Rightarrow> callback_options" where
  "normalizeOptions opts =
     \<lparr> op_max_ttl = (if op_max_ttl opts \<le> 0 then op_max_ttl DefaultOptions else op_max_ttl opts),
       op_skew = (if op_skew opts < 0 then 0 else op_skew opts) \<rparr>"

text \<open>
  \<open>time.Unix(s, 0)\<close> keeps its seconds since the year 1 in an \<open>int64\<close>, so that seconds near the
  end of the range wrap around; \<open>Sub\<close> saturates at the largest and the smallest duration.
\<close>

definition wrap64 :: "int \<Rightarrow> int" where
  "wrap64 x = (x + 2 ^ 63) mod 2 ^ 64 - 2 ^ 63"

definition time_Unix :: "int \<Rightarrow> int" where
  "time_Unix s = (wrap64 (s + 62135596800) - 62135596800) * 10 ^ 9"

definition time_Sub :: "int \<Rightarrow> int \<Rightarrow> int" where
  "time_Sub a b = max (- (2 ^ 63)) (min (2 ^ 63 - 1) (a - b))"

definition key_char :: "char \<Rightarrow> bool" where
  "key_char ch \<longleftrightarrow>
     (CHR ''a'' \<le> ch \<and> ch \<le> CHR ''z'') \<or> (CHR ''A'' \<le> ch \<and> ch \<le> CHR ''Z'') \<or>
     (CHR ''0'' \<le> ch \<and> ch \<le> CHR ''9'') \<or> ch = CHR ''-'' \<or> ch = CHR ''_'' \<or> ch = CHR ''.''"

definition validKeyID :: "string \<Rightarrow> bool" where
  "validKeyID v \<longleftrightarrow> 0 < length v \<and> length v \<le> 64 \<and> list_all key_char v"

definition claims_validate :: "callback_options \<Rightarrow> int \<Rightarrow> claims \<Rightarrow> callback_error option" where
  "claims_validate opts now c =
     (let opts = normalizeOptions opts; issued = time_Unix (cl_issued c); expires = time_Unix (cl_expires c)
      in checks
        [fails_if (\<not> validKeyID (cl_key c) \<or> TrimSpace (cl_execution c) = [] \<or> TrimSpace (cl_node c) = [] \<or>
           TrimSpace (cl_event c) = [] \<or> TrimSpace (cl_nonce c) = []) ErrInvalidToken,
         fails_if (cl_issued c \<le> 0 \<or> cl_expires c \<le> cl_issued c) ErrInvalidToken,
         fails_if (now + op_skew opts < issued) ErrNotYetValid,
         fails_if (expires \<le> now - op_skew opts) ErrExpired,
         fails_if (op_max_ttl opts < time_Sub expires issued) ErrTTLExceeded])"

section \<open>Signing and verifying\<close>

type_synonym mac_function = "string \<Rightarrow> string \<Rightarrow> string"

record signer =
  sg_id :: string
  sg_key :: string
  sg_options :: callback_options

record keyring =
  kr_active :: string
  kr_keys :: "(string \<times> string) list"
  kr_options :: callback_options

definition MinKeyBytes :: nat where
  "MinKeyBytes = 32"

definition MaxTokenBytes :: nat where
  "MaxTokenBytes = 4096"

definition NewSignerWithID :: "string \<Rightarrow> string \<Rightarrow> callback_options \<Rightarrow> callback_error + signer" where
  "NewSignerWithID kid key opts =
     (if \<not> validKeyID kid \<or> length key < MinKeyBytes then Inl ErrInvalidKey
      else Inr \<lparr> sg_id = kid, sg_key = key, sg_options = normalizeOptions opts \<rparr>)"

definition NewSigner :: "string \<Rightarrow> callback_error + signer" where
  "NewSigner key = NewSignerWithID ''default'' key DefaultOptions"

text \<open>The defaults that signing fills in; \<open>now.Unix()\<close> rounds down.\<close>

definition stamped :: "string \<Rightarrow> int \<Rightarrow> claims \<Rightarrow> claims" where
  "stamped kid now c =
     c\<lparr> cl_key := (if cl_key c = [] then kid else cl_key c),
        cl_issued := (if cl_issued c = 0 then now div 10 ^ 9 else cl_issued c) \<rparr>"

definition Signer_Sign ::
  "mac_function \<Rightarrow> (claims \<Rightarrow> string) \<Rightarrow> signer \<Rightarrow> claims \<Rightarrow> int \<Rightarrow> callback_error + string" where
  "Signer_Sign mac enc s c now =
     (if length (sg_key s) < MinKeyBytes \<or> \<not> validKeyID (sg_id s) then Inl ErrInvalidKey
      else let c = stamped (sg_id s) now c
      in if cl_key c \<noteq> sg_id s then Inl ErrUnknownKey
      else case claims_validate (sg_options s) now c of
        Some e \<Rightarrow> Inl e
      | None \<Rightarrow>
          (let message = sg_id s @ ''.'' @ b64_encode (enc c);
               token = message @ ''.'' @ b64_encode (mac (sg_key s) message)
           in if MaxTokenBytes < length token then Inl ErrInvalidToken else Inr token))"

definition tokenParts :: "string \<Rightarrow> callback_error + (string \<times> string \<times> string)" where
  "tokenParts token =
     (if token = [] \<or> MaxTokenBytes < length token then Inl ErrInvalidToken
      else case split_on CHR ''.'' token of
        [kid, payload, sig] \<Rightarrow>
          if \<not> validKeyID kid \<or> payload = [] \<or> sig = [] then Inl ErrInvalidToken
          else Inr (kid, payload, sig)
      | _ \<Rightarrow> Inl ErrInvalidToken)"

definition verifyWithKey ::
  "mac_function \<Rightarrow> (string \<Rightarrow> claims option) \<Rightarrow> string \<Rightarrow> string \<Rightarrow> string \<Rightarrow> int \<Rightarrow>
     callback_options \<Rightarrow> callback_error + claims" where
  "verifyWithKey mac dec token kid key now opts =
     (if length key < MinKeyBytes then Inl ErrInvalidKey
      else case tokenParts token of
        Inl e \<Rightarrow> Inl e
      | Inr (tid, payload, sig) \<Rightarrow>
          if tid \<noteq> kid then Inl ErrUnknownKey
          else case b64_decode sig of
            None \<Rightarrow> Inl ErrInvalidToken
          | Some provided \<Rightarrow>
              if length provided \<noteq> 32 \<or> provided \<noteq> mac key (tid @ ''.'' @ payload) then Inl ErrInvalidToken
              else case b64_decode payload of
                None \<Rightarrow> Inl ErrInvalidToken
              | Some text \<Rightarrow>
                  (case dec text of
                     None \<Rightarrow> Inl ErrInvalidToken
                   | Some c \<Rightarrow>
                       if cl_key c \<noteq> tid then Inl ErrInvalidToken
                       else (case claims_validate opts now c of Some e \<Rightarrow> Inl e | None \<Rightarrow> Inr c)))"

definition Signer_Verify ::
  "mac_function \<Rightarrow> (string \<Rightarrow> claims option) \<Rightarrow> signer \<Rightarrow> string \<Rightarrow> int \<Rightarrow> callback_error + claims" where
  "Signer_Verify mac dec s token now =
     (if length (sg_key s) < MinKeyBytes then Inl ErrInvalidKey
      else verifyWithKey mac dec token (sg_id s) (sg_key s) now (sg_options s))"

text \<open>The keys of a ring are a map: the first of two keys with one id stands for it.\<close>

definition NewKeyring :: "string \<Rightarrow> (string \<times> string) list \<Rightarrow> callback_options \<Rightarrow> callback_error + keyring" where
  "NewKeyring active keys opts =
     (if \<not> validKeyID active \<or>
         \<not> list_all (\<lambda>(kid, key). validKeyID kid \<and> MinKeyBytes \<le> length key) keys \<or>
         map_of keys active = None
      then Inl ErrInvalidKey
      else Inr \<lparr> kr_active = active, kr_keys = keys, kr_options = normalizeOptions opts \<rparr>)"

definition Keyring_Sign ::
  "mac_function \<Rightarrow> (claims \<Rightarrow> string) \<Rightarrow> keyring \<Rightarrow> claims \<Rightarrow> int \<Rightarrow> callback_error + string" where
  "Keyring_Sign mac enc k c now =
     (case NewSignerWithID (kr_active k)
        (case map_of (kr_keys k) (kr_active k) of None \<Rightarrow> [] | Some key \<Rightarrow> key) (kr_options k) of
        Inl e \<Rightarrow> Inl e
      | Inr s \<Rightarrow> Signer_Sign mac enc s c now)"

definition Keyring_Verify ::
  "mac_function \<Rightarrow> (string \<Rightarrow> claims option) \<Rightarrow> keyring \<Rightarrow> string \<Rightarrow> int \<Rightarrow> callback_error + claims" where
  "Keyring_Verify mac dec k token now =
     (case tokenParts token of
        Inl e \<Rightarrow> Inl e
      | Inr (tid, payload, sig) \<Rightarrow>
          (case map_of (kr_keys k) tid of
             None \<Rightarrow> Inl ErrUnknownKey
           | Some key \<Rightarrow> verifyWithKey mac dec token tid key now (kr_options k)))"

section \<open>What verification establishes\<close>

lemma tokenParts_Inr:
  "tokenParts token = Inr (kid, payload, sig) \<longleftrightarrow>
     length token \<le> MaxTokenBytes \<and> split_on CHR ''.'' token = [kid, payload, sig] \<and>
     validKeyID kid \<and> payload \<noteq> [] \<and> sig \<noteq> []"
  by (auto simp: tokenParts_def split: list.splits if_splits)

lemma Keyring_Verify_Inr:
  "Keyring_Verify mac dec k token now = Inr c \<longleftrightarrow>
     (\<exists>payload sig key text. tokenParts token = Inr (cl_key c, payload, sig) \<and>
        map_of (kr_keys k) (cl_key c) = Some key \<and> MinKeyBytes \<le> length key \<and>
        b64_decode sig = Some (mac key (cl_key c @ ''.'' @ payload)) \<and>
        length (mac key (cl_key c @ ''.'' @ payload)) = 32 \<and>
        b64_decode payload = Some text \<and> dec text = Some c \<and> claims_validate (kr_options k) now c = None)"
  by (auto simp: Keyring_Verify_def verifyWithKey_def split: sum.splits option.splits if_splits)

lemma token_split:
  assumes "CHR ''.'' \<notin> set kid"
  shows "split_on CHR ''.'' (kid @ ''.'' @ b64_encode p @ ''.'' @ b64_encode m) = [kid, b64_encode p, b64_encode m]"
  using assms split_on_append [of "CHR ''.''" kid "b64_encode p @ ''.'' @ b64_encode m"]
    split_on_append [of "CHR ''.''" "b64_encode p" "b64_encode m"] split_on_single [of "CHR ''.''" "b64_encode m"]
  by (simp add: b64_encode_plain)

lemma Keyring_Sign_Inr:
  assumes "Keyring_Sign mac enc k c now = Inr token"
  obtains key where "map_of (kr_keys k) (kr_active k) = Some key" and "MinKeyBytes \<le> length key"
    and "validKeyID (kr_active k)" and "cl_key (stamped (kr_active k) now c) = kr_active k"
    and "claims_validate (kr_options k) now (stamped (kr_active k) now c) = None"
    and "token = kr_active k @ ''.'' @ b64_encode (enc (stamped (kr_active k) now c)) @ ''.'' @
      b64_encode (mac key (kr_active k @ ''.'' @ b64_encode (enc (stamped (kr_active k) now c))))"
    and "length token \<le> MaxTokenBytes"
  using assms
  by (auto simp: Keyring_Sign_def Signer_Sign_def NewSignerWithID_def Let_def claims_validate_def normalizeOptions_def
      MinKeyBytes_def split: option.splits sum.splits if_splits)

lemma claims_later:
  assumes "claims_validate opts t c = None" and "t \<le> now"
    and "now < time_Unix (cl_expires c) + op_skew (normalizeOptions opts)"
  shows "claims_validate opts now c = None"
  using assms by (auto simp: claims_validate_def Let_def check_simps)

text \<open>
  C37. A token that a key ring signs is a token that it verifies: whatever the claims, as long as
  the id of the active key has no dot, the ring reads the claims back, with the key id and the
  time of issue that signing filled in, from the time of signing to the expiry and the clock skew
  after it. The message authentication code is any function that delivers 32 bytes, and the JSON
  of these claims must read back as these claims.
\<close>

theorem signed_token_verifies:
  assumes "Keyring_Sign mac enc k c t = Inr token"
    and "CHR ''.'' \<notin> set (kr_active k)"
    and "dec (enc (stamped (kr_active k) t c)) = Some (stamped (kr_active k) t c)"
    and "enc (stamped (kr_active k) t c) \<noteq> []"
    and "\<And>key m. length (mac key m) = 32"
    and "t \<le> now" and "now < time_Unix (cl_expires c) + op_skew (normalizeOptions (kr_options k))"
  shows "Keyring_Verify mac dec k token now = Inr (stamped (kr_active k) t c)"
proof -
  let ?c = "stamped (kr_active k) t c"
  obtain key where key: "map_of (kr_keys k) (kr_active k) = Some key" "MinKeyBytes \<le> length key"
      "validKeyID (kr_active k)" "cl_key ?c = kr_active k" "length token \<le> MaxTokenBytes"
      "claims_validate (kr_options k) t ?c = None"
    and token: "token = kr_active k @ ''.'' @ b64_encode (enc ?c) @ ''.'' @
      b64_encode (mac key (kr_active k @ ''.'' @ b64_encode (enc ?c)))"
    using Keyring_Sign_Inr [OF assms(1)] .
  have nonempty: "mac key m \<noteq> []" for m using assms(5) [of key m] by auto
  have parts: "tokenParts token = Inr (cl_key ?c, b64_encode (enc ?c),
      b64_encode (mac key (kr_active k @ ''.'' @ b64_encode (enc ?c))))"
    using key(3-5) assms(4) nonempty token_split [OF assms(2)] unfolding tokenParts_Inr by (simp add: token)
  have "cl_expires ?c = cl_expires c" by (simp add: stamped_def)
  then have "claims_validate (kr_options k) now ?c = None"
    using claims_later [OF key(6) assms(6)] assms(7) by simp
  with parts key assms(3,5) show ?thesis unfolding Keyring_Verify_Inr by auto
qed

definition visitor_claims :: claims where
  "visitor_claims =
     \<lparr> cl_key = [], cl_execution = ''inc-1'', cl_node = ''await'', cl_event = ''ev-1'', cl_subject = [],
       cl_action = ''ack'', cl_nonce = ''n-1'', cl_issued = 0, cl_expires = 1060 \<rparr>"

definition sample_mac :: mac_function where
  "sample_mac key m = take 32 (m @ key @ replicate 32 CHR ''m'')"

definition sample_ring :: keyring where
  "sample_ring =
     \<lparr> kr_active = ''k1'', kr_keys = [(''k1'', replicate 32 CHR ''x''), (''k0'', replicate 32 CHR ''y'')],
       kr_options = DefaultOptions \<rparr>"

definition sample_encoder :: "claims \<Rightarrow> string" where
  "sample_encoder c = cl_nonce c"

definition sample_decoder :: "string \<Rightarrow> claims option" where
  "sample_decoder s = (if s = ''n-1'' then Some (stamped ''k1'' (1000 * 10 ^ 9) visitor_claims) else None)"

theorem signed_token_verifies_witness:
  "\<exists>token. Keyring_Sign sample_mac sample_encoder sample_ring visitor_claims (1000 * 10 ^ 9) = Inr token \<and>
     Keyring_Verify sample_mac sample_decoder sample_ring token (1089 * 10 ^ 9) =
       Inr (stamped ''k1'' (1000 * 10 ^ 9) visitor_claims)"
proof -
  let ?t = "1000 * 10 ^ 9 :: int"
  have "\<not> isl (Keyring_Sign sample_mac sample_encoder sample_ring visitor_claims ?t)" by code_simp
  then obtain token where token: "Keyring_Sign sample_mac sample_encoder sample_ring visitor_claims ?t = Inr token"
    by (cases "Keyring_Sign sample_mac sample_encoder sample_ring visitor_claims ?t") simp_all
  have active: "kr_active sample_ring = ''k1''" by (simp add: sample_ring_def)
  have "Keyring_Verify sample_mac sample_decoder sample_ring token (1089 * 10 ^ 9) =
      Inr (stamped (kr_active sample_ring) ?t visitor_claims)"
  proof (rule signed_token_verifies [OF token])
    show "1089 * 10 ^ 9 < time_Unix (cl_expires visitor_claims) + op_skew (normalizeOptions (kr_options sample_ring))"
      by code_simp
  qed (simp_all add: active sample_encoder_def sample_decoder_def stamped_def visitor_claims_def sample_mac_def)
  with token show ?thesis by (auto simp: active)
qed

text \<open>
  The restriction on the key id is needed: \<open>validKeyID\<close> admits dots, but a token is split at the
  dots, so no token that is signed with such a key is ever accepted.
\<close>

lemma split_on_length: "length (split_on sep s) = Suc (length (filter (\<lambda>ch. ch = sep) s))"
  by (induction s) (auto split: list.splits)

lemma dotted_key_rejected:
  assumes "Keyring_Sign mac enc k c t = Inr token" and "CHR ''.'' \<in> set (kr_active k)"
  shows "Keyring_Verify mac dec k token now = Inl ErrInvalidToken"
proof -
  from Keyring_Sign_Inr [OF assms(1)] obtain p m where token: "token = kr_active k @ ''.'' @ p @ ''.'' @ m"
    by metis
  have "filter (\<lambda>ch. ch = CHR ''.'') (kr_active k) \<noteq> []" using assms(2) by (simp add: filter_empty_conv)
  then have "3 < length (split_on CHR ''.'' token)"
    unfolding token split_on_length by (simp add: Suc_le_eq)
  then have "tokenParts token = Inl ErrInvalidToken"
    by (auto simp: tokenParts_def split: list.splits)
  then show ?thesis by (simp add: Keyring_Verify_def)
qed

end
