(* ===== verification/Admission.thy ===== *)
theory Admission
  imports Main
begin

text \<open>
  Filters that let an item through once: what the clients of a bounded memory rely on, stated as
  the locale \<open>replay_filter\<close>. The replay guard of the callbacks and the memory of the correlator
  are such filters; an item is held by the memory until as many others as it has room for have
  come after it.
\<close>

text \<open>A run of a filter: the items that it lets through, and the filter after them.\<close>

fun run_consume ::
  "('c \<Rightarrow> int \<Rightarrow> 'g \<Rightarrow> 'err option \<times> 'g) \<Rightarrow> ('c \<times> int) list \<Rightarrow> 'g \<Rightarrow> 'c list \<times> 'g" where
  "run_consume consume [] g = ([], g)"
| "run_consume consume ((c, t) # evs) g =
     (case consume c t g of
        (None, g') \<Rightarrow> (case run_consume consume evs g' of (cs, g'') \<Rightarrow> (c # cs, g''))
      | (Some _, g') \<Rightarrow> run_consume consume evs g')"

locale replay_filter =
  fixes consume :: "'c \<Rightarrow> int \<Rightarrow> 'g \<Rightarrow> 'err option \<times> 'g"
    and inv :: "'g \<Rightarrow> bool"
    and capacity :: "'g \<Rightarrow> nat"
    and holds :: "'c \<Rightarrow> nat \<Rightarrow> 'g \<Rightarrow> bool"
    and knows :: "'c \<Rightarrow> 'g \<Rightarrow> bool"
    and same :: "'c \<Rightarrow> 'c \<Rightarrow> bool"
    and current :: "'c \<Rightarrow> int \<Rightarrow> bool"
  assumes consume_inv: "inv g \<Longrightarrow> consume c t g = (err, g') \<Longrightarrow> inv g' \<and> capacity g' = capacity g"
    and lets_through_current: "consume c t g = (None, g') \<Longrightarrow> current c t"
    and holds_admitted: "inv g \<Longrightarrow> consume c t g = (None, g') \<Longrightarrow> holds c 0 g'"
    and holds_on: "inv g \<Longrightarrow> holds c d g \<Longrightarrow> current c t \<Longrightarrow> consume c' t g = (err, g') \<Longrightarrow>
      (err = None \<longrightarrow> Suc d < capacity g) \<Longrightarrow> holds c (if err = None then Suc d else d) g'"
    and held_refused: "inv g \<Longrightarrow> holds c d g \<Longrightarrow> current c t \<Longrightarrow> same c' c \<Longrightarrow> fst (consume c' t g) \<noteq> None"
    and unknown_admitted: "inv g \<Longrightarrow> \<not> knows c g \<Longrightarrow> current c t \<Longrightarrow> fst (consume c t g) = None"
    and learns: "inv g \<Longrightarrow> consume c' t g = (err, g') \<Longrightarrow> knows c g' \<Longrightarrow>
      knows c g \<or> err = None \<and> same c c'"
begin

lemma run_inv:
  "inv g \<Longrightarrow> run_consume consume evs g = (cs, g') \<Longrightarrow> inv g' \<and> capacity g' = capacity g"
proof (induction evs arbitrary: g cs)
  case (Cons x evs)
  obtain c t where x: "x = (c, t)" by fastforce
  obtain err g1 where c: "consume c t g = (err, g1)" by fastforce
  with consume_inv [OF Cons.prems(1)] have g1: "inv g1" "capacity g1 = capacity g" by blast+
  from Cons.prems(2) obtain cs' where "run_consume consume evs g1 = (cs', g')"
    by (auto simp: x c split: option.splits prod.splits)
  with Cons.IH [OF g1(1)] g1(2) show ?case by simp
qed simp

lemma run_holds:
  "inv g \<Longrightarrow> holds c d g \<Longrightarrow> \<forall>x \<in> set evs. current c (snd x) \<Longrightarrow>
     run_consume consume evs g = (cs, g') \<Longrightarrow> d + length cs < capacity g \<Longrightarrow> holds c (d + length cs) g'"
proof (induction evs arbitrary: g cs d)
  case (Cons x evs)
  obtain c' t where x: "x = (c', t)" by fastforce
  obtain err g1 where s: "consume c' t g = (err, g1)" by fastforce
  with consume_inv [OF Cons.prems(1)] have g1: "inv g1" "capacity g1 = capacity g" by blast+
  let ?d = "if err = None then Suc d else d"
  from Cons.prems(4) obtain cs' where cs': "run_consume consume evs g1 = (cs', g')"
      "d + length cs = ?d + length cs'"
    by (auto simp: x s split: option.splits prod.splits)
  have "err = None \<longrightarrow> Suc d < capacity g" using Cons.prems(5) cs'(2) by auto
  then have "holds c ?d g1"
    using holds_on [OF Cons.prems(1,2) _ s] Cons.prems(3) by (simp add: x)
  from Cons.IH [OF g1(1) this _ cs'(1)] Cons.prems(3,5) cs'(2) g1(2) show ?case by simp
qed simp

lemma run_learns:
  "inv g \<Longrightarrow> run_consume consume evs g = (cs, g') \<Longrightarrow> knows c g' \<Longrightarrow>
     knows c g \<or> (\<exists>c' \<in> set cs. same c c')"
proof (induction evs arbitrary: g cs)
  case (Cons x evs)
  obtain c' t where x: "x = (c', t)" by fastforce
  obtain err g1 where s: "consume c' t g = (err, g1)" by fastforce
  with consume_inv [OF Cons.prems(1)] have g1: "inv g1" by blast
  from Cons.prems(2) obtain cs' where cs': "run_consume consume evs g1 = (cs', g')"
      "cs = (if err = None then c' # cs' else cs')"
    by (auto simp: x s split: option.splits prod.splits)
  from Cons.IH [OF g1 cs'(1) Cons.prems(3)] learns [OF Cons.prems(1) s] cs'(2) show ?case by auto
qed simp

lemma let_through_once:
  assumes "inv g" and "consume c t g = (None, g1)" and "run_consume consume evs g1 = (cs, g2)"
    and "length cs < capacity g" and "\<forall>x \<in> set evs. current c (snd x)" and "current c t'" and "same c' c"
  shows "fst (consume c' t' g2) \<noteq> None"
proof -
  from consume_inv [OF assms(1,2)] have g1: "inv g1" "capacity g1 = capacity g" by blast+
  have "holds c (0 + length cs) g2"
    by (rule run_holds [OF g1(1) holds_admitted [OF assms(1,2)] assms(5,3)]) (simp add: assms(4) g1(2))
  with run_inv [OF g1(1) assms(3)] held_refused assms(6,7) show ?thesis by blast
qed

lemma unused_let_through:
  assumes "inv g" and "run_consume consume evs g = (cs, g')" and "\<not> knows c g"
    and "\<not> (\<exists>c' \<in> set cs. same c c')" and "current c t"
  shows "fst (consume c t g') = None"
  using run_learns [OF assms(1,2)] run_inv [OF assms(1,2)] unknown_admitted assms(3-5) by blast

end

end
