(* ===== verification/Callbacks.thy ===== *)
theory Callbacks
  imports Tokens Admission
begin

text \<open>
  Who may call back, \<open>security/callback/replay.go\<close>, \<open>accept.go\<close> and \<open>runtime.go\<close>: the bounded
  memory of the tokens that were used, the acceptor that joins verification, exact binding and
  admission, and the runtime that builds both from configured keys.

  The guard and the acceptor hold a lock for the whole of an operation, so an operation is one
  step. Keys of the memory join the key id and the nonce with a zero byte. Wiping the buffers of
  the resolved keys is left out: the model copies.
\<close>

section \<open>The replay guard\<close>

record replay_guard =
  rg_max :: int
  rg_seen :: "string \<rightharpoonup> int"
  rg_ordered :: "(string \<times> int) list"

definition NewReplayGuard :: "int \<Rightarrow> callback_error + replay_guard" where
  "NewReplayGuard n =
     (if n \<le> 0 then Inl ErrCapacity else Inr \<lparr> rg_max = n, rg_seen = Map.empty, rg_ordered = [] \<rparr>)"

definition forget :: "string \<times> int \<Rightarrow> (string \<rightharpoonup> int) \<Rightarrow> (string \<rightharpoonup> int)" where
  "forget x seen = (if seen (fst x) = Some (snd x) then seen(fst x := None) else seen)"

fun prune_loop :: "int \<Rightarrow> (string \<rightharpoonup> int) \<Rightarrow> (string \<times> int) list \<Rightarrow> (string \<rightharpoonup> int) \<times> (string \<times> int) list" where
  "prune_loop now seen [] = (seen, [])"
| "prune_loop now seen (x # xs) =
     (if snd x \<le> now then prune_loop now (forget x seen) xs else (seen, x # xs))"

definition prune :: "int \<Rightarrow> replay_guard \<Rightarrow> replay_guard" where
  "prune now g =
     (let (seen, ordered) = prune_loop now (rg_seen g) (rg_ordered g)
      in g\<lparr> rg_seen := seen, rg_ordered := ordered \<rparr>)"

fun evict :: "int \<Rightarrow> (string \<rightharpoonup> int) \<Rightarrow> (string \<times> int) list \<Rightarrow> (string \<rightharpoonup> int) \<times> (string \<times> int) list" where
  "evict n seen [] = (seen, [])"
| "evict n seen (x # xs) =
     (if n < int (length (x # xs)) then evict n (forget x seen) xs else (seen, x # xs))"

definition replay_key :: "claims \<Rightarrow> string" where
  "replay_key c = cl_key c @ [CHR 0x00] @ cl_nonce c"

definition admit :: "string \<Rightarrow> int \<Rightarrow> replay_guard \<Rightarrow> replay_guard" where
  "admit key e g =
     (let (seen, ordered) = evict (rg_max g) ((rg_seen g)(key \<mapsto> e)) (rg_ordered g @ [(key, e)])
      in g\<lparr> rg_seen := seen, rg_ordered := ordered \<rparr>)"

definition Consume :: "claims \<Rightarrow> int \<Rightarrow> replay_guard \<Rightarrow> callback_error option \<times> replay_guard" where
  "Consume c now g =
     (if TrimSpace (cl_key c) = [] \<or> TrimSpace (cl_nonce c) = [] then (Some ErrInvalidToken, g)
      else if time_Unix (cl_expires c) \<le> now then (Some ErrExpired, g)
      else let g = prune now g
      in case rg_seen g (replay_key c) of
           Some current \<Rightarrow>
             if now < current then (Some ErrReplay, g)
             else (None, admit (replay_key c) (time_Unix (cl_expires c)) g)
         | None \<Rightarrow> (None, admit (replay_key c) (time_Unix (cl_expires c)) g))"

section \<open>The acceptor\<close>

record binding =
  bd_execution :: string
  bd_node :: string
  bd_event :: string
  bd_action :: string

definition binding_Validate :: "binding \<Rightarrow> callback_error option" where
  "binding_Validate b =
     fails_if (TrimSpace (bd_execution b) = [] \<or> TrimSpace (bd_node b) = [] \<or> TrimSpace (bd_event b) = [] \<or>
       TrimSpace (bd_action b) = []) ErrBindingInvalid"

definition Matches :: "binding \<Rightarrow> claims \<Rightarrow> bool" where
  "Matches b c \<longleftrightarrow>
     cl_execution c = bd_execution b \<and> cl_node c = bd_node b \<and> cl_event c = bd_event b \<and> cl_action c = bd_action b"

text \<open>
  What a caller presents: a token, the route it is meant for, and what the clocks of the key ring
  and of the acceptor show. \<^const>\<open>None\<close> in the answer are the empty claims.
\<close>

record presentation =
  pr_token :: string
  pr_expected :: binding
  pr_verified_at :: int
  pr_admitted_at :: int

type_synonym acceptance = "claims option \<times> callback_error option"

definition Accept ::
  "mac_function \<Rightarrow> (string \<Rightarrow> claims option) \<Rightarrow> keyring \<Rightarrow> presentation \<Rightarrow> replay_guard \<Rightarrow>
     acceptance \<times> replay_guard" where
  "Accept mac dec k p g =
     (case binding_Validate (pr_expected p) of
        Some e \<Rightarrow> ((None, Some e), g)
      | None \<Rightarrow>
          (case Keyring_Verify mac dec k (pr_token p) (pr_verified_at p) of
             Inl e \<Rightarrow> ((None, Some e), g)
           | Inr c \<Rightarrow>
               if \<not> Matches (pr_expected p) c then ((None, Some ErrBindingMismatch), g)
               else (case Consume c (pr_admitted_at p) g of (err, g') \<Rightarrow> ((Some c, err), g'))))"

section \<open>The runtime\<close>

record runtime_config =
  rc_active :: string
  rc_keys :: "(string \<times> string) list"
  rc_options :: callback_options
  rc_capacity :: int

datatype runtime_error = NoKeys | ResolveFailed string | CallbackFailed callback_error

fun resolve_keys :: "(string \<Rightarrow> string option) \<Rightarrow> (string \<times> string) list \<Rightarrow> runtime_error + (string \<times> string) list" where
  "resolve_keys resolver [] = Inr []"
| "resolve_keys resolver ((kid, ref) # refs) =
     (case resolver ref of
        None \<Rightarrow> Inl (ResolveFailed kid)
      | Some key \<Rightarrow> (case resolve_keys resolver refs of Inl e \<Rightarrow> Inl e | Inr keys \<Rightarrow> Inr ((kid, key) # keys)))"

definition OpenRuntime :: "runtime_config \<Rightarrow> (string \<Rightarrow> string option) \<Rightarrow> runtime_error + keyring \<times> replay_guard" where
  "OpenRuntime cfg resolver =
     (if rc_keys cfg = [] then Inl NoKeys
      else case resolve_keys resolver (rc_keys cfg) of
        Inl e \<Rightarrow> Inl e
      | Inr material \<Rightarrow>
          (case NewKeyring (rc_active cfg) material (rc_options cfg) of
             Inl e \<Rightarrow> Inl (CallbackFailed e)
           | Inr k \<Rightarrow>
               (case NewReplayGuard (rc_capacity cfg) of
                  Inl e \<Rightarrow> Inl (CallbackFailed e)
                | Inr g \<Rightarrow> Inr (k, g))))"

section \<open>The memory is a window of admissions\<close>

text \<open>
  The map and the list of the guard say the same: the map is the list read from its end. Two
  entries with one key are in the order of their expiries, so forgetting an entry never forgets a
  later one.
\<close>

definition window_ok :: "(string \<times> int) list \<Rightarrow> bool" where
  "window_ok w \<longleftrightarrow> sorted_wrt (\<lambda>x y. fst x = fst y \<longrightarrow> snd x < snd y) w"

definition guard_inv :: "replay_guard \<Rightarrow> bool" where
  "guard_inv g \<longleftrightarrow>
     rg_seen g = map_of (rev (rg_ordered g)) \<and> window_ok (rg_ordered g) \<and>
     0 < rg_max g \<and> int (length (rg_ordered g)) \<le> rg_max g"

lemma forget_first:
  assumes "window_ok (x # xs)"
  shows "forget x (map_of (rev (x # xs))) = map_of (rev xs)"
proof -
  obtain k e where x: "x = (k, e)" by fastforce
  show ?thesis
  proof (cases "map_of (rev xs) k")
    case None
    then show ?thesis by (auto simp: x forget_def map_add_def split: option.split)
  next
    case (Some e')
    then have "(k, e') \<in> set xs" by (auto dest: map_of_SomeD)
    then have "e < e'" using assms by (auto simp: window_ok_def x)
    with Some show ?thesis by (auto simp: x forget_def map_add_def fun_eq_iff split: option.split)
  qed
qed

lemma window_ok_Cons: "window_ok (x # xs) \<Longrightarrow> window_ok xs"
  by (simp add: window_ok_def)

lemma window_suffix: "window_ok (xs @ ys) \<Longrightarrow> window_ok ys"
  by (simp add: window_ok_def sorted_wrt_append)

lemma prune_window:
  "window_ok w \<Longrightarrow> prune_loop now (map_of (rev w)) w =
     (map_of (rev (dropWhile (\<lambda>x. snd x \<le> now) w)), dropWhile (\<lambda>x. snd x \<le> now) w)"
  by (induction w) (simp_all only: prune_loop.simps forget_first window_ok_Cons dropWhile.simps if_True if_False
      list.simps split: if_splits, simp_all)

lemma evict_window:
  "window_ok w \<Longrightarrow> evict n (map_of (rev w)) w =
     (map_of (rev (drop (nat (int (length w) - n)) w)), drop (nat (int (length w) - n)) w)"
proof (induction w)
  case (Cons x xs)
  show ?case
  proof (cases "n < int (length (x # xs))")
    case True
    then have d: "nat (int (length (x # xs)) - n) = Suc (nat (int (length xs) - n))" by auto
    from True have "evict n (map_of (rev (x # xs))) (x # xs) = evict n (map_of (rev xs)) xs"
      by (simp only: evict.simps forget_first [OF Cons.prems] if_True)
    with Cons.IH [OF window_ok_Cons [OF Cons.prems]] show ?thesis by (simp only: d drop_Suc_Cons)
  qed simp
qed simp

definition live :: "int \<Rightarrow> (string \<times> int) list \<Rightarrow> (string \<times> int) list" where
  "live now w = dropWhile (\<lambda>x. snd x \<le> now) w"

definition last_of :: "int \<Rightarrow> 'a list \<Rightarrow> 'a list" where
  "last_of n w = drop (nat (int (length w) - n)) w"

lemma window_ok_live: "window_ok w \<Longrightarrow> window_ok (live now w)"
  unfolding live_def by (rule window_suffix [of "takeWhile (\<lambda>x. snd x \<le> now) w"]) simp

lemma window_ok_last_of: "window_ok w \<Longrightarrow> window_ok (last_of n w)"
  unfolding last_of_def by (rule window_suffix [of "take (nat (int (length w) - n)) w"]) simp

lemma length_last_of: "0 \<le> n \<Longrightarrow> int (length (last_of n w)) \<le> n"
  unfolding last_of_def length_drop by linarith

lemma prune_inv:
  assumes "guard_inv g"
  shows "rg_ordered (prune now g) = live now (rg_ordered g)"
    and "rg_seen (prune now g) = map_of (rev (live now (rg_ordered g)))"
    and "rg_max (prune now g) = rg_max g" and "guard_inv (prune now g)"
proof -
  from assms have w: "rg_seen g = map_of (rev (rg_ordered g))" "window_ok (rg_ordered g)"
    by (simp_all add: guard_inv_def)
  have p: "prune now g = g\<lparr> rg_seen := map_of (rev (live now (rg_ordered g))), rg_ordered := live now (rg_ordered g) \<rparr>"
    by (simp add: prune_def w(1) prune_window [OF w(2)] live_def)
  have "int (length (live now (rg_ordered g))) \<le> int (length (rg_ordered g))"
    by (simp add: live_def length_dropWhile_le)
  with assms p show "rg_ordered (prune now g) = live now (rg_ordered g)"
    "rg_seen (prune now g) = map_of (rev (live now (rg_ordered g)))"
    "rg_max (prune now g) = rg_max g" "guard_inv (prune now g)"
    by (simp_all add: guard_inv_def window_ok_live)
qed

lemma admit_inv:
  assumes "guard_inv g" and "\<And>e'. (key, e') \<in> set (rg_ordered g) \<Longrightarrow> e' < e"
  shows "rg_ordered (admit key e g) = last_of (rg_max g) (rg_ordered g @ [(key, e)])"
    and "rg_max (admit key e g) = rg_max g" and "guard_inv (admit key e g)"
proof -
  let ?w = "rg_ordered g @ [(key, e)]"
  from assms have w: "window_ok ?w" by (auto simp: guard_inv_def window_ok_def sorted_wrt_append)
  have "(rg_seen g)(key \<mapsto> e) = map_of (rev ?w)" using assms(1) by (simp add: guard_inv_def)
  then have p: "admit key e g =
      g\<lparr> rg_seen := map_of (rev (last_of (rg_max g) ?w)), rg_ordered := last_of (rg_max g) ?w \<rparr>"
    by (simp only: admit_def evict_window [OF w] last_of_def Let_def prod.case)
  have "int (length (last_of (rg_max g) ?w)) \<le> rg_max g"
    using assms(1) length_last_of [of "rg_max g" ?w] by (simp add: guard_inv_def)
  with assms(1) p window_ok_last_of [OF w] show "rg_ordered (admit key e g) = last_of (rg_max g) ?w"
    "rg_max (admit key e g) = rg_max g" "guard_inv (admit key e g)"
    by (simp_all add: guard_inv_def)
qed

text \<open>
  What the guard does, in terms of the window alone: the expired entries at its front go, a key
  with a live entry is a replay, any other key is put at the end, and no more than \<open>rg_max\<close>
  entries stay.
\<close>

fun spec_consume :: "int \<Rightarrow> string \<Rightarrow> int \<Rightarrow> int \<Rightarrow> (string \<times> int) list \<Rightarrow> bool \<times> (string \<times> int) list" where
  "spec_consume n key e now w =
     (let w = live now w
      in if \<exists>x \<in> set w. fst x = key \<and> now < snd x then (False, w) else (True, last_of n (w @ [(key, e)])))"

definition well_formed :: "claims \<Rightarrow> int \<Rightarrow> bool" where
  "well_formed c now \<longleftrightarrow>
     TrimSpace (cl_key c) \<noteq> [] \<and> TrimSpace (cl_nonce c) \<noteq> [] \<and> now < time_Unix (cl_expires c)"

lemma window_last:
  "window_ok w \<Longrightarrow> map_of (rev w) k = Some e \<Longrightarrow> (k, e') \<in> set w \<Longrightarrow> e' \<le> e"
proof (induction w rule: rev_induct)
  case (snoc x xs)
  obtain a b where x: "x = (a, b)" by fastforce
  from snoc.prems(1) have w: "window_ok xs" "\<And>y. y \<in> set xs \<Longrightarrow> fst y = a \<Longrightarrow> snd y < b"
    by (auto simp: window_ok_def sorted_wrt_append x)
  show ?case
  proof (cases "a = k")
    case True
    with snoc.prems(2,3) w(2) [of "(k, e')"] show ?thesis by (auto simp: x)
  next
    case False
    with snoc.prems(2,3) snoc.IH [OF w(1)] show ?thesis by (auto simp: x)
  qed
qed simp

lemma live_entry:
  assumes "window_ok w"
  shows "(\<exists>x \<in> set w. fst x = k \<and> now < snd x) \<longleftrightarrow> (\<exists>e. map_of (rev w) k = Some e \<and> now < e)"
proof
  assume "\<exists>x \<in> set w. fst x = k \<and> now < snd x"
  then obtain e' where e': "(k, e') \<in> set w" "now < e'" by auto
  then obtain e where e: "map_of (rev w) k = Some e"
    using weak_map_of_SomeI [of k e' "rev w"] by auto
  with window_last [OF assms e e'(1)] e'(2) show "\<exists>e. map_of (rev w) k = Some e \<and> now < e" by auto
next
  assume "\<exists>e. map_of (rev w) k = Some e \<and> now < e"
  then show "\<exists>x \<in> set w. fst x = k \<and> now < snd x" by (force dest: map_of_SomeD)
qed

lemma Consume_refines:
  assumes "guard_inv g" and "well_formed c now" and "Consume c now g = (err, g')"
  shows "spec_consume (rg_max g) (replay_key c) (time_Unix (cl_expires c)) now (rg_ordered g) =
      (err = None, rg_ordered g')"
    and "err = None \<or> err = Some ErrReplay" and "guard_inv g'" and "rg_max g' = rg_max g"
proof -
  let ?k = "replay_key c" and ?e = "time_Unix (cl_expires c)" and ?p = "prune now g"
  let ?w = "live now (rg_ordered g)"
  note p = prune_inv [OF assms(1), of now]
  have w: "window_ok ?w" using assms(1) by (simp add: guard_inv_def window_ok_live)
  have consume: "(err, g') = (case rg_seen ?p ?k of
       Some current \<Rightarrow> if now < current then (Some ErrReplay, ?p) else (None, admit ?k ?e ?p)
     | None \<Rightarrow> (None, admit ?k ?e ?p))"
    using assms(2,3) by (auto simp: Consume_def well_formed_def Let_def split: option.splits)
  have goal: "spec_consume (rg_max g) ?k ?e now (rg_ordered g) = (err = None, rg_ordered g') \<and>
      (err = None \<or> err = Some ErrReplay) \<and> guard_inv g' \<and> rg_max g' = rg_max g"
  proof (cases "\<exists>current. rg_seen ?p ?k = Some current \<and> now < current")
    case True
    with consume have g': "err = Some ErrReplay" "g' = ?p" by auto
    from True have "\<exists>x \<in> set ?w. fst x = ?k \<and> now < snd x" unfolding live_entry [OF w] by (simp only: p(2))
    with g' p show ?thesis by (simp add: Let_def)
  next
    case False
    with consume have g': "err = None" "g' = admit ?k ?e ?p" by (auto split: option.splits)
    from False have fresh: "\<not> (\<exists>x \<in> set ?w. fst x = ?k \<and> now < snd x)"
      unfolding live_entry [OF w] by (simp only: p(2) simp_thms)
    have "e' < ?e" if "(?k, e') \<in> set (rg_ordered ?p)" for e'
      using fresh that assms(2) by (fastforce simp: p(1) well_formed_def)
    from admit_inv [OF p(4) this] g' fresh show ?thesis by (simp add: Let_def p)
  qed
  then show "spec_consume (rg_max g) ?k ?e now (rg_ordered g) = (err = None, rg_ordered g')"
    "err = None \<or> err = Some ErrReplay" "guard_inv g'" "rg_max g' = rg_max g" by blast+
qed

lemma Consume_malformed: "\<not> well_formed c now \<Longrightarrow> snd (Consume c now g) = g \<and> fst (Consume c now g) \<noteq> None"
  by (auto simp: Consume_def well_formed_def)

section \<open>The replay guard as a filter\<close>

definition held :: "claims \<Rightarrow> nat \<Rightarrow> replay_guard \<Rightarrow> bool" where
  "held c d g \<longleftrightarrow>
     (\<exists>before_it since. rg_ordered g = before_it @ (replay_key c, time_Unix (cl_expires c)) # since \<and> length since \<le> d)"

definition remembered :: "claims \<Rightarrow> replay_guard \<Rightarrow> bool" where
  "remembered c g \<longleftrightarrow> replay_key c \<in> fst ` set (rg_ordered g)"

definition guard_capacity :: "replay_guard \<Rightarrow> nat" where
  "guard_capacity g = nat (rg_max g)"

definition same_token :: "claims \<Rightarrow> claims \<Rightarrow> bool" where
  "same_token c c' \<longleftrightarrow> replay_key c = replay_key c'"

lemma live_keeps:
  assumes "now < e"
  shows "\<exists>b. live now (before_it @ (k, e) # since) = b @ (k, e) # since"
  unfolding live_def using assms by (induction before_it) auto

lemma last_of_keeps:
  assumes "int (Suc (length since)) \<le> n"
  shows "\<exists>b. last_of n (before_it @ x # since) = b @ x # since"
proof -
  have "nat (int (length (before_it @ x # since)) - n) \<le> length before_it" using assms by simp
  then show ?thesis unfolding last_of_def by (simp only: drop_append) simp
qed

lemma live_subset: "set (live now w) \<subseteq> set w"
  unfolding live_def by (auto dest: set_dropWhileD)

lemma last_of_subset: "set (last_of n w) \<subseteq> set w"
  unfolding last_of_def by (rule set_drop_subset)

lemma Consume_admitted: "Consume c t g = (None, g') \<Longrightarrow> well_formed c t"
  using Consume_malformed [of c t g] by auto

lemma Consume_inv:
  assumes "guard_inv g" and "Consume c t g = (err, g')"
  shows "guard_inv g' \<and> rg_max g' = rg_max g"
  using Consume_refines(3,4) [OF assms(1) _ assms(2)] Consume_malformed [of c t g] assms by auto

text \<open>The window after an operation: what it was, cut at the front, perhaps with one entry more.\<close>

lemma Consume_window:
  assumes "guard_inv g" and "well_formed c t" and "Consume c t g = (err, g')"
  shows "err = None \<Longrightarrow> rg_ordered g' =
      last_of (rg_max g) (live t (rg_ordered g) @ [(replay_key c, time_Unix (cl_expires c))])"
    and "err \<noteq> None \<Longrightarrow> rg_ordered g' = live t (rg_ordered g)"
    and "err = None \<longleftrightarrow> \<not> (\<exists>x \<in> set (live t (rg_ordered g)). fst x = replay_key c \<and> t < snd x)"
  using Consume_refines(1) [OF assms] by (auto simp: Let_def split: if_splits)

lemma held_admitted:
  assumes "guard_inv g" and "Consume c t g = (None, g')"
  shows "held c 0 g'"
proof -
  have "int (Suc (length [])) \<le> rg_max g" using assms(1) by (simp add: guard_inv_def)
  from last_of_keeps [OF this] Consume_window(1) [OF assms(1) Consume_admitted [OF assms(2)] assms(2)]
  show ?thesis by (auto simp: held_def)
qed

lemma held_on:
  assumes inv: "guard_inv g" and "held c d g" and t: "well_formed c t" and consume: "Consume c' t g = (err, g')"
    and room: "err = None \<longrightarrow> Suc d < guard_capacity g"
  shows "held c (if err = None then Suc d else d) g'"
proof (cases "well_formed c' t")
  case False
  with Consume_malformed [of c' t g] consume assms(2) show ?thesis by auto
next
  case True
  let ?x = "(replay_key c, time_Unix (cl_expires c))"
  from assms(2) obtain b since where w: "rg_ordered g = b @ ?x # since" "length since \<le> d"
    by (auto simp: held_def)
  have "t < time_Unix (cl_expires c)" using t by (simp add: well_formed_def)
  then obtain b' where l: "live t (rg_ordered g) = b' @ ?x # since" using live_keeps unfolding w(1) by blast
  show ?thesis
  proof (cases err)
    case None
    have "rg_ordered g' =
        last_of (rg_max g) (b' @ ?x # (since @ [(replay_key c', time_Unix (cl_expires c'))]))"
      using Consume_window(1) [OF inv True consume None] by (simp add: l)
    moreover have "int (Suc (length (since @ [(replay_key c', time_Unix (cl_expires c'))]))) \<le> rg_max g"
      using room None w(2) by (simp add: guard_capacity_def)
    ultimately show ?thesis
      using last_of_keeps w(2) None by (fastforce simp: held_def)
  next
    case (Some e)
    with Consume_window(2) [OF inv True consume] l w(2) show ?thesis by (auto simp: held_def)
  qed
qed

lemma held_replay:
  assumes "guard_inv g" and "held c d g" and "well_formed c t" and "same_token c' c"
  shows "fst (Consume c' t g) \<noteq> None"
proof (cases "well_formed c' t")
  case False
  then show ?thesis using Consume_malformed by blast
next
  case True
  let ?x = "(replay_key c, time_Unix (cl_expires c))"
  from assms(2) obtain b since where w: "rg_ordered g = b @ ?x # since" by (auto simp: held_def)
  have "t < time_Unix (cl_expires c)" using assms(3) by (simp add: well_formed_def)
  from live_keeps [OF this, of b "replay_key c" since] obtain b' where "live t (rg_ordered g) = b' @ ?x # since"
    unfolding w by blast
  then have "?x \<in> set (live t (rg_ordered g))" by simp
  with assms(3,4) Consume_window(3) [OF assms(1) True surjective_pairing]
  show ?thesis by (auto simp: same_token_def well_formed_def)
qed

lemma unknown_current:
  assumes "guard_inv g" and "\<not> remembered c g" and "well_formed c t"
  shows "fst (Consume c t g) = None"
  unfolding Consume_window(3) [OF assms(1,3) surjective_pairing]
  using assms(2) subsetD [OF live_subset [of t "rg_ordered g"]] by (fastforce simp: remembered_def image_iff)

lemma remembered_learns:
  assumes "guard_inv g" and "Consume c' t g = (err, g')" and "remembered c g'"
  shows "remembered c g \<or> err = None \<and> same_token c c'"
proof (cases "well_formed c' t")
  case False
  with Consume_malformed [of c' t g] assms(2,3) show ?thesis by auto
next
  case True
  have "set (rg_ordered g') \<subseteq> set (rg_ordered g) \<union> (if err = None then {(replay_key c', time_Unix (cl_expires c'))} else {})"
  proof (cases err)
    case None
    from Consume_window(1) [OF assms(1) True assms(2) None] show ?thesis
      using None last_of_subset live_subset by fastforce
  next
    case (Some e)
    with Consume_window(2) [OF assms(1) True assms(2)] live_subset show ?thesis by auto
  qed
  with assms(3) show ?thesis by (fastforce simp: remembered_def same_token_def split: if_splits)
qed

interpretation admission: replay_filter Consume guard_inv guard_capacity held remembered same_token well_formed
proof
  show "guard_inv g' \<and> guard_capacity g' = guard_capacity g" if "guard_inv g" "Consume c t g = (err, g')" for g c t err g'
    using Consume_inv [OF that] by (simp add: guard_capacity_def)
  show "well_formed c t" if "Consume c t g = (None, g')" for c t g g'
    using that by (rule Consume_admitted)
  show "held c 0 g'" if "guard_inv g" "Consume c t g = (None, g')" for c t g g'
    using that by (rule held_admitted)
  show "held c (if err = None then Suc d else d) g'"
    if "guard_inv g" "held c d g" "well_formed c t" "Consume c' t g = (err, g')"
      "err = None \<longrightarrow> Suc d < guard_capacity g" for c d t c' g err g'
    using that by (rule held_on)
  show "fst (Consume c' t g) \<noteq> None"
    if "guard_inv g" "held c d g" "well_formed c t" "same_token c' c" for g c d t c'
    using that by (rule held_replay)
  show "fst (Consume c t g) = None" if "guard_inv g" "\<not> remembered c g" "well_formed c t" for g c t
    using that by (rule unknown_current)
  show "remembered c g \<or> err = None \<and> same_token c c'"
    if "guard_inv g" "Consume c' t g = (err, g')" "remembered c g'" for g c' t err g' c
    using that by (rule remembered_learns)
qed

section \<open>Runs of the acceptor\<close>

text \<open>The claims that are accepted while callers present one token after the other.\<close>

fun present_all ::
  "mac_function \<Rightarrow> (string \<Rightarrow> claims option) \<Rightarrow> keyring \<Rightarrow> presentation list \<Rightarrow> replay_guard \<Rightarrow>
     claims list \<times> replay_guard" where
  "present_all mac dec k [] g = ([], g)"
| "present_all mac dec k (p # ps) g =
     (case Accept mac dec k p g of
        ((Some c, None), g') \<Rightarrow> (case present_all mac dec k ps g' of (cs, g'') \<Rightarrow> (c # cs, g''))
      | (_, g') \<Rightarrow> present_all mac dec k ps g')"

definition routed :: "mac_function \<Rightarrow> (string \<Rightarrow> claims option) \<Rightarrow> keyring \<Rightarrow> presentation \<Rightarrow> (claims \<times> int) list" where
  "routed mac dec k p =
     (if binding_Validate (pr_expected p) \<noteq> None then []
      else case Keyring_Verify mac dec k (pr_token p) (pr_verified_at p) of
        Inl e \<Rightarrow> []
      | Inr c \<Rightarrow> if Matches (pr_expected p) c then [(c, pr_admitted_at p)] else [])"

lemma Accept_routed:
  "Accept mac dec k p g = (case routed mac dec k p of
       [] \<Rightarrow> ((None, snd (fst (Accept mac dec k p g))), g)
     | (c, t) # _ \<Rightarrow> ((Some c, fst (Consume c t g)), snd (Consume c t g)))"
  "routed mac dec k p = [] \<Longrightarrow> snd (fst (Accept mac dec k p g)) \<noteq> None"
  by (auto simp: Accept_def routed_def split: option.splits sum.splits prod.splits)

lemma present_all_run:
  "present_all mac dec k ps g = run_consume Consume (concat (map (routed mac dec k) ps)) g"
proof (induction ps arbitrary: g)
  case (Cons p ps)
  show ?case
  proof (cases "routed mac dec k p")
    case Nil
    then obtain e where "Accept mac dec k p g = ((None, Some e), g)"
      using Accept_routed [of mac dec k p g] by (cases "snd (fst (Accept mac dec k p g))") auto
    with Nil Cons show ?thesis by simp
  next
    case (Cons x xs)
    then obtain c t where r: "routed mac dec k p = [(c, t)]"
      by (auto simp: routed_def split: sum.splits if_splits)
    obtain err g' where "Consume c t g = (err, g')" by fastforce
    with r Cons.IH Accept_routed(1) [of mac dec k p g] show ?thesis
      by (cases err) (simp_all split: prod.split)
  qed
qed simp

lemma new_guard_inv: "NewReplayGuard n = Inr g \<Longrightarrow> guard_inv g \<and> guard_capacity g = nat n \<and> rg_ordered g = []"
  by (auto simp: NewReplayGuard_def guard_inv_def guard_capacity_def window_ok_def split: if_splits)

lemma Accept_accepted:
  assumes "Accept mac dec k p g = ((Some c, None), g')"
  shows "routed mac dec k p = [(c, pr_admitted_at p)]" and "Consume c (pr_admitted_at p) g = (None, g')"
    and "Keyring_Verify mac dec k (pr_token p) (pr_verified_at p) = Inr c"
    and "Matches (pr_expected p) c" and "binding_Validate (pr_expected p) = None"
  using assms by (auto simp: Accept_def routed_def split: option.splits sum.splits prod.splits if_splits)

lemma routed_verified:
  "(c, t) \<in> set (routed mac dec k p) \<Longrightarrow>
     Keyring_Verify mac dec k (pr_token p) (pr_verified_at p) = Inr c \<and> t = pr_admitted_at p"
  by (auto simp: routed_def split: sum.splits if_splits)

lemma verified_key: "Keyring_Verify mac dec k token t = Inr c \<Longrightarrow> CHR 0x00 \<notin> set (cl_key c) \<and>
    TrimSpace (cl_key c) \<noteq> [] \<and> TrimSpace (cl_nonce c) \<noteq> []"
proof -
  assume v: "Keyring_Verify mac dec k token t = Inr c"
  then obtain opts where "claims_validate opts t c = None" unfolding Keyring_Verify_Inr by blast
  then have "validKeyID (cl_key c)" "TrimSpace (cl_nonce c) \<noteq> []"
    by (simp_all add: claims_validate_def Let_def check_simps)
  moreover from this(1) have "token_string (cl_key c)" "cl_key c \<noteq> []"
    by (auto simp: validKeyID_def token_string_def list_all_iff key_char_def token_char_def)
  moreover from calculation(1) have "CHR 0x00 \<notin> set (cl_key c)"
    by (auto simp: validKeyID_def list_all_iff key_char_def less_eq_char_def)
  ultimately show ?thesis by simp
qed

lemma replay_key_inj:
  assumes "CHR 0x00 \<notin> set (cl_key c)" and "CHR 0x00 \<notin> set (cl_key c')" and "replay_key c = replay_key c'"
  shows "cl_key c = cl_key c' \<and> cl_nonce c = cl_nonce c'"
proof -
  have "takeWhile (\<lambda>ch. ch \<noteq> CHR 0x00) (replay_key x) = cl_key x" if "CHR 0x00 \<notin> set (cl_key x)" for x
    using that unfolding replay_key_def by (subst takeWhile_append2) auto
  with assms have "cl_key c = cl_key c'" by metis
  with assms(3) show ?thesis by (simp add: replay_key_def)
qed

lemma run_subset: "run_consume consume evs g = (cs, g') \<Longrightarrow> set cs \<subseteq> fst ` set evs"
proof (induction evs arbitrary: g cs)
  case (Cons x evs)
  then show ?case by (cases x) (fastforce split: prod.splits option.splits)
qed simp

text \<open>
  C3. A token is accepted once: after an acceptor has accepted a token, and while fewer than
  its guard's capacity of other tokens have been accepted, presenting the token again fails, on
  whatever route and at whatever time, before its expiry and after it. The clock of the acceptor
  may go back and forth in between; it only must not have been ahead of the last presentation.
\<close>

theorem token_accepted_once:
  assumes "NewReplayGuard n = Inr g0" and "present_all mac dec k earlier g0 = (cs0, g)"
    and "Accept mac dec k p g = ((Some c, None), g1)"
    and "present_all mac dec k between g1 = (cs, g2)" and "int (length cs) < n"
    and "\<forall>q \<in> set between. pr_admitted_at q \<le> pr_admitted_at p'"
    and "pr_token p' = pr_token p"
  shows "snd (fst (Accept mac dec k p' g2)) \<noteq> None"
proof
  assume again: "snd (fst (Accept mac dec k p' g2)) = None"
  then have "routed mac dec k p' \<noteq> []" using Accept_routed(2) by blast
  then obtain c' where r: "routed mac dec k p' = [(c', pr_admitted_at p')]"
    by (auto simp: routed_def split: sum.splits if_splits)
  then have consumed: "fst (Consume c' (pr_admitted_at p') g2) = None"
    using Accept_routed(1) [of mac dec k p' g2] again by simp
  from Accept_accepted [OF assms(3)] routed_verified [of c' "pr_admitted_at p'" mac dec k p'] r assms(7)
  have same: "c' = c" by (auto simp: Keyring_Verify_Inr)
  have now: "well_formed c (pr_admitted_at p')"
    using Consume_admitted [of c "pr_admitted_at p'" g2] consumed unfolding same by (simp add: prod_eq_iff)
  from new_guard_inv [OF assms(1)] have g0: "guard_inv g0" "guard_capacity g0 = nat n" by blast+
  from admission.run_inv [OF g0(1)] assms(2) g0(2) have g: "guard_inv g" "guard_capacity g = nat n"
    by (auto simp: present_all_run)
  let ?evs = "concat (map (routed mac dec k) between)"
  have "\<forall>x \<in> set ?evs. well_formed c (snd x)"
  proof
    fix x assume "x \<in> set ?evs"
    then obtain q where "q \<in> set between" "snd x = pr_admitted_at q"
      using routed_verified [of "fst x" "snd x"] by auto
    with assms(6) now show "well_formed c (snd x)" by (fastforce simp: well_formed_def)
  qed
  moreover have "length cs < guard_capacity g" using assms(5) g(2) by linarith
  ultimately show False
    using admission.let_through_once [OF g(1) Accept_accepted(2) [OF assms(3)], of ?evs cs g2 "pr_admitted_at p'" c]
      assms(4) now consumed same
    by (simp add: present_all_run same_token_def)
qed

text \<open>
  C27. A good token gets through: a token that verifies, presented on the route that it is made
  for before its expiry, is accepted unless a token with its key and nonce was accepted before.
  No presentation on a wrong route, no forged token and no flood of other tokens uses it up.
\<close>

theorem good_token_accepted:
  assumes "NewReplayGuard n = Inr g0" and "present_all mac dec k earlier g0 = (cs, g)"
    and "Keyring_Verify mac dec k (pr_token p) (pr_verified_at p) = Inr c"
    and "binding_Validate (pr_expected p) = None" and "Matches (pr_expected p) c"
    and "pr_admitted_at p < time_Unix (cl_expires c)"
    and "\<forall>c' \<in> set cs. cl_key c' \<noteq> cl_key c \<or> cl_nonce c' \<noteq> cl_nonce c"
  shows "fst (Accept mac dec k p g) = (Some c, None)"
proof -
  let ?evs = "concat (map (routed mac dec k) earlier)"
  have run: "run_consume Consume ?evs g0 = (cs, g)" using assms(2) by (simp add: present_all_run)
  from new_guard_inv [OF assms(1)] have g0: "guard_inv g0" "\<not> remembered c g0" by (auto simp: remembered_def)
  note key = verified_key [OF assms(3)]
  have "\<not> same_token c c'" if c': "c' \<in> set cs" for c'
  proof
    assume "same_token c c'"
    from run_subset [OF run] c' obtain t q where "(c', t) \<in> set (routed mac dec k q)" by force
    then have "CHR 0x00 \<notin> set (cl_key c')" using routed_verified verified_key by blast
    with \<open>same_token c c'\<close> key replay_key_inj [of c c'] assms(7) c' show False
      by (auto simp: same_token_def)
  qed
  moreover have "well_formed c (pr_admitted_at p)" using key assms(6) by (simp add: well_formed_def)
  ultimately have "fst (Consume c (pr_admitted_at p) g) = None"
    using admission.unused_let_through [OF g0(1) run g0(2)] by blast
  with assms(3-5) show ?thesis by (cases "Consume c (pr_admitted_at p) g") (simp add: Accept_def)
qed

text \<open>A visitor's token, its route, and another route.\<close>

definition visitor_token :: string where
  "visitor_token = ''k1.bi0x.azEuYmkweHh4eHh4eHh4eHh4eHh4eHh4eHh4eHh4eHg''"

definition visit :: "string \<Rightarrow> int \<Rightarrow> presentation" where
  "visit action t =
     \<lparr> pr_token = visitor_token,
       pr_expected = \<lparr> bd_execution = ''inc-1'', bd_node = ''await'', bd_event = ''ev-1'', bd_action = action \<rparr>,
       pr_verified_at = t * 10 ^ 9, pr_admitted_at = t * 10 ^ 9 \<rparr>"

definition empty_guard :: replay_guard where
  "empty_guard = \<lparr> rg_max = 2, rg_seen = Map.empty, rg_ordered = [] \<rparr>"

abbreviation sample_accept :: "presentation \<Rightarrow> replay_guard \<Rightarrow> acceptance \<times> replay_guard" where
  "sample_accept \<equiv> Accept sample_mac sample_decoder sample_ring"

abbreviation visitor_stamped :: claims where
  "visitor_stamped \<equiv> stamped ''k1'' (1000 * 10 ^ 9) visitor_claims"

lemma sample_guard: "NewReplayGuard 2 = Inr empty_guard"
  by (simp add: NewReplayGuard_def empty_guard_def)

lemma sample_verified: "Keyring_Verify sample_mac sample_decoder sample_ring visitor_token (1010 * 10 ^ 9) = Inr visitor_stamped"
  by code_simp

lemma sample_accepted: "fst (sample_accept (visit ''ack'' 1010) empty_guard) = (Some visitor_stamped, None)"
  by code_simp

theorem token_accepted_once_witness:
  "fst (sample_accept (visit ''ack'' 1010) empty_guard) = (Some visitor_stamped, None) \<and>
   snd (fst (sample_accept (visit ''ack'' 1011) (snd (sample_accept (visit ''ack'' 1010) empty_guard)))) \<noteq> None"
proof -
  let ?g = "snd (sample_accept (visit ''ack'' 1010) empty_guard)"
  have a: "sample_accept (visit ''ack'' 1010) empty_guard = ((Some visitor_stamped, None), ?g)"
    using sample_accepted by (simp add: prod_eq_iff)
  have "snd (fst (sample_accept (visit ''ack'' 1011) ?g)) \<noteq> None"
    by (rule token_accepted_once [OF sample_guard _ a, where earlier = "[]" and between = "[]" and cs = "[]"])
      (simp_all add: visit_def)
  with sample_accepted show ?thesis by blast
qed

theorem good_token_accepted_witness:
  "present_all sample_mac sample_decoder sample_ring [visit ''open'' 1005] empty_guard = ([], empty_guard) \<and>
   fst (sample_accept (visit ''ack'' 1010) empty_guard) = (Some visitor_stamped, None)"
proof -
  have "fst (sample_accept (visit ''open'' 1005) empty_guard) = (None, Some ErrBindingMismatch)" by code_simp
  moreover have "snd (sample_accept (visit ''open'' 1005) empty_guard) = empty_guard"
    using Accept_routed(1) [of sample_mac sample_decoder sample_ring "visit ''open'' 1005" empty_guard] calculation
    by (auto split: list.splits)
  ultimately have p: "present_all sample_mac sample_decoder sample_ring [visit ''open'' 1005] empty_guard = ([], empty_guard)"
    by (simp add: prod_eq_iff split: prod.split)
  have "fst (sample_accept (visit ''ack'' 1010) empty_guard) = (Some visitor_stamped, None)"
    by (rule good_token_accepted [OF sample_guard p])
      (simp_all add: visit_def sample_verified, code_simp+)
  with p show ?thesis by blast
qed

end
