(* ===== verification/Ingress.thy ===== *)
theory Ingress
  imports Callbacks
begin

text \<open>
  The way in for callbacks from outside: \<open>orchestration/incident/callback_ingress.go\<close> over the
  acceptor, with the roles of \<open>authz/rbac.go\<close> and the user ids of \<open>domain/id.go\<close>.

  The user store and the workflow are what a request finds: functions in a record, with \<^const>\<open>None\<close>
  for a part that is not configured. Which audit entries the store takes is a function of the
  entries before. The workflow answers with any type; its calls are recorded in their order. A
  request runs as one step; requests that run at once meet in the guard, the audit store and the
  workflow, each of which serialises. Payloads are texts of JSON.
\<close>

section \<open>Roles and ids\<close>

datatype user_role = ViewerRole | OperatorRole | AdminRole | OtherRole string

datatype auth_capability =
    ViewSystem | ViewLive | AcknowledgeIncident | ResolveIncident | ChangeConfig | RunBackup | UnlockDoor | ManageUsers

fun grants :: "user_role \<Rightarrow> auth_capability list" where
  "grants ViewerRole = [ViewSystem, ViewLive]"
| "grants OperatorRole = [ViewSystem, ViewLive, AcknowledgeIncident, RunBackup]"
| "grants AdminRole = [ViewSystem, ViewLive, AcknowledgeIncident, ResolveIncident, ChangeConfig, RunBackup, UnlockDoor, ManageUsers]"
| "grants (OtherRole _) = []"

definition Allowed :: "user_role \<Rightarrow> auth_capability \<Rightarrow> bool" where
  "Allowed r c \<longleftrightarrow> List.member (grants r) c"

text \<open>
  The body of an id in upper case: \<open>strings.ToUpper\<close> makes ASCII letters of the ASCII letters and
  of U+0131 and U+017F. Any other rune outside ASCII is in no id.
\<close>

definition upper_char :: "char \<Rightarrow> char" where
  "upper_char ch = (if CHR ''a'' \<le> ch \<and> ch \<le> CHR ''z'' then char_of (of_char ch - 32 :: nat) else ch)"

fun upper_runes :: "string \<Rightarrow> string" where
  "upper_runes (a # b # s) =
     (if a = CHR 0xC4 \<and> b = CHR 0xB1 then CHR ''I'' # upper_runes s
      else if a = CHR 0xC5 \<and> b = CHR 0xBF then CHR ''S'' # upper_runes s
      else upper_char a # upper_runes (b # s))"
| "upper_runes [a] = [upper_char a]"
| "upper_runes [] = []"

definition crockford_char :: "char \<Rightarrow> bool" where
  "crockford_char ch \<longleftrightarrow> List.member ''0123456789ABCDEFGHJKMNPQRSTVWXYZ'' ch"

definition ValidFor :: "string \<Rightarrow> string \<Rightarrow> bool" where
  "ValidFor pre s \<longleftrightarrow>
     prefix (pre @ ''_'') s \<and>
     (let body = drop (length (pre @ ''_'')) s in length body = 26 \<and> list_all crockford_char (upper_runes body))"

section \<open>Requests\<close>

record user =
  us_id :: string
  us_role :: user_role
  us_disabled :: bool

record callback_audit =
  ca_actor :: string
  ca_source :: string
  ca_action :: string
  ca_target :: string
  ca_result :: string
  ca_request :: string
  ca_correlation :: string
  ca_node :: string
  ca_event :: string
  ca_key :: string
  ca_capability :: auth_capability
  ca_reason :: string

record callback_meta =
  cm_request :: string
  cm_correlation :: string

datatype workflow_call =
    CallOwnerResponse string string string
  | CallOwnerDecision string string string string string string

datatype ingress_error =
    ErrCallbackIngressUnavailable
  | ErrCallbackSubjectInvalid
  | ErrCallbackForbidden
  | VerificationFailed callback_error
  | BindingNodeFailed string
  | DenialNotAudited ingress_error
  | AuthorizationNotAudited

record 'r incident_workflow =
  wf_response_node :: "string \<Rightarrow> string + string"
  wf_decision_node :: "string \<Rightarrow> string + string"
  wf_call :: "workflow_call \<Rightarrow> 'r"

record 'r ingress_services =
  is_security :: "(presentation \<Rightarrow> replay_guard \<Rightarrow> acceptance \<times> replay_guard) option"
  is_users :: "(string \<Rightarrow> user option) option"
  is_audit :: "(callback_audit list \<Rightarrow> callback_audit \<Rightarrow> bool) option"
  is_workflow :: "'r incident_workflow option"

record ingress_state =
  ig_guard :: replay_guard
  ig_audit :: "callback_audit list"
  ig_calls :: "workflow_call list"

definition OwnerResponseEvent :: string where
  "OwnerResponseEvent = ''incident.owner.response''"

definition OwnerDecisionEvent :: string where
  "OwnerDecisionEvent = ''incident.owner.decision''"

fun callbackReason :: "callback_error \<Rightarrow> string" where
  "callbackReason ErrBindingInvalid = ''binding_invalid''"
| "callbackReason ErrBindingMismatch = ''binding_mismatch''"
| "callbackReason ErrReplay = ''replay''"
| "callbackReason ErrExpired = ''expired''"
| "callbackReason ErrInvalidToken = ''invalid_token''"
| "callbackReason _ = ''verification_failed''"

definition audit_entry_of ::
  "string \<Rightarrow> binding \<Rightarrow> string \<Rightarrow> string \<Rightarrow> string \<Rightarrow> auth_capability \<Rightarrow> callback_meta \<Rightarrow> callback_audit" where
  "audit_entry_of actor b result reason key cap m =
     \<lparr> ca_actor = actor, ca_source = ''callback'', ca_action = bd_action b,
       ca_target = bd_execution b @ ''/'' @ bd_node b, ca_result = result,
       ca_request = TrimSpace (cm_request m), ca_correlation = TrimSpace (cm_correlation m),
       ca_node = bd_node b, ca_event = bd_event b, ca_key = key, ca_capability = cap, ca_reason = reason \<rparr>"

definition auditDecision ::
  "(callback_audit list \<Rightarrow> callback_audit \<Rightarrow> bool) \<Rightarrow> callback_audit \<Rightarrow> ingress_state \<Rightarrow> bool \<times> ingress_state" where
  "auditDecision takes e st =
     (if takes (ig_audit st) e then (True, st\<lparr> ig_audit := ig_audit st @ [e] \<rparr>) else (False, st))"

definition deny ::
  "(callback_audit list \<Rightarrow> callback_audit \<Rightarrow> bool) \<Rightarrow> callback_audit \<Rightarrow> ingress_error \<Rightarrow> ingress_state \<Rightarrow>
     (ingress_error + 'a) \<times> ingress_state" where
  "deny takes e err st =
     (case auditDecision takes e st of
        (True, st') \<Rightarrow> (Inl err, st')
      | (False, st') \<Rightarrow> (Inl (DenialNotAudited err), st'))"

text \<open>Who the subject of verified claims is, and what the subject may do.\<close>

definition authorize_subject ::
  "(string \<Rightarrow> user option) \<Rightarrow> (callback_audit list \<Rightarrow> callback_audit \<Rightarrow> bool) \<Rightarrow> binding \<Rightarrow> auth_capability \<Rightarrow>
     callback_meta \<Rightarrow> claims \<Rightarrow> string \<Rightarrow> ingress_state \<Rightarrow> (ingress_error + user \<times> claims) \<times> ingress_state" where
  "authorize_subject users takes b cap m c reason st =
     (if \<not> ValidFor ''usr'' (cl_subject c)
      then deny takes (audit_entry_of ''external-callback'' b ''denied'' ''invalid_subject'' (cl_key c) cap m)
             ErrCallbackSubjectInvalid st
      else case users (cl_subject c) of
        None \<Rightarrow>
          deny takes (audit_entry_of (cl_subject c) b ''denied'' ''principal_not_authorized'' (cl_key c) cap m)
            ErrCallbackForbidden st
      | Some u \<Rightarrow>
          if us_disabled u \<or> \<not> Allowed (us_role u) cap
          then deny takes (audit_entry_of (cl_subject c) b ''denied'' ''principal_not_authorized'' (cl_key c) cap m)
                 ErrCallbackForbidden st
          else (case auditDecision takes (audit_entry_of (us_id u) b ''allowed'' reason (cl_key c) cap m) st of
                  (True, st') \<Rightarrow> (Inr (u, c), st')
                | (False, st') \<Rightarrow> (Inl AuthorizationNotAudited, st')))"

text \<open>
  Accepted claims come with no error, replayed ones with \<^const>\<open>ErrReplay\<close>; the claims that come
  with another error are not looked at.
\<close>

definition no_claims :: claims where
  "no_claims =
     \<lparr> cl_key = [], cl_execution = [], cl_node = [], cl_event = [], cl_subject = [], cl_action = [],
       cl_nonce = [], cl_issued = 0, cl_expires = 0 \<rparr>"

definition authorize ::
  "'r ingress_services \<Rightarrow> presentation \<Rightarrow> auth_capability \<Rightarrow> callback_meta \<Rightarrow> ingress_state \<Rightarrow>
     (ingress_error + user \<times> claims) \<times> ingress_state" where
  "authorize s p cap m st =
     (case (is_security s, is_users s, is_audit s, is_workflow s) of
        (Some accept, Some users, Some takes, Some _) \<Rightarrow>
          (case accept p (ig_guard st) of
             ((c, err), g) \<Rightarrow>
               let st = st\<lparr> ig_guard := g \<rparr>; b = pr_expected p;
                   claims = (case c of Some c \<Rightarrow> c | None \<Rightarrow> no_claims)
               in case err of
                    None \<Rightarrow> authorize_subject users takes b cap m claims [] st
                  | Some ErrReplay \<Rightarrow> authorize_subject users takes b cap m claims ''replay_candidate'' st
                  | Some e \<Rightarrow>
                      deny takes (audit_entry_of ''external-callback'' b ''denied'' (callbackReason e) [] cap m)
                        (VerificationFailed e) st)
      | _ \<Rightarrow> (Inl ErrCallbackIngressUnavailable, st))"

text \<open>What both requests bring, and the clocks at their time.\<close>

record callback_request =
  cq_token :: string
  cq_execution :: string
  cq_event :: string
  cq_payload :: string
  cq_meta :: callback_meta
  cq_verified_at :: int
  cq_admitted_at :: int

definition target :: "callback_request \<Rightarrow> string \<Rightarrow> string \<Rightarrow> presentation" where
  "target q node action =
     \<lparr> pr_token = cq_token q,
       pr_expected =
         \<lparr> bd_execution = TrimSpace (cq_execution q), bd_node = TrimSpace node,
           bd_event = TrimSpace (cq_event q), bd_action = action \<rparr>,
       pr_verified_at = cq_verified_at q, pr_admitted_at = cq_admitted_at q \<rparr>"

definition OwnerResponse ::
  "'r ingress_services \<Rightarrow> callback_request \<Rightarrow> ingress_state \<Rightarrow> (ingress_error + 'r) \<times> ingress_state" where
  "OwnerResponse s q st =
     (case is_workflow s of
        None \<Rightarrow> (Inl ErrCallbackIngressUnavailable, st)
      | Some w \<Rightarrow>
          (case wf_response_node w (TrimSpace (cq_execution q)) of
             Inl e \<Rightarrow> (Inl (BindingNodeFailed e), st)
           | Inr node \<Rightarrow>
               (case authorize s (target q node OwnerResponseEvent) AcknowledgeIncident (cq_meta q) st of
                  (Inl e, st') \<Rightarrow> (Inl e, st')
                | (Inr _, st') \<Rightarrow>
                    (let call = CallOwnerResponse (TrimSpace (cq_execution q)) (TrimSpace (cq_event q)) (cq_payload q)
                     in (Inr (wf_call w call), st'\<lparr> ig_calls := ig_calls st' @ [call] \<rparr>)))))"

definition ResolveOwnerDecision ::
  "'r ingress_services \<Rightarrow> callback_request \<Rightarrow> string \<Rightarrow> string \<Rightarrow> ingress_state \<Rightarrow>
     (ingress_error + 'r) \<times> ingress_state" where
  "ResolveOwnerDecision s q decision reason st =
     (case is_workflow s of
        None \<Rightarrow> (Inl ErrCallbackIngressUnavailable, st)
      | Some w \<Rightarrow>
          (case wf_decision_node w (TrimSpace (cq_execution q)) of
             Inl e \<Rightarrow> (Inl (BindingNodeFailed e), st)
           | Inr node \<Rightarrow>
               (case authorize s (target q node OwnerDecisionEvent) ResolveIncident (cq_meta q) st of
                  (Inl e, st') \<Rightarrow> (Inl e, st')
                | (Inr (u, _), st') \<Rightarrow>
                    (let call = CallOwnerDecision (TrimSpace (cq_execution q)) (TrimSpace (cq_event q)) decision
                           (us_id u) (TrimSpace reason) (cq_payload q)
                     in (Inr (wf_call w call), st'\<lparr> ig_calls := ig_calls st' @ [call] \<rparr>)))))"

section \<open>Runs\<close>

text \<open>A request is an answer of the owner or a decision with its reason; the services may change.\<close>

datatype owner_request = Response callback_request | Resolution callback_request string string

fun handle ::
  "'r ingress_services \<Rightarrow> owner_request \<Rightarrow> ingress_state \<Rightarrow> (ingress_error + 'r) \<times> ingress_state" where
  "handle s (Response q) st = OwnerResponse s q st"
| "handle s (Resolution q decision reason) st = ResolveOwnerDecision s q decision reason st"

fun handle_all :: "('r ingress_services \<times> owner_request) list \<Rightarrow> ingress_state \<Rightarrow> ingress_state" where
  "handle_all [] st = st"
| "handle_all ((s, r) # rs) st = handle_all rs (snd (handle s r st))"

fun request_of :: "owner_request \<Rightarrow> callback_request" where
  "request_of (Response q) = q"
| "request_of (Resolution q _ _) = q"

fun request_action :: "owner_request \<Rightarrow> string" where
  "request_action (Response _) = OwnerResponseEvent"
| "request_action (Resolution _ _ _) = OwnerDecisionEvent"

fun request_capability :: "owner_request \<Rightarrow> auth_capability" where
  "request_capability (Response _) = AcknowledgeIncident"
| "request_capability (Resolution _ _ _) = ResolveIncident"

fun call_of :: "owner_request \<Rightarrow> string \<Rightarrow> workflow_call" where
  "call_of (Response q) _ = CallOwnerResponse (TrimSpace (cq_execution q)) (TrimSpace (cq_event q)) (cq_payload q)"
| "call_of (Resolution q decision reason) actor =
     CallOwnerDecision (TrimSpace (cq_execution q)) (TrimSpace (cq_event q)) decision actor (TrimSpace reason) (cq_payload q)"

section \<open>No signal without authority\<close>

lemma deny_denies:
  "deny takes e err st = (r, st') \<Longrightarrow>
     (\<exists>x. r = Inl x) \<and> ig_calls st' = ig_calls st \<and> (ig_audit st' = ig_audit st \<or> ig_audit st' = ig_audit st @ [e])"
  by (auto simp: deny_def auditDecision_def split: if_splits)

text \<open>Authorisation appends at most one entry, calls nothing, and succeeds with an entry only.\<close>

definition denied_kept :: "ingress_state \<Rightarrow> ingress_state \<Rightarrow> bool" where
  "denied_kept st st' \<longleftrightarrow> ig_calls st' = ig_calls st \<and>
     (ig_audit st' = ig_audit st \<or> (\<exists>e. ig_audit st' = ig_audit st @ [e] \<and> ca_result e = ''denied''))"

lemma authorize_subject_cases:
  assumes "authorize_subject users takes b cap m c reason st = (r, st')"
  obtains (denied) x where "r = Inl x" and "denied_kept st st'"
  | (allowed) u where "r = Inr (u, c)" and "ValidFor ''usr'' (cl_subject c)" and "users (cl_subject c) = Some u"
      and "\<not> us_disabled u" and "Allowed (us_role u) cap" and "ig_calls st' = ig_calls st"
      and "ig_audit st' = ig_audit st @ [audit_entry_of (us_id u) b ''allowed'' reason (cl_key c) cap m]"
proof -
  have d: thesis if "deny takes (audit_entry_of a b ''denied'' why key cap m) err st = (r, st')" for a why key err
    using deny_denies [OF that] denied by (auto simp: denied_kept_def audit_entry_of_def)
  show thesis
  proof (cases "ValidFor ''usr'' (cl_subject c)")
    case False
    with assms d show thesis by (simp add: authorize_subject_def)
  next
    case valid: True
    show thesis
    proof (cases "users (cl_subject c)")
      case None
      with valid assms d show thesis by (simp add: authorize_subject_def)
    next
      case (Some u)
      show thesis
      proof (cases "us_disabled u \<or> \<not> Allowed (us_role u) cap")
        case True
        with Some valid assms d show thesis by (simp add: authorize_subject_def)
      next
        case False
        with Some valid assms allowed [of u] denied show thesis
          by (auto simp: authorize_subject_def auditDecision_def denied_kept_def split: if_splits)
      qed
    qed
  qed
qed

text \<open>
  What the ingress needs of its acceptor: claims that come with no error, or with a replay, are
  claims that the acceptor vouches for on the route of the presentation.
\<close>

locale callback_authority =
  fixes accept :: "presentation \<Rightarrow> replay_guard \<Rightarrow> acceptance \<times> replay_guard"
    and vouched :: "presentation \<Rightarrow> claims \<Rightarrow> bool"
  assumes vouches: "accept p g = ((c, err), g') \<Longrightarrow> err = None \<or> err = Some ErrReplay \<Longrightarrow>
    \<exists>cl. c = Some cl \<and> vouched p cl"
begin

lemma authorize_cases:
  assumes "is_security s = Some accept" and "authorize s p cap m st = (r, st')"
  obtains (denied) x where "r = Inl x" and "denied_kept st st'"
  | (allowed) users u c reason where "r = Inr (u, c)" and "is_users s = Some users" and "vouched p c"
      and "ValidFor ''usr'' (cl_subject c)" and "users (cl_subject c) = Some u"
      and "\<not> us_disabled u" and "Allowed (us_role u) cap" and "ig_calls st' = ig_calls st"
      and "ig_audit st' =
        ig_audit st @ [audit_entry_of (us_id u) (pr_expected p) ''allowed'' reason (cl_key c) cap m]"
proof (cases "is_users s = None \<or> is_audit s = None \<or> is_workflow s = None")
  case True
  then have "authorize s p cap m st = (Inl ErrCallbackIngressUnavailable, st)"
    by (auto simp: authorize_def split: option.split)
  with assms(2) denied show thesis by (auto simp: denied_kept_def)
next
  case False
  then obtain users takes w where parts: "is_users s = Some users" "is_audit s = Some takes" "is_workflow s = Some w"
    by auto
  obtain co err g where a: "accept p (ig_guard st) = ((co, err), g)" by (metis prod.exhaust)
  let ?st = "st\<lparr> ig_guard := g \<rparr>"
  have same: "denied_kept ?st st' \<Longrightarrow> denied_kept st st'" by (simp add: denied_kept_def)
  show thesis
  proof (cases "err = None \<or> err = Some ErrReplay")
    case True
    then obtain c where c: "co = Some c" "vouched p c" using vouches [OF a] by blast
    from True a parts c(1) assms obtain reason where
      "authorize_subject users takes (pr_expected p) cap m c reason ?st = (r, st')"
      by (auto simp: authorize_def)
    then show thesis
    proof (cases rule: authorize_subject_cases)
      case (denied x)
      with same that(1) show thesis by blast
    next
      case (allowed u)
      with parts(1) c(2) that(2) [of u c users reason] show thesis by simp
    qed
  next
    case False
    then obtain e where e: "err = Some e" "e \<noteq> ErrReplay" by auto
    with a parts assms have d: "deny takes
        (audit_entry_of ''external-callback'' (pr_expected p) ''denied'' (callbackReason e) [] cap m)
        (VerificationFailed e) ?st = (r, st')"
      by (cases e) (simp_all add: authorize_def)
    from deny_denies [OF d] denied show thesis by (auto simp: denied_kept_def audit_entry_of_def)
  qed
qed

lemma handle_cases:
  assumes "is_security s = Some accept" and "handle s r st = (res, st')"
  obtains (denied) x where "res = Inl x" and "denied_kept st st'"
  | (allowed) users u c node reason w where "is_users s = Some users" and "is_workflow s = Some w"
      and "vouched (target (request_of r) node (request_action r)) c"
      and "ValidFor ''usr'' (cl_subject c)" and "users (cl_subject c) = Some u"
      and "\<not> us_disabled u" and "Allowed (us_role u) (request_capability r)"
      and "res = Inr (wf_call w (call_of r (us_id u)))"
      and "ig_calls st' = ig_calls st @ [call_of r (us_id u)]"
      and "ig_audit st' = ig_audit st @
        [audit_entry_of (us_id u) (pr_expected (target (request_of r) node (request_action r))) ''allowed'' reason
           (cl_key c) (request_capability r) (cq_meta (request_of r))]"
proof (cases "is_workflow s")
  case None
  with assms(2) denied show thesis
    by (cases r) (auto simp: OwnerResponse_def ResolveOwnerDecision_def denied_kept_def)
next
  case (Some w)
  define nodes where "nodes = (case r of Response _ \<Rightarrow> wf_response_node w | Resolution _ _ _ \<Rightarrow> wf_decision_node w)"
  show thesis
  proof (cases "nodes (TrimSpace (cq_execution (request_of r)))")
    case (Inl e)
    with Some assms(2) denied show thesis
      by (cases r) (auto simp: nodes_def OwnerResponse_def ResolveOwnerDecision_def denied_kept_def)
  next
    case (Inr node)
    let ?p = "target (request_of r) node (request_action r)"
    obtain a st1 where a: "authorize s ?p (request_capability r) (cq_meta (request_of r)) st = (a, st1)"
      by fastforce
    have h: "(res, st') = (case a of Inl e \<Rightarrow> (Inl e, st1)
        | Inr (u, _) \<Rightarrow> (Inr (wf_call w (call_of r (us_id u))), st1\<lparr> ig_calls := ig_calls st1 @ [call_of r (us_id u)] \<rparr>))"
      using assms(2) Some Inr a
      by (cases r) (auto simp: nodes_def OwnerResponse_def ResolveOwnerDecision_def Let_def split: sum.splits prod.splits)
    from assms(1) a show thesis
    proof (cases rule: authorize_cases)
      case (denied x)
      with h that(1) show thesis by simp
    next
      case (allowed users u c reason)
      with h Some that(2) [of users w node c u reason] show thesis by simp
    qed
  qed
qed

end

lemma verify_no_replay: "Keyring_Verify mac dec k token now = Inl e \<Longrightarrow> e \<noteq> ErrReplay"
proof -
  have "tokenParts token = Inl x \<Longrightarrow> x \<noteq> ErrReplay" for x
    by (auto simp: tokenParts_def split: list.splits if_splits)
  moreover have "claims_validate opts now c = Some x \<Longrightarrow> x \<noteq> ErrReplay" for opts c x
    by (auto simp: claims_validate_def Let_def checks_Cons split: option.splits)
  moreover assume "Keyring_Verify mac dec k token now = Inl e"
  ultimately show ?thesis
    by (auto simp: Keyring_Verify_def verifyWithKey_def split: sum.splits option.splits if_splits)
qed

definition vouched_for :: "mac_function \<Rightarrow> (string \<Rightarrow> claims option) \<Rightarrow> keyring \<Rightarrow> presentation \<Rightarrow> claims \<Rightarrow> bool" where
  "vouched_for mac dec k p c \<longleftrightarrow>
     Keyring_Verify mac dec k (pr_token p) (pr_verified_at p) = Inr c \<and> binding_Validate (pr_expected p) = None \<and>
     Matches (pr_expected p) c \<and> pr_admitted_at p < time_Unix (cl_expires c)"

interpretation acceptor: callback_authority "Accept mac dec k" "vouched_for mac dec k" for mac dec k
proof
  fix p g c err g'
  assume a: "Accept mac dec k p g = ((c, err), g')" and e: "err = None \<or> err = Some ErrReplay"
  then obtain cl where cl: "binding_Validate (pr_expected p) = None"
      "Keyring_Verify mac dec k (pr_token p) (pr_verified_at p) = Inr cl" "Matches (pr_expected p) cl"
      "c = Some cl" "Consume cl (pr_admitted_at p) g = (err, g')"
    using verify_no_replay [of mac dec k "pr_token p" "pr_verified_at p"]
    by (auto simp: Accept_def binding_Validate_def split: option.splits sum.splits prod.splits if_splits)
  from e cl(5) have "pr_admitted_at p < time_Unix (cl_expires cl)"
    by (auto simp: Consume_def Let_def split: if_splits)
  with cl show "\<exists>cl. c = Some cl \<and> vouched_for mac dec k p cl" by (auto simp: vouched_for_def)
qed

section \<open>The promises of the ingress\<close>


text \<open>Which call an entry stands for.\<close>

fun records_call :: "callback_audit \<Rightarrow> workflow_call \<Rightarrow> bool" where
  "records_call e (CallOwnerResponse ex ev _) \<longleftrightarrow>
     ca_action e = OwnerResponseEvent \<and> ca_capability e = AcknowledgeIncident \<and> ca_event e = ev \<and>
     prefix (ex @ ''/'') (ca_target e)"
| "records_call e (CallOwnerDecision ex ev _ actor _ _) \<longleftrightarrow>
     ca_action e = OwnerDecisionEvent \<and> ca_capability e = ResolveIncident \<and> ca_event e = ev \<and>
     prefix (ex @ ''/'') (ca_target e) \<and> ca_actor e = actor"

definition calls_recorded :: "ingress_state \<Rightarrow> bool" where
  "calls_recorded st \<longleftrightarrow> list_all2 records_call (filter (\<lambda>e. ca_result e = ''allowed'') (ig_audit st)) (ig_calls st)"

lemma denied_recorded: "denied_kept st st' \<Longrightarrow> calls_recorded st \<Longrightarrow> calls_recorded st'"
  by (auto simp: denied_kept_def calls_recorded_def)

lemma handle_recorded:
  assumes "is_security s = Some (Accept mac dec k)" and "calls_recorded st" and "handle s r st = (res, st')"
  shows "calls_recorded st'"
  using assms(1,3)
proof (cases rule: acceptor.handle_cases)
  case (denied x)
  with assms(2) denied_recorded show ?thesis by blast
next
  case (allowed users u c node reason w)
  have "records_call (audit_entry_of (us_id u)
      (pr_expected (target (request_of r) node (request_action r))) ''allowed'' reason (cl_key c)
      (request_capability r) (cq_meta (request_of r))) (call_of r (us_id u))"
    by (cases r) (simp_all add: audit_entry_of_def target_def)
  with assms(2) show ?thesis
    by (simp add: calls_recorded_def allowed(9,10) list_all2_appendI, simp add: audit_entry_of_def list_all2_appendI)
qed

text \<open>
  C26. The audit trail tells the calls: whatever requests come, with whatever users, workflow and
  audit store at their time, the entries with the result allowed correspond one by one, in order,
  to the calls of the workflow: the same action, event and execution, and for a decision the
  actor. In particular a store that takes no entries stops all calls.
\<close>

theorem calls_are_audited:
  assumes "\<forall>(s, r) \<in> set rs. is_security s = Some (Accept mac dec k)"
    and "ig_audit st = []" and "ig_calls st = []"
  shows "list_all2 records_call (filter (\<lambda>e. ca_result e = ''allowed'') (ig_audit (handle_all rs st)))
    (ig_calls (handle_all rs st))"
proof -
  have "calls_recorded st \<Longrightarrow> calls_recorded (handle_all rs st)" for st
    using assms(1)
  proof (induction rs arbitrary: st)
    case (Cons x rs)
    obtain s r where x: "x = (s, r)" by fastforce
    with Cons.prems handle_recorded [of s mac dec k st r "fst (handle s r st)" "snd (handle s r st)"]
    have "calls_recorded (snd (handle s r st))" by simp
    from Cons.IH [OF this] Cons.prems(2) show ?case by (simp add: x)
  qed simp
  moreover have "calls_recorded st" by (simp add: calls_recorded_def assms(2,3))
  ultimately show ?thesis unfolding calls_recorded_def by blast
qed

text \<open>An operator who is on the list.\<close>

definition operator_claims :: claims where
  "operator_claims =
     \<lparr> cl_key = ''k1'', cl_execution = ''inc-1'', cl_node = ''await'', cl_event = ''ev-1'',
       cl_subject = ''usr_0123456789abcdefghjkmnpqrs'', cl_action = OwnerResponseEvent, cl_nonce = ''n-1'',
       cl_issued = 1000, cl_expires = 1060 \<rparr>"

definition operator_decoder :: "string \<Rightarrow> claims option" where
  "operator_decoder s = (if s = ''n-1'' then Some operator_claims else None)"

definition one_operator :: "string \<Rightarrow> user option" where
  "one_operator i =
     (if i = ''usr_0123456789abcdefghjkmnpqrs''
      then Some \<lparr> us_id = i, us_role = OperatorRole, us_disabled = False \<rparr> else None)"

definition home_services :: "workflow_call ingress_services" where
  "home_services =
     \<lparr> is_security = Some (Accept sample_mac operator_decoder sample_ring), is_users = Some one_operator,
       is_audit = Some (\<lambda>_ _. True),
       is_workflow = Some \<lparr> wf_response_node = (\<lambda>_. Inr ''await''), wf_decision_node = (\<lambda>_. Inl ''none''),
         wf_call = (\<lambda>c. c) \<rparr> \<rparr>"

definition operator_answer :: owner_request where
  "operator_answer = Response
     \<lparr> cq_token = visitor_token, cq_execution = ''inc-1'', cq_event = ''ev-1'', cq_payload = [],
       cq_meta = \<lparr> cm_request = ''req-1'', cm_correlation = [] \<rparr>, cq_verified_at = 1010 * 10 ^ 9,
       cq_admitted_at = 1010 * 10 ^ 9 \<rparr>"

definition quiet_state :: ingress_state where
  "quiet_state = \<lparr> ig_guard = empty_guard, ig_audit = [], ig_calls = [] \<rparr>"

lemma operator_answered:
  "ig_calls (snd (handle home_services operator_answer quiet_state)) = [CallOwnerResponse ''inc-1'' ''ev-1'' []]"
  by code_simp


theorem calls_are_audited_witness:
  "list_all2 records_call
     (filter (\<lambda>e. ca_result e = ''allowed'') (ig_audit (handle_all [(home_services, operator_answer)] quiet_state)))
     [CallOwnerResponse ''inc-1'' ''ev-1'' []]"
  using calls_are_audited [of "[(home_services, operator_answer)]" sample_mac operator_decoder sample_ring quiet_state]
    operator_answered
  by (simp add: home_services_def quiet_state_def)

end
