(* ===== verification/Observations.thy ===== *)
theory Observations
  imports Prelude GoFloat
begin

text \<open>
  The facts that sensors report: references to stored media (\<open>domain/artifact/ref.go\<close>), triggers
  of incidents (\<open>domain/incident/incident.go\<close>) and observations
  (\<open>domain/observation/observation.go\<close>), with their validators.

  Whether \<open>net/url\<close> parses a text and finds a scheme in it is a parameter, \<open>uri_ok\<close>. Times are
  nanoseconds since 1970, the zero time is the start of the year 1; floats are rationals, so not a
  number is left out. Error texts carry the format and no more than the names in it.
\<close>

section \<open>Artifacts\<close>

record artifact_ref =
  rf_uri :: string
  rf_digest :: string
  rf_size :: int
  rf_media :: string

definition hex_char :: "char \<Rightarrow> bool" where
  "hex_char ch \<longleftrightarrow>
     (CHR ''0'' \<le> ch \<and> ch \<le> CHR ''9'') \<or> (CHR ''a'' \<le> ch \<and> ch \<le> CHR ''f'') \<or> (CHR ''A'' \<le> ch \<and> ch \<le> CHR ''F'')"

definition ref_Validate :: "(string \<Rightarrow> bool) \<Rightarrow> artifact_ref \<Rightarrow> go_error option" where
  "ref_Validate uri_ok r =
     checks
       [fails_if (TrimSpace (rf_uri r) = []) (Error ''artifact: invalid URI''),
        fails_if (\<not> uri_ok (rf_uri r)) (Errorf ''artifact: invalid URI: %q'' [rf_uri r]),
        fails_if (\<not> prefix ''sha256:'' (rf_digest r)) (Error ''artifact: invalid SHA-256 digest: expected sha256 prefix''),
        fails_if
          (let raw = drop (length ''sha256:'') (rf_digest r) in length raw \<noteq> 64 \<or> \<not> list_all hex_char raw)
          (Errorf ''artifact: invalid SHA-256 digest: %q'' [rf_digest r]),
        fails_if (rf_size r < 0) (Error ''artifact: invalid size'')]"

section \<open>Triggers and observations\<close>

definition zero_time :: int where
  "zero_time = - 62135596800 * 10 ^ 9"

datatype identity_state = IdentityUnspecified | IdentityKnown | IdentityUnknown | IdentityUncertain | IdentityOther string

record security_context =
  sc_alarm :: string
  sc_identity :: identity_state
  sc_entry :: bool
  sc_dwell :: rat
  sc_cross :: int

record incident_trigger =
  it_event :: string
  it_source :: string
  it_kind :: string
  it_occurred :: int
  it_confidence :: rat
  it_artifacts :: "artifact_ref list"
  it_correlation :: string
  it_context :: security_context

definition trigger_Validate :: "(string \<Rightarrow> bool) \<Rightarrow> incident_trigger \<Rightarrow> go_error option" where
  "trigger_Validate uri_ok t =
     checks
       [fails_if (TrimSpace (it_event t) = [] \<or> TrimSpace (it_source t) = [] \<or> TrimSpace (it_kind t) = [])
          (Error ''incident: incomplete trigger identity''),
        fails_if (it_occurred t = zero_time) (Error ''incident: occurredAt is required''),
        fails_if (it_confidence t < 0 \<or> 1 < it_confidence t) (Error ''incident: confidence must be in [0,1], got %f''),
        fails_if (sc_dwell (it_context t) < 0) (Error ''incident: dwellSeconds must be >= 0''),
        fails_if (sc_cross (it_context t) < 0) (Error ''incident: crossCameraMatches must be >= 0''),
        first_err (ref_Validate uri_ok) (it_artifacts t)]"

record observation =
  ob_event :: string
  ob_subject :: string
  ob_source :: string
  ob_kind :: string
  ob_occurred :: int
  ob_received :: int
  ob_confidence :: rat
  ob_artifacts :: "artifact_ref list"
  ob_context :: security_context

definition observation_Validate :: "(string \<Rightarrow> bool) \<Rightarrow> observation \<Rightarrow> go_error option" where
  "observation_Validate uri_ok b =
     checks
       [fails_if (TrimSpace (ob_event b) = []) (Error ''observation: eventId is required''),
        fails_if (TrimSpace (ob_subject b) = []) (Error ''observation: subjectKey is required''),
        fails_if (TrimSpace (ob_source b) = [] \<or> TrimSpace (ob_kind b) = [])
          (Error ''observation: sourceId and kind are required''),
        fails_if (ob_occurred b = zero_time \<or> ob_received b = zero_time)
          (Error ''observation: occurredAt and receivedAt are required''),
        fails_if (ob_confidence b < 0 \<or> 1 < ob_confidence b) (Error ''observation: confidence must be in [0,1]''),
        fails_if (sc_dwell (ob_context b) < 0 \<or> sc_cross (ob_context b) < 0)
          (Error ''observation: context counts/duration must be non-negative''),
        first_err (ref_Validate uri_ok) (ob_artifacts b)]"

end
