(* ===== verification/FloatOrder.thy ===== *)
theory FloatOrder
  imports GoFloat
begin

text \<open>
  Rounding keeps the order of numbers and is off by at most half a unit in the last place. The
  result of an operation that overflows is 2 to the 1024 with the sign, which compares with every
  float as the infinity does.
\<close>

definition fl :: "rat \<Rightarrow> rat" where
  "fl r = (case f64_round r of Some x \<Rightarrow> x | None \<Rightarrow> if 0 < r then 2 powi 1024 else - (2 powi 1024))"

abbreviation ulp :: "rat \<Rightarrow> rat" where
  "ulp r \<equiv> 2 powi (f64_exponent r)"

definition nearest :: "rat \<Rightarrow> rat" where
  "nearest r = of_int (round_half_even (r / ulp r)) * ulp r"

lemma f64_round_nearest: "f64_round r = (if r = 0 then Some 0 else if \<bar>nearest r\<bar> < 2 powi 1024 then Some (nearest r) else None)"
  by (simp add: f64_round_def nearest_def Let_def)

lemma round_half_even_mono: "x \<le> y \<Longrightarrow> round_half_even x \<le> round_half_even y"
proof -
  assume le: "x \<le> y"
  have "\<lfloor>x\<rfloor> \<le> \<lfloor>y\<rfloor>" using le by (rule floor_mono)
  then consider "\<lfloor>x\<rfloor> = \<lfloor>y\<rfloor>" | "\<lfloor>x\<rfloor> + 1 \<le> \<lfloor>y\<rfloor>" by linarith
  then show ?thesis
  proof cases
    case 1
    with le show ?thesis by (auto simp: round_half_even_def Let_def)
  next
    case 2
    have "round_half_even x \<le> \<lfloor>x\<rfloor> + 1" "\<lfloor>y\<rfloor> \<le> round_half_even y"
      by (simp_all add: round_half_even_def Let_def)
    with 2 show ?thesis by linarith
  qed
qed

lemma round_half_even_error: "\<bar>of_int (round_half_even x) - x\<bar> \<le> 1 / 2"
  unfolding round_half_even_def Let_def using floor_correct [of x] by (auto simp: abs_le_iff)

lemma round_half_even_minus: "round_half_even (- x) = - round_half_even x"
proof (cases "x = of_int \<lfloor>x\<rfloor>")
  case True
  then show ?thesis by (metis of_int_minus round_half_even_int)
next
  case False
  then have c: "\<lceil>x\<rceil> = \<lfloor>x\<rfloor> + 1" by (simp add: ceiling_altdef)
  show ?thesis
    unfolding round_half_even_def Let_def floor_minus c by (auto simp: field_simps)
qed

lemma ulp_minus [simp]: "f64_exponent (- r) = f64_exponent r"
  by (simp add: f64_exponent_def)

lemma nearest_minus: "nearest (- r) = - nearest r"
  by (simp add: nearest_def round_half_even_minus)

lemma nearest_error: "\<bar>nearest r - r\<bar> \<le> ulp r / 2"
proof -
  have "nearest r - r = (of_int (round_half_even (r / ulp r)) - r / ulp r) * ulp r"
    by (simp add: nearest_def algebra_simps)
  then have "\<bar>nearest r - r\<bar> = \<bar>of_int (round_half_even (r / ulp r)) - r / ulp r\<bar> * ulp r"
    by (simp add: abs_mult)
  also have "\<dots> \<le> 1 / 2 * ulp r" by (rule mult_right_mono [OF round_half_even_error]) simp
  finally show ?thesis by simp
qed

lemma nearest_between:
  assumes "of_int k * ulp r \<le> r" shows "of_int k * ulp r \<le> nearest r"
proof -
  have "of_int k \<le> r / ulp r" using assms by (simp add: le_divide_eq)
  from round_half_even_mono [OF this] show ?thesis
    by (simp add: nearest_def round_half_even_int)
qed

lemma nearest_below:
  assumes "r \<le> of_int k * ulp r" shows "nearest r \<le> of_int k * ulp r"
proof -
  have "r / ulp r \<le> of_int k" using assms by (simp add: divide_le_eq)
  from round_half_even_mono [OF this] show ?thesis
    by (simp add: nearest_def round_half_even_int)
qed

lemma ulp_power:
  assumes "f64_exponent r \<le> e"
  shows "\<exists>k. 2 powi e = of_int k * ulp r"
proof (intro exI [of _ "2 ^ nat (e - f64_exponent r)"])
  show "2 powi e = of_int (2 ^ nat (e - f64_exponent r)) * ulp r"
    using assms by (simp flip: power_int_add power_int_of_nat)
qed

lemma f64_exponent_mono:
  assumes "0 < x" and "x \<le> y" shows "f64_exponent x \<le> f64_exponent y"
proof -
  have "(2 :: rat) powi floor_log2 x < 2 powi (floor_log2 y + 1)"
    using floor_log2_bounds(1) [of x] floor_log2_bounds(2) [of y] assms by linarith
  from powi_2_less [OF this] show ?thesis using assms by (simp add: f64_exponent_def)
qed

lemma nearest_mono_pos:
  assumes "0 < x" and "x \<le> y" shows "nearest x \<le> nearest y"
proof (cases "f64_exponent x = f64_exponent y")
  case True
  with assms show ?thesis
    unfolding nearest_def by (simp add: round_half_even_mono divide_right_mono)
next
  case False
  with f64_exponent_mono [OF assms] have lt: "f64_exponent x < f64_exponent y" by simp
  let ?e = "floor_log2 y"
  have y: "f64_exponent y = ?e - 52" using assms lt by (auto simp: f64_exponent_def max_def split: if_splits)
  have "floor_log2 x < ?e" using assms lt y by (auto simp: f64_exponent_def max_def split: if_splits)
  then have "(2 :: rat) powi (floor_log2 x + 1) \<le> 2 powi ?e" by (intro powi_2_mono) simp
  then have x: "x \<le> 2 powi ?e" using floor_log2_bounds(2) [OF assms(1)] by linarith
  have "f64_exponent x \<le> ?e" using lt y by simp
  from ulp_power [OF this] x nearest_below [of x] have "nearest x \<le> 2 powi ?e" by auto
  moreover have "2 powi ?e \<le> y" using floor_log2_bounds(1) [of y] assms by simp
  with ulp_power [of y ?e] y nearest_between [of _ y] have "2 powi ?e \<le> nearest y" by auto
  ultimately show ?thesis by linarith
qed

lemma nearest_nonneg: "0 \<le> r \<Longrightarrow> 0 \<le> nearest r"
  using nearest_between [of 0 r] by simp

lemma nearest_0 [simp]: "nearest 0 = 0"
  using round_half_even_int [of 0] by (simp add: nearest_def)

lemma nearest_mono: "x \<le> y \<Longrightarrow> nearest x \<le> nearest y"
proof -
  assume le: "x \<le> y"
  consider "0 < x" | "y < 0" | "x \<le> 0" "0 \<le> y" by linarith
  then show ?thesis
  proof cases
    case 1
    with le show ?thesis by (intro nearest_mono_pos)
  next
    case 2
    with nearest_mono_pos [of "- y" "- x"] le show ?thesis by (simp add: nearest_minus)
  next
    case 3
    with nearest_nonneg [of y] nearest_nonneg [of "- x"] show ?thesis by (simp add: nearest_minus)
  qed
qed

lemma powi_pos: "0 < (2 :: rat) powi e"
  by simp

lemma nearest_power:
  assumes "- 1074 \<le> e" shows "nearest (2 powi e) = 2 powi e"
proof -
  let ?x = "2 powi e :: rat"
  have "(2 :: rat) powi (floor_log2 ?x) \<le> ?x" using floor_log2_bounds(1) [of ?x] by simp
  also have "?x < 2 powi (e + 1)" using powi_pos [of e] by (simp add: power_int_add)
  finally have "floor_log2 ?x < e + 1" by (rule powi_2_less)
  then have "f64_exponent ?x \<le> e" using assms by (simp add: f64_exponent_def)
  from ulp_power [OF this] nearest_below [of ?x] nearest_between [of _ ?x] show ?thesis
    by (metis antisym order_refl)
qed

lemma clamp:
  fixes x l :: rat
  assumes "0 < l"
  shows "- l \<le> x \<Longrightarrow> x \<le> l \<Longrightarrow> max (- l) (min l x) = x"
    and "l \<le> x \<Longrightarrow> max (- l) (min l x) = l" and "x \<le> - l \<Longrightarrow> max (- l) (min l x) = - l"
  using assms by (simp_all add: min_def max_def)

lemma fl_clamp: "fl r = max (- (2 powi 1024)) (min (2 powi 1024) (nearest r))"
proof (cases "\<bar>nearest r\<bar> < 2 powi 1024")
  case True
  then have "- (2 powi 1024) \<le> nearest r" "nearest r \<le> 2 powi 1024" by linarith+
  with True show ?thesis by (simp add: fl_def f64_round_nearest clamp(1) [OF powi_pos])
next
  case False
  then have r: "r \<noteq> 0" by (intro notI) simp
  with False have f: "fl r = (if 0 < r then 2 powi 1024 else - (2 powi 1024))"
    by (simp add: fl_def f64_round_nearest)
  show ?thesis
  proof (cases "0 < r")
    case True
    then have "0 \<le> nearest r" by (intro nearest_nonneg) simp
    with False have "2 powi 1024 \<le> nearest r" by linarith
    with True f show ?thesis by (simp only: clamp(2) [OF powi_pos] if_True)
  next
    case neg: False
    then have "0 \<le> nearest (- r)" by (intro nearest_nonneg) simp
    with False have "nearest r \<le> - (2 powi 1024)" unfolding nearest_minus by linarith
    with neg f show ?thesis by (simp only: clamp(3) [OF powi_pos] if_False)
  qed
qed

lemma fl_mono: "x \<le> y \<Longrightarrow> fl x \<le> fl y"
  unfolding fl_clamp by (intro max.mono min.mono nearest_mono order_refl)

lemma fl_nearest: "\<bar>nearest r\<bar> \<le> 2 ^ 64 \<Longrightarrow> fl r = nearest r"
proof -
  assume "\<bar>nearest r\<bar> \<le> 2 ^ 64"
  also have "(2 :: rat) ^ 64 < 2 powi 1024" by (simp add: power_int_def)
  finally show ?thesis by (simp add: fl_def f64_round_nearest)
qed

lemma fl_0 [simp]: "fl 0 = 0"
  by (simp add: fl_def f64_round_nearest)

lemma fl_idem [simp]: "f64_round x = Some x \<Longrightarrow> fl x = x"
  by (simp add: fl_def)

lemma fl_int: "\<bar>n\<bar> < 2 ^ 53 \<Longrightarrow> fl (of_int n) = of_int n"
  by (simp add: fl_def f64_round_int)

lemma fl_error:
  assumes "\<bar>r\<bar> < 2" shows "\<bar>fl r - r\<bar> \<le> 1 / 2 ^ 53"
proof (cases "r = 0")
  case False
  have "(2 :: rat) powi (floor_log2 \<bar>r\<bar>) \<le> \<bar>r\<bar>" using floor_log2_bounds(1) [of "\<bar>r\<bar>"] False by simp
  also have "\<bar>r\<bar> < 2 powi 1" using assms by (simp only: power_int_1_right)
  finally have "floor_log2 \<bar>r\<bar> < 1" by (rule powi_2_less)
  then have "f64_exponent r \<le> - 52" by (simp add: f64_exponent_def)
  then have "ulp r \<le> 2 powi (- 52)" by (rule powi_2_mono)
  moreover have "(2 :: rat) powi (- 52) / 2 = 1 / 2 ^ 53" by (simp only: power_int_minus power_int_numeral) simp
  ultimately have u: "ulp r / 2 \<le> 1 / 2 ^ 53" by linarith
  have "(1 :: rat) / 2 ^ 53 \<le> 1" "(3 :: rat) \<le> 2 ^ 64" by simp_all
  with assms nearest_error [of r] u have "\<bar>nearest r\<bar> \<le> 2 ^ 64" by linarith
  from fl_nearest [OF this] nearest_error [of r] u show ?thesis by linarith
qed simp

lemma fl_fl [simp]: "fl (fl r) = fl r"
proof (cases "f64_round r")
  case (Some x)
  then show ?thesis by (simp add: fl_def f64_round_idem [OF Some])
next
  case None
  have "nearest (2 powi 1024) = 2 powi 1024" by (rule nearest_power) simp
  then have "f64_round (2 powi 1024) = None" "f64_round (- (2 powi 1024)) = None"
    unfolding f64_round_nearest nearest_minus by simp_all
  with None show ?thesis by (simp only: fl_def option.case split: if_split) simp
qed

end
