(* ===== verification/Correlator.thy ===== *)
theory Correlator
  imports Observations FloatOrder Admission "HOL-Library.List_Lexorder" "HOL-Library.Char_ord"
    "HOL-Library.Product_Lexorder" "HOL-Library.AList" "HOL-Library.Multiset"
begin

text \<open>
  Correlation of observations, \<open>correlation/correlator.go\<close>: observations of one subject that are
  close in time form a group, and a group stands for the candidate of an incident.

  An operation holds the lock throughout and is one step. The groups are an association list with
  one entry per subject. The id of a group is a shortened SHA-256, the parameter \<open>hash\<close> of a text.
\<close>

section \<open>State\<close>

datatype correlation_status = StatusNewGroup | StatusUpdated | StatusDuplicate | StatusLate

record correlation_config =
  cc_window :: int
  cc_lateness :: int
  cc_max_events :: int
  cc_max_seen :: int
  cc_max_artifacts :: int

record incident_candidate =
  cd_id :: string
  cd_subject :: string
  cd_events :: "string list"
  cd_sources :: nat
  cd_count :: nat
  cd_trigger :: incident_trigger

record observation_group =
  og_id :: string
  og_subject :: string
  og_max :: int
  og_events :: "observation list"

record correlator =
  co_config :: correlation_config
  co_groups :: "(string \<times> observation_group) list"
  co_seen :: "string \<rightharpoonup> string"
  co_order :: "string list"

definition DefaultConfig :: correlation_config where
  "DefaultConfig =
     \<lparr> cc_window = 15 * 10 ^ 9, cc_lateness = 5 * 10 ^ 9, cc_max_events = 64, cc_max_seen = 4096,
       cc_max_artifacts = 32 \<rparr>"

definition NewCorrelator :: "correlation_config \<Rightarrow> go_error + correlator" where
  "NewCorrelator f =
     (case checks
        [fails_if (cc_window f \<le> 0) (Error ''correlation: window must be > 0''),
         fails_if (cc_lateness f < 0 \<or> cc_window f < cc_lateness f)
           (Error ''correlation: max lateness must be within [0, window]''),
         fails_if (cc_max_events f \<le> 0 \<or> cc_max_seen f \<le> 0 \<or> cc_max_artifacts f \<le> 0)
           (Error ''correlation: capacity limits must be > 0'')] of
        Some e \<Rightarrow> Inl e
      | None \<Rightarrow> Inr \<lparr> co_config = f, co_groups = [], co_seen = Map.empty, co_order = [] \<rparr>)"

section \<open>Candidates\<close>

fun identity_rank :: "identity_state \<Rightarrow> nat" where
  "identity_rank IdentityUnknown = 3"
| "identity_rank IdentityUncertain = 2"
| "identity_rank IdentityKnown = 1"
| "identity_rank _ = 0"

definition mergeIdentity :: "identity_state \<Rightarrow> identity_state \<Rightarrow> identity_state" where
  "mergeIdentity current new = (if identity_rank current < identity_rank new then new else current)"

text \<open>What the loop over the events of a group gathers.\<close>

record gathered =
  ga_ids :: "string list"
  ga_sources :: "string list"
  ga_artifacts :: "artifact_ref list"
  ga_keys :: "string list"
  ga_confidence :: rat
  ga_context :: security_context
  ga_person :: bool

definition add_artifact :: "int \<Rightarrow> artifact_ref \<Rightarrow> gathered \<Rightarrow> gathered" where
  "add_artifact room r a =
     (let key = rf_digest r @ [CHR 0x00] @ rf_uri r
      in if List.member (ga_keys a) key \<or> room \<le> int (length (ga_artifacts a)) then a
         else a\<lparr> ga_keys := key # ga_keys a, ga_artifacts := ga_artifacts a @ [r] \<rparr>)"

definition merge_context :: "security_context \<Rightarrow> security_context \<Rightarrow> security_context" where
  "merge_context c e =
     \<lparr> sc_alarm = (if sc_alarm e \<noteq> [] then sc_alarm e else sc_alarm c),
       sc_identity = mergeIdentity (sc_identity c) (sc_identity e), sc_entry = (sc_entry c \<or> sc_entry e),
       sc_dwell = (if sc_dwell c < sc_dwell e then sc_dwell e else sc_dwell c),
       sc_cross = (if sc_cross c < sc_cross e then sc_cross e else sc_cross c) \<rparr>"

definition gather :: "int \<Rightarrow> observation \<Rightarrow> gathered \<Rightarrow> gathered" where
  "gather room e a =
     fold (add_artifact room) (ob_artifacts e)
       (a\<lparr> ga_ids := ga_ids a @ [ob_event e], ga_sources := List.insert (ob_source e) (ga_sources a),
           ga_confidence := (if ga_confidence a < ob_confidence e then ob_confidence e else ga_confidence a),
           ga_person := (ga_person a \<or> contains_str (ToLower (ob_kind e)) ''person''),
           ga_context := merge_context (ga_context a) (ob_context e) \<rparr>)"

definition gather_all :: "int \<Rightarrow> observation list \<Rightarrow> gathered" where
  "gather_all room es =
     fold (gather room) es
       \<lparr> ga_ids = [], ga_sources = [], ga_artifacts = [], ga_keys = [], ga_confidence = 0,
         ga_context = \<lparr> sc_alarm = [], sc_identity = IdentityUnspecified, sc_entry = False, sc_dwell = 0, sc_cross = 0 \<rparr>,
         ga_person = False \<rparr>"

text \<open>\<open>Sub\<close> saturates; \<open>Seconds\<close> converts the seconds and the rest apart.\<close>

definition span_seconds :: "int \<Rightarrow> int \<Rightarrow> rat" where
  "span_seconds a b =
     (let d = max (- (2 ^ 63)) (min (2 ^ 63 - 1) (a - b)); sec = sgn d * (\<bar>d\<bar> div 10 ^ 9); rest = d - sec * 10 ^ 9
      in fl (fl (of_int sec) + fl (fl (of_int rest) / 10 ^ 9)))"

definition widen_context :: "nat \<Rightarrow> rat \<Rightarrow> security_context \<Rightarrow> security_context" where
  "widen_context n secs x =
     (let x = (if 1 < n \<and> sc_cross x < int n - 1 then x\<lparr> sc_cross := int n - 1 \<rparr> else x)
      in if sc_dwell x < secs then x\<lparr> sc_dwell := secs \<rparr> else x)"

definition buildCandidate :: "correlation_config \<Rightarrow> observation_group \<Rightarrow> incident_candidate option" where
  "buildCandidate f g =
     (if og_events g = [] then None
      else
        (let a = gather_all (cc_max_artifacts f) (og_events g); latest = last (og_events g); first = hd (og_events g);
             kind = (if ga_person a then ''correlated.person.activity.v1'' else ob_kind latest);
             n = length (ga_sources a);
             x = widen_context n (span_seconds (ob_occurred latest) (ob_occurred first)) (ga_context a)
         in Some
              \<lparr> cd_id = og_id g, cd_subject = og_subject g, cd_events = ga_ids a, cd_sources = n,
                cd_count = length (og_events g),
                cd_trigger =
                  \<lparr> it_event = og_id g, it_source = ob_source latest, it_kind = kind, it_occurred = ob_occurred first,
                    it_confidence = ga_confidence a, it_artifacts = ga_artifacts a, it_correlation = og_id g,
                    it_context = x \<rparr> \<rparr>))"

section \<open>Operations\<close>

definition correlationID :: "(string \<Rightarrow> string) \<Rightarrow> string \<Rightarrow> string \<Rightarrow> string" where
  "correlationID hash subject event = ''corr-'' @ hash (subject @ [CHR 0x00] @ event)"

fun drop_oldest :: "int \<Rightarrow> (string \<rightharpoonup> string) \<Rightarrow> string list \<Rightarrow> (string \<rightharpoonup> string) \<times> string list" where
  "drop_oldest n seen [] = (seen, [])"
| "drop_oldest n seen (k # ks) =
     (if n < int (length (k # ks)) then drop_oldest n (seen(k := None)) ks else (seen, k # ks))"

definition remember :: "string \<Rightarrow> string \<Rightarrow> correlator \<Rightarrow> correlator" where
  "remember event cid c =
     (if co_seen c event \<noteq> None then c
      else
        (let (seen, order) = drop_oldest (cc_max_seen (co_config c)) ((co_seen c)(event \<mapsto> cid)) (co_order c @ [event])
         in c\<lparr> co_seen := seen, co_order := order \<rparr>))"

definition keep_latest :: "int \<Rightarrow> observation list \<Rightarrow> observation list" where
  "keep_latest n es = (if n < int (length es) then drop (length es - nat n) es else es)"

definition sort_events :: "observation list \<Rightarrow> observation list" where
  "sort_events es = sort_key (\<lambda>e. (ob_occurred e, ob_event e)) es"

definition join_group :: "correlation_config \<Rightarrow> observation \<Rightarrow> observation_group \<Rightarrow> observation_group" where
  "join_group f b g =
     g\<lparr> og_events := keep_latest (cc_max_events f) (sort_events (og_events g @ [b])),
        og_max := (if og_max g < ob_occurred b then ob_occurred b else og_max g) \<rparr>"

definition new_group :: "(string \<Rightarrow> string) \<Rightarrow> observation \<Rightarrow> observation_group" where
  "new_group hash b =
     \<lparr> og_id = correlationID hash (ob_subject b) (ob_event b), og_subject = ob_subject b,
       og_max = ob_occurred b, og_events = [] \<rparr>"

definition is_late :: "correlation_config \<Rightarrow> observation \<Rightarrow> observation_group \<Rightarrow> bool" where
  "is_late f b g \<longleftrightarrow> og_max g \<noteq> zero_time \<and> ob_occurred b < og_max g - cc_lateness f"

definition place_observation :: "(string \<Rightarrow> string) \<Rightarrow> observation \<Rightarrow> correlator \<Rightarrow> correlation_status \<times> observation_group" where
  "place_observation hash b c =
     (case map_of (co_groups c) (ob_subject b) of
        None \<Rightarrow> (StatusNewGroup, new_group hash b)
      | Some g \<Rightarrow>
          if og_max g + cc_window (co_config c) < ob_occurred b then (StatusNewGroup, new_group hash b)
          else (StatusUpdated, g))"

definition accept_observation ::
  "(string \<Rightarrow> string) \<Rightarrow> observation \<Rightarrow> correlator \<Rightarrow>
     (go_error + correlation_status \<times> incident_candidate option) \<times> correlator" where
  "accept_observation hash b c =
     (case place_observation hash b c of
        (status, g) \<Rightarrow>
          (let g = join_group (co_config c) b g
           in (Inr (status, buildCandidate (co_config c) g),
               remember (ob_event b) (og_id g) (c\<lparr> co_groups := AList.update (ob_subject b) g (co_groups c) \<rparr>))))"

definition Ingest ::
  "(string \<Rightarrow> bool) \<Rightarrow> (string \<Rightarrow> string) \<Rightarrow> observation \<Rightarrow> correlator \<Rightarrow>
     (go_error + correlation_status \<times> incident_candidate option) \<times> correlator" where
  "Ingest uri_ok hash b c =
     (case observation_Validate uri_ok b of
        Some e \<Rightarrow> (Inl e, c)
      | None \<Rightarrow>
          (let group = map_of (co_groups c) (ob_subject b)
           in case co_seen c (ob_event b) of
                Some cid \<Rightarrow>
                  (case group of
                     Some g \<Rightarrow>
                       if og_id g = cid then (Inr (StatusDuplicate, buildCandidate (co_config c) g), c)
                       else (Inr (StatusDuplicate, None), c)
                   | None \<Rightarrow> (Inr (StatusDuplicate, None), c))
              | None \<Rightarrow>
                  (case group of
                     Some g \<Rightarrow>
                       if is_late (co_config c) b g
                       then (Inr (StatusLate, buildCandidate (co_config c) g), remember (ob_event b) (og_id g) c)
                       else accept_observation hash b c
                   | None \<Rightarrow> accept_observation hash b c)))"

definition Prune :: "int \<Rightarrow> correlator \<Rightarrow> nat \<times> correlator" where
  "Prune limit c =
     (let kept = filter (\<lambda>(_, g). \<not> og_max g < limit) (co_groups c)
      in (length (co_groups c) - length kept, c\<lparr> co_groups := kept \<rparr>))"

section \<open>Times of a group\<close>

definition close_times :: "int \<Rightarrow> int list \<Rightarrow> bool" where
  "close_times w ts \<longleftrightarrow> sorted ts \<and> successively (\<lambda>a b. b - a \<le> w) ts"

lemma close_insort_later:
  assumes "close_times w (x # xs)" and "x \<le> t" and "t \<le> last (x # xs) + w"
  shows "close_times w (x # insort t xs)"
  using assms
proof (induction xs arbitrary: x)
  case (Cons y ys)
  show ?case
  proof (cases "t \<le> y")
    case True
    with Cons.prems show ?thesis by (auto simp: close_times_def)
  next
    case False
    have "close_times w (y # ys)" using Cons.prems(1) by (simp add: close_times_def)
    with Cons False have "close_times w (y # insort t ys)" by simp
    with False Cons.prems(1) show ?thesis by (auto simp: close_times_def set_insort_key)
  qed
qed (simp add: close_times_def)

lemma close_insort:
  assumes "close_times w ts" and "ts \<noteq> [] \<Longrightarrow> last ts - l \<le> t \<and> t \<le> last ts + w" and "l \<le> w"
  shows "close_times w (insort t ts)"
proof (cases ts)
  case (Cons x xs)
  show ?thesis
  proof (cases "t \<le> x")
    case True
    have "x \<le> last ts" using assms(1) Cons by (auto simp: close_times_def)
    with assms True Cons show ?thesis by (auto simp: close_times_def)
  next
    case False
    with close_insort_later [of w x xs t] assms Cons show ?thesis by simp
  qed
qed (simp add: close_times_def)

lemma last_insort: "sorted ts \<Longrightarrow> last (insort t ts) = (if ts = [] then t else max t (last ts))"
proof (induction ts)
  case (Cons a ts)
  show ?case
  proof (cases "ts = [] \<or> \<not> t \<le> a")
    case True
    with Cons show ?thesis by (auto simp: max_def)
  next
    case False
    then have "t \<le> a" "a \<le> last ts" using Cons.prems by simp_all
    then have "t \<le> last ts" by (rule order_trans)
    with False show ?thesis by (simp add: max_def)
  qed
qed simp

lemma close_drop: "close_times w ts \<Longrightarrow> close_times w (drop n ts)"
  using append_take_drop_id [of n ts]
  by (metis close_times_def sorted_append successively_append_iff)

lemma sorted_times: "sorted (map (\<lambda>e. (ob_occurred e, ob_event e)) es) \<Longrightarrow> sorted (map ob_occurred es)"
  by (induction es) (auto simp: less_eq_prod_def)

lemma sort_events_times:
  assumes "sorted (map ob_occurred es)"
  shows "map ob_occurred (sort_events (es @ [b])) = insort (ob_occurred b) (map ob_occurred es)"
proof -
  have "sorted (map ob_occurred (sort_events (es @ [b])))"
    unfolding sort_events_def by (rule sorted_times) (rule sorted_sort_key)
  moreover have "mset (map ob_occurred (sort_events (es @ [b]))) = mset (insort (ob_occurred b) (map ob_occurred es))"
    by (simp add: sort_events_def add.commute)
  moreover have "sorted (insort (ob_occurred b) (map ob_occurred es))" using assms by (rule sorted_insort [THEN iffD2])
  ultimately show ?thesis by (metis properties_for_sort)
qed

section \<open>The invariant\<close>

definition group_ok :: "correlation_config \<Rightarrow> observation_group \<Rightarrow> bool" where
  "group_ok f g \<longleftrightarrow>
     og_events g \<noteq> [] \<and> int (length (og_events g)) \<le> cc_max_events f \<and>
     sorted (map (\<lambda>e. (ob_occurred e, ob_event e)) (og_events g)) \<and>
     close_times (cc_window f) (map ob_occurred (og_events g)) \<and> og_max g = ob_occurred (last (og_events g)) \<and>
     (\<forall>e \<in> set (og_events g). ob_subject e = og_subject g \<and> ob_occurred e \<noteq> zero_time)"

definition config_ok :: "correlation_config \<Rightarrow> bool" where
  "config_ok f \<longleftrightarrow>
     0 < cc_window f \<and> 0 \<le> cc_lateness f \<and> cc_lateness f \<le> cc_window f \<and> 0 < cc_max_events f \<and>
     0 < cc_max_seen f \<and> 0 < cc_max_artifacts f"

definition memory_ok :: "correlator \<Rightarrow> bool" where
  "memory_ok c \<longleftrightarrow>
     distinct (co_order c) \<and> dom (co_seen c) = set (co_order c) \<and>
     int (length (co_order c)) \<le> cc_max_seen (co_config c)"

definition correlator_inv :: "correlator \<Rightarrow> bool" where
  "correlator_inv c \<longleftrightarrow>
     config_ok (co_config c) \<and> memory_ok c \<and> distinct (map fst (co_groups c)) \<and>
     (\<forall>(s, g) \<in> set (co_groups c). og_subject g = s \<and> group_ok (co_config c) g)"

lemma drop_oldest_window:
  "distinct ks \<Longrightarrow> dom seen = set ks \<Longrightarrow> drop_oldest n seen ks = (seen', ks') \<Longrightarrow>
     dom seen' = set ks' \<and> ks' = drop (nat (int (length ks) - n)) ks"
proof (induction n seen ks rule: drop_oldest.induct)
  case (2 n seen k ks)
  show ?case
  proof (cases "n < int (length (k # ks))")
    case True
    then have d: "nat (int (length (k # ks)) - n) = Suc (nat (int (length ks) - n))" by auto
    have seen: "dom (seen(k := None)) = set ks" using 2(2,3) by auto
    have "drop_oldest n (seen(k := None)) ks = (seen', ks')"
      using True 2(4) by (simp only: drop_oldest.simps if_True)
    from 2(1) [OF True _ seen this] 2(2) show ?thesis unfolding d by simp
  qed (use 2 in auto)
qed simp

lemma remember_memory:
  assumes "memory_ok c" and "0 < cc_max_seen (co_config c)" and "event \<notin> set (co_order c)"
  shows "memory_ok (remember event cid c)"
    and "co_order (remember event cid c) =
      drop (nat (int (Suc (length (co_order c))) - cc_max_seen (co_config c))) (co_order c @ [event])"
proof -
  let ?seen = "(co_seen c)(event \<mapsto> cid)" and ?ks = "co_order c @ [event]"
  have "distinct ?ks" "dom ?seen = set ?ks" using assms(1,3) by (auto simp: memory_ok_def)
  moreover obtain seen order where o: "drop_oldest (cc_max_seen (co_config c)) ?seen ?ks = (seen, order)"
    by fastforce
  ultimately have w: "dom seen = set order" "order = drop (nat (int (length ?ks) - cc_max_seen (co_config c))) ?ks"
    using drop_oldest_window by blast+
  have "co_seen c event = None" using assms(1,3) by (auto simp: memory_ok_def)
  with o have r: "remember event cid c = c\<lparr> co_seen := seen, co_order := order \<rparr>" by (simp add: remember_def)
  then show "co_order (remember event cid c) =
      drop (nat (int (Suc (length (co_order c))) - cc_max_seen (co_config c))) ?ks"
    using w(2) by simp
  have "distinct order" unfolding w(2) by (rule distinct_drop) (rule \<open>distinct ?ks\<close>)
  moreover have "int (length order) \<le> cc_max_seen (co_config c)" using assms(2) unfolding w(2) length_drop by linarith
  ultimately show "memory_ok (remember event cid c)" using w(1) r by (simp add: memory_ok_def)
qed

lemma remember_fields: "co_groups (remember event cid c) = co_groups c" "co_config (remember event cid c) = co_config c"
  by (simp_all add: remember_def Let_def split: prod.split)

lemma memory_ok_groups [simp]: "memory_ok (c\<lparr> co_groups := gs \<rparr>) = memory_ok c"
  by (simp add: memory_ok_def)

lemma keep_latest_drop: "\<exists>n. keep_latest m es = drop n es"
  by (auto simp: keep_latest_def intro: exI [of _ 0])

lemma keep_latest_nonempty: "0 < m \<Longrightarrow> es \<noteq> [] \<Longrightarrow> keep_latest m es \<noteq> [] \<and> last (keep_latest m es) = last es"
  by (auto simp: keep_latest_def last_drop)

lemma keep_latest_length: "0 < m \<Longrightarrow> int (length (keep_latest m es)) \<le> m"
  by (auto simp: keep_latest_def)

text \<open>A group that takes an observation in.\<close>

lemma join_group_ok:
  assumes f: "config_ok f" and b: "ob_subject b = og_subject g" "ob_occurred b \<noteq> zero_time"
    and g: "og_events g = [] \<and> og_max g = ob_occurred b \<or>
      group_ok f g \<and> og_max g - cc_lateness f \<le> ob_occurred b \<and> ob_occurred b \<le> og_max g + cc_window f"
  shows "group_ok f (join_group f b g)"
proof -
  let ?es = "sort_events (og_events g @ [b])" and ?ts = "map ob_occurred (og_events g)"
  let ?ks = "keep_latest (cc_max_events f) ?es"
  have ts: "close_times (cc_window f) ?ts"
    using g by (auto simp: group_ok_def close_times_def)
  then have sorted: "sorted ?ts" by (simp add: close_times_def)
  have near: "?ts \<noteq> [] \<Longrightarrow> last ?ts - cc_lateness f \<le> ob_occurred b \<and> ob_occurred b \<le> last ?ts + cc_window f"
    using g by (auto simp: group_ok_def last_map)
  have times: "map ob_occurred ?es = insort (ob_occurred b) ?ts" by (rule sort_events_times [OF sorted])
  have close: "close_times (cc_window f) (map ob_occurred ?es)"
    unfolding times by (rule close_insort [OF ts near]) (use f in \<open>simp_all add: config_ok_def\<close>)
  have ne: "?es \<noteq> []" by (metis times insort_not_Nil list.map_disc_iff)
  have m: "0 < cc_max_events f" using f by (simp add: config_ok_def)
  obtain n where n: "?ks = drop n ?es" using keep_latest_drop by blast
  have "sorted (map (\<lambda>e. (ob_occurred e, ob_event e)) ?ks)"
    unfolding n drop_map [symmetric] unfolding sort_events_def by (intro sorted_wrt_drop sorted_sort_key)
  moreover have "close_times (cc_window f) (map ob_occurred ?ks)"
    unfolding n using close_drop [OF close, of n] by (simp add: drop_map)
  moreover have "ob_occurred (last ?ks) = (if og_max g < ob_occurred b then ob_occurred b else og_max g)"
  proof -
    have "ob_occurred (last ?ks) = last (map ob_occurred ?es)"
      using keep_latest_nonempty [OF m ne] ne by (simp add: last_map)
    also have "\<dots> = (if ?ts = [] then ob_occurred b else max (ob_occurred b) (last ?ts))"
      unfolding times by (rule last_insort [OF sorted])
    finally show ?thesis using g by (auto simp: group_ok_def last_map max_def)
  qed
  moreover have "set ?ks \<subseteq> set (og_events g) \<union> {b}"
    unfolding n using set_drop_subset [of n ?es] by (auto simp: sort_events_def)
  then have "\<forall>e \<in> set ?ks. ob_subject e = og_subject g \<and> ob_occurred e \<noteq> zero_time"
    using g b by (auto simp: group_ok_def)
  ultimately show ?thesis
    using keep_latest_nonempty [OF m ne] keep_latest_length [OF m, of ?es]
    by (simp add: group_ok_def join_group_def)
qed

lemma update_member:
  "distinct (map fst gs) \<Longrightarrow> (s, g) \<in> set (AList.update k v gs) \<Longrightarrow> s = k \<and> g = v \<or> s \<noteq> k \<and> (s, g) \<in> set gs"
proof -
  assume d: "distinct (map fst gs)" and m: "(s, g) \<in> set (AList.update k v gs)"
  have "distinct (map fst (AList.update k v gs))" using d by (rule distinct_update)
  with m have "map_of (AList.update k v gs) s = Some g" by simp
  then have "((map_of gs)(k \<mapsto> v)) s = Some g" by (simp add: update_conv)
  then show ?thesis by (auto split: if_splits dest: map_of_SomeD)
qed

lemma accept_observation_inv:
  assumes inv: "correlator_inv c" and valid: "ob_occurred b \<noteq> zero_time"
    and not_late: "\<And>g. map_of (co_groups c) (ob_subject b) = Some g \<Longrightarrow> \<not> is_late (co_config c) b g"
    and unseen: "co_seen c (ob_event b) = None" and accept: "accept_observation hash b c = (r, c')"
  shows "correlator_inv c'"
    and "co_order c' = drop (nat (int (Suc (length (co_order c))) - cc_max_seen (co_config c))) (co_order c @ [ob_event b])"
    and "co_config c' = co_config c"
proof -
  let ?f = "co_config c"
  obtain status g where p: "place_observation hash b c = (status, g)" by fastforce
  let ?g = "join_group ?f b g"
  let ?c = "c\<lparr> co_groups := AList.update (ob_subject b) ?g (co_groups c) \<rparr>"
  from accept p have c': "c' = remember (ob_event b) (og_id ?g) ?c" by (simp add: accept_observation_def Let_def)
  have f: "config_ok ?f" and mem: "memory_ok c" and d: "distinct (map fst (co_groups c))"
    and groups: "\<And>s g. (s, g) \<in> set (co_groups c) \<Longrightarrow> og_subject g = s \<and> group_ok ?f g"
    using inv by (auto simp: correlator_inv_def)
  have g: "og_subject g = ob_subject b \<and> (og_events g = [] \<and> og_max g = ob_occurred b \<or>
      group_ok ?f g \<and> og_max g - cc_lateness ?f \<le> ob_occurred b \<and> ob_occurred b \<le> og_max g + cc_window ?f)"
  proof (cases "map_of (co_groups c) (ob_subject b)")
    case None
    with p show ?thesis by (auto simp: place_observation_def new_group_def)
  next
    case (Some g0)
    with groups have g0: "og_subject g0 = ob_subject b" "group_ok ?f g0" by (auto dest: map_of_SomeD)
    then have "og_max g0 \<noteq> zero_time" by (auto simp: group_ok_def)
    with not_late [OF Some] have "og_max g0 - cc_lateness ?f \<le> ob_occurred b" by (simp add: is_late_def)
    with p Some g0 show ?thesis by (auto simp: place_observation_def new_group_def split: if_splits)
  qed
  then have ok: "group_ok ?f ?g" "og_subject ?g = ob_subject b"
    using join_group_ok [OF f _ valid, of g] by (auto simp: join_group_def)
  have unseen': "ob_event b \<notin> set (co_order ?c)" "memory_ok ?c" "0 < cc_max_seen (co_config ?c)"
    using unseen mem f by (auto simp: memory_ok_def config_ok_def)
  note r = remember_memory [OF unseen'(2,3,1), of "og_id ?g"] remember_fields [of "ob_event b" "og_id ?g" ?c]
  show "co_config c' = co_config c"
    "co_order c' = drop (nat (int (Suc (length (co_order c))) - cc_max_seen ?f)) (co_order c @ [ob_event b])"
    using r unfolding c' by simp_all
  have "\<forall>(s, h) \<in> set (AList.update (ob_subject b) ?g (co_groups c)). og_subject h = s \<and> group_ok ?f h"
  proof safe
    fix s h assume "(s, h) \<in> set (AList.update (ob_subject b) ?g (co_groups c))"
    from update_member [OF d this] ok groups show "og_subject h = s" "group_ok ?f h" by auto
  qed
  then show "correlator_inv c'"
    using r f d unfolding c' by (simp add: correlator_inv_def distinct_update)
qed

lemma remember_inv:
  assumes "correlator_inv c" and "co_seen c event = None"
  shows "correlator_inv (remember event cid c)"
    and "co_order (remember event cid c) =
      drop (nat (int (Suc (length (co_order c))) - cc_max_seen (co_config c))) (co_order c @ [event])"
proof -
  have m: "memory_ok c" "0 < cc_max_seen (co_config c)" "event \<notin> set (co_order c)"
    using assms by (auto simp: correlator_inv_def config_ok_def memory_ok_def)
  from remember_memory [OF m] assms(1) show "correlator_inv (remember event cid c)"
    "co_order (remember event cid c) =
      drop (nat (int (Suc (length (co_order c))) - cc_max_seen (co_config c))) (co_order c @ [event])"
    by (simp_all add: correlator_inv_def remember_fields)
qed

text \<open>
  An ingestion rejects the observation, knows it already, or takes it into the memory; only the
  last changes the correlator.
\<close>

lemma Ingest_cases:
  assumes "correlator_inv c" and "Ingest uri_ok hash b c = (r, c')"
  obtains (rejected) e where "r = Inl e" and "observation_Validate uri_ok b = Some e" and "c' = c"
  | (duplicate) x where "r = Inr (StatusDuplicate, x)" and "observation_Validate uri_ok b = None"
      and "ob_event b \<in> set (co_order c)" and "c' = c"
  | (taken) status x where "r = Inr (status, x)" and "status \<noteq> StatusDuplicate"
      and "observation_Validate uri_ok b = None" and "ob_event b \<notin> set (co_order c)"
      and "correlator_inv c'" and "co_config c' = co_config c"
      and "co_order c' = drop (nat (int (Suc (length (co_order c))) - cc_max_seen (co_config c))) (co_order c @ [ob_event b])"
proof (cases "observation_Validate uri_ok b")
  case (Some e)
  with assms(2) have "r = Inl e" "c' = c" by (auto simp: Ingest_def)
  with Some rejected show thesis by blast
next
  case valid: None
  then have time: "ob_occurred b \<noteq> zero_time" by (simp add: observation_Validate_def check_simps)
  have dom: "dom (co_seen c) = set (co_order c)" using assms(1) by (simp add: correlator_inv_def memory_ok_def)
  show thesis
  proof (cases "co_seen c (ob_event b)")
    case (Some cid)
    then have "ob_event b \<in> set (co_order c)" using dom by auto
    with assms(2) valid Some duplicate show thesis
      by (auto simp: Ingest_def Let_def split: option.splits if_splits)
  next
    case unseen: None
    then have new: "ob_event b \<notin> set (co_order c)" using dom by auto
    show thesis
    proof (cases "\<exists>g. map_of (co_groups c) (ob_subject b) = Some g \<and> is_late (co_config c) b g")
      case True
      then obtain g where g: "map_of (co_groups c) (ob_subject b) = Some g" "is_late (co_config c) b g" by blast
      with assms(2) valid unseen have "r = Inr (StatusLate, buildCandidate (co_config c) g)"
        "c' = remember (ob_event b) (og_id g) c" by (simp_all add: Ingest_def)
      with taken [OF _ _ valid new] remember_inv [OF assms(1) unseen] show thesis
        by (simp add: remember_fields)
    next
      case False
      then have a: "accept_observation hash b c = (r, c')"
        using assms(2) valid unseen by (auto simp: Ingest_def Let_def split: option.splits)
      moreover have "\<exists>x status. r = Inr (status, x) \<and> status \<noteq> StatusDuplicate"
        using a by (auto simp: accept_observation_def place_observation_def Let_def split: option.splits if_splits)
      ultimately show thesis
        using taken [OF _ _ valid new] accept_observation_inv [OF assms(1) time _ unseen a] False by blast
    qed
  qed
qed

lemma Ingest_inv:
  assumes "correlator_inv c" and "Ingest uri_ok hash b c = (r, c')"
  shows "correlator_inv c' \<and> co_config c' = co_config c"
  using assms by (cases rule: Ingest_cases) (use assms(1) in simp_all)

lemma Prune_inv:
  assumes "correlator_inv c"
  shows "correlator_inv (snd (Prune limit c))" and "co_order (snd (Prune limit c)) = co_order c"
    and "co_config (snd (Prune limit c)) = co_config c"
  using assms distinct_map_filter [of fst "co_groups c" "\<lambda>(_, g). \<not> og_max g < limit"]
  by (auto simp: Prune_def Let_def correlator_inv_def)

lemma new_correlator_inv:
  "NewCorrelator f = Inr c \<Longrightarrow> correlator_inv c \<and> co_config c = f \<and> co_order c = [] \<and> co_groups c = []"
  by (auto simp: NewCorrelator_def check_simps correlator_inv_def config_ok_def memory_ok_def split: option.splits)

section \<open>Runs\<close>

datatype correlation_event = Observe observation | Forget int

text \<open>The observations that a run takes in, and the correlator after it.\<close>

fun correlate ::
  "(string \<Rightarrow> bool) \<Rightarrow> (string \<Rightarrow> string) \<Rightarrow> correlation_event list \<Rightarrow> correlator \<Rightarrow> observation list \<times> correlator" where
  "correlate uri_ok hash [] c = ([], c)"
| "correlate uri_ok hash (Observe b # es) c =
     (case Ingest uri_ok hash b c of
        (Inr (status, _), c') \<Rightarrow>
          if status = StatusDuplicate then correlate uri_ok hash es c'
          else (case correlate uri_ok hash es c' of (bs, c'') \<Rightarrow> (b # bs, c''))
      | (Inl _, c') \<Rightarrow> correlate uri_ok hash es c')"
| "correlate uri_ok hash (Forget limit # es) c = correlate uri_ok hash es (snd (Prune limit c))"

text \<open>The memory of the correlator as a filter of events.\<close>

fun take_event ::
  "(string \<Rightarrow> bool) \<Rightarrow> (string \<Rightarrow> string) \<Rightarrow> correlation_event \<Rightarrow> int \<Rightarrow> correlator \<Rightarrow> unit option \<times> correlator" where
  "take_event uri_ok hash (Observe b) _ c =
     (case Ingest uri_ok hash b c of
        (Inr (status, _), c') \<Rightarrow> (if status = StatusDuplicate then Some () else None, c')
      | (Inl _, c') \<Rightarrow> (Some (), c'))"
| "take_event uri_ok hash (Forget limit) _ c = (Some (), snd (Prune limit c))"

fun in_memory :: "correlation_event \<Rightarrow> nat \<Rightarrow> correlator \<Rightarrow> bool" where
  "in_memory (Observe b) d c \<longleftrightarrow>
     (\<exists>before_it since. co_order c = before_it @ ob_event b # since \<and> length since \<le> d)"
| "in_memory (Forget _) d c \<longleftrightarrow> False"

fun known_event :: "correlation_event \<Rightarrow> correlator \<Rightarrow> bool" where
  "known_event (Observe b) c \<longleftrightarrow> ob_event b \<in> set (co_order c)"
| "known_event (Forget _) c \<longleftrightarrow> False"

fun same_event :: "correlation_event \<Rightarrow> correlation_event \<Rightarrow> bool" where
  "same_event (Observe b) (Observe b') \<longleftrightarrow> ob_event b = ob_event b'"
| "same_event _ _ \<longleftrightarrow> False"

fun valid_event :: "(string \<Rightarrow> bool) \<Rightarrow> correlation_event \<Rightarrow> int \<Rightarrow> bool" where
  "valid_event uri_ok (Observe b) _ \<longleftrightarrow> observation_Validate uri_ok b = None"
| "valid_event uri_ok (Forget _) _ \<longleftrightarrow> False"

definition memory_room :: "correlator \<Rightarrow> nat" where
  "memory_room c = nat (cc_max_seen (co_config c))"

text \<open>What an event does to the memory.\<close>

lemma take_event_memory:
  assumes "correlator_inv c" and "take_event uri_ok hash ev t c = (err, c')"
  shows "correlator_inv c' \<and> co_config c' = co_config c \<and>
    (if err = None
     then (\<exists>b. ev = Observe b \<and> observation_Validate uri_ok b = None \<and> ob_event b \<notin> set (co_order c) \<and>
       co_order c' = drop (nat (int (Suc (length (co_order c))) - cc_max_seen (co_config c))) (co_order c @ [ob_event b]))
     else co_order c' = co_order c \<and> (\<forall>b. ev = Observe b \<longrightarrow>
       observation_Validate uri_ok b \<noteq> None \<or> ob_event b \<in> set (co_order c)))"
proof (cases ev)
  case (Observe b)
  obtain r c1 where i: "Ingest uri_ok hash b c = (r, c1)" by fastforce
  from assms(1) i show ?thesis
  proof (cases rule: Ingest_cases)
    case (rejected e)
    with assms i Observe show ?thesis by auto
  next
    case (duplicate x)
    with assms i Observe show ?thesis by auto
  next
    case (taken status x)
    with assms i Observe have "err = None" "c' = c1" by auto
    with taken Observe show ?thesis by auto
  qed
next
  case (Forget limit)
  with assms Prune_inv [OF assms(1)] show ?thesis by auto
qed

lemma memory_keeps:
  assumes "int (Suc (length since)) < n"
  shows "\<exists>b. drop (nat (int (Suc (length (before_it @ x # since))) - n)) ((before_it @ x # since) @ [y]) =
    b @ x # (since @ [y])"
proof -
  have "nat (int (Suc (length (before_it @ x # since))) - n) \<le> length before_it" using assms by simp
  then show ?thesis by simp
qed

lemma in_memory_on:
  assumes "correlator_inv c" and "in_memory ev d c" and "take_event uri_ok hash ev' t c = (err, c')"
    and "err = None \<longrightarrow> Suc d < memory_room c"
  shows "in_memory ev (if err = None then Suc d else d) c'"
proof -
  from assms(2) obtain b before_it since where ev: "ev = Observe b"
    and w: "co_order c = before_it @ ob_event b # since" "length since \<le> d" by (cases ev) auto
  show ?thesis
  proof (cases "err = None")
    case True
    from take_event_memory [OF assms(1,3)] obtain b' :: observation where
      o: "co_order c' = drop (nat (int (Suc (length (co_order c))) - cc_max_seen (co_config c))) (co_order c @ [ob_event b'])"
      unfolding if_P [OF True] by (elim conjE exE) blast
    have "int (Suc (length since)) < cc_max_seen (co_config c)"
      using assms(4) True w(2) by (simp add: memory_room_def)
    from memory_keeps [OF this, of before_it "ob_event b" "ob_event b'"] o
    obtain k where "co_order c' = k @ ob_event b # (since @ [ob_event b'])" unfolding w(1) by (auto simp del: drop_append)
    moreover have "length (since @ [ob_event b']) \<le> Suc d" using w(2) by simp
    ultimately show ?thesis unfolding ev in_memory.simps if_P [OF True] by blast
  next
    case False
    with take_event_memory [OF assms(1,3)] w show ?thesis by (auto simp: ev)
  qed
qed

lemma in_memory_taken:
  assumes "correlator_inv c" and "take_event uri_ok hash ev t c = (None, c')"
  shows "in_memory ev 0 c'"
proof -
  from take_event_memory [OF assms] obtain b where b: "ev = Observe b"
    "co_order c' = drop (nat (int (Suc (length (co_order c))) - cc_max_seen (co_config c))) (co_order c @ [ob_event b])"
    by (auto simp del: drop_append)
  have "nat (int (Suc (length (co_order c))) - cc_max_seen (co_config c)) \<le> length (co_order c)"
    using assms(1) unfolding correlator_inv_def config_ok_def by linarith
  with b(2) have "co_order c' = drop (nat (int (Suc (length (co_order c))) - cc_max_seen (co_config c))) (co_order c) @ ob_event b # []"
    by simp
  then show ?thesis unfolding b(1) in_memory.simps by blast
qed

interpretation correlation: replay_filter "take_event uri_ok hash" correlator_inv memory_room in_memory known_event
    same_event "valid_event uri_ok" for uri_ok hash
proof
  fix c ev t err c'
  assume inv: "correlator_inv c" and take: "take_event uri_ok hash ev t c = (err, c')"
  note m = take_event_memory [OF inv take]
  from m show "correlator_inv c' \<and> memory_room c' = memory_room c" by (simp add: memory_room_def)
  fix ev'
  show "known_event ev' c \<or> err = None \<and> same_event ev' ev" if "known_event ev' c'"
  proof (cases "err = None")
    case True
    with m obtain b where b: "ev = Observe b"
      "co_order c' = drop (nat (int (Suc (length (co_order c))) - cc_max_seen (co_config c))) (co_order c @ [ob_event b])"
      by (auto simp del: drop_append)
    from set_drop_subset [of _ "co_order c @ [ob_event b]"] have "set (co_order c') \<subseteq> insert (ob_event b) (set (co_order c))"
      unfolding b(2) by simp
    with that b(1) True show ?thesis by (cases ev') auto
  next
    case False
    with m that show ?thesis by (cases ev') auto
  qed
next
  show "valid_event uri_ok ev t" if "take_event uri_ok hash ev t c = (None, c')" for ev t c c'
  proof (cases ev)
    case (Observe b)
    with that show ?thesis
      by (cases "observation_Validate uri_ok b") (simp_all add: Ingest_def)
  qed (use that in simp)
next
  show "in_memory ev 0 c'" if "correlator_inv c" "take_event uri_ok hash ev t c = (None, c')" for c ev t c'
    using that by (rule in_memory_taken)
next
  show "in_memory ev (if err = None then Suc d else d) c'"
    if "correlator_inv c" "in_memory ev d c" "valid_event uri_ok ev t" "take_event uri_ok hash ev' t c = (err, c')"
      "err = None \<longrightarrow> Suc d < memory_room c" for c ev d t ev' err c'
    using that(1,2,4,5) by (rule in_memory_on)
next
  show "fst (take_event uri_ok hash ev' t c) \<noteq> None"
    if "correlator_inv c" "in_memory ev d c" "valid_event uri_ok ev t" "same_event ev' ev" for c ev d t ev'
    using take_event_memory [OF that(1) surjective_pairing, of uri_ok hash ev' t] that(2,4)
    by (cases ev; cases ev') (auto split: if_splits)
next
  show "fst (take_event uri_ok hash ev t c) = None"
    if "correlator_inv c" "\<not> known_event ev c" "valid_event uri_ok ev t" for c ev t
    using take_event_memory [OF that(1) surjective_pairing, of uri_ok hash ev t] that(2,3)
    by (cases ev) (auto split: if_splits)
qed

lemma correlate_run:
  "run_consume (take_event uri_ok hash) (map (\<lambda>e. (e, 0)) evs) c =
     (map Observe (fst (correlate uri_ok hash evs c)), snd (correlate uri_ok hash evs c))"
proof (induction evs arbitrary: c)
  case (Cons e evs)
  show ?case
  proof (cases e)
    case (Observe b)
    obtain r c' where i: "Ingest uri_ok hash b c = (r, c')" by fastforce
    with Observe Cons show ?thesis by (cases r) (auto split: prod.splits)
  next
    case (Forget limit)
    with Cons show ?thesis by simp
  qed
qed simp

section \<open>The promises of the correlator\<close>

text \<open>The observations of every group have been taken in, and from the group's own subject.\<close>

definition drawn_from :: "observation set \<Rightarrow> correlator \<Rightarrow> bool" where
  "drawn_from bs c \<longleftrightarrow> (\<forall>(s, g) \<in> set (co_groups c). set (og_events g) \<subseteq> bs)"

lemma join_group_events: "set (og_events (join_group f b g)) \<subseteq> insert b (set (og_events g))"
proof -
  obtain n where "keep_latest (cc_max_events f) (sort_events (og_events g @ [b])) = drop n (sort_events (og_events g @ [b]))"
    using keep_latest_drop by blast
  then show ?thesis
    using set_drop_subset [of n "sort_events (og_events g @ [b])"] by (simp add: join_group_def sort_events_def)
qed

lemma place_events:
  assumes "drawn_from bs c" and "place_observation hash b c = (status, g)" shows "set (og_events g) \<subseteq> bs"
  using assms by (fastforce simp: place_observation_def new_group_def drawn_from_def split: option.splits if_splits dest: map_of_SomeD)

lemma Ingest_drawn:
  assumes "drawn_from bs c" and "distinct (map fst (co_groups c))" and "Ingest uri_ok hash b c = (r, c')"
  shows "drawn_from (insert b bs) c' \<and> (c' = c \<or> (\<exists>status x. r = Inr (status, x) \<and> status \<noteq> StatusDuplicate))"
proof -
  have stay: "drawn_from (insert b bs) c" using assms(1) by (auto simp: drawn_from_def)
  then have remembered: "drawn_from (insert b bs) (remember ev cid c)" for ev cid
    by (simp add: drawn_from_def remember_fields)
  have accepted: "drawn_from (insert b bs) c'" if a: "accept_observation hash b c = (r, c')"
  proof -
    obtain status g where p: "place_observation hash b c = (status, g)" by fastforce
    let ?g = "join_group (co_config c) b g"
    have "set (og_events ?g) \<subseteq> insert b bs" using join_group_events place_events [OF assms(1) p] by blast
    then have "drawn_from (insert b bs) (c\<lparr> co_groups := AList.update (ob_subject b) ?g (co_groups c) \<rparr>)"
      using stay update_member [OF assms(2)] by (fastforce simp: drawn_from_def)
    moreover have "co_groups c' = AList.update (ob_subject b) ?g (co_groups c)"
      using a p by (auto simp: accept_observation_def Let_def remember_fields)
    ultimately show ?thesis by (simp add: drawn_from_def)
  qed
  have status: "\<exists>status x. r = Inr (status, x) \<and> status \<noteq> StatusDuplicate" if "accept_observation hash b c = (r, c')"
    using that by (auto simp: accept_observation_def place_observation_def Let_def split: option.splits if_splits)
  show ?thesis
  proof (cases "observation_Validate uri_ok b = None \<and> co_seen c (ob_event b) = None")
    case False
    then have "c' = c" using assms(3) by (auto simp: Ingest_def Let_def split: option.splits if_splits)
    with stay show ?thesis by simp
  next
    case True
    show ?thesis
    proof (cases "\<exists>g. map_of (co_groups c) (ob_subject b) = Some g \<and> is_late (co_config c) b g")
      case late: True
      with True assms(3) remembered show ?thesis by (auto simp: Ingest_def)
    next
      case False
      with True assms(3) have "accept_observation hash b c = (r, c')"
        by (auto simp: Ingest_def Let_def split: option.splits)
      with accepted status show ?thesis by blast
    qed
  qed
qed

lemma correlate_drawn:
  "correlator_inv c \<Longrightarrow> drawn_from bs c \<Longrightarrow> correlate uri_ok hash evs c = (taken, c') \<Longrightarrow>
     drawn_from (bs \<union> set taken) c'"
proof (induction evs arbitrary: c bs taken)
  case (Cons e evs)
  show ?case
  proof (cases e)
    case (Observe b)
    obtain r c1 where i: "Ingest uri_ok hash b c = (r, c1)" by fastforce
    have inv: "correlator_inv c1" using Ingest_inv [OF Cons.prems(1) i] by blast
    have d: "distinct (map fst (co_groups c))" using Cons.prems(1) by (simp add: correlator_inv_def)
    note drawn = Ingest_drawn [OF Cons.prems(2) d i]
    show ?thesis
    proof (cases "\<exists>status x. r = Inr (status, x) \<and> status \<noteq> StatusDuplicate")
      case True
      then obtain ts where t: "correlate uri_ok hash evs c1 = (ts, c')" "taken = b # ts"
        using Cons.prems(3) by (auto simp: Observe i split: prod.splits)
      from Cons.IH [OF inv _ t(1), of "insert b bs"] drawn t(2) show ?thesis by simp
    next
      case False
      then have "c1 = c" and "correlate uri_ok hash evs c1 = (taken, c')"
        using drawn Cons.prems(3) by (auto simp: Observe i split: sum.splits prod.splits)
      with Cons.IH [OF inv] Cons.prems(2) show ?thesis by simp
    qed
  next
    case (Forget limit)
    have "drawn_from bs (snd (Prune limit c))"
      using Cons.prems(2) by (auto simp: Prune_def Let_def drawn_from_def)
    with Cons.IH [OF Prune_inv(1) [OF Cons.prems(1)]] Cons.prems(3) show ?thesis by (simp add: Forget)
  qed
qed simp

lemma correlate_inv:
  assumes "correlator_inv c" and "correlate uri_ok hash evs c = (taken, c')"
  shows "correlator_inv c' \<and> memory_room c' = memory_room c"
  using correlation.run_inv [OF assms(1) correlate_run [of uri_ok hash evs c]] assms(2) by simp

lemma correlate_config:
  "correlator_inv c \<Longrightarrow> co_config (snd (correlate uri_ok hash evs c)) = co_config c"
proof (induction evs arbitrary: c)
  case (Cons e evs)
  show ?case
  proof (cases e)
    case (Observe b)
    obtain r c1 where i: "Ingest uri_ok hash b c = (r, c1)" by fastforce
    have "correlator_inv c1 \<and> co_config c1 = co_config c" by (rule Ingest_inv [OF Cons.prems i])
    with Cons.IH [of c1] show ?thesis by (auto simp: Observe i split: sum.splits prod.splits)
  next
    case (Forget limit)
    with Cons Prune_inv [OF Cons.prems] show ?thesis by simp
  qed
qed simp

text \<open>
  C21. What a correlator holds: whatever observations come in whatever order, and whenever groups
  are pruned, there is at most one group for a subject; a group is not empty and holds no more
  observations than configured, all of them taken in, from that subject, in the order of time, and
  no two neighbours further apart than the window; and no more ids are remembered than configured.
\<close>

theorem correlated_groups:
  assumes "NewCorrelator f = Inr c0" and "correlate uri_ok hash evs c0 = (taken, c)"
  shows "distinct (map fst (co_groups c)) \<and> int (length (co_order c)) \<le> cc_max_seen f \<and>
    (\<forall>(s, g) \<in> set (co_groups c).
      og_events g \<noteq> [] \<and> int (length (og_events g)) \<le> cc_max_events f \<and>
      set (og_events g) \<subseteq> {b \<in> set taken. ob_subject b = s} \<and> sorted (map ob_occurred (og_events g)) \<and>
      successively (\<lambda>a b. ob_occurred b - ob_occurred a \<le> cc_window f) (og_events g))"
proof -
  from new_correlator_inv [OF assms(1)] have c0: "correlator_inv c0" "co_config c0 = f" "drawn_from {} c0"
    by (auto simp: drawn_from_def)
  have c: "correlator_inv c" using correlate_inv [OF c0(1) assms(2)] by blast
  have f: "co_config c = f" using correlate_config [OF c0(1), of uri_ok hash evs] assms(2) c0(2) by simp
  have drawn: "drawn_from (set taken) c" using correlate_drawn [OF c0(1,3) assms(2)] by simp
  have "og_events g \<noteq> [] \<and> int (length (og_events g)) \<le> cc_max_events f \<and>
      set (og_events g) \<subseteq> {b \<in> set taken. ob_subject b = s} \<and> sorted (map ob_occurred (og_events g)) \<and>
      successively (\<lambda>a b. ob_occurred b - ob_occurred a \<le> cc_window f) (og_events g)"
    if g: "(s, g) \<in> set (co_groups c)" for s g
  proof -
    from c g have "og_subject g = s" "group_ok f g" by (auto simp: correlator_inv_def f)
    moreover from drawn g have "set (og_events g) \<subseteq> set taken" by (auto simp: drawn_from_def)
    ultimately show ?thesis by (auto simp: group_ok_def close_times_def successively_map)
  qed
  with c f show ?thesis by (auto simp: correlator_inv_def memory_ok_def)
qed

text \<open>
  An observation counts once: after an observation was taken in, and while fewer than the
  configured number of other observations have been taken in since, a valid observation with the
  same event id is reported as a duplicate and changes nothing, even when its group was closed,
  replaced or pruned in between.
\<close>

theorem observation_counts_once:
  assumes "NewCorrelator f = Inr c0" and "correlate uri_ok hash earlier c0 = (taken0, c)"
    and "Ingest uri_ok hash b c = (Inr (status, x), c1)" and "status \<noteq> StatusDuplicate"
    and "correlate uri_ok hash between c1 = (taken, c2)" and "int (length taken) < cc_max_seen f"
    and "ob_event b' = ob_event b" and "observation_Validate uri_ok b' = None"
  shows "\<exists>y. Ingest uri_ok hash b' c2 = (Inr (StatusDuplicate, y), c2)"
proof -
  from new_correlator_inv [OF assms(1)] have c0: "correlator_inv c0" "co_config c0 = f" by blast+
  from correlate_inv [OF c0(1) assms(2)] have c: "correlator_inv c" "memory_room c = nat (cc_max_seen f)"
    by (simp_all add: memory_room_def c0(2))
  have take: "take_event uri_ok hash (Observe b) 0 c = (None, c1)" using assms(3,4) by simp
  then have valid: "valid_event uri_ok (Observe b) 0" by (rule correlation.lets_through_current)
  have room: "length (map Observe taken) < memory_room c" using assms(6) c(2) by simp
  have run: "run_consume (take_event uri_ok hash) (map (\<lambda>e. (e, 0)) between) c1 = (map Observe taken, c2)"
    using correlate_run [of uri_ok hash between c1] assms(5) by simp
  have refused: "fst (take_event uri_ok hash (Observe b') 0 c2) \<noteq> None"
    by (rule correlation.let_through_once [OF c(1) take run room]) (use valid assms(7) in simp_all)
  have c2: "correlator_inv c2"
    using correlation.run_inv [OF _ run] correlation.consume_inv [OF c(1) take] by blast
  obtain r c3 where i: "Ingest uri_ok hash b' c2 = (r, c3)" by fastforce
  from c2 i show ?thesis
  proof (cases rule: Ingest_cases)
    case (duplicate y)
    with i show ?thesis by blast
  qed (use i refused assms(8) in auto)
qed

definition sighting :: "string \<Rightarrow> string \<Rightarrow> int \<Rightarrow> observation" where
  "sighting i subject t =
     \<lparr> ob_event = i, ob_subject = subject, ob_source = ''cam-1'', ob_kind = ''person'', ob_occurred = t,
       ob_received = t, ob_confidence = 0, ob_artifacts = [],
       ob_context = \<lparr> sc_alarm = [], sc_identity = IdentityUnspecified, sc_entry = False, sc_dwell = 0, sc_cross = 0 \<rparr> \<rparr>"

definition night_correlator :: correlator where
  "night_correlator = \<lparr> co_config = DefaultConfig, co_groups = [], co_seen = Map.empty, co_order = [] \<rparr>"

abbreviation sample_ingest :: "observation \<Rightarrow> correlator \<Rightarrow> (go_error + correlation_status \<times> incident_candidate option) \<times> correlator" where
  "sample_ingest \<equiv> Ingest (\<lambda>_. True) (\<lambda>s. s)"

lemma night_new: "NewCorrelator DefaultConfig = Inr night_correlator"
  by (simp add: NewCorrelator_def night_correlator_def DefaultConfig_def fails_if_def)

definition night_sighting :: "(go_error + correlation_status \<times> incident_candidate option) \<times> correlator" where
  "night_sighting = sample_ingest (sighting ''e1'' ''yard'' 100) night_correlator"

lemma sighting_valid:
  "observation_Validate (\<lambda>_. True) (sighting ''e1'' ''yard'' 100) = None"
  "observation_Validate (\<lambda>_. True) (sighting ''e1'' ''yard'' 160) = None"
  by code_simp+

lemma night_sighted: "\<exists>x. fst night_sighting = Inr (StatusNewGroup, x)"
  using sighting_valid(1)
  by (simp add: night_sighting_def Ingest_def night_correlator_def accept_observation_def place_observation_def Let_def)

definition two_sightings :: correlator where
  "two_sightings =
     snd (correlate (\<lambda>_. True) (\<lambda>s. s)
       [Observe (sighting ''e1'' ''yard'' 100), Observe (sighting ''e2'' ''yard'' 90)] night_correlator)"

theorem observation_counts_once_witness:
  "\<exists>y. sample_ingest (sighting ''e1'' ''yard'' 160) (snd (Prune 10000 (snd night_sighting))) =
     (Inr (StatusDuplicate, y), snd (Prune 10000 (snd night_sighting)))"
proof -
  from night_sighted obtain x where "fst night_sighting = Inr (StatusNewGroup, x)" by blast
  then have s: "sample_ingest (sighting ''e1'' ''yard'' 100) night_correlator = (Inr (StatusNewGroup, x), snd night_sighting)"
    by (simp add: night_sighting_def prod_eq_iff)
  show ?thesis
    by (rule observation_counts_once [OF night_new _ s, where earlier = "[]" and between = "[Forget 10000]" and taken = "[]"])
      (simp_all add: DefaultConfig_def sighting_valid, simp_all add: sighting_def)
qed

theorem correlated_groups_witness:
  "\<exists>g. co_groups two_sightings = [(''yard'', g)] \<and> map ob_event (og_events g) = [''e2'', ''e1''] \<and>
     sorted (map ob_occurred (og_events g)) \<and> int (length (og_events g)) \<le> 64"
proof -
  have v: "observation_Validate (\<lambda>_. True) (sighting ''e2'' ''yard'' 90) = None" by code_simp
  obtain x where "sample_ingest (sighting ''e1'' ''yard'' 100) night_correlator = (Inr (StatusNewGroup, x), snd night_sighting)"
    using night_sighted by (auto simp: night_sighting_def prod_eq_iff)
  then have "co_groups two_sightings = co_groups (snd (sample_ingest (sighting ''e2'' ''yard'' 90) (snd night_sighting)))"
    by (simp add: two_sightings_def split: prod.split sum.split)
  with v obtain g where "co_groups two_sightings = [(''yard'', g)]" "map ob_event (og_events g) = [''e2'', ''e1'']"
    using sighting_valid(1)
    by (simp add: night_sighting_def Ingest_def accept_observation_def place_observation_def Let_def
        remember_def is_late_def join_group_def new_group_def keep_latest_def sort_events_def
        night_correlator_def DefaultConfig_def sighting_def zero_time_def less_eq_prod_def)
  moreover have "correlate (\<lambda>_. True) (\<lambda>s. s)
      [Observe (sighting ''e1'' ''yard'' 100), Observe (sighting ''e2'' ''yard'' 90)] night_correlator =
    (fst (correlate (\<lambda>_. True) (\<lambda>s. s)
      [Observe (sighting ''e1'' ''yard'' 100), Observe (sighting ''e2'' ''yard'' 90)] night_correlator), two_sightings)"
    by (simp add: two_sightings_def)
  note correlated_groups [OF night_new this]
  ultimately show ?thesis by (auto simp: DefaultConfig_def)
qed

end
