(* ===== verification/Risk.thy ===== *)
theory Risk
  imports Observations FloatOrder "HOL-Library.List_Lexorder" "HOL-Library.Char_ord" "HOL-Library.Multiset"
begin

text \<open>
  The risk policy, \<open>policy/risk/risk.go\<close>: the features of a trigger, the contributions of the
  features, their sum in floating point and the level that the sum stands for.

  The contributions are a Go map. The loop that collects its keys sees them in any order: the
  order is a parameter. Then the keys are sorted by exchanges and the contributions are summed in
  the order of the keys.
\<close>

section \<open>The policy\<close>

datatype incident_risk = LowRisk | MediumRisk | HighRisk | CriticalRisk

record risk_features =
  ft_confidence :: rat
  ft_evidence :: int
  ft_person :: bool
  ft_identity :: identity_state
  ft_alarm :: string
  ft_entry :: bool
  ft_dwell :: rat
  ft_cross :: int

record risk_policy =
  po_medium :: rat
  po_high :: rat
  po_critical :: rat

record assessment =
  as_risk :: incident_risk
  as_score :: rat
  as_contributions :: "(string \<times> rat) list"
  as_reasons :: "string list"

definition DefaultPolicy :: risk_policy where
  "DefaultPolicy = \<lparr> po_medium = fl (35 / 100), po_high = fl (60 / 100), po_critical = fl (82 / 100) \<rparr>"

definition FeaturesFromTrigger :: "incident_trigger \<Rightarrow> int \<Rightarrow> risk_features" where
  "FeaturesFromTrigger t n =
     \<lparr> ft_confidence = it_confidence t, ft_evidence = n,
       ft_person = contains_str (ToLower (it_kind t)) ''person'',
       ft_identity = sc_identity (it_context t), ft_alarm = ToLower (TrimSpace (sc_alarm (it_context t))),
       ft_entry = sc_entry (it_context t), ft_dwell = sc_dwell (it_context t), ft_cross = sc_cross (it_context t) \<rparr>"

definition alarm_away :: "risk_features \<Rightarrow> bool" where
  "alarm_away f \<longleftrightarrow> ft_alarm f = ''away'' \<or> ft_alarm f = ''armed_away''"

definition given :: "bool \<Rightarrow> 'a \<Rightarrow> 'a list" where
  "given b x = (if b then [x] else [])"

definition contributions :: "risk_features \<Rightarrow> (string \<times> rat) list" where
  "contributions f =
     [(''detection_confidence'', fl (fl (30 / 100) * ft_confidence f))] @
     given (ft_person f) (''person_detected'', fl (15 / 100)) @
     given (ft_identity f = IdentityUnknown) (''identity_unknown'', fl (15 / 100)) @
     given (ft_identity f = IdentityUncertain) (''identity_uncertain'', fl (8 / 100)) @
     given (alarm_away f) (''alarm_away'', fl (10 / 100)) @
     given (ft_entry f) (''entry_active'', fl (15 / 100)) @
     given (0 < ft_dwell f) (''dwell'', fl (fl (5 / 100) * min 1 (fl (ft_dwell f / 60)))) @
     given (0 < ft_cross f) (''cross_camera'', fl (fl (5 / 100) * min 1 (fl (fl (of_int (ft_cross f)) / 2)))) @
     given (0 < ft_evidence f) (''evidence'', fl (fl (5 / 100) * min 1 (fl (fl (of_int (ft_evidence f)) / 3))))"

definition reasons :: "risk_features \<Rightarrow> string list" where
  "reasons f =
     given (ft_person f) ''person detected'' @
     given (ft_identity f = IdentityUnknown) ''identity unknown'' @
     given (ft_identity f = IdentityUncertain) ''identity uncertain'' @
     given (alarm_away f) ''alarm mode away'' @
     given (ft_entry f) ''entry sensor active'' @
     given (0 < ft_dwell f) ''non-zero dwell time'' @
     given (0 < ft_cross f) ''cross-camera continuity''"

text \<open>
  The two loops over the keys: the inner one brings the least of the remaining keys to the place
  \<open>i\<close>, putting the key that was there where the smaller one was found.
\<close>

fun exchange :: "'a :: linorder \<Rightarrow> 'a list \<Rightarrow> 'a \<times> 'a list" where
  "exchange x [] = (x, [])"
| "exchange x (y # ys) =
     (if y < x then (case exchange y ys of (least, r) \<Rightarrow> (least, x # r))
      else (case exchange x ys of (least, r) \<Rightarrow> (least, y # r)))"

lemma exchange_length [simp]: "length (snd (exchange x ys)) = length ys"
  by (induction x ys rule: exchange.induct) (auto split: prod.splits)

function exchange_sort :: "'a :: linorder list \<Rightarrow> 'a list" where
  "exchange_sort [] = []"
| "exchange_sort (x # ys) = fst (exchange x ys) # exchange_sort (snd (exchange x ys))"
  by pat_completeness auto
termination
  by (relation "measure length") simp_all

definition sum_in_order :: "(string \<times> rat) list \<Rightarrow> string list \<Rightarrow> rat" where
  "sum_in_order contrib keys = fold (\<lambda>k s. fl (s + the (map_of contrib k))) keys 0"

definition level :: "risk_policy \<Rightarrow> rat \<Rightarrow> incident_risk" where
  "level p score =
     (if po_critical p \<le> score then CriticalRisk else if po_high p \<le> score then HighRisk
      else if po_medium p \<le> score then MediumRisk else LowRisk)"

definition Assess :: "(string list \<Rightarrow> string list) \<Rightarrow> risk_policy \<Rightarrow> risk_features \<Rightarrow> go_error + assessment" where
  "Assess order p f =
     (if ft_confidence f < 0 \<or> 1 < ft_confidence f then Inl (Error ''risk: detection confidence must be in [0,1]'')
      else if ft_evidence f < 0 \<or> ft_cross f < 0 \<or> ft_dwell f < 0
      then Inl (Error ''risk: counts and duration must be non-negative'')
      else if \<not> (0 \<le> po_medium p \<and> po_medium p < po_high p \<and> po_high p < po_critical p \<and> po_critical p \<le> 1)
      then Inl (Error ''risk: invalid thresholds'')
      else
        (let contrib = contributions f;
             keys = exchange_sort (order (map fst contrib));
             score = min 1 (max 0 (sum_in_order contrib keys))
         in Inr \<lparr> as_risk = level p score, as_score = score, as_contributions = contrib, as_reasons = reasons f \<rparr>))"

section \<open>The order of the keys\<close>

lemma exchange_least:
  "exchange x ys = (least, r) \<Longrightarrow> mset (least # r) = mset (x # ys) \<and> (\<forall>y \<in> set r. least \<le> y)"
proof (induction x ys arbitrary: least r rule: exchange.induct)
  case (2 x y ys)
  show ?case
  proof (cases "y < x")
    case True
    obtain l r' where e: "exchange y ys = (l, r')" by fastforce
    with True 2(3) have r: "least = l" "r = x # r'" by simp_all
    from 2(1) [OF True e] have m: "mset (l # r') = mset (y # ys)" "\<forall>z \<in> set r'. l \<le> z" by blast+
    from m(1) have "y \<in> set (l # r')" by (metis list.set_intros(1) set_mset_mset)
    with m(2) have "l \<le> y" by auto
    with m True show ?thesis by (auto simp: r)
  next
    case False
    obtain l r' where e: "exchange x ys = (l, r')" by fastforce
    with False 2(3) have r: "least = l" "r = y # r'" by simp_all
    from 2(2) [OF False e] have m: "mset (l # r') = mset (x # ys)" "\<forall>z \<in> set r'. l \<le> z" by blast+
    from m(1) have "x \<in> set (l # r')" by (metis list.set_intros(1) set_mset_mset)
    with m(2) have "l \<le> x" by auto
    with m False show ?thesis by (auto simp: r)
  qed
qed simp

lemma exchange_sort_sorts: "mset (exchange_sort xs) = mset xs \<and> sorted (exchange_sort xs)"
proof (induction xs rule: exchange_sort.induct)
  case (2 x ys)
  obtain l r where e: "exchange x ys = (l, r)" by fastforce
  with 2 have IH: "mset (exchange_sort r) = mset r" "sorted (exchange_sort r)" by simp_all
  from IH(1) have "set (exchange_sort r) = set r" by (rule mset_eq_setD)
  with IH exchange_least [OF e] e show ?case by simp
qed simp

lemma exchange_sort_sort: "exchange_sort xs = sort xs"
  using exchange_sort_sorts [of xs] by (metis properties_for_sort)

definition all_keys :: "string list" where
  "all_keys =
     [''alarm_away'', ''cross_camera'', ''detection_confidence'', ''dwell'', ''entry_active'', ''evidence'',
      ''identity_uncertain'', ''identity_unknown'', ''person_detected'']"

definition amount :: "risk_features \<Rightarrow> string \<Rightarrow> rat" where
  "amount f k = (case map_of (contributions f) k of Some v \<Rightarrow> v | None \<Rightarrow> 0)"

definition add_up :: "rat list \<Rightarrow> rat" where
  "add_up vs = fold (\<lambda>v s. fl (s + v)) vs 0"

lemma all_keys_sorted: "sorted all_keys" "distinct all_keys"
  by code_simp+

text \<open>The contributions as a choice from a fixed list of slots.\<close>

definition chosen :: "(bool \<times> 'a) list \<Rightarrow> 'a list" where
  "chosen slots = map snd (filter fst slots)"

lemma chosen_simps: "chosen [] = []" "chosen ((b, x) # slots) = given b x @ chosen slots"
  by (simp_all add: chosen_def given_def)

definition slots :: "risk_features \<Rightarrow> (bool \<times> string \<times> rat) list" where
  "slots f =
     [(True, ''detection_confidence'', fl (fl (30 / 100) * ft_confidence f)),
      (ft_person f, ''person_detected'', fl (15 / 100)),
      (ft_identity f = IdentityUnknown, ''identity_unknown'', fl (15 / 100)),
      (ft_identity f = IdentityUncertain, ''identity_uncertain'', fl (8 / 100)),
      (alarm_away f, ''alarm_away'', fl (10 / 100)),
      (ft_entry f, ''entry_active'', fl (15 / 100)),
      (0 < ft_dwell f, ''dwell'', fl (fl (5 / 100) * min 1 (fl (ft_dwell f / 60)))),
      (0 < ft_cross f, ''cross_camera'', fl (fl (5 / 100) * min 1 (fl (fl (of_int (ft_cross f)) / 2)))),
      (0 < ft_evidence f, ''evidence'', fl (fl (5 / 100) * min 1 (fl (fl (of_int (ft_evidence f)) / 3))))]"

lemma contributions_chosen: "contributions f = chosen (slots f)"
  by (simp only: contributions_def slots_def chosen_simps given_def if_True append.simps append_Nil2 append_assoc)

lemma slot_keys: "distinct (map (\<lambda>x. fst (snd x)) (slots f))" "set (map (\<lambda>x. fst (snd x)) (slots f)) = set all_keys"
  by (simp_all add: slots_def all_keys_def insert_commute)

lemma chosen_keys:
  assumes "distinct (map (\<lambda>x. fst (snd x)) xs)"
  shows "distinct (map fst (chosen xs))" and "fst ` set (chosen xs) \<subseteq> set (map (\<lambda>x. fst (snd x)) xs)"
  using distinct_map_filter [OF assms, of fst] by (auto simp: chosen_def comp_def) force

lemma contribution_keys: "distinct (map fst (contributions f))" "set (map fst (contributions f)) \<subseteq> set all_keys"
  using chosen_keys [OF slot_keys(1), of f] slot_keys(2) [of f] by (simp_all add: contributions_chosen)

lemma map_of_chosen:
  "map_of (chosen ((b, k, v) # xs)) k' = (if b \<and> k = k' then Some v else map_of (chosen xs) k')"
  by (simp add: chosen_def)

lemma sorted_keys:
  "sort (map fst (contributions f)) = filter (\<lambda>k. k \<in> fst ` set (contributions f)) all_keys"
proof (rule sorted_distinct_set_unique)
  show "set (sort (map fst (contributions f))) = set (filter (\<lambda>k. k \<in> fst ` set (contributions f)) all_keys)"
    using contribution_keys(2) by auto
qed (simp_all add: contribution_keys(1) all_keys_sorted sorted_wrt_filter)

lemma add_up_fixed: "fl (fold (\<lambda>v s. fl (s + v)) vs 0) = fold (\<lambda>v s. fl (s + v)) vs 0"
  by (induction vs rule: rev_induct) simp_all

lemma sum_filtered:
  "fold (\<lambda>k s. fl (s + the (m k))) (filter (\<lambda>k. k \<in> dom m) ks) 0 =
   fold (\<lambda>v s. fl (s + v)) (map (\<lambda>k. case m k of Some v \<Rightarrow> v | None \<Rightarrow> 0) ks) 0"
proof (induction ks rule: rev_induct)
  case (snoc k ks)
  then show ?case using add_up_fixed by (cases "m k") (auto simp: domIff)
qed simp

lemma sum_all_keys:
  assumes "mset (order (map fst (contributions f))) = mset (map fst (contributions f))"
  shows "sum_in_order (contributions f) (exchange_sort (order (map fst (contributions f)))) = add_up (map (amount f) all_keys)"
proof -
  have "exchange_sort (order (map fst (contributions f))) = sort (map fst (contributions f))"
    unfolding exchange_sort_sort using assms by (metis properties_for_sort mset_sort sorted_sort)
  then show ?thesis
    using sum_filtered [of "map_of (contributions f)" all_keys]
    by (simp add: sum_in_order_def sorted_keys add_up_def amount_def [abs_def] dom_map_of_conv_image_fst)
qed

lemma amounts:
  "map (amount f) all_keys =
     [if alarm_away f then fl (10 / 100) else 0,
      if 0 < ft_cross f then fl (fl (5 / 100) * min 1 (fl (fl (of_int (ft_cross f)) / 2))) else 0,
      fl (fl (30 / 100) * ft_confidence f),
      if 0 < ft_dwell f then fl (fl (5 / 100) * min 1 (fl (ft_dwell f / 60))) else 0,
      if ft_entry f then fl (15 / 100) else 0,
      if 0 < ft_evidence f then fl (fl (5 / 100) * min 1 (fl (fl (of_int (ft_evidence f)) / 3))) else 0,
      if ft_identity f = IdentityUncertain then fl (8 / 100) else 0,
      if ft_identity f = IdentityUnknown then fl (15 / 100) else 0,
      if ft_person f then fl (15 / 100) else 0]"
  by (simp add: all_keys_def amount_def contributions_chosen slots_def map_of_chosen chosen_simps(1))

section \<open>Stronger signals never lower the risk\<close>

instantiation incident_risk :: linorder
begin

fun risk_rank :: "incident_risk \<Rightarrow> nat" where
  "risk_rank LowRisk = 0"
| "risk_rank MediumRisk = 1"
| "risk_rank HighRisk = 2"
| "risk_rank CriticalRisk = 3"

definition less_eq_incident_risk :: "incident_risk \<Rightarrow> incident_risk \<Rightarrow> bool" where
  "less_eq_incident_risk a b \<longleftrightarrow> risk_rank a \<le> risk_rank b"

definition less_incident_risk :: "incident_risk \<Rightarrow> incident_risk \<Rightarrow> bool" where
  "less_incident_risk a b \<longleftrightarrow> risk_rank a < risk_rank b"

instance
proof
  show "a \<le> b \<Longrightarrow> b \<le> a \<Longrightarrow> a = b" for a b :: incident_risk
    by (cases a; cases b) (simp_all add: less_eq_incident_risk_def)
qed (auto simp: less_eq_incident_risk_def less_incident_risk_def)

end

lemma level_mono:
  assumes "po_medium p < po_high p" and "po_high p < po_critical p" and "x \<le> y"
  shows "level p x \<le> level p y"
  using assms by (simp add: level_def less_eq_incident_risk_def)

fun identity_weight :: "identity_state \<Rightarrow> nat" where
  "identity_weight IdentityUnknown = 2"
| "identity_weight IdentityUncertain = 1"
| "identity_weight _ = 0"

definition no_weaker :: "risk_features \<Rightarrow> risk_features \<Rightarrow> bool" where
  "no_weaker f f' \<longleftrightarrow>
     ft_confidence f \<le> ft_confidence f' \<and> ft_evidence f \<le> ft_evidence f' \<and> (ft_person f \<longrightarrow> ft_person f') \<and>
     identity_weight (ft_identity f) \<le> identity_weight (ft_identity f') \<and> (alarm_away f \<longrightarrow> alarm_away f') \<and>
     (ft_entry f \<longrightarrow> ft_entry f') \<and> ft_dwell f \<le> ft_dwell f' \<and> ft_cross f \<le> ft_cross f'"

lemma fl_nonneg: "0 \<le> x \<Longrightarrow> 0 \<le> fl x"
  using fl_mono [of 0 x] by simp

lemma share_mono:
  "0 \<le> c \<Longrightarrow> x \<le> y \<Longrightarrow> fl (fl c * min 1 (fl x)) \<le> fl (fl c * min 1 (fl y))"
  by (intro fl_mono mult_left_mono min.mono fl_nonneg order_refl)

lemma optional_mono:
  fixes x y :: rat
  shows "(b \<longrightarrow> b') \<Longrightarrow> (b \<Longrightarrow> x \<le> y) \<Longrightarrow> (b' \<Longrightarrow> 0 \<le> y) \<Longrightarrow> (if b then x else 0) \<le> (if b' then y else 0)"
  by simp

lemma add_mono_fl: "s \<le> s' \<Longrightarrow> v \<le> v' \<Longrightarrow> fl (s + v) \<le> fl (s' + v')"
  by (intro fl_mono add_mono)

text \<open>The identity takes two of the summands; one of them is zero.\<close>

lemma identity_step:
  "fl s = s \<Longrightarrow>
     fl (fl (s + (if i = IdentityUncertain then a else 0)) + (if i = IdentityUnknown then b else 0)) =
     fl (s + (if i = IdentityUnknown then b else if i = IdentityUncertain then a else 0))"
  by (cases i) simp_all

lemma identity_amount_mono:
  fixes a b :: rat
  assumes "identity_weight i \<le> identity_weight i'" and "0 \<le> a" and "a \<le> b"
  shows "(if i = IdentityUnknown then b else if i = IdentityUncertain then a else 0) \<le>
    (if i' = IdentityUnknown then b else if i' = IdentityUncertain then a else 0)"
  using assms by (cases i; cases i') simp_all

lemma add_up_snoc: "add_up (vs @ [v]) = fl (add_up vs + v)" "fl (add_up vs) = add_up vs"
  by (simp_all add: add_up_def add_up_fixed)

lemma add_up_last3: "add_up (vs @ [a, b, c]) = fl (fl (fl (add_up vs + a) + b) + c)"
  by (simp add: add_up_def)

lemma add_up_mono: "list_all2 (\<le>) vs ws \<Longrightarrow> add_up vs \<le> add_up ws"
proof (induction vs arbitrary: ws rule: rev_induct)
  case (snoc v vs)
  then obtain w ws' where "ws = ws' @ [w]" "list_all2 (\<le>) vs ws'" "v \<le> w"
    by (auto simp: list_all2_append1 list_all2_Cons1)
  with snoc.IH show ?case by (simp add: add_up_snoc add_mono_fl)
qed simp

definition share :: "bool \<Rightarrow> rat \<Rightarrow> rat" where
  "share b x = (if b then fl (fl (5 / 100) * min 1 (fl x)) else 0)"

definition first_amounts :: "risk_features \<Rightarrow> rat list" where
  "first_amounts f =
     [if alarm_away f then fl (10 / 100) else 0, share (0 < ft_cross f) (fl (of_int (ft_cross f)) / 2),
      fl (fl (30 / 100) * ft_confidence f), share (0 < ft_dwell f) (ft_dwell f / 60),
      if ft_entry f then fl (15 / 100) else 0, share (0 < ft_evidence f) (fl (of_int (ft_evidence f)) / 3)]"

lemma score_parts:
  "add_up (map (amount f) all_keys) =
     fl (fl (add_up (first_amounts f) +
         (if ft_identity f = IdentityUnknown then fl (15 / 100)
          else if ft_identity f = IdentityUncertain then fl (8 / 100) else 0)) +
       (if ft_person f then fl (15 / 100) else 0))"
proof -
  have "map (amount f) all_keys = first_amounts f @
      [if ft_identity f = IdentityUncertain then fl (8 / 100) else 0,
       if ft_identity f = IdentityUnknown then fl (15 / 100) else 0, if ft_person f then fl (15 / 100) else 0]"
    unfolding amounts first_amounts_def share_def append.simps ..
  then show ?thesis by (simp only: add_up_last3 identity_step [OF add_up_snoc(2)])
qed

lemma share_nonneg: "0 \<le> x \<Longrightarrow> 0 \<le> share b x"
  unfolding share_def by (auto intro!: fl_nonneg mult_nonneg_nonneg)

lemma share_mono_if:
  assumes "x \<le> y" and "b \<longrightarrow> b'" and "b' \<longrightarrow> 0 \<le> y"
  shows "share b x \<le> share b' y"
proof (cases b)
  case True
  with assms share_mono [of "5 / 100" x y] show ?thesis unfolding share_def by (simp only: simp_thms if_True)
next
  case False
  with assms share_nonneg [of y b'] show ?thesis by (cases b') (simp_all add: share_def)
qed

lemma count_share_mono:
  fixes m n :: int
  assumes "m \<le> n" and "0 < k"
  shows "share (0 < m) (fl (of_int m) / k) \<le> share (0 < n) (fl (of_int n) / k)"
proof (rule share_mono_if)
  show "fl (of_int m) / k \<le> fl (of_int n) / k"
    using assms by (intro divide_right_mono fl_mono) simp_all
  show "0 < n \<longrightarrow> 0 \<le> fl (of_int n) / k" using assms(2) fl_nonneg [of "of_int n"] by simp
qed (use assms(1) in simp)

lemma first_amounts_mono:
  assumes "no_weaker f f'"
  shows "list_all2 (\<le>) (first_amounts f) (first_amounts f')"
proof -
  have less: "ft_confidence f \<le> ft_confidence f'" "ft_evidence f \<le> ft_evidence f'" "ft_dwell f \<le> ft_dwell f'"
      "ft_cross f \<le> ft_cross f'"
    and more: "alarm_away f \<longrightarrow> alarm_away f'" "ft_entry f \<longrightarrow> ft_entry f'"
    using assms by (simp_all add: no_weaker_def)
  have pos: "0 \<le> fl (10 / 100)" "0 \<le> fl (15 / 100)" "0 \<le> fl (30 / 100)" by (intro fl_nonneg; simp)+
  have "share (0 < ft_dwell f) (ft_dwell f / 60) \<le> share (0 < ft_dwell f') (ft_dwell f' / 60)"
    by (rule share_mono_if) (use less(3) in simp_all)
  then show ?thesis
    unfolding first_amounts_def list_all2_Cons
    by (intro conjI list.rel_intros count_share_mono less fl_mono mult_left_mono pos optional_mono more order_refl)
      simp_all
qed

lemma score_mono:
  assumes "no_weaker f f'"
  shows "add_up (map (amount f) all_keys) \<le> add_up (map (amount f') all_keys)"
proof -
  have c: "0 \<le> fl (8 / 100)" "0 \<le> fl (15 / 100)" "fl (8 / 100) \<le> fl (15 / 100)"
    by (intro fl_nonneg fl_mono; simp)+
  have w: "identity_weight (ft_identity f) \<le> identity_weight (ft_identity f')" "ft_person f \<longrightarrow> ft_person f'"
    using assms by (simp_all add: no_weaker_def)
  show ?thesis unfolding score_parts
    by (intro add_mono_fl add_up_mono first_amounts_mono assms identity_amount_mono w c optional_mono order_refl)
qed

lemma Assess_Inr:
  assumes "Assess order p f = Inr a" and "\<And>ks. mset (order ks) = mset ks"
  shows "as_score a = min 1 (max 0 (add_up (map (amount f) all_keys)))" and "as_risk a = level p (as_score a)"
    and "0 \<le> po_medium p" and "po_medium p < po_high p" and "po_high p < po_critical p" and "po_critical p \<le> 1"
    and "0 \<le> ft_confidence f" and "ft_confidence f \<le> 1" and "0 \<le> ft_evidence f" and "0 \<le> ft_cross f" and "0 \<le> ft_dwell f"
  using assms(1) sum_all_keys [of order f, OF assms(2)] by (auto simp: Assess_def Let_def split: if_splits)

text \<open>
  C29. Stronger signals never lower the risk: when every feature of one situation is at least as
  strong as in another -- confidence, evidence, dwell time and matches in number, the person, the
  armed house and the entry as facts, the identity from known over uncertain to unknown -- the
  score and the level of the assessment are at least as high, roundings included, whatever the
  orders in which the keys of the two maps are seen.
\<close>

theorem risk_monotone:
  assumes "Assess order p f = Inr a" and "Assess order' p f' = Inr a'" and "no_weaker f f'"
    and "\<And>ks. mset (order ks) = mset ks" and "\<And>ks. mset (order' ks) = mset ks"
  shows "as_score a \<le> as_score a' \<and> as_risk a \<le> as_risk a'"
proof -
  note a = Assess_Inr [OF assms(1,4)] and a' = Assess_Inr [OF assms(2,5)]
  have "as_score a \<le> as_score a'"
    unfolding a(1) a'(1) by (intro min.mono max.mono score_mono assms(3) order_refl)
  with level_mono [OF a(4,5) this] show ?thesis by (simp add: a(2) a'(2))
qed

section \<open>Rounding does not matter\<close>

text \<open>The policy in exact arithmetic, and how far floating point is from it.\<close>

definition exact_score :: "risk_features \<Rightarrow> rat" where
  "exact_score f =
     30 / 100 * ft_confidence f + (if ft_person f then 15 / 100 else 0) +
     (if ft_identity f = IdentityUnknown then 15 / 100 else if ft_identity f = IdentityUncertain then 8 / 100 else 0) +
     (if alarm_away f then 10 / 100 else 0) + (if ft_entry f then 15 / 100 else 0) +
     5 / 100 * min 1 (ft_dwell f / 60) + 5 / 100 * min 1 (of_int (ft_cross f) / 2) +
     5 / 100 * min 1 (of_int (ft_evidence f) / 3)"

definition rounding :: rat where
  "rounding = 1 / 2 ^ 53"

definition near :: "nat \<Rightarrow> rat \<Rightarrow> rat \<Rightarrow> bool" where
  "near n x y \<longleftrightarrow> \<bar>x - y\<bar> \<le> of_nat n * rounding"

lemma rounding_small: "0 < rounding" "32 * rounding < 1 / 1000"
  by (simp_all add: rounding_def)

lemma near_refl [simp]: "near n x x"
  using rounding_small(1) by (simp add: near_def)

lemma near_fl:
  assumes "\<bar>x\<bar> < 2" and "near n x y" shows "near (Suc n) (fl x) y"
proof -
  have "\<bar>fl x - y\<bar> \<le> \<bar>fl x - x\<bar> + \<bar>x - y\<bar>" by linarith
  also have "\<dots> \<le> rounding + of_nat n * rounding"
    using fl_error [OF assms(1)] assms(2) by (simp add: near_def rounding_def)
  finally show ?thesis by (simp add: near_def algebra_simps)
qed

lemma near_add: "near m x y \<Longrightarrow> near n u v \<Longrightarrow> near (m + n) (x + u) (y + v)"
  unfolding near_def by (simp add: algebra_simps)

lemma near_more:
  assumes "near m x y" and "m \<le> n" shows "near n x y"
proof -
  have "of_nat m * rounding \<le> of_nat n * rounding"
    using assms(2) rounding_small(1) by (intro mult_right_mono) simp_all
  with assms(1) show ?thesis unfolding near_def by linarith
qed

lemma near_bound:
  assumes "near n x y" and "n \<le> 32" and "0 \<le> y" and "y \<le> 1" shows "\<bar>x\<bar> < 2"
proof -
  from near_more [OF assms(1,2)] have "\<bar>x - y\<bar> \<le> 32 * rounding" by (simp add: near_def)
  with rounding_small(2) assms(3,4) show ?thesis by linarith
qed

lemma near_step:
  assumes "near m s x" and "near n v y" and "m + n \<le> 32" and "0 \<le> x + y" and "x + y \<le> 1"
  shows "near (Suc (m + n)) (fl (s + v)) (x + y)"
proof -
  have "near (m + n) (s + v) (x + y)" using assms(1,2) by (rule near_add)
  with near_bound [OF this assms(3-5)] show ?thesis by (intro near_fl)
qed

lemma near_constant: "0 \<le> c \<Longrightarrow> c \<le> 1 \<Longrightarrow> near 1 (fl c) c"
  using near_fl [of c 0 c] by simp

lemma min_near:
  assumes "0 \<le> z" shows "near 1 (min 1 (fl z)) (min 1 z)"
proof (cases "z < 2")
  case True
  have "\<bar>min 1 (fl z) - min 1 z\<bar> \<le> \<bar>fl z - z\<bar>" by (simp add: min_def)
  with fl_error [of z] True assms show ?thesis by (simp add: near_def rounding_def)
next
  case False
  then have "fl 2 \<le> fl z" by (intro fl_mono) simp
  moreover have "fl 2 = 2" using fl_int [of 2] by simp
  ultimately show ?thesis using False by simp
qed

lemma product_near:
  assumes "0 \<le> c" and "c \<le> 1" and "near n m' m" and "n \<le> 30" and "0 \<le> m" and "m \<le> 1" and "0 \<le> m'" and "m' \<le> 1"
  shows "near (2 + n) (fl (fl c * m')) (c * m)"
proof -
  have "\<bar>fl c * m' - c * m\<bar> \<le> \<bar>(fl c - c) * m'\<bar> + \<bar>c * (m' - m)\<bar>" by (simp add: algebra_simps)
  also have "\<bar>(fl c - c) * m'\<bar> \<le> rounding * 1"
    unfolding abs_mult using near_constant [OF assms(1,2)] assms(7,8) rounding_small(1)
    by (intro mult_mono) (simp_all add: near_def)
  also have "\<bar>c * (m' - m)\<bar> \<le> 1 * (of_nat n * rounding)"
    unfolding abs_mult using assms(1-3) by (intro mult_mono) (simp_all add: near_def)
  finally have "near (1 + n) (fl c * m') (c * m)" by (simp add: near_def algebra_simps)
  moreover from near_bound [OF this] assms have "\<bar>fl c * m'\<bar> < 2"
    by (simp add: mult_le_one)
  ultimately show ?thesis using near_fl by fastforce
qed

lemma share_near:
  assumes "0 \<le> z" and "\<not> b \<Longrightarrow> z = 0" shows "near 3 (share b z) (5 / 100 * min 1 z)"
proof (cases b)
  case True
  from product_near [of "5 / 100" 1 "min 1 (fl z)" "min 1 z"] min_near [OF assms(1)] fl_nonneg [OF assms(1)] assms(1)
  show ?thesis by (simp add: share_def True)
qed (use assms(2) in \<open>simp add: share_def\<close>)

lemma count_share_near:
  fixes n :: int
  assumes "0 \<le> n" and "1 \<le> k" and "k \<le> 4"
  shows "near 3 (share (0 < n) (fl (of_int n) / k)) (5 / 100 * min 1 (of_int n / k))"
proof (cases "n < 2 ^ 53")
  case True
  with assms(1) have "fl (of_int n) = of_int n" by (intro fl_int) simp
  with share_near [of "of_int n / k" "0 < n"] assms show ?thesis by simp
next
  case False
  then have n: "(4 :: rat) \<le> of_int n" "0 < n" by simp_all
  have "fl 4 = 4" using fl_int [of 4] by simp
  with fl_mono [OF n(1)] have f: "4 \<le> fl (of_int n)" by simp
  have one: "1 \<le> x / k" if "4 \<le> x" for x using that assms(2,3) by simp
  from share_near [of "fl (of_int n) / k" "0 < n"] n one [OF f] one [OF n(1)] show ?thesis by simp
qed

lemma share_bounds: "0 \<le> z \<Longrightarrow> 0 \<le> 5 / 100 * min 1 z \<and> 5 / 100 * min 1 z \<le> (5 / 100 :: rat)"
  by (simp add: min_def)

lemma near_chain:
  assumes "near 1 v1 x1" and "near 3 v2 x2" and "near 2 v3 x3" and "near 3 v4 x4" and "near 1 v5 x5" and "near 3 v6 x6"
    and "near 1 v7 x7" and "near 1 v8 x8"
    and "0 \<le> x1" and "0 \<le> x2" and "0 \<le> x3" and "0 \<le> x4" and "0 \<le> x5" and "0 \<le> x6" and "0 \<le> x7" and "0 \<le> x8"
    and "x1 + x2 + x3 + x4 + x5 + x6 + x7 + x8 \<le> 1"
  shows "near 32 (fl (fl (add_up [v1, v2, v3, v4, v5, v6] + v7) + v8)) (x1 + x2 + x3 + x4 + x5 + x6 + x7 + x8)"
proof -
  have s1: "near 2 (fl (0 + v1)) (0 + x1)"
    by (rule near_more [OF near_step [OF near_refl [of 0 0] assms(1)]]) (use assms(9-17) in linarith)+
  have s2: "near 6 (fl (fl (0 + v1) + v2)) (0 + x1 + x2)"
    by (rule near_more [OF near_step [OF s1 assms(2)]]) (use assms(9-17) in linarith)+
  have s3: "near 9 (fl (fl (fl (0 + v1) + v2) + v3)) (0 + x1 + x2 + x3)"
    by (rule near_more [OF near_step [OF s2 assms(3)]]) (use assms(9-17) in linarith)+
  have s4: "near 13 (fl (fl (fl (fl (0 + v1) + v2) + v3) + v4)) (0 + x1 + x2 + x3 + x4)"
    by (rule near_more [OF near_step [OF s3 assms(4)]]) (use assms(9-17) in linarith)+
  have s5: "near 15 (fl (fl (fl (fl (fl (0 + v1) + v2) + v3) + v4) + v5)) (0 + x1 + x2 + x3 + x4 + x5)"
    by (rule near_more [OF near_step [OF s4 assms(5)]]) (use assms(9-17) in linarith)+
  have "near 19 (fl (fl (fl (fl (fl (fl (0 + v1) + v2) + v3) + v4) + v5) + v6)) (0 + x1 + x2 + x3 + x4 + x5 + x6)"
    by (rule near_more [OF near_step [OF s5 assms(6)]]) (use assms(9-17) in linarith)+
  then have s6: "near 19 (add_up [v1, v2, v3, v4, v5, v6]) (x1 + x2 + x3 + x4 + x5 + x6)"
    by (simp add: add_up_def)
  have s7: "near 21 (fl (add_up [v1, v2, v3, v4, v5, v6] + v7)) (x1 + x2 + x3 + x4 + x5 + x6 + x7)"
    by (rule near_more [OF near_step [OF s6 assms(7)]]) (use assms(9-17) in linarith)+
  show ?thesis
    by (rule near_more [OF near_step [OF s7 assms(8)]]) (use assms(9-17) in linarith)+
qed

lemma near_if: "0 \<le> c \<Longrightarrow> c \<le> 1 \<Longrightarrow> near 1 (if b then fl c else 0) (if b then c else 0)"
  using near_constant [of c] by (simp split: if_split)

lemma near_two:
  "0 \<le> c \<Longrightarrow> c \<le> 1 \<Longrightarrow> 0 \<le> d \<Longrightarrow> d \<le> 1 \<Longrightarrow>
     near 1 (if b then fl c else if b' then fl d else 0) (if b then c else if b' then d else 0)"
  using near_constant [of c] near_constant [of d] by (simp split: if_split)

lemma add_up_near:
  assumes "0 \<le> ft_confidence f" and "ft_confidence f \<le> 1" and "0 \<le> ft_evidence f" and "0 \<le> ft_cross f" and "0 \<le> ft_dwell f"
  shows "near 32 (add_up (map (amount f) all_keys)) (exact_score f)" and "0 \<le> exact_score f" and "exact_score f \<le> 1"
proof -
  define i :: rat where "i = (if ft_identity f = IdentityUnknown then 15 / 100 else if ft_identity f = IdentityUncertain then 8 / 100 else 0)"
  define away :: rat where "away = (if alarm_away f then 10 / 100 else 0)"
  define entry :: rat where "entry = (if ft_entry f then 15 / 100 else 0)"
  define person :: rat where "person = (if ft_person f then 15 / 100 else 0)"
  define conf where "conf = 30 / 100 * ft_confidence f"
  define cross :: rat where "cross = 5 / 100 * min 1 (of_int (ft_cross f) / 2)"
  define dwell where "dwell = 5 / 100 * min 1 (ft_dwell f / 60)"
  define evidence :: rat where "evidence = 5 / 100 * min 1 (of_int (ft_evidence f) / 3)"
  have b: "0 \<le> i" "i \<le> 15 / 100" "0 \<le> away" "away \<le> 10 / 100" "0 \<le> entry" "entry \<le> 15 / 100"
    "0 \<le> person" "person \<le> 15 / 100" "0 \<le> conf" "conf \<le> 30 / 100"
    using assms(1,2) by (simp_all add: i_def away_def entry_def person_def conf_def)
  have c: "0 \<le> cross" "cross \<le> 5 / 100" "0 \<le> dwell" "dwell \<le> 5 / 100" "0 \<le> evidence" "evidence \<le> 5 / 100"
    unfolding cross_def dwell_def evidence_def
    using share_bounds [of "of_int (ft_cross f) / 2"] share_bounds [of "ft_dwell f / 60"]
      share_bounds [of "of_int (ft_evidence f) / 3"] assms by simp_all
  have exact: "exact_score f = away + cross + conf + dwell + entry + evidence + i + person"
    by (simp add: exact_score_def i_def away_def entry_def person_def conf_def cross_def dwell_def evidence_def)
  show "0 \<le> exact_score f" "exact_score f \<le> 1" unfolding exact using b c by linarith+
  have n: "near 1 (if alarm_away f then fl (10 / 100) else 0) away"
    "near 1 (if ft_entry f then fl (15 / 100) else 0) entry"
    "near 1 (if ft_person f then fl (15 / 100) else 0) person"
    "near 1 (if ft_identity f = IdentityUnknown then fl (15 / 100)
       else if ft_identity f = IdentityUncertain then fl (8 / 100) else 0) i"
    unfolding away_def entry_def person_def i_def by (rule near_if near_two; simp)+
  have p: "near 2 (fl (fl (30 / 100) * ft_confidence f)) conf"
    using product_near [of "30 / 100" 0 "ft_confidence f" "ft_confidence f"] assms(1,2)
    unfolding conf_def by (simp only: near_refl) simp
  have q: "near 3 (share (0 < ft_cross f) (fl (of_int (ft_cross f)) / 2)) cross"
    "near 3 (share (0 < ft_evidence f) (fl (of_int (ft_evidence f)) / 3)) evidence"
    "near 3 (share (0 < ft_dwell f) (ft_dwell f / 60)) dwell"
    unfolding cross_def evidence_def dwell_def
    by (rule count_share_near share_near; use assms in simp)+
  show "near 32 (add_up (map (amount f) all_keys)) (exact_score f)"
    unfolding score_parts exact first_amounts_def
    by (rule near_chain [OF n(1) q(1) p q(3) n(2) q(2) n(4,3)]) (use b c in linarith)+
qed

text \<open>
  Rounding does not matter: the score of an assessment is within 2 to the minus 48 of what the
  policy says in exact arithmetic, and lies between 0 and 1.
\<close>

theorem risk_score_exact:
  assumes "Assess order p f = Inr a" and "\<And>ks. mset (order ks) = mset ks"
  shows "\<bar>as_score a - exact_score f\<bar> \<le> 1 / 2 ^ 48 \<and> 0 \<le> as_score a \<and> as_score a \<le> 1"
proof -
  note a = Assess_Inr [OF assms]
  from add_up_near [OF a(7-11)] have s: "\<bar>add_up (map (amount f) all_keys) - exact_score f\<bar> \<le> 32 * rounding"
      "0 \<le> exact_score f" "exact_score f \<le> 1"
    by (simp_all add: near_def)
  have "32 * rounding = 1 / 2 ^ 48" by (simp add: rounding_def)
  with s show ?thesis unfolding a(1) by (auto simp: min_def max_def)
qed

section \<open>Who hears of it\<close>

text \<open>\<open>routeRisk\<close> of \<open>orchestration/incident/handlers.go\<close>: where the plan of an incident goes on.\<close>

datatype route = RouteArchive | RouteNotify | RouteHuman

fun routeRisk :: "incident_risk \<Rightarrow> route" where
  "routeRisk LowRisk = RouteArchive"
| "routeRisk MediumRisk = RouteNotify"
| "routeRisk HighRisk = RouteHuman"
| "routeRisk CriticalRisk = RouteHuman"

lemma default_thresholds:
  "\<bar>po_medium DefaultPolicy - 35 / 100\<bar> \<le> rounding" "\<bar>po_high DefaultPolicy - 60 / 100\<bar> \<le> rounding"
  "\<bar>po_critical DefaultPolicy - 82 / 100\<bar> \<le> rounding"
  using fl_error [of "35 / 100"] fl_error [of "60 / 100"] fl_error [of "82 / 100"]
  unfolding DefaultPolicy_def rounding_def risk_policy.simps by (simp_all only: abs_less_iff) simp_all

lemma default_valid:
  "0 \<le> po_medium DefaultPolicy \<and> po_medium DefaultPolicy < po_high DefaultPolicy \<and>
   po_high DefaultPolicy < po_critical DefaultPolicy \<and> po_critical DefaultPolicy \<le> 1"
  using default_thresholds rounding_small by linarith

text \<open>
  C28. An intruder is brought before a person: under the default policy, when an unknown person is
  detected with a confidence of at least one fifth while the house is armed away and the entry is
  active, the assessment succeeds and its risk goes to the owner for a decision, whatever the
  other features are.
\<close>

theorem intruder_reaches_person:
  assumes "ft_person f" and "ft_identity f = IdentityUnknown" and "alarm_away f" and "ft_entry f"
    and "1 / 5 \<le> ft_confidence f" and "ft_confidence f \<le> 1"
    and "0 \<le> ft_evidence f" and "0 \<le> ft_cross f" and "0 \<le> ft_dwell f"
    and "\<And>ks. mset (order ks) = mset ks"
  shows "\<exists>a. Assess order DefaultPolicy f = Inr a \<and> routeRisk (as_risk a) = RouteHuman"
proof -
  obtain a where a: "Assess order DefaultPolicy f = Inr a"
    using assms(5-9) default_valid by (simp add: Assess_def Let_def)
  note r = Assess_Inr [OF a assms(10)]
  have "61 / 100 \<le> exact_score f"
    using assms(1-5) share_bounds [of "of_int (ft_cross f) / 2"] share_bounds [of "ft_dwell f / 60"]
      share_bounds [of "of_int (ft_evidence f) / 3"] assms(7-9)
    by (simp add: exact_score_def)
  with add_up_near(1) [OF r(7-11)] have "61 / 100 - 32 * rounding \<le> add_up (map (amount f) all_keys)"
    by (simp add: near_def)
  with default_thresholds(2) rounding_small have h: "po_high DefaultPolicy \<le> add_up (map (amount f) all_keys)"
    by linarith
  from default_valid have "po_high DefaultPolicy \<le> 1" by linarith
  with h have "po_high DefaultPolicy \<le> as_score a" unfolding r(1) by (simp add: min_def max_def)
  then have "routeRisk (as_risk a) = RouteHuman" unfolding r(2) by (simp add: level_def)
  with a show ?thesis by blast
qed

definition burglary :: risk_features where
  "burglary =
     \<lparr> ft_confidence = 1 / 2, ft_evidence = 1, ft_person = True, ft_identity = IdentityUnknown,
       ft_alarm = ''armed_away'', ft_entry = True, ft_dwell = 0, ft_cross = 0 \<rparr>"

definition homecoming :: risk_features where
  "homecoming = burglary\<lparr> ft_identity := IdentityKnown, ft_alarm := ''home'' \<rparr>"

lemma sample_assessed: "\<exists>a. Assess rev DefaultPolicy burglary = Inr a" "\<exists>a. Assess (\<lambda>ks. ks) DefaultPolicy homecoming = Inr a"
  using default_valid by (simp_all add: Assess_def Let_def burglary_def homecoming_def)

theorem intruder_reaches_person_witness:
  "\<exists>a. Assess rev DefaultPolicy burglary = Inr a \<and> routeRisk (as_risk a) = RouteHuman"
  by (rule intruder_reaches_person) (simp_all add: burglary_def alarm_away_def)

theorem risk_monotone_witness:
  "\<exists>a a'. Assess (\<lambda>ks. ks) DefaultPolicy homecoming = Inr a \<and> Assess rev DefaultPolicy burglary = Inr a' \<and>
     as_risk a \<le> as_risk a'"
proof -
  from sample_assessed obtain a a' where a: "Assess (\<lambda>ks. ks) DefaultPolicy homecoming = Inr a"
    "Assess rev DefaultPolicy burglary = Inr a'" by blast
  have "as_score a \<le> as_score a' \<and> as_risk a \<le> as_risk a'"
    by (rule risk_monotone [OF a]) (simp_all add: no_weaker_def homecoming_def burglary_def alarm_away_def)
  with a show ?thesis by blast
qed

theorem risk_score_exact_witness:
  "exact_score burglary = 43 / 60 \<and>
   (\<exists>a. Assess rev DefaultPolicy burglary = Inr a \<and> \<bar>as_score a - 43 / 60\<bar> \<le> 1 / 2 ^ 48)"
proof -
  have e: "exact_score burglary = 43 / 60"
    by (simp add: exact_score_def burglary_def alarm_away_def min_def)
  from sample_assessed(1) obtain a where a: "Assess rev DefaultPolicy burglary = Inr a" by blast
  have "\<bar>as_score a - exact_score burglary\<bar> \<le> 1 / 2 ^ 48 \<and> 0 \<le> as_score a \<and> as_score a \<le> 1"
    by (rule risk_score_exact [OF a]) simp
  with a show ?thesis unfolding e by blast
qed

end
