(* ===== verification/IncidentIntake.thy ===== *)
theory IncidentIntake
  imports Correlator Risk
begin

text \<open>
  From observations to a decision: the first activities of the incident plan
  (\<open>orchestration/incident/handlers.go\<close>) on the candidates of the correlator. The facts that one
  activity leaves to the next pass through JSON and are taken to arrive as they were left.
\<close>

section \<open>The activities\<close>

definition normalizeTrigger :: "(string \<Rightarrow> bool) \<Rightarrow> incident_trigger \<Rightarrow> go_error option" where
  "normalizeTrigger uri_ok t = trigger_Validate uri_ok t"

definition correlateEvidence :: "incident_trigger \<Rightarrow> int" where
  "correlateEvidence t = int (length (it_artifacts t))"

definition assessRisk :: "(string list \<Rightarrow> string list) \<Rightarrow> incident_trigger \<Rightarrow> int \<Rightarrow> go_error + assessment" where
  "assessRisk order t n = Assess order DefaultPolicy (FeaturesFromTrigger t n)"

text \<open>The path of the plan from the trigger to the route: normalise, correlate, assess, route.\<close>

definition incident_route ::
  "(string \<Rightarrow> bool) \<Rightarrow> (string list \<Rightarrow> string list) \<Rightarrow> incident_trigger \<Rightarrow> go_error + assessment \<times> route" where
  "incident_route uri_ok order t =
     (case normalizeTrigger uri_ok t of
        Some e \<Rightarrow> Inl e
      | None \<Rightarrow>
          (case assessRisk order t (correlateEvidence t) of
             Inl e \<Rightarrow> Inl e
           | Inr a \<Rightarrow> Inr (a, routeRisk (as_risk a))))"

section \<open>Texts that are not blank\<close>

lemma strip_all_nonempty:
  assumes "\<forall>e \<in> set es. e \<noteq> [] \<longrightarrow> \<not> P (last e)" and "s \<noteq> []" and "P (last s)"
  shows "strip_all es s \<noteq> []"
  using assms
proof (induction es s rule: strip_all.induct)
  case (1 es s)
  show ?case
  proof (cases "strip_one es s")
    case None
    with 1 show ?thesis by (simp add: strip_all_id)
  next
    case (Some r)
    then obtain e where e: "e \<in> set es" "e \<noteq> []" "s = e @ r"
      by (fastforce simp: strip_one_def find_Some_iff prefix_def dest: nth_mem)
    have "r \<noteq> []" using 1(2,4) e by auto
    have "strip_all es s = strip_all es r" using Some by (simp add: strip_all.simps [of es s])
    with 1(1) [OF Some 1(2)] 1(4) e(3) \<open>r \<noteq> []\<close> show ?thesis by simp
  qed
qed

lemma TrimSpace_head:
  assumes "s \<noteq> []" and "token_char (hd s)" shows "TrimSpace s \<noteq> []"
proof -
  have "strip_one space_runes s = None"
    by (rule strip_one_hd [where P = token_char]) (use space_bytes_no_token assms in auto)
  then have t: "TrimSpace s = rev (strip_all (map rev space_runes) (rev s))"
    by (simp add: TrimSpace_def strip_all_id)
  have "strip_all (map rev space_runes) (rev s) \<noteq> []"
    by (rule strip_all_nonempty [where P = token_char]) (use space_bytes_no_token assms in \<open>auto simp: last_rev\<close>)
  then show ?thesis by (simp add: t)
qed

lemma corr_id_not_blank: "prefix ''corr-'' s \<Longrightarrow> TrimSpace s \<noteq> []"
  by (rule TrimSpace_head) (auto simp: prefix_def token_char_def)

section \<open>Groups of valid observations\<close>

definition groups_valid :: "(string \<Rightarrow> bool) \<Rightarrow> correlator \<Rightarrow> bool" where
  "groups_valid uri_ok c \<longleftrightarrow>
     (\<forall>(s, g) \<in> set (co_groups c). prefix ''corr-'' (og_id g) \<and>
       (\<forall>e \<in> set (og_events g). observation_Validate uri_ok e = None))"

lemma place_valid:
  assumes "groups_valid uri_ok c" and "place_observation hash b c = (status, g)"
  shows "prefix ''corr-'' (og_id g) \<and> (\<forall>e \<in> set (og_events g). observation_Validate uri_ok e = None)"
  using assms
  by (fastforce simp: place_observation_def new_group_def correlationID_def groups_valid_def split: option.splits if_splits
      dest: map_of_SomeD)

lemma Ingest_valid:
  assumes "groups_valid uri_ok c" and "distinct (map fst (co_groups c))" and "Ingest uri_ok hash b c = (r, c')"
  shows "groups_valid uri_ok c'"
proof (cases "c' = c \<or> co_groups c' = co_groups c")
  case True
  then have "co_groups c' = co_groups c" by auto
  with assms(1) show ?thesis by (simp add: groups_valid_def)
next
  case False
  have valid: "observation_Validate uri_ok b = None" using assms(3) False by (auto simp: Ingest_def split: option.splits)
  have a: "accept_observation hash b c = (r, c')"
    using assms(3) False valid by (auto simp: Ingest_def Let_def remember_fields split: option.splits if_splits)
  obtain status g where p: "place_observation hash b c = (status, g)" by fastforce
  let ?g = "join_group (co_config c) b g"
  have g: "co_groups c' = AList.update (ob_subject b) ?g (co_groups c)"
    using a p by (auto simp: accept_observation_def Let_def remember_fields)
  have "og_id ?g = og_id g" by (simp add: join_group_def)
  with place_valid [OF assms(1) p] join_group_events [of "co_config c" b g] valid
  have "prefix ''corr-'' (og_id ?g) \<and> (\<forall>e \<in> set (og_events ?g). observation_Validate uri_ok e = None)" by auto
  with assms(1) update_member [OF assms(2)] show ?thesis unfolding groups_valid_def g by fast
qed

lemma correlate_valid:
  "correlator_inv c \<Longrightarrow> groups_valid uri_ok c \<Longrightarrow> groups_valid uri_ok (snd (correlate uri_ok hash evs c))"
proof (induction evs arbitrary: c)
  case (Cons e evs)
  show ?case
  proof (cases e)
    case (Observe b)
    obtain r c1 where i: "Ingest uri_ok hash b c = (r, c1)" by fastforce
    have "distinct (map fst (co_groups c))" using Cons.prems(1) by (simp add: correlator_inv_def)
    from Cons.IH [of c1] Ingest_valid [OF Cons.prems(2) this i] Ingest_inv [OF Cons.prems(1) i] show ?thesis
      by (auto simp: Observe i split: sum.splits prod.splits)
  next
    case (Forget limit)
    have "groups_valid uri_ok (snd (Prune limit c))"
      using Cons.prems(2) by (auto simp: Prune_def Let_def groups_valid_def)
    with Cons.IH [OF Prune_inv(1) [OF Cons.prems(1)]] show ?thesis by (simp add: Forget)
  qed
qed simp

text \<open>A candidate is built from a group that the correlator holds afterwards.\<close>

lemma Ingest_candidate:
  assumes "correlator_inv c" and "Ingest uri_ok hash b c = (Inr (status, Some cd), c')"
  shows "\<exists>s g. (s, g) \<in> set (co_groups c') \<and> buildCandidate (co_config c) g = Some cd"
proof -
  have d: "distinct (map fst (co_groups c))" using assms(1) by (simp add: correlator_inv_def)
  have accepted: ?thesis if a: "accept_observation hash b c = (Inr (status, Some cd), c')"
  proof -
    obtain st g where p: "place_observation hash b c = (st, g)" by fastforce
    let ?g = "join_group (co_config c) b g"
    have "co_groups c' = AList.update (ob_subject b) ?g (co_groups c)" "buildCandidate (co_config c) ?g = Some cd"
      using a p by (auto simp: accept_observation_def Let_def remember_fields)
    moreover have "map_of (AList.update (ob_subject b) ?g (co_groups c)) (ob_subject b) = Some ?g"
      by (simp add: update_conv)
    ultimately show ?thesis using map_of_SomeD by metis
  qed
  show ?thesis
  proof (cases "accept_observation hash b c = (Inr (status, Some cd), c')")
    case False
    with assms(2) obtain g where "map_of (co_groups c) (ob_subject b) = Some g" "buildCandidate (co_config c) g = Some cd"
        "co_groups c' = co_groups c"
      by (auto simp: Ingest_def Let_def remember_fields split: option.splits if_splits)
    then show ?thesis using map_of_SomeD by metis
  qed (rule accepted)
qed

section \<open>What is gathered from valid observations\<close>

definition gathered_ok :: "(string \<Rightarrow> bool) \<Rightarrow> gathered \<Rightarrow> bool" where
  "gathered_ok uri_ok a \<longleftrightarrow>
     0 \<le> ga_confidence a \<and> ga_confidence a \<le> 1 \<and> 0 \<le> sc_dwell (ga_context a) \<and> 0 \<le> sc_cross (ga_context a) \<and>
     (\<forall>r \<in> set (ga_artifacts a). ref_Validate uri_ok r = None)"

lemma observation_valid:
  "observation_Validate uri_ok b = None \<longleftrightarrow>
     TrimSpace (ob_event b) \<noteq> [] \<and> TrimSpace (ob_subject b) \<noteq> [] \<and> TrimSpace (ob_source b) \<noteq> [] \<and>
     TrimSpace (ob_kind b) \<noteq> [] \<and> ob_occurred b \<noteq> zero_time \<and> ob_received b \<noteq> zero_time \<and>
     0 \<le> ob_confidence b \<and> ob_confidence b \<le> 1 \<and> 0 \<le> sc_dwell (ob_context b) \<and> 0 \<le> sc_cross (ob_context b) \<and>
     (\<forall>r \<in> set (ob_artifacts b). ref_Validate uri_ok r = None)"
  by (auto simp: observation_Validate_def check_simps)

lemma add_artifact_ok:
  "gathered_ok uri_ok a \<Longrightarrow> ref_Validate uri_ok r = None \<Longrightarrow> gathered_ok uri_ok (add_artifact room r a)"
  by (simp add: add_artifact_def Let_def gathered_ok_def)

lemma add_artifacts_ok:
  "gathered_ok uri_ok a \<Longrightarrow> \<forall>r \<in> set rs. ref_Validate uri_ok r = None \<Longrightarrow> gathered_ok uri_ok (fold (add_artifact room) rs a)"
  by (induction rs arbitrary: a) (simp_all add: add_artifact_ok)

lemma gather_ok:
  assumes "gathered_ok uri_ok a" and "observation_Validate uri_ok e = None"
  shows "gathered_ok uri_ok (gather room e a)"
  unfolding gather_def
  by (rule add_artifacts_ok) (use assms in \<open>simp_all add: gathered_ok_def merge_context_def observation_valid\<close>)

lemma gather_all_ok:
  assumes "\<forall>e \<in> set es. observation_Validate uri_ok e = None" shows "gathered_ok uri_ok (gather_all room es)"
proof -
  have "gathered_ok uri_ok a \<Longrightarrow> gathered_ok uri_ok (fold (gather room) es a)" for a
    using assms by (induction es arbitrary: a) (simp_all add: gather_ok)
  moreover have "gathered_ok uri_ok \<lparr> ga_ids = [], ga_sources = [], ga_artifacts = [], ga_keys = [], ga_confidence = 0,
      ga_context = \<lparr> sc_alarm = [], sc_identity = IdentityUnspecified, sc_entry = False, sc_dwell = 0, sc_cross = 0 \<rparr>,
      ga_person = False \<rparr>"
    by (simp add: gathered_ok_def)
  ultimately show ?thesis unfolding gather_all_def by blast
qed

lemma candidate_trigger_valid:
  assumes "og_events g \<noteq> []" and "prefix ''corr-'' (og_id g)"
    and "\<forall>e \<in> set (og_events g). observation_Validate uri_ok e = None" and "buildCandidate f g = Some cd"
  shows "trigger_Validate uri_ok (cd_trigger cd) = None"
proof -
  let ?a = "gather_all (cc_max_artifacts f) (og_events g)" and ?l = "last (og_events g)" and ?h = "hd (og_events g)"
  have a: "gathered_ok uri_ok ?a" by (rule gather_all_ok [OF assms(3)])
  have l: "observation_Validate uri_ok ?l = None" "observation_Validate uri_ok ?h = None" using assms(1,3) by simp_all
  have k: "TrimSpace ''correlated.person.activity.v1'' \<noteq> []" by (rule TrimSpace_head) (simp_all add: token_char_def)
  obtain n secs where x: "it_context (cd_trigger cd) = widen_context n secs (ga_context ?a)"
    using assms(1,4) by (auto simp: buildCandidate_def Let_def)
  have t: "it_event (cd_trigger cd) = og_id g" "it_source (cd_trigger cd) = ob_source ?l"
      "it_kind (cd_trigger cd) = (if ga_person ?a then ''correlated.person.activity.v1'' else ob_kind ?l)"
      "it_occurred (cd_trigger cd) = ob_occurred ?h" "it_confidence (cd_trigger cd) = ga_confidence ?a"
      "it_artifacts (cd_trigger cd) = ga_artifacts ?a"
    using assms(1,4) by (auto simp: buildCandidate_def Let_def)
  have "0 \<le> sc_dwell (it_context (cd_trigger cd))" "0 \<le> sc_cross (it_context (cd_trigger cd))"
    using a by (simp_all add: x widen_context_def Let_def gathered_ok_def)
  moreover
  have "TrimSpace (it_kind (cd_trigger cd)) \<noteq> []" using k l(1) by (simp add: t(3) observation_valid)
  ultimately show ?thesis
    using a l corr_id_not_blank [OF assms(2)] t
    by (simp add: trigger_Validate_def check_simps gathered_ok_def observation_valid not_less)
qed

text \<open>
  C32. No candidate is lost: whatever the correlator reports as the candidate of an observation is a
  valid trigger, and the plan of an incident takes it to a route: neither the validator of
  triggers nor the risk policy refuses it.
\<close>

theorem candidates_are_routed:
  assumes "NewCorrelator f = Inr c0" and "correlate uri_ok hash evs c0 = (taken, c)"
    and "Ingest uri_ok hash b c = (Inr (status, Some cd), c')"
  shows "\<exists>a. incident_route uri_ok order (cd_trigger cd) = Inr (a, routeRisk (as_risk a))"
proof -
  from new_correlator_inv [OF assms(1)] have c0: "correlator_inv c0" "groups_valid uri_ok c0"
    by (auto simp: groups_valid_def)
  have c: "correlator_inv c" "groups_valid uri_ok c"
    using correlate_inv [OF c0(1) assms(2)] correlate_valid [OF c0, of hash evs] assms(2) by simp_all
  then have "distinct (map fst (co_groups c))" by (simp add: correlator_inv_def)
  from Ingest_valid [OF c(2) this assms(3)] Ingest_inv [OF c(1) assms(3)]
  have c': "groups_valid uri_ok c'" "correlator_inv c'" by blast+
  obtain s g where g: "(s, g) \<in> set (co_groups c')" "buildCandidate (co_config c) g = Some cd"
    using Ingest_candidate [OF c(1) assms(3)] by blast
  have "og_events g \<noteq> []" using c'(2) g(1) by (auto simp: correlator_inv_def group_ok_def)
  moreover have "prefix ''corr-'' (og_id g)" "\<forall>e \<in> set (og_events g). observation_Validate uri_ok e = None"
    using c'(1) g(1) by (auto simp: groups_valid_def)
  ultimately have v: "trigger_Validate uri_ok (cd_trigger cd) = None"
    using g(2) by (rule candidate_trigger_valid)
  then have "0 \<le> it_confidence (cd_trigger cd)" "it_confidence (cd_trigger cd) \<le> 1"
    "0 \<le> sc_dwell (it_context (cd_trigger cd))" "0 \<le> sc_cross (it_context (cd_trigger cd))"
    by (simp_all add: trigger_Validate_def check_simps)
  then have "\<exists>a. assessRisk order (cd_trigger cd) (correlateEvidence (cd_trigger cd)) = Inr a"
    using default_valid by (simp add: assessRisk_def correlateEvidence_def Assess_def FeaturesFromTrigger_def Let_def)
  with v show ?thesis by (auto simp: incident_route_def normalizeTrigger_def)
qed

lemma night_candidate: "\<exists>cd. fst night_sighting = Inr (StatusNewGroup, Some cd)"
proof -
  have "og_events (join_group DefaultConfig (sighting ''e1'' ''yard'' 100) (new_group (\<lambda>s. s) (sighting ''e1'' ''yard'' 100))) \<noteq> []"
    by (simp add: join_group_def keep_latest_def sort_events_def new_group_def DefaultConfig_def)
  then show ?thesis
    using sighting_valid(1)
    by (simp add: night_sighting_def Ingest_def night_correlator_def accept_observation_def place_observation_def Let_def
        buildCandidate_def)
qed

theorem candidates_are_routed_witness:
  "\<exists>cd a. fst night_sighting = Inr (StatusNewGroup, Some cd) \<and>
     incident_route (\<lambda>_. True) rev (cd_trigger cd) = Inr (a, routeRisk (as_risk a))"
proof -
  from night_candidate obtain cd where cd: "fst night_sighting = Inr (StatusNewGroup, Some cd)" by blast
  then have s: "sample_ingest (sighting ''e1'' ''yard'' 100) night_correlator =
      (Inr (StatusNewGroup, Some cd), snd night_sighting)"
    by (simp add: night_sighting_def prod_eq_iff)
  have "\<exists>a. incident_route (\<lambda>_. True) rev (cd_trigger cd) = Inr (a, routeRisk (as_risk a))"
    by (rule candidates_are_routed [OF night_new _ s, where evs = "[]" and taken = "[]"]) simp
  with cd show ?thesis by blast
qed

end
