(* ===== verification/LockManager.thy ===== *)
theory LockManager
  imports Main
begin

text \<open>
  Locks by name, \<open>locks/manager.go\<close>: a map from keys to entries, each a mutex and a count of the
  calls that refer to it.

  Goroutines interleave. What runs under the mutex of the manager is one step, and so is locking
  and unlocking the mutex of an entry; between them anything may happen. Entries are cells of a
  heap, because a call keeps its pointer while the map may change. A call of \<open>Lock\<close> goes through
  its states in \<open>lm_calls\<close>; \<open>once\<close> lets its release act a single time.
\<close>

section \<open>State and steps\<close>

record lock_entry =
  le_held :: bool
  le_refs :: int

datatype call_state = Waiting string nat | Holding string nat | Releasing string nat | Returned

record lock_manager =
  lm_entries :: "string \<rightharpoonup> nat"
  lm_heap :: "lock_entry list"
  lm_calls :: "call_state list"

definition NewLockManager :: lock_manager where
  "NewLockManager = \<lparr> lm_entries = Map.empty, lm_heap = [], lm_calls = [] \<rparr>"

definition refer :: "int \<Rightarrow> nat \<Rightarrow> lock_entry list \<Rightarrow> lock_entry list" where
  "refer n a h = h[a := (h ! a)\<lparr> le_refs := le_refs (h ! a) + n \<rparr>]"

text \<open>\<open>Lock\<close> up to the point where it waits for the entry.\<close>

definition enter_lock :: "string \<Rightarrow> lock_manager \<Rightarrow> lock_manager" where
  "enter_lock key m =
     (case lm_entries m key of
        None \<Rightarrow>
          (let a = length (lm_heap m)
           in m\<lparr> lm_entries := (lm_entries m)(key \<mapsto> a),
                 lm_heap := refer 1 a (lm_heap m @ [\<lparr> le_held = False, le_refs = 0 \<rparr>]),
                 lm_calls := lm_calls m @ [Waiting key a] \<rparr>)
      | Some a \<Rightarrow> m\<lparr> lm_heap := refer 1 a (lm_heap m), lm_calls := lm_calls m @ [Waiting key a] \<rparr>)"

definition set_held :: "bool \<Rightarrow> nat \<Rightarrow> lock_entry list \<Rightarrow> lock_entry list" where
  "set_held b a h = h[a := (h ! a)\<lparr> le_held := b \<rparr>]"

text \<open>\<open>Lock\<close> returns when it gets the mutex of the entry; \<^const>\<open>None\<close> when it has to wait.\<close>

definition take_mutex :: "nat \<Rightarrow> lock_manager \<Rightarrow> lock_manager option" where
  "take_mutex i m =
     (case lm_calls m ! i of
        Waiting key a \<Rightarrow>
          if le_held (lm_heap m ! a) then None
          else Some (m\<lparr> lm_heap := set_held True a (lm_heap m), lm_calls := (lm_calls m)[i := Holding key a] \<rparr>)
      | _ \<Rightarrow> None)"

text \<open>The release: unlocking the entry, then dropping the reference.\<close>

definition release_mutex :: "nat \<Rightarrow> lock_manager \<Rightarrow> lock_manager option" where
  "release_mutex i m =
     (case lm_calls m ! i of
        Holding key a \<Rightarrow>
          Some (m\<lparr> lm_heap := set_held False a (lm_heap m), lm_calls := (lm_calls m)[i := Releasing key a] \<rparr>)
      | _ \<Rightarrow> None)"

definition drop_reference :: "nat \<Rightarrow> lock_manager \<Rightarrow> lock_manager option" where
  "drop_reference i m =
     (case lm_calls m ! i of
        Releasing key a \<Rightarrow>
          (let h = refer (- 1) a (lm_heap m)
           in Some (m\<lparr> lm_entries := (if le_refs (h ! a) = 0 then (lm_entries m)(key := None) else lm_entries m),
                       lm_heap := h, lm_calls := (lm_calls m)[i := Returned] \<rparr>))
      | _ \<Rightarrow> None)"

definition ActiveKeys :: "lock_manager \<Rightarrow> nat" where
  "ActiveKeys m = card (dom (lm_entries m))"

text \<open>A step of a call that is under way, and the steps of the manager.\<close>

inductive call_step :: "lock_manager \<Rightarrow> lock_manager \<Rightarrow> bool" where
  take: "i < length (lm_calls m) \<Longrightarrow> take_mutex i m = Some m' \<Longrightarrow> call_step m m'"
| release: "i < length (lm_calls m) \<Longrightarrow> release_mutex i m = Some m' \<Longrightarrow> call_step m m'"
| drop_ref: "i < length (lm_calls m) \<Longrightarrow> drop_reference i m = Some m' \<Longrightarrow> call_step m m'"

inductive lock_reachable :: "lock_manager \<Rightarrow> bool" where
  start: "lock_reachable NewLockManager"
| enter: "lock_reachable m \<Longrightarrow> lock_reachable (enter_lock key m)"
| step: "lock_reachable m \<Longrightarrow> call_step m m' \<Longrightarrow> lock_reachable m'"

inductive_cases call_step_cases: "call_step m m'"

section \<open>The invariant\<close>

fun refers :: "call_state \<Rightarrow> (string \<times> nat) option" where
  "refers (Waiting k a) = Some (k, a)"
| "refers (Holding k a) = Some (k, a)"
| "refers (Releasing k a) = Some (k, a)"
| "refers Returned = None"

fun holds :: "nat \<Rightarrow> call_state \<Rightarrow> bool" where
  "holds a (Holding _ b) \<longleftrightarrow> a = b"
| "holds _ _ \<longleftrightarrow> False"

abbreviation holders :: "nat \<Rightarrow> call_state list \<Rightarrow> nat" where
  "holders a cs \<equiv> length (filter (holds a) cs)"

abbreviation users :: "string \<Rightarrow> nat \<Rightarrow> call_state list \<Rightarrow> nat" where
  "users k a cs \<equiv> length (filter (\<lambda>c. refers c = Some (k, a)) cs)"

definition lock_inv :: "lock_manager \<Rightarrow> bool" where
  "lock_inv m \<longleftrightarrow>
     (\<forall>k a. lm_entries m k = Some a \<longrightarrow>
        a < length (lm_heap m) \<and> le_refs (lm_heap m ! a) = int (users k a (lm_calls m)) \<and> 0 < users k a (lm_calls m)) \<and>
     (\<forall>k k' a. lm_entries m k = Some a \<longrightarrow> lm_entries m k' = Some a \<longrightarrow> k = k') \<and>
     (\<forall>c \<in> set (lm_calls m). \<forall>k a. refers c = Some (k, a) \<longrightarrow> lm_entries m k = Some a) \<and>
     (\<forall>a < length (lm_heap m). holders a (lm_calls m) = (if le_held (lm_heap m ! a) then 1 else 0)) \<and>
     finite (dom (lm_entries m))"

lemma filter_update:
  "i < length cs \<Longrightarrow>
     length (filter P (cs[i := c])) + (if P (cs ! i) then 1 else 0) = length (filter P cs) + (if P c then 1 else 0)"
proof (induction cs arbitrary: i)
  case (Cons x cs)
  then show ?case by (cases i) auto
qed simp

lemma refer_length [simp]: "length (refer n a h) = length h"
  by (simp add: refer_def)

lemma set_held_length [simp]: "length (set_held b a h) = length h"
  by (simp add: set_held_def)

lemma refer_nth [simp]:
  "a < length h \<Longrightarrow> le_refs (refer n a h ! b) = (if a = b then le_refs (h ! a) + n else le_refs (h ! b))"
  by (auto simp: refer_def)

lemma refer_held [simp]: "a < length h \<Longrightarrow> le_held (refer n a h ! b) = le_held (h ! b)"
  by (cases "a = b") (simp_all add: refer_def)

lemma set_held_nth [simp]:
  "a < length h \<Longrightarrow> le_held (set_held v a h ! b) = (if a = b then v else le_held (h ! b))"
  by (auto simp: set_held_def)

lemma set_held_refs [simp]: "a < length h \<Longrightarrow> le_refs (set_held v a h ! b) = le_refs (h ! b)"
  by (cases "a = b") (simp_all add: set_held_def)

lemma no_holder: "\<forall>c \<in> set cs. \<forall>k. refers c \<noteq> Some (k, a) \<Longrightarrow> holders a cs = 0"
proof -
  have "holds a c \<Longrightarrow> \<exists>k. refers c = Some (k, a)" for c by (cases c) auto
  moreover assume "\<forall>c \<in> set cs. \<forall>k. refers c \<noteq> Some (k, a)"
  ultimately show ?thesis by (auto simp: filter_empty_conv)
qed

lemma lock_invD:
  assumes "lock_inv m"
  shows "lm_entries m k = Some a \<Longrightarrow>
      a < length (lm_heap m) \<and> le_refs (lm_heap m ! a) = int (users k a (lm_calls m)) \<and> 0 < users k a (lm_calls m)"
    and "lm_entries m k = Some a \<Longrightarrow> lm_entries m k' = Some a \<Longrightarrow> k = k'"
    and "c \<in> set (lm_calls m) \<Longrightarrow> refers c = Some (k, a) \<Longrightarrow> lm_entries m k = Some a"
    and "a < length (lm_heap m) \<Longrightarrow> holders a (lm_calls m) = (if le_held (lm_heap m ! a) then 1 else 0)"
    and "finite (dom (lm_entries m))"
  using assms unfolding lock_inv_def by blast+

lemma enter_lock_inv:
  assumes m: "lock_inv m"
  shows "lock_inv (enter_lock key m)"
proof (cases "lm_entries m key")
  case None
  let ?a = "length (lm_heap m)"
  have old: "refers c = Some (k, b) \<Longrightarrow> k \<noteq> key \<and> b < ?a" if "c \<in> set (lm_calls m)" for c k b
    using lock_invD(3) [OF m that] lock_invD(1) [OF m, of k b] None by auto
  then have users: "users key ?a (lm_calls m) = 0" by (auto simp: filter_empty_conv)
  have holders: "holders ?a (lm_calls m) = 0" using no_holder old by blast
  have entry: "b < Suc ?a \<and>
      le_refs (refer 1 ?a (lm_heap m @ [\<lparr>le_held = False, le_refs = 0\<rparr>]) ! b) =
        int (users k b (lm_calls m @ [Waiting key ?a])) \<and> 0 < users k b (lm_calls m @ [Waiting key ?a])"
    if "((lm_entries m)(key \<mapsto> ?a)) k = Some b" for k b
    using that lock_invD(1) [OF m, of k b] users
    by (auto simp: nth_append split: if_splits)
  have fields: "lm_entries (enter_lock key m) = (lm_entries m)(key \<mapsto> ?a)"
    "lm_heap (enter_lock key m) = refer 1 ?a (lm_heap m @ [\<lparr>le_held = False, le_refs = 0\<rparr>])"
    "lm_calls (enter_lock key m) = lm_calls m @ [Waiting key ?a]"
    by (simp_all add: enter_lock_def None Let_def)
  show ?thesis
    unfolding lock_inv_def fields
  proof (intro conjI allI impI ballI)
    fix k k' b
    assume "((lm_entries m)(key \<mapsto> ?a)) k = Some b" "((lm_entries m)(key \<mapsto> ?a)) k' = Some b"
    then show "k = k'"
      using lock_invD(1) [OF m, of k b] lock_invD(1) [OF m, of k' b] lock_invD(2) [OF m, of k b k']
      by (auto split: if_splits)
  next
    fix c k b
    assume "c \<in> set (lm_calls m @ [Waiting key ?a])" "refers c = Some (k, b)"
    then show "((lm_entries m)(key \<mapsto> ?a)) k = Some b" using old lock_invD(3) [OF m] by auto
  next
    fix b assume "b < length (refer 1 ?a (lm_heap m @ [\<lparr>le_held = False, le_refs = 0\<rparr>]))"
    then show "holders b (lm_calls m @ [Waiting key ?a]) =
        (if le_held (refer 1 ?a (lm_heap m @ [\<lparr>le_held = False, le_refs = 0\<rparr>]) ! b) then 1 else 0)"
      using lock_invD(4) [OF m, of b] holders by (auto simp: nth_append less_Suc_eq)
  qed (use entry lock_invD(5) [OF m] in \<open>simp_all\<close>)
next
  case (Some a)
  then have a: "a < length (lm_heap m)" using lock_invD(1) [OF m] by blast
  have fields: "lm_entries (enter_lock key m) = lm_entries m" "lm_heap (enter_lock key m) = refer 1 a (lm_heap m)"
    "lm_calls (enter_lock key m) = lm_calls m @ [Waiting key a]"
    by (simp_all add: enter_lock_def Some)
  show ?thesis
    unfolding lock_inv_def fields
  proof (intro conjI allI impI ballI)
    fix k b assume k: "lm_entries m k = Some b"
    have "b = a \<longleftrightarrow> k = key" using k Some lock_invD(2) [OF m] by auto
    then show "le_refs (refer 1 a (lm_heap m) ! b) = int (users k b (lm_calls m @ [Waiting key a]))"
      using lock_invD(1) [OF m k] a by auto
    show "b < length (refer 1 a (lm_heap m))" "0 < users k b (lm_calls m @ [Waiting key a])"
      using lock_invD(1) [OF m k] by simp_all
  next
    fix k k' b assume "lm_entries m k = Some b" "lm_entries m k' = Some b"
    then show "k = k'" by (rule lock_invD(2) [OF m])
  next
    fix c k b assume "c \<in> set (lm_calls m @ [Waiting key a])" "refers c = Some (k, b)"
    then show "lm_entries m k = Some b" using lock_invD(3) [OF m, of c k b] Some by auto
  next
    fix b assume "b < length (refer 1 a (lm_heap m))"
    then show "holders b (lm_calls m @ [Waiting key a]) = (if le_held (refer 1 a (lm_heap m) ! b) then 1 else 0)"
      using lock_invD(4) [OF m, of b] a by simp
  qed (rule lock_invD(5) [OF m])
qed

text \<open>A call that goes on without giving up its reference.\<close>

lemma held_change_inv:
  assumes m: "lock_inv m" and i: "i < length (lm_calls m)"
    and c: "refers (lm_calls m ! i) = Some (key, a)" "refers c = Some (key, a)"
    and h: "holds a (lm_calls m ! i) \<noteq> v" "holds a c = v" "le_held (lm_heap m ! a) \<noteq> v"
  shows "lock_inv (m\<lparr> lm_heap := set_held v a (lm_heap m), lm_calls := (lm_calls m)[i := c] \<rparr>)"
proof -
  let ?cs = "(lm_calls m)[i := c]"
  have key: "lm_entries m key = Some a" using lock_invD(3) [OF m _ c(1)] nth_mem [OF i] by blast
  then have a: "a < length (lm_heap m)" using lock_invD(1) [OF m] by blast
  have users: "users k b ?cs = users k b (lm_calls m)" for k b
    using filter_update [OF i, of "\<lambda>c. refers c = Some (k, b)" c] c by simp
  have elsewhere: "holds b x \<Longrightarrow> refers x = Some (key, a) \<Longrightarrow> b = a" for b x by (cases x) auto
  have holders: "holders b ?cs = (if le_held (set_held v a (lm_heap m) ! b) then 1 else 0)"
    if b: "b < length (lm_heap m)" for b
    using filter_update [OF i, of "holds b" c] lock_invD(4) [OF m b] elsewhere [of b c]
      elsewhere [of b "lm_calls m ! i"] a c h
    by (cases "b = a") (auto split: if_splits)
  have fields: "lm_entries (m\<lparr> lm_heap := set_held v a (lm_heap m), lm_calls := ?cs \<rparr>) = lm_entries m"
    "lm_heap (m\<lparr> lm_heap := set_held v a (lm_heap m), lm_calls := ?cs \<rparr>) = set_held v a (lm_heap m)"
    "lm_calls (m\<lparr> lm_heap := set_held v a (lm_heap m), lm_calls := ?cs \<rparr>) = ?cs" by simp_all
  show ?thesis
    unfolding lock_inv_def fields users
  proof (intro conjI allI impI ballI)
    fix k b assume k: "lm_entries m k = Some b"
    show "b < length (set_held v a (lm_heap m))" "0 < users k b (lm_calls m)"
      "le_refs (set_held v a (lm_heap m) ! b) = int (users k b (lm_calls m))"
      using lock_invD(1) [OF m k] a by simp_all
  next
    fix k k' b assume "lm_entries m k = Some b" "lm_entries m k' = Some b"
    then show "k = k'" by (rule lock_invD(2) [OF m])
  next
    fix x k b assume "x \<in> set ?cs" "refers x = Some (k, b)"
    then show "lm_entries m k = Some b"
      using set_update_subset_insert [of "lm_calls m" i c] lock_invD(3) [OF m, of x k b] key c(2) by auto
  qed (use holders lock_invD(5) [OF m] in simp_all)
qed

lemma call_inv:
  assumes m: "lock_inv m" and i: "i < length (lm_calls m)" and c: "refers (lm_calls m ! i) = Some (key, a)"
  shows "lm_entries m key = Some a" and "a < length (lm_heap m)"
    and "holds a (lm_calls m ! i) \<Longrightarrow> le_held (lm_heap m ! a)"
proof -
  show e: "lm_entries m key = Some a" using lock_invD(3) [OF m _ c] nth_mem [OF i] by blast
  then show a: "a < length (lm_heap m)" using lock_invD(1) [OF m] by blast
  assume "holds a (lm_calls m ! i)"
  then have "filter (holds a) (lm_calls m) \<noteq> []" using nth_mem [OF i] by (auto simp: filter_empty_conv)
  then show "le_held (lm_heap m ! a)" using lock_invD(4) [OF m a] by (auto split: if_splits)
qed

lemma take_mutex_inv:
  assumes m: "lock_inv m" and i: "i < length (lm_calls m)" and t: "take_mutex i m = Some m'"
  shows "lock_inv m'"
proof -
  from t obtain key a where c: "lm_calls m ! i = Waiting key a" "\<not> le_held (lm_heap m ! a)"
    and m': "m' = m\<lparr> lm_heap := set_held True a (lm_heap m), lm_calls := (lm_calls m)[i := Holding key a] \<rparr>"
    by (auto simp: take_mutex_def split: call_state.splits if_splits)
  show ?thesis unfolding m' by (rule held_change_inv [OF m i]) (use c in simp_all)
qed

lemma release_mutex_inv:
  assumes m: "lock_inv m" and i: "i < length (lm_calls m)" and t: "release_mutex i m = Some m'"
  shows "lock_inv m'"
proof -
  from t obtain key a where c: "lm_calls m ! i = Holding key a"
    and m': "m' = m\<lparr> lm_heap := set_held False a (lm_heap m), lm_calls := (lm_calls m)[i := Releasing key a] \<rparr>"
    by (auto simp: release_mutex_def split: call_state.splits)
  have "le_held (lm_heap m ! a)" by (rule call_inv(3) [OF m i]) (use c in simp_all)
  then show ?thesis unfolding m' by (intro held_change_inv [OF m i]) (use c in simp_all)
qed

lemma drop_reference_inv:
  assumes m: "lock_inv m" and i: "i < length (lm_calls m)" and t: "drop_reference i m = Some m'"
  shows "lock_inv m'"
proof -
  from t obtain key a where c: "lm_calls m ! i = Releasing key a"
    and m': "m' = m\<lparr> lm_entries := (if le_refs (refer (- 1) a (lm_heap m) ! a) = 0 then (lm_entries m)(key := None)
        else lm_entries m), lm_heap := refer (- 1) a (lm_heap m), lm_calls := (lm_calls m)[i := Returned] \<rparr>"
    by (auto simp: drop_reference_def Let_def split: call_state.splits)
  let ?cs = "(lm_calls m)[i := Returned]"
  have key: "lm_entries m key = Some a" "a < length (lm_heap m)" using call_inv [OF m i, of key a] c by simp_all
  have users: "users k b (lm_calls m) = users k b ?cs + (if k = key \<and> b = a then 1 else 0)" for k b
    using filter_update [OF i, of "\<lambda>c. refers c = Some (k, b)" Returned] c by (auto split: if_splits)
  have holders: "holders b ?cs = holders b (lm_calls m)" for b
    using filter_update [OF i, of "holds b" Returned] c by simp
  have refs: "le_refs (refer (- 1) a (lm_heap m) ! a) = int (users key a ?cs)"
    using lock_invD(1) [OF m key(1)] users [of key a] key(2) by simp
  have entries: "lm_entries m' k = Some b \<longleftrightarrow> lm_entries m k = Some b \<and> (k = key \<longrightarrow> users key a ?cs \<noteq> 0)" for k b
    by (auto simp: m' refs key)
  have fields: "lm_heap m' = refer (- 1) a (lm_heap m)" "lm_calls m' = ?cs" by (simp_all add: m')
  show ?thesis
    unfolding lock_inv_def fields entries holders
  proof (intro conjI allI impI ballI; (elim conjE)?)
    fix k b assume k: "lm_entries m k = Some b" "k = key \<longrightarrow> users key a ?cs \<noteq> 0"
    have same: "b = a \<longleftrightarrow> k = key" using k(1) key(1) lock_invD(2) [OF m] by auto
    show "b < length (refer (- 1) a (lm_heap m))" using lock_invD(1) [OF m k(1)] by simp
    show "le_refs (refer (- 1) a (lm_heap m) ! b) = int (users k b ?cs)"
      using lock_invD(1) [OF m k(1)] users [of k b] key(2) refs same by (cases "b = a") simp_all
    show "0 < users k b ?cs"
      using lock_invD(1) [OF m k(1)] users [of k b] k(2) same by (cases "k = key") simp_all
  next
    fix k k' b assume "lm_entries m k = Some b" "lm_entries m k' = Some b"
    then show "k = k'" by (rule lock_invD(2) [OF m])
  next
    fix x k b assume x: "x \<in> set ?cs" "refers x = Some (k, b)"
    then show "lm_entries m k = Some b"
      using set_update_subset_insert [of "lm_calls m" i Returned] lock_invD(3) [OF m, of x k b] by auto
    then show "users key a ?cs \<noteq> 0" if "k = key" using x key(1) that by (auto simp: filter_empty_conv)
  next
    fix b assume "b < length (refer (- 1) a (lm_heap m))"
    then show "holders b (lm_calls m) = (if le_held (refer (- 1) a (lm_heap m) ! b) then 1 else 0)"
      using lock_invD(4) [OF m, of b] key(2) by simp
  next
    show "finite (dom (lm_entries m'))"
      by (rule finite_subset [OF _ lock_invD(5) [OF m]]) (use entries in auto)
  qed
qed

lemma call_step_inv: "lock_inv m \<Longrightarrow> call_step m m' \<Longrightarrow> lock_inv m'"
  using take_mutex_inv release_mutex_inv drop_reference_inv by (elim call_step_cases) blast+

lemma reachable_lock_inv: "lock_reachable m \<Longrightarrow> lock_inv m"
proof (induction rule: lock_reachable.induct)
  case start
  show ?case by (simp add: lock_inv_def NewLockManager_def)
qed (auto intro: enter_lock_inv call_step_inv)

section \<open>One holder, and no lock is lost\<close>

text \<open>
  C11. A lock has one holder: however the calls interleave, and however often an entry is dropped
  and made again, no two calls hold the lock of a key at the same time.
\<close>

theorem lock_exclusive:
  assumes "lock_reachable m" and "i < length (lm_calls m)" and "j < length (lm_calls m)"
    and "lm_calls m ! i = Holding key a" and "lm_calls m ! j = Holding key b"
  shows "i = j"
proof -
  note m = reachable_lock_inv [OF assms(1)]
  have a: "lm_entries m key = Some a" "a < length (lm_heap m)" using call_inv [OF m assms(2)] assms(4) by simp_all
  have b: "lm_entries m key = Some b" using call_inv(1) [OF m assms(3)] assms(5) by simp
  have "card {i. i < length (lm_calls m) \<and> holds a (lm_calls m ! i)} \<le> 1"
    using lock_invD(4) [OF m a(2)] by (simp add: length_filter_conv_card)
  then have "x \<in> {i. i < length (lm_calls m) \<and> holds a (lm_calls m ! i)} \<Longrightarrow>
      y \<in> {i. i < length (lm_calls m) \<and> holds a (lm_calls m ! i)} \<Longrightarrow> x = y" for x y
    by (simp add: card_le_Suc0_iff_eq)
  then show ?thesis using assms a(1) b by simp
qed

fun steps_left :: "call_state \<Rightarrow> nat" where
  "steps_left (Waiting _ _) = 3"
| "steps_left (Holding _ _) = 2"
| "steps_left (Releasing _ _) = 1"
| "steps_left Returned = 0"

abbreviation work_left :: "lock_manager \<Rightarrow> nat" where
  "work_left m \<equiv> sum_list (map steps_left (lm_calls m))"

lemma work_decreases:
  assumes "i < length cs" and "steps_left c < steps_left (cs ! i)"
  shows "sum_list (map steps_left (cs[i := c])) < sum_list (map steps_left cs)"
proof -
  have "steps_left (cs ! i) \<le> sum_list (map steps_left cs)"
    using assms(1) by (intro elem_le_sum_list [of i "map steps_left cs", simplified])
  then show ?thesis using assms by (simp add: map_update sum_list_update)
qed

lemma call_step_work:
  assumes "call_step m m'"
  shows "work_left m' < work_left m"
proof -
  from assms obtain i c where "i < length (lm_calls m)" "lm_calls m' = (lm_calls m)[i := c]"
    "steps_left c < steps_left (lm_calls m ! i)"
    by (elim call_step_cases)
      (auto simp: take_mutex_def release_mutex_def drop_reference_def Let_def split: call_state.splits if_splits)
  then show ?thesis using work_decreases by simp
qed

text \<open>A call that waits, waits for a holder; every other call can go on.\<close>

lemma call_progress:
  assumes m: "lock_inv m" and i: "i < length (lm_calls m)" and c: "lm_calls m ! i \<noteq> Returned"
  shows "\<exists>m'. call_step m m'"
proof (cases "lm_calls m ! i")
  case (Waiting key a)
  note e = call_inv [OF m i, of key a]
  show ?thesis
  proof (cases "le_held (lm_heap m ! a)")
    case True
    with lock_invD(4) [OF m, of a] e(2) Waiting have "holders a (lm_calls m) \<noteq> 0" by simp
    then obtain x where "x \<in> set (lm_calls m)" "holds a x" by (auto simp: filter_empty_conv)
    then obtain j where j: "j < length (lm_calls m)" "holds a (lm_calls m ! j)"
      by (auto simp: in_set_conv_nth)
    then obtain k where "lm_calls m ! j = Holding k a" by (cases "lm_calls m ! j") auto
    with j(1) show ?thesis by (intro exI, intro call_step.release) (auto simp: release_mutex_def)
  next
    case False
    with Waiting i show ?thesis by (intro exI, intro call_step.take) (auto simp: take_mutex_def)
  qed
next
  case (Holding key a)
  with i show ?thesis by (intro exI, intro call_step.release) (auto simp: release_mutex_def)
next
  case (Releasing key a)
  with i show ?thesis by (intro exI, intro call_step.drop_ref) (auto simp: drop_reference_def Let_def)
qed (use c in simp)

text \<open>
  C18. No lock is lost and no entry stays: from every state that the manager can reach, however
  its calls interleave, the steps of the calls alone can go on until all calls have returned;
  every sequence of such steps ends, and when it can go no further all calls have returned and the
  manager has no active keys.
\<close>

theorem locks_returned:
  assumes "lock_reachable m"
  shows "(\<exists>m'. call_step\<^sup>*\<^sup>* m m' \<and> set (lm_calls m') \<subseteq> {Returned}) \<and> wfp (\<lambda>y x. call_step x y) \<and>
    (\<forall>m'. call_step\<^sup>*\<^sup>* m m' \<and> (\<nexists>m''. call_step m' m'') \<longrightarrow>
       set (lm_calls m') \<subseteq> {Returned} \<and> ActiveKeys m' = 0)"
proof -
  have stuck: "set (lm_calls m') \<subseteq> {Returned} \<and> ActiveKeys m' = 0"
    if "call_step\<^sup>*\<^sup>* m m'" "\<nexists>m''. call_step m' m''" for m'
  proof -
    from that(1) have m': "lock_inv m'"
      by (induction rule: rtranclp_induct) (auto intro: reachable_lock_inv [OF assms] call_step_inv)
    have finished: "set (lm_calls m') \<subseteq> {Returned}"
      using call_progress [OF m'] that(2) by (metis in_set_conv_nth singletonI subsetI)
    have "lm_entries m' k = None" for k
    proof (rule ccontr)
      assume "lm_entries m' k \<noteq> None"
      then obtain a where "0 < users k a (lm_calls m')" using lock_invD(1) [OF m'] by blast
      then obtain x where "x \<in> set (lm_calls m')" "refers x = Some (k, a)" by (auto simp: filter_empty_conv)
      with finished show False by auto
    qed
    then have "lm_entries m' = Map.empty" by (simp add: fun_eq_iff)
    with finished show ?thesis by (simp add: ActiveKeys_def)
  qed
  have "wfp (\<lambda>y x. call_step x y)"
    by (rule wfp_if_convertible_to_nat [of _ work_left]) (rule call_step_work)
  moreover from this obtain m' where "call_step\<^sup>*\<^sup>* m m'" "\<nexists>m''. call_step m' m''"
  proof (induction m arbitrary: thesis rule: wfp_induct_rule)
    case (less x)
    show ?case
    proof (cases "\<exists>y. call_step x y")
      case True
      then obtain y where y: "call_step x y" by blast
      from less.IH [OF y] obtain m' where "call_step\<^sup>*\<^sup>* y m'" "\<nexists>m''. call_step m' m''" by blast
      with y less.prems show ?thesis by (meson converse_rtranclp_into_rtranclp)
    qed (use less.prems in blast)
  qed
  ultimately show ?thesis using stuck by blast
qed

text \<open>Two calls for one door: the second one waits.\<close>

definition two_calls :: lock_manager where
  "two_calls = enter_lock ''door'' (enter_lock ''door'' NewLockManager)"

definition one_inside :: lock_manager where
  "one_inside = the (take_mutex 0 two_calls)"

lemma one_inside_reachable: "lock_reachable one_inside"
proof -
  have "lock_reachable two_calls" unfolding two_calls_def by (intro lock_reachable.intros)
  moreover have "take_mutex 0 two_calls = Some one_inside"
    by (simp add: one_inside_def) (simp add: two_calls_def enter_lock_def NewLockManager_def take_mutex_def refer_def)
  moreover have "0 < length (lm_calls two_calls)"
    by (simp add: two_calls_def enter_lock_def NewLockManager_def)
  ultimately show ?thesis by (blast intro: lock_reachable.step call_step.take)
qed

lemma one_inside_calls: "lm_calls one_inside = [Holding ''door'' 0, Waiting ''door'' 0]"
  by (simp add: one_inside_def two_calls_def enter_lock_def NewLockManager_def take_mutex_def refer_def)

theorem lock_exclusive_witness:
  "lm_calls one_inside = [Holding ''door'' 0, Waiting ''door'' 0] \<and>
   {i. i < 2 \<and> lm_calls one_inside ! i = Holding ''door'' 0} = {0}"
proof -
  have "i = 0" if "i < 2" "lm_calls one_inside ! i = Holding ''door'' 0" for i
    by (rule lock_exclusive [OF one_inside_reachable, of i 0 "''door''" 0 0]) (use that one_inside_calls in simp_all)
  then show ?thesis by (auto simp: one_inside_calls)
qed

theorem locks_returned_witness:
  "\<exists>m'. call_step\<^sup>*\<^sup>* one_inside m' \<and> set (lm_calls m') \<subseteq> {Returned}"
  using locks_returned [OF one_inside_reachable] by blast

end
