(* ===== verification/RateLimit.thy ===== *)
theory RateLimit
  imports Observations Tokens "HOL-Library.AList"
begin

text \<open>
  The limit on requests, \<open>httpserver/ratelimit.go\<close>: a window of time for each key, opened by the
  first request, with the number of requests that were let through in it.

  The map is an association list with one entry per key. A missing entry is the zero entry; times
  are nanoseconds and \<open>Sub\<close> saturates. A request is one step, because the lock is held throughout.
\<close>

section \<open>The limiter\<close>

record rate_entry =
  re_start :: int
  re_count :: int

type_synonym rate_limiter = "(string \<times> rate_entry) list"

record rate_call =
  rc_key :: string
  rc_limit :: int
  rc_window :: int
  rc_now :: int

definition rate_entry_of :: "rate_limiter \<Rightarrow> string \<Rightarrow> rate_entry" where
  "rate_entry_of l key =
     (case map_of l key of Some e \<Rightarrow> e | None \<Rightarrow> \<lparr> re_start = zero_time, re_count = 0 \<rparr>)"

text \<open>What the sweep removes; the window is the one of the request that sweeps.\<close>

definition sweep_entries :: "int \<Rightarrow> int \<Rightarrow> rate_limiter \<Rightarrow> rate_limiter" where
  "sweep_entries window now l =
     (if 4096 < length l then filter (\<lambda>(_, e). \<not> wrap64 (2 * window) < time_Sub now (re_start e)) l else l)"

definition rate_allow :: "rate_call \<Rightarrow> rate_limiter \<Rightarrow> bool \<times> rate_limiter" where
  "rate_allow c l =
     (if rc_limit c \<le> 0 \<or> rc_window c \<le> 0 then (True, l)
      else let e = rate_entry_of l (rc_key c)
       in if re_start e = zero_time \<or> rc_window c \<le> time_Sub (rc_now c) (re_start e)
          then (True, AList.update (rc_key c) \<lparr> re_start = rc_now c, re_count = 1 \<rparr> l)
          else if rc_limit c \<le> re_count e then (False, l)
          else (True, sweep_entries (rc_window c) (rc_now c)
                 (AList.update (rc_key c) (e\<lparr> re_count := re_count e + 1 \<rparr>) l)))"

text \<open>The requests that are let through, in a run, and the limiter after them.\<close>

fun rate_run :: "rate_call list \<Rightarrow> rate_limiter \<Rightarrow> rate_call list \<times> rate_limiter" where
  "rate_run [] l = ([], l)"
| "rate_run (c # cs) l =
     (case rate_allow c l of
        (ok, l') \<Rightarrow> (case rate_run cs l' of (through, l'') \<Rightarrow> (if ok then c # through else through, l'')))"

section \<open>Counting\<close>

abbreviation times_in :: "int \<Rightarrow> int \<Rightarrow> int list \<Rightarrow> int list" where
  "times_in a b hs \<equiv> filter (\<lambda>h. a \<le> h \<and> h < b) hs"

abbreviation times_from :: "int \<Rightarrow> int list \<Rightarrow> int list" where
  "times_from a hs \<equiv> filter (\<lambda>h. a \<le> h) hs"

lemma filter_length_mono: "(\<And>x. x \<in> set xs \<Longrightarrow> P x \<Longrightarrow> Q x) \<Longrightarrow> length (filter P xs) \<le> length (filter Q xs)"
  by (induction xs) auto

text \<open>
  The times \<open>hs\<close> of the requests of a key that were let through, up to \<open>now\<close>, when the window that
  is open, or that was last open, started at \<open>s\<close>.
\<close>

definition window_state :: "int \<Rightarrow> int \<Rightarrow> int \<Rightarrow> int \<Rightarrow> int list \<Rightarrow> bool" where
  "window_state n w now s hs \<longleftrightarrow>
     s \<le> now \<and> (\<forall>h \<in> set hs. h \<le> now \<and> h < s + w) \<and> int (length (times_from s hs)) \<le> n \<and>
     int (length (times_in (s - w) s hs)) \<le> n \<and> (\<forall>t. int (length (times_in t (t + w) hs)) \<le> 2 * n)"

lemma times_outside: "h < a \<or> b \<le> h \<Longrightarrow> times_in a b (hs @ [h]) = times_in a b hs"
  by auto

lemma open_window:
  assumes st: "window_state n w now s hs" and w: "0 < w" "0 < n" and now: "now \<le> now'" "s + w \<le> now'"
  shows "window_state n w now' now' (hs @ [now'])"
proof -
  have m: "int (length (times_from s hs)) \<le> n" and bound: "\<forall>h \<in> set hs. h \<le> now \<and> h < s + w"
    and all: "int (length (times_in t (t + w) hs)) \<le> 2 * n" for t
    using st by (auto simp: window_state_def)
  have recent: "length (times_in t u hs) \<le> length (times_from s hs)" if "now' \<le> t + w" for t u
    using that now by (intro filter_length_mono) auto
  have "int (length (times_in t (t + w) (hs @ [now']))) \<le> 2 * n" for t
  proof (cases "t \<le> now' \<and> now' < t + w")
    case True
    then have "length (times_in t (t + w) hs) \<le> length (times_from s hs)" by (intro recent) simp
    with True m w(2) show ?thesis by simp
  next
    case False
    then have "times_in t (t + w) (hs @ [now']) = times_in t (t + w) hs" by (intro times_outside) auto
    with all [of t] show ?thesis by simp
  qed
  moreover have "int (length (times_in (now' - w) now' (hs @ [now']))) \<le> n"
    using recent [of "now' - w" now'] m by (simp add: times_outside)
  moreover have "times_from now' hs = []" using bound now by (auto simp: filter_empty_conv)
  ultimately show ?thesis using bound now w by (auto simp: window_state_def)
qed

lemma join_window:
  assumes st: "window_state n w now s hs" and now: "now \<le> now'" "now' < s + w"
    and m: "int (length (times_from s hs)) < n"
  shows "window_state n w now' s (hs @ [now'])"
proof -
  have bound: "s \<le> now" "\<forall>h \<in> set hs. h \<le> now \<and> h < s + w" and before: "int (length (times_in (s - w) s hs)) \<le> n"
    and all: "int (length (times_in t (t + w) hs)) \<le> 2 * n" for t
    using st by (auto simp: window_state_def)
  have recent: "length (times_in t u hs) \<le> length (times_in (s - w) s hs) + length (times_from s hs)"
    if "now' < t + w" for t u
    using that now bound(1) by (induction hs) auto
  have "int (length (times_in t (t + w) (hs @ [now']))) \<le> 2 * n" for t
  proof (cases "t \<le> now' \<and> now' < t + w")
    case True
    with recent [of t "t + w"] m before show ?thesis by simp
  next
    case False
    then have "times_in t (t + w) (hs @ [now']) = times_in t (t + w) hs" by (intro times_outside) auto
    with all [of t] show ?thesis by simp
  qed
  then show ?thesis using bound before m now by (auto simp: window_state_def)
qed

lemma window_state_later: "window_state n w now s hs \<Longrightarrow> now \<le> now' \<Longrightarrow> window_state n w now' s hs"
  by (auto simp: window_state_def intro: order_trans)

section \<open>One request\<close>

text \<open>What the limiter knows of a key.\<close>

definition key_window :: "string \<Rightarrow> int \<Rightarrow> int \<Rightarrow> int \<Rightarrow> rate_limiter \<Rightarrow> int list \<Rightarrow> bool" where
  "key_window k n w now l hs \<longleftrightarrow>
     (\<exists>s. window_state n w now s hs \<and>
        (map_of l k = Some \<lparr> re_start = s, re_count = int (length (times_from s hs)) \<rparr> \<and> zero_time < s \<or>
         map_of l k = None \<and> s + w \<le> now))"

lemma key_window_later: "key_window k n w now l hs \<Longrightarrow> now \<le> now' \<Longrightarrow> key_window k n w now' l hs"
  unfolding key_window_def using window_state_later by fastforce

lemma key_window_same: "key_window k n w now l hs \<Longrightarrow> map_of l' k = map_of l k \<Longrightarrow> key_window k n w now l' hs"
  by (simp add: key_window_def)

text \<open>A sweep forgets only windows that are over, if its own window is not too short.\<close>

lemma map_of_filter_other:
  "distinct (map fst l) \<Longrightarrow> map_of (filter P l) k = (case map_of l k of Some e \<Rightarrow> if P (k, e) then Some e else None | None \<Rightarrow> None)"
proof (induction l)
  case (Cons x l)
  then show ?case by (cases x) (auto split: option.splits dest: map_of_SomeD intro: rev_image_eqI)
qed simp

lemma sweep_window:
  assumes "key_window k n w now l hs" and "distinct (map fst l)" and "w \<le> 2 * w'" and "2 * w' < 2 ^ 63" and "0 < w'"
  shows "key_window k n w now (sweep_entries w' now l) hs"
proof -
  have wrap: "wrap64 (2 * w') = 2 * w'" using assms(4,5) by (simp add: wrap64_def)
  have over: "2 * w' < time_Sub now s \<Longrightarrow> s + w \<le> now" for s
    using assms(3-5) by (auto simp: time_Sub_def)
  have "map_of (sweep_entries w' now l) k = map_of l k \<or>
      map_of (sweep_entries w' now l) k = None \<and> (\<forall>e. map_of l k = Some e \<longrightarrow> re_start e + w \<le> now)"
    using over by (simp add: sweep_entries_def map_of_filter_other [OF assms(2)] wrap split: option.split)
  then show ?thesis using assms(1) unfolding key_window_def by (elim disjE exE conjE) auto
qed

lemma allow_entries: "distinct (map fst l) \<Longrightarrow> distinct (map fst (snd (rate_allow c l)))"
  by (auto simp: rate_allow_def Let_def sweep_entries_def distinct_update intro: distinct_map_filter)

text \<open>A request with another key, whose window is not too short for this one.\<close>

definition sweeps_late :: "int \<Rightarrow> rate_call \<Rightarrow> bool" where
  "sweeps_late w c \<longleftrightarrow> rc_window c \<le> 0 \<or> w \<le> 2 * rc_window c \<and> 2 * rc_window c < 2 ^ 63"

lemma allow_other:
  assumes "key_window k n w (rc_now c) l hs" and "distinct (map fst l)" and "rc_key c \<noteq> k" and "sweeps_late w c"
  shows "key_window k n w (rc_now c) (snd (rate_allow c l)) hs"
proof -
  have same: "key_window k n w (rc_now c) (AList.update (rc_key c) e l) hs" for e
    by (rule key_window_same [OF assms(1)]) (use assms(3) in \<open>simp add: update_conv\<close>)
  have "key_window k n w (rc_now c) (sweep_entries (rc_window c) (rc_now c) (AList.update (rc_key c) e l)) hs"
    if "0 < rc_window c" for e
    using that assms(4) by (intro sweep_window [OF same distinct_update [OF assms(2)]]) (auto simp: sweeps_late_def)
  with same assms(1) show ?thesis by (simp add: rate_allow_def Let_def)
qed

text \<open>A request with the key: in the open window, or in a new one.\<close>

lemma allow_key:
  assumes kw: "key_window k n w now l hs" and d: "distinct (map fst l)"
    and c: "rc_key c = k" "rc_limit c = n" "rc_window c = w" "now \<le> rc_now c" "zero_time < rc_now c"
    and w: "0 < n" "0 < w" "2 * w < 2 ^ 63"
  obtains (refused) "rate_allow c l = (False, l)" and "n \<le> int (length (times_in (rc_now c - w + 1) (rc_now c + 1) hs))"
  | (through) "fst (rate_allow c l)" and "key_window k n w (rc_now c) (snd (rate_allow c l)) (hs @ [rc_now c])"
proof -
  let ?now = "rc_now c"
  from kw obtain s where st: "window_state n w now s hs"
    and e: "map_of l k = Some \<lparr> re_start = s, re_count = int (length (times_from s hs)) \<rparr> \<and> zero_time < s \<or>
      map_of l k = None \<and> s + w \<le> now" unfolding key_window_def by blast
  have sub: "w \<le> time_Sub ?now s \<longleftrightarrow> s + w \<le> ?now" using w by (auto simp: time_Sub_def)
  show thesis
  proof (cases "s + w \<le> ?now")
    case True
    then have "rate_allow c l = (True, AList.update k \<lparr> re_start = ?now, re_count = 1 \<rparr> l)"
      using e c w sub by (auto simp: rate_allow_def rate_entry_of_def)
    moreover have "window_state n w ?now ?now (hs @ [?now])" by (rule open_window [OF st w(2,1) c(4) True])
    moreover have "times_from ?now hs = []" using st True c(4) by (auto simp: window_state_def filter_empty_conv)
    ultimately show thesis using c(5) by (intro through) (auto simp: key_window_def update_conv)
  next
    case False
    then have open_: "map_of l k = Some \<lparr> re_start = s, re_count = int (length (times_from s hs)) \<rparr>" "zero_time < s"
      using e c(4) by auto
    show thesis
    proof (cases "int (length (times_from s hs)) < n")
      case True
      let ?e = "\<lparr> re_start = s, re_count = int (length (times_from s hs)) + 1 \<rparr>"
      have "rate_allow c l = (True, sweep_entries w ?now (AList.update k ?e l))"
        using open_ True False c w sub by (simp add: rate_allow_def rate_entry_of_def)
      moreover have j: "window_state n w ?now s (hs @ [?now])"
        using join_window [OF st c(4)] False True by simp
      moreover have "key_window k n w ?now (AList.update k ?e l) (hs @ [?now])"
        unfolding key_window_def using j open_(2) st c(4)
        by (intro exI [of _ s]) (auto simp: update_conv window_state_def)
      then have "key_window k n w ?now (sweep_entries w ?now (AList.update k ?e l)) (hs @ [?now])"
        by (rule sweep_window [OF _ distinct_update [OF d]]) (use w in simp_all)
      ultimately show thesis by (intro through) simp_all
    next
      case full: False
      then have "rate_allow c l = (False, l)"
        using open_ False c w sub by (simp add: rate_allow_def rate_entry_of_def)
      moreover have "length (times_from s hs) \<le> length (times_in (?now - w + 1) (?now + 1) hs)"
        using st c(4) False by (intro filter_length_mono) (auto simp: window_state_def)
      with full have "n \<le> int (length (times_in (?now - w + 1) (?now + 1) hs))" by simp
      ultimately show thesis by (rule refused)
    qed
  qed
qed

section \<open>Runs\<close>

abbreviation times_of :: "string \<Rightarrow> rate_call list \<Rightarrow> int list" where
  "times_of k cs \<equiv> map rc_now (filter (\<lambda>c. rc_key c = k) cs)"

definition fits_key :: "string \<Rightarrow> int \<Rightarrow> int \<Rightarrow> rate_call \<Rightarrow> bool" where
  "fits_key k n w c \<longleftrightarrow>
     zero_time < rc_now c \<and> sweeps_late w c \<and> (rc_key c = k \<longrightarrow> rc_limit c = n \<and> rc_window c = w)"

lemma rate_run_window:
  assumes "key_window k n w now l hs" and "distinct (map fst l)" and "sorted (now # map rc_now cs)"
    and "list_all (fits_key k n w) cs" and "rate_run cs l = (through, l')" and "0 < n" and "0 < w" and "2 * w < 2 ^ 63"
  shows "key_window k n w (last (now # map rc_now cs)) l' (hs @ times_of k through) \<and> distinct (map fst l')"
  using assms(1-5)
proof (induction cs arbitrary: now l hs through)
  case (Cons c cs)
  let ?l = "snd (rate_allow c l)"
  obtain rest where rest: "rate_run cs ?l = (rest, l')" and
    through: "through = (if fst (rate_allow c l) then c # rest else rest)"
    using Cons.prems(5) by (auto split: prod.splits)
  have later: "now \<le> rc_now c" "sorted (rc_now c # map rc_now cs)" using Cons.prems(3) by simp_all
  have fits: "fits_key k n w c" "list_all (fits_key k n w) cs" using Cons.prems(4) by simp_all
  note d = allow_entries [OF Cons.prems(2), of c]
  have goes: "key_window k n w (last (rc_now c # map rc_now cs)) l' (hs' @ times_of k rest) \<and> distinct (map fst l')"
    if "key_window k n w (rc_now c) ?l hs'" for hs'
    using Cons.IH [OF that d later(2) fits(2) rest] .
  show ?case
  proof (cases "rc_key c = k")
    case True
    with fits(1) have c: "rc_limit c = n" "rc_window c = w" "zero_time < rc_now c" by (simp_all add: fits_key_def)
    show ?thesis
    proof (cases rule: allow_key [OF Cons.prems(1,2) True c(1,2) later(1) c(3) assms(6-8)])
      case 1
      with key_window_later [OF Cons.prems(1) later(1)] have "key_window k n w (rc_now c) ?l hs" by simp
      from goes [OF this] through 1 show ?thesis by simp
    next
      case 2
      with goes [OF 2(2)] through True show ?thesis by simp
    qed
  next
    case False
    have "key_window k n w (rc_now c) ?l hs"
      using allow_other [OF key_window_later [OF Cons.prems(1) later(1)] Cons.prems(2) False] fits(1)
      by (simp add: fits_key_def)
    from goes [OF this] through False show ?thesis by auto
  qed
qed simp

text \<open>
  C24. The limit holds and is fair: whatever requests come, in the order of the clock, in every span
  of time as long as the window at most twice the limit of requests of a key are let through; and
  when a request of the key is refused, the limit was let through in the window that ends with it.
  The windows of the other keys may differ, but by no more than half.
\<close>

theorem requests_limited:
  assumes "rate_run cs [] = (through, l)" and "sorted (map rc_now (cs @ [c]))"
    and "list_all (fits_key k n w) (cs @ [c])" and "0 < n" and "0 < w" and "2 * w < 2 ^ 63"
  shows "int (length (filter (\<lambda>h. t \<le> h \<and> h < t + w) (times_of k through))) \<le> 2 * n \<and>
    (rc_key c = k \<and> \<not> fst (rate_allow c l) \<longrightarrow>
       n \<le> int (length (filter (\<lambda>h. rc_now c - w < h \<and> h \<le> rc_now c) (times_of k through))))"
proof -
  have start: "key_window k n w zero_time [] []"
    unfolding key_window_def window_state_def using assms(4,5) by (intro exI [of _ "zero_time - w"]) simp
  have sorted: "sorted (zero_time # map rc_now cs)" and last: "last (zero_time # map rc_now cs) \<le> rc_now c"
    using assms(2,3) by (auto simp: sorted_append fits_key_def list_all_iff last_map intro: less_imp_le)
  have fits: "list_all (fits_key k n w) cs" "fits_key k n w c" using assms(3) by simp_all
  from rate_run_window [OF start _ sorted fits(1) assms(1,4-6)]
  have kw: "key_window k n w (last (zero_time # map rc_now cs)) l (times_of k through)"
    and d: "distinct (map fst l)" by simp_all
  have "n \<le> int (length (filter (\<lambda>h. rc_now c - w < h \<and> h \<le> rc_now c) (times_of k through)))"
    if r: "rc_key c = k" "\<not> fst (rate_allow c l)"
  proof -
    from fits(2) r have c: "rc_limit c = n" "rc_window c = w" "zero_time < rc_now c" by (simp_all add: fits_key_def)
    have "times_in (rc_now c - w + 1) (rc_now c + 1) hs = filter (\<lambda>h. rc_now c - w < h \<and> h \<le> rc_now c) hs" for hs
      by (intro filter_cong) auto
    then show ?thesis
      using r(2) by (cases rule: allow_key [OF kw d r(1) c(1,2) last c(3) assms(4-6)]) simp_all
  qed
  with kw show ?thesis unfolding key_window_def window_state_def by blast
qed

text \<open>
  A sweep forgets open windows that are longer than its own: the requests that ask for a pairing
  are limited for an hour, and a sweep of a log-in with its minute opens their window again.
\<close>

lemma short_sweep_forgets:
  assumes "map_of l k = Some e" and "distinct (map fst l)" and "4096 < length l" and "rc_key c \<noteq> k"
    and "map_of l (rc_key c) = Some e'" and "re_start e' \<noteq> zero_time" and "rc_now c - re_start e' < rc_window c"
    and "re_count e' < rc_limit c" and "0 < rc_limit c" and "0 < rc_window c" and "2 * rc_window c < rc_now c - re_start e"
    and "rc_now c - re_start e < 2 ^ 63"
  shows "map_of (snd (rate_allow c l)) k = None"
proof -
  have wrap: "wrap64 (2 * rc_window c) = 2 * rc_window c" using assms(10-12) by (simp add: wrap64_def)
  have sub: "\<not> rc_window c \<le> time_Sub (rc_now c) (re_start e')" "2 * rc_window c < time_Sub (rc_now c) (re_start e)"
    using assms(7,10-12) by (auto simp: time_Sub_def)
  let ?l = "AList.update (rc_key c) (e'\<lparr> re_count := re_count e' + 1 \<rparr>) l"
  have "length ?l = length l"
  proof -
    have "map fst ?l = map fst l"
      using assms(5) by (simp add: update_keys) (metis map_of_eq_None_iff option.distinct(1) image_set)
    then show ?thesis by (metis length_map)
  qed
  moreover have "map_of ?l k = Some e" using assms(1,4) by (simp add: update_conv)
  ultimately show ?thesis
    using assms(3,5,6,8-10) sub
    by (simp add: rate_allow_def rate_entry_of_def sweep_entries_def map_of_filter_other [OF distinct_update [OF assms(2)]] wrap)
qed

text \<open>Two log-ins in a minute, then a third one.\<close>

definition log_in :: "int \<Rightarrow> rate_call" where
  "log_in t = \<lparr> rc_key = ''login|10.0.0.7'', rc_limit = 2, rc_window = 60 * 10 ^ 9, rc_now = t * 10 ^ 9 \<rparr>"

lemma two_log_ins:
  "rate_run [log_in 0, log_in 10, log_in 20] [] =
     ([log_in 0, log_in 10], [(''login|10.0.0.7'', \<lparr> re_start = 0, re_count = 2 \<rparr>)])"
  by (simp add: log_in_def rate_allow_def rate_entry_of_def sweep_entries_def time_Sub_def zero_time_def)

theorem requests_limited_witness:
  "\<not> fst (rate_allow (log_in 30) [(''login|10.0.0.7'', \<lparr> re_start = 0, re_count = 2 \<rparr>)]) \<and>
   2 \<le> int (length (filter (\<lambda>h. - 30 * 10 ^ 9 < h \<and> h \<le> 30 * 10 ^ 9) (times_of ''login|10.0.0.7'' [log_in 0, log_in 10])))"
proof -
  have r: "\<not> fst (rate_allow (log_in 30) [(''login|10.0.0.7'', \<lparr> re_start = 0, re_count = 2 \<rparr>)])"
    by (simp add: log_in_def rate_allow_def rate_entry_of_def time_Sub_def zero_time_def)
  have "sorted (map rc_now ([log_in 0, log_in 10, log_in 20] @ [log_in 30]))" by (simp add: log_in_def)
  moreover have "list_all (fits_key ''login|10.0.0.7'' 2 (60 * 10 ^ 9)) ([log_in 0, log_in 10, log_in 20] @ [log_in 30])"
    by (simp add: log_in_def fits_key_def sweeps_late_def zero_time_def)
  ultimately show ?thesis
    using requests_limited [OF two_log_ins, of "log_in 30" "''login|10.0.0.7''" 2 "60 * 10 ^ 9" 0] r
    by (simp add: log_in_def)
qed

end
