(* ===== verification/Health.thy ===== *)
theory Health
  imports Tokens "HOL-Library.AList" "HOL-Library.List_Lexorder" "HOL-Library.Char_ord" "HOL-Library.Multiset"
begin

text \<open>
  How the parts of the system are: the registry of \<open>health/registry.go\<close> with the diagnosis over
  the graph of dependencies, and the probes of \<open>watchdog/watchdog.go\<close> that feed it.

  The map of the registry is an association list with one entry per name. An operation holds the
  lock throughout and is one step. Times are nanoseconds; the probe and the timer of a check are
  the results and times that a run of it meets.
\<close>

section \<open>The registry\<close>

datatype component_status =
  HealthUnknown | HealthStarting | HealthHealthy | HealthDegraded | HealthFailed | HealthOther string

record health_component =
  hc_name :: string
  hc_status :: component_status
  hc_since :: int
  hc_reason :: string
  hc_cause :: string

type_synonym health_registry = "(string \<times> health_component) list"

text \<open>What \<open>Set\<close> is called with, and the clock.\<close>

record health_report =
  hr_name :: string
  hr_status :: component_status
  hr_reason :: string
  hr_cause :: string
  hr_now :: int

definition set_health :: "health_report \<Rightarrow> health_registry \<Rightarrow> health_registry" where
  "set_health x r =
     (if hr_name x = [] then r
      else
        (let since =
           (case map_of r (hr_name x) of
              None \<Rightarrow> hr_now x
            | Some prev \<Rightarrow>
                if hc_status prev \<noteq> hr_status x \<or> hc_reason prev \<noteq> hr_reason x \<or> hc_cause prev \<noteq> hr_cause x
                then hr_now x else hc_since prev)
         in AList.update (hr_name x)
              \<lparr> hc_name = hr_name x, hc_status = hr_status x, hc_since = since, hc_reason = hr_reason x,
                hc_cause = hr_cause x \<rparr> r))"

definition health_snapshot :: "health_registry \<Rightarrow> health_component list" where
  "health_snapshot r = sort_key hc_name (map snd r)"

fun worst_status :: "component_status \<Rightarrow> health_component list \<Rightarrow> component_status" where
  "worst_status worst [] = worst"
| "worst_status worst (c # cs) =
     (case hc_status c of
        HealthFailed \<Rightarrow> HealthFailed
      | HealthDegraded \<Rightarrow> worst_status HealthDegraded cs
      | HealthStarting \<Rightarrow> worst_status (if worst = HealthHealthy then HealthStarting else worst) cs
      | HealthUnknown \<Rightarrow> worst_status (if worst = HealthHealthy then HealthUnknown else worst) cs
      | _ \<Rightarrow> worst_status worst cs)"

definition Overall :: "health_registry \<Rightarrow> component_status" where
  "Overall r =
     (if health_snapshot r = [] then HealthUnknown else worst_status HealthHealthy (health_snapshot r))"

record diagnosis =
  dg_component :: health_component
  dg_root_cause :: bool
  dg_suppressed_by :: string

definition ailing :: "health_component \<Rightarrow> bool" where
  "ailing c \<longleftrightarrow> hc_status c = HealthFailed \<or> hc_status c = HealthDegraded"

fun first_ailing :: "(string \<rightharpoonup> health_component) \<Rightarrow> string list \<Rightarrow> string" where
  "first_ailing by_name [] = []"
| "first_ailing by_name (d # ds) =
     (case by_name d of
        Some c \<Rightarrow> if ailing c then d else first_ailing by_name ds
      | None \<Rightarrow> first_ailing by_name ds)"

definition diagnose_one :: "(string \<rightharpoonup> health_component) \<Rightarrow> (string \<Rightarrow> string list) \<Rightarrow> health_component \<Rightarrow> diagnosis" where
  "diagnose_one by_name graph c =
     (if ailing c
      then let s = first_ailing by_name (graph (hc_name c))
       in \<lparr> dg_component = c, dg_root_cause = (s = []), dg_suppressed_by = s \<rparr>
      else \<lparr> dg_component = c, dg_root_cause = False, dg_suppressed_by = [] \<rparr>)"

definition Diagnose :: "health_registry \<Rightarrow> (string \<Rightarrow> string list) \<Rightarrow> diagnosis list" where
  "Diagnose r graph =
     (let items = health_snapshot r; by_name = map_of (map (\<lambda>c. (hc_name c, c)) items)
      in map (diagnose_one by_name graph) items)"

section \<open>What the registry holds\<close>

definition health_after :: "health_report list \<Rightarrow> health_registry" where
  "health_after xs = fold set_health xs []"

definition health_inv :: "health_registry \<Rightarrow> bool" where
  "health_inv r \<longleftrightarrow> distinct (map fst r) \<and> (\<forall>(n, c) \<in> set r. hc_name c = n \<and> n \<noteq> [])"

lemma health_inv_Nil [simp]: "health_inv []"
  by (simp add: health_inv_def)







section \<open>Causes\<close>



text \<open>Two failed components that depend on each other are both suppressed, and no cause is left.\<close>

definition circle :: "health_report list" where
  "circle = map (\<lambda>n. \<lparr> hr_name = n, hr_status = HealthFailed, hr_reason = [], hr_cause = [], hr_now = 1 \<rparr>) [''mqtt'', ''camera'']"

lemma circle_has_no_cause:
  "map dg_root_cause (Diagnose (health_after circle) (\<lambda>n. if n = ''mqtt'' then [''camera''] else [''mqtt''])) = [False, False]"
  by code_simp

text \<open>The overall status does not depend on the order of the names, but for what is not running yet.\<close>

lemma worst_failed: "w \<noteq> HealthFailed \<Longrightarrow> worst_status w cs = HealthFailed \<longleftrightarrow> HealthFailed \<in> hc_status ` set cs"
proof (induction cs arbitrary: w)
  case (Cons c cs)
  then show ?case by (cases "hc_status c") auto
qed simp

lemma worst_degraded:
  "w \<noteq> HealthFailed \<Longrightarrow> HealthFailed \<notin> hc_status ` set cs \<Longrightarrow>
     worst_status w cs = HealthDegraded \<longleftrightarrow> w = HealthDegraded \<or> HealthDegraded \<in> hc_status ` set cs"
proof (induction cs arbitrary: w)
  case (Cons c cs)
  then show ?case by (cases "hc_status c") auto
qed simp

section \<open>Since when\<close>

definition same_report :: "health_report \<Rightarrow> health_report \<Rightarrow> bool" where
  "same_report x y \<longleftrightarrow> hr_status x = hr_status y \<and> hr_reason x = hr_reason y \<and> hr_cause x = hr_cause y"

text \<open>What a report makes of the entry of its name.\<close>

definition entry_after :: "health_report \<Rightarrow> health_component option \<Rightarrow> health_component option" where
  "entry_after x old = map_of (set_health x (case old of None \<Rightarrow> [] | Some c \<Rightarrow> [(hr_name x, c)])) (hr_name x)"

lemma set_health_entry:
  "hr_name x \<noteq> [] \<Longrightarrow> map_of (set_health x r) n = (if n = hr_name x then entry_after x (map_of r n) else map_of r n)"
  by (auto simp: entry_after_def set_health_def Let_def update_conv split: option.split)

lemma health_after_entry:
  assumes "n \<noteq> []"
  shows "map_of (health_after xs) n = fold entry_after (filter (\<lambda>x. hr_name x = n) xs) None"
proof (induction xs rule: rev_induct)
  case (snoc x xs)
  have "map_of (set_health x r) n = (if hr_name x = n then entry_after x (map_of r n) else map_of r n)" for r
    using assms set_health_entry [of x r n] by (cases "hr_name x = []") (auto simp: set_health_def)
  with snoc show ?case by (simp add: health_after_def)
qed (simp add: health_after_def)

definition entry_of_report :: "health_report \<Rightarrow> int \<Rightarrow> health_component" where
  "entry_of_report x t =
     \<lparr> hc_name = hr_name x, hc_status = hr_status x, hc_since = t, hc_reason = hr_reason x, hc_cause = hr_cause x \<rparr>"

lemma entry_after_simps:
  "hr_name x \<noteq> [] \<Longrightarrow> entry_after x None = Some (entry_of_report x (hr_now x))"
  "hr_name x \<noteq> [] \<Longrightarrow> entry_after x (Some (entry_of_report y t)) =
     Some (entry_of_report x (if same_report y x then t else hr_now x))"
  by (simp_all add: entry_after_def set_health_def entry_of_report_def same_report_def)

lemma fold_entry_after:
  "xs \<noteq> [] \<Longrightarrow> list_all (\<lambda>x. hr_name x \<noteq> []) xs \<Longrightarrow> \<exists>t. fold entry_after xs None = Some (entry_of_report (last xs) t)"
proof (induction xs rule: rev_induct)
  case (snoc x xs)
  then show ?case by (cases "xs = []") (auto simp: entry_after_simps)
qed simp

text \<open>
  The registry says since when: a component has the status, the reason and the cause of the
  last report of its name, and it has them since the first report of the unbroken run of equal
  reports that ends there, whatever was reported of others in between.
\<close>

theorem status_since_change:
  assumes "n \<noteq> []" and "filter (\<lambda>x. hr_name x = n) xs = before @ x # run"
    and "list_all (same_report x) run" and "before = [] \<or> \<not> same_report (last before) x"
  shows "map_of (health_after xs) n =
    Some \<lparr> hc_name = n, hc_status = hr_status x, hc_since = hr_now x, hc_reason = hr_reason x, hc_cause = hr_cause x \<rparr>"
proof -
  have "\<forall>y \<in> set (before @ x # run). hr_name y = n" unfolding assms(2) [symmetric] by simp
  then have names: "list_all (\<lambda>y. hr_name y \<noteq> []) before" "hr_name x = n" "\<forall>y \<in> set run. hr_name y = n"
    using assms(1) by (auto simp: list_all_iff)
  have first: "fold entry_after (before @ [x]) None = Some (entry_of_report x (hr_now x))"
  proof (cases "before = []")
    case False
    with fold_entry_after [OF _ names(1)] assms(4) show ?thesis using assms(1) names(2) by (auto simp: entry_after_simps)
  qed (use assms(1) names(2) in \<open>simp add: entry_after_simps\<close>)
  have "fold entry_after run (Some (entry_of_report x t)) = Some (entry_of_report x t)"
    if "list_all (same_report x) run" "\<forall>y \<in> set run. hr_name y = n" for t run
    using that
  proof (induction run)
    case (Cons y run)
    have "entry_of_report y t = entry_of_report x t"
      using Cons.prems names(2) by (simp add: entry_of_report_def same_report_def)
    with Cons assms(1) show ?case by (simp add: entry_after_simps)
  qed simp
  from this [OF assms(3) names(3)] first show ?thesis
    by (simp add: health_after_entry [OF assms(1)] assms(2)) (simp add: entry_of_report_def names(2))
qed

section \<open>The watchdog\<close>

record watch_check =
  wc_name :: string
  wc_probe :: bool
  wc_base :: int
  wc_max :: int
  wc_timeout :: int
  wc_reason :: string

text \<open>What \<open>Start\<close> makes of a check before its loop begins.\<close>

definition start_check :: "watch_check \<Rightarrow> string + watch_check" where
  "start_check c =
     (if wc_name c = [] \<or> \<not> wc_probe c then Inl ''watchdog check name/probe required''
      else
        (let c = (if wc_base c \<le> 0 then c\<lparr> wc_base := 30 * 10 ^ 9 \<rparr> else c);
             c = (if wc_max c < wc_base c then c\<lparr> wc_max := 5 * 60 * 10 ^ 9 \<rparr> else c)
         in Inr (if wc_timeout c \<le> 0 then c\<lparr> wc_timeout := 5 * 10 ^ 9 \<rparr> else c)))"

record watch_state =
  ws_delay :: int
  ws_failures :: int

text \<open>One turn of the loop: the outcome of the probe and the time of the report.\<close>

fun watch_probe ::
  "watch_check \<Rightarrow> bool \<times> int \<Rightarrow> watch_state \<times> health_registry \<Rightarrow> watch_state \<times> health_registry" where
  "watch_probe c (True, now) (w, r) =
     (\<lparr> ws_delay = wc_base c, ws_failures = 0 \<rparr>,
      set_health \<lparr> hr_name = wc_name c, hr_status = HealthHealthy, hr_reason = [], hr_cause = [], hr_now = now \<rparr> r)"
| "watch_probe c (False, now) (w, r) =
     (let failures = ws_failures w + 1;
          status = (if 3 \<le> failures then HealthFailed else HealthDegraded);
          reason = (if wc_reason c = [] then ''PROBE_FAILED'' else wc_reason c);
          delay = (if ws_delay w \<le> 0 then wc_base c else wrap64 (ws_delay w * 2))
      in (\<lparr> ws_delay = (if wc_max c < delay then wc_max c else delay), ws_failures = failures \<rparr>,
          set_health \<lparr> hr_name = wc_name c, hr_status = status, hr_reason = reason,
            hr_cause = ''health probe failed'', hr_now = now \<rparr> r))"

definition watch_run :: "watch_check \<Rightarrow> (bool \<times> int) list \<Rightarrow> health_registry \<Rightarrow> watch_state \<times> health_registry" where
  "watch_run c ps r = fold (watch_probe c) ps (\<lparr> ws_delay = 0, ws_failures = 0 \<rparr>, r)"

lemma start_check_Inr: "start_check c0 = Inr c \<Longrightarrow> wc_name c \<noteq> [] \<and> 0 < wc_base c"
  by (auto simp: start_check_def Let_def split: if_splits)

lemma doubled_delay:
  assumes "0 < b" and "b \<le> m" and "m < 2 ^ 62" and "d = min m (b * 2 ^ k)"
  shows "wrap64 (d * 2) = d * 2" and "0 < d" and "min m (d * 2) = min m (b * 2 ^ Suc k)"
proof -
  show "0 < d" using assms by (simp add: min_def)
  moreover have "d \<le> m" using assms(4) by simp
  ultimately show "wrap64 (d * 2) = d * 2" using assms(3) by (simp add: wrap64_def)
  show "min m (d * 2) = min m (b * 2 ^ Suc k)" using assms(1,2,4) by (auto simp: min_def)
qed

lemma reported_status:
  "hr_name x \<noteq> [] \<Longrightarrow> \<exists>h. map_of (set_health x r) (hr_name x) = Some h \<and> hc_status h = hr_status x"
  by (simp add: set_health_def Let_def update_conv)

lemma healthy_probe:
  assumes "watch_probe c (True, now) (w0, r0) = (w, r')" and "wc_name c \<noteq> []"
  shows "ws_failures w = 0" and "ws_delay w = wc_base c"
    and "\<exists>h. map_of r' (wc_name c) = Some h \<and> hc_status h = HealthHealthy"
  using assms reported_status [of "\<lparr> hr_name = wc_name c, hr_status = HealthHealthy, hr_reason = [], hr_cause = [], hr_now = now \<rparr>" r0]
  by auto

lemma failed_probe:
  assumes "watch_probe c (False, now) (w0, r0) = (w, r')" and "wc_name c \<noteq> []"
  shows "ws_failures w = ws_failures w0 + 1"
    and "ws_delay w = min (wc_max c) (if ws_delay w0 \<le> 0 then wc_base c else wrap64 (ws_delay w0 * 2))"
    and "\<exists>h. map_of r' (wc_name c) = Some h \<and>
      hc_status h = (if 3 \<le> ws_failures w0 + 1 then HealthFailed else HealthDegraded)"
proof -
  let ?x = "\<lparr> hr_name = wc_name c, hr_status = (if 3 \<le> ws_failures w0 + 1 then HealthFailed else HealthDegraded),
    hr_reason = (if wc_reason c = [] then ''PROBE_FAILED'' else wc_reason c),
    hr_cause = ''health probe failed'', hr_now = now \<rparr>"
  let ?d = "if ws_delay w0 \<le> 0 then wc_base c else wrap64 (ws_delay w0 * 2)"
  have w: "w = \<lparr> ws_delay = (if wc_max c < ?d then wc_max c else ?d), ws_failures = ws_failures w0 + 1 \<rparr>"
    and r: "r' = set_health ?x r0" using assms(1) by (simp_all only: watch_probe.simps Let_def prod.inject)
  show "ws_failures w = ws_failures w0 + 1" by (simp only: w watch_state.simps)
  show "ws_delay w = min (wc_max c) ?d" by (simp only: w watch_state.simps min_def not_less) (simp add: not_less linorder_not_le)
  show "\<exists>h. map_of r' (wc_name c) = Some h \<and>
      hc_status h = (if 3 \<le> ws_failures w0 + 1 then HealthFailed else HealthDegraded)"
    using reported_status [of ?x r0, unfolded health_report.simps, OF assms(2)] unfolding r .
qed

text \<open>The pause after \<open>k\<close> failures; the first ones of all come without a pause before.\<close>

definition pause :: "watch_check \<Rightarrow> bool \<Rightarrow> nat \<Rightarrow> int" where
  "pause c first k =
     (if k = 0 then if first then 0 else wc_base c
      else min (wc_max c) (wc_base c * 2 ^ (if first then k - 1 else k)))"

lemma pause_Suc:
  assumes "0 < wc_base c" and "wc_base c \<le> wc_max c" and "wc_max c < 2 ^ 62"
  shows "min (wc_max c) (if pause c first k \<le> 0 then wc_base c else wrap64 (pause c first k * 2)) = pause c first (Suc k)"
proof (cases "k = 0 \<and> first")
  case True
  then show ?thesis by (simp add: pause_def)
next
  case False
  then obtain j where j: "pause c first k = min (wc_max c) (wc_base c * 2 ^ j)" "Suc j = (if first then k else Suc k)"
    using assms by (cases "k = 0"; cases first) (auto simp: pause_def intro: that [of "k - 1"])
  then have "pause c first (Suc k) = min (wc_max c) (wc_base c * 2 ^ Suc j)" by (simp add: pause_def)
  with doubled_delay [OF assms j(1)] show ?thesis by simp
qed

text \<open>
  The watchdog backs off and tells what it sees: after any number of probes that ended with a
  row of failures, the pause is the base doubled with each failure, no longer than the longest
  pause, and the base after a success; the component is degraded after one or two failures,
  failed from the third on, and healthy after a success.
\<close>

theorem watchdog_backs_off:
  assumes "start_check c0 = Inr c" and "wc_base c \<le> wc_max c" and "wc_max c < 2 ^ 62"
    and "earlier = [] \<or> fst (last earlier)" and "list_all (\<lambda>p. \<not> fst p) failures"
    and "earlier @ failures \<noteq> []" and "watch_run c (earlier @ failures) r = (w, r')"
  shows "ws_delay w =
      (if failures = [] then wc_base c
       else min (wc_max c) (wc_base c * 2 ^ (if earlier = [] then length failures - 1 else length failures))) \<and>
    (\<exists>h. map_of r' (wc_name c) = Some h \<and> hc_status h =
       (if failures = [] then HealthHealthy else if length failures < 3 then HealthDegraded else HealthFailed))"
proof -
  have c: "wc_name c \<noteq> []" "0 < wc_base c" using start_check_Inr [OF assms(1)] by simp_all
  have "ws_failures w = int (length failures) \<and> ws_delay w = pause c (earlier = []) (length failures) \<and>
    (earlier @ failures \<noteq> [] \<longrightarrow> (\<exists>h. map_of r' (wc_name c) = Some h \<and> hc_status h =
       (if failures = [] then HealthHealthy else if length failures < 3 then HealthDegraded else HealthFailed)))"
    using assms(5,7)
  proof (induction failures arbitrary: w r' rule: rev_induct)
    case Nil
    show ?case
    proof (cases earlier rule: rev_cases)
      case (snoc ps p)
      then obtain now where p: "p = (True, now)" using assms(4) by (cases p) simp
      obtain w0 r0 where "watch_run c ps r = (w0, r0)" by fastforce
      with Nil snoc p have "watch_probe c (True, now) (w0, r0) = (w, r')" by (simp add: watch_run_def del: watch_probe.simps)
      from healthy_probe [OF this c(1)] snoc show ?thesis by (simp add: pause_def)
    qed (use Nil in \<open>auto simp: watch_run_def pause_def\<close>)
  next
    case (snoc p ps)
    then obtain now where p: "p = (False, now)" by (cases p) simp
    obtain w0 r0 where w0: "watch_run c (earlier @ ps) r = (w0, r0)" by fastforce
    with snoc.prems p have "watch_probe c (False, now) (w0, r0) = (w, r')"
      by (simp add: watch_run_def del: watch_probe.simps)
    note w = failed_probe [OF this c(1)]
    from snoc.IH [OF _ w0] snoc.prems(1) have f: "ws_failures w0 = int (length ps)"
      and d: "ws_delay w0 = pause c (earlier = []) (length ps)" by simp_all
    have "ws_delay w = pause c (earlier = []) (Suc (length ps))"
      unfolding w(2) d by (rule pause_Suc [OF c(2) assms(2,3)])
    then show ?case using w(1,3) f by (auto simp: not_le)
  qed
  with assms(6) show ?thesis by (auto simp: pause_def)
qed

text \<open>A broker that fails and takes the camera with it, and three probes of it.\<close>

definition outage :: "health_report list" where
  "outage =
     [\<lparr> hr_name = ''mqtt'', hr_status = HealthHealthy, hr_reason = [], hr_cause = [], hr_now = 1 \<rparr>,
      \<lparr> hr_name = ''mqtt'', hr_status = HealthFailed, hr_reason = ''DOWN'', hr_cause = [], hr_now = 5 \<rparr>,
      \<lparr> hr_name = ''camera'', hr_status = HealthDegraded, hr_reason = [], hr_cause = [], hr_now = 6 \<rparr>,
      \<lparr> hr_name = ''mqtt'', hr_status = HealthFailed, hr_reason = ''DOWN'', hr_cause = [], hr_now = 8 \<rparr>]"



theorem status_since_change_witness:
  "\<exists>c. map_of (health_after outage) ''mqtt'' = Some c \<and> hc_since c = 5"
  using status_since_change [of "''mqtt''" outage "[outage ! 0]" "outage ! 1" "[outage ! 3]"]
  by (simp add: outage_def same_report_def)

theorem watchdog_backs_off_witness:
  "ws_delay (fst (watch_run \<lparr> wc_name = ''mqtt'', wc_probe = True, wc_base = 10, wc_max = 60, wc_timeout = 5, wc_reason = [] \<rparr>
     [(True, 1), (False, 2), (False, 3)] [])) = 40"
proof -
  let ?c = "\<lparr> wc_name = ''mqtt'', wc_probe = True, wc_base = 10, wc_max = 60, wc_timeout = 5, wc_reason = [] \<rparr>"
  have "start_check ?c = Inr ?c" by (simp add: start_check_def)
  moreover obtain w r where w: "watch_run ?c ([(True, 1)] @ [(False, 2), (False, 3)]) [] = (w, r)" by fastforce
  ultimately have "ws_delay w = 40"
    using watchdog_backs_off [of ?c ?c "[(True, 1)]" "[(False, 2), (False, 3)]" "[]"] by (simp add: min_def)
  with w show ?thesis by simp
qed

end
