(* ===== verification/Devices.thy ===== *)
theory Devices
  imports Prelude
begin

text \<open>
  Acting on devices: the requests of \<open>domain/action\<close> and \<open>domain/recovery\<close>, the interfaces of
  \<open>gateway/contracts.go\<close>, the activities of the plans for doors, sirens and cameras
  (\<open>orchestration/action/door/handlers.go\<close>, \<open>orchestration/action/siren/handlers.go\<close>,
  \<open>orchestration/recovery/camera/handlers.go\<close>), and the controllers of \<open>gateway/fake\<close>.

  A controller is a record of functions that pass the state of the world on, since a device may
  change while it is read. The facts that an activity reads, decoded or not, are its arguments.
\<close>

section \<open>Requests and effects\<close>

datatype lock_state = LockLocked | LockUnlocked | LockUnknown | LockOther string

record door_request =
  dr_request :: string
  dr_door :: string
  dr_desired :: lock_state
  dr_by :: string
  dr_reason :: string

record siren_request =
  sq_request :: string
  sq_siren :: string
  sq_by :: string
  sq_reason :: string

record camera_request =
  cr_request :: string
  cr_camera :: string
  cr_reason :: string

definition door_Validate :: "door_request \<Rightarrow> string option" where
  "door_Validate r =
     checks
       [fails_if (TrimSpace (dr_request r) = []) ''action: requestId is required'',
        fails_if (TrimSpace (dr_door r) = []) ''action: doorId is required'',
        fails_if (dr_desired r \<noteq> LockLocked \<and> dr_desired r \<noteq> LockUnlocked)
          ''action: desired lock state must be locked or unlocked'']"

definition siren_Validate :: "siren_request \<Rightarrow> string option" where
  "siren_Validate r =
     checks
       [fails_if (TrimSpace (sq_request r) = []) ''action: requestId is required'',
        fails_if (TrimSpace (sq_siren r) = []) ''action: sirenId is required'']"

definition camera_Validate :: "camera_request \<Rightarrow> string option" where
  "camera_Validate r =
     checks
       [fails_if (TrimSpace (cr_request r) = []) ''recovery: requestId is required'',
        fails_if (TrimSpace (cr_camera r) = []) ''recovery: cameraId is required'']"

record operation =
  op_execution :: string
  op_key :: string

definition operation_Validate :: "operation \<Rightarrow> string option" where
  "operation_Validate p =
     checks
       [fails_if (TrimSpace (op_execution p) = []) ''gateway: execution id is required'',
        fails_if (TrimSpace (op_key p) = []) ''gateway: idempotency key is required'']"

datatype effect_state = EffectApplied | EffectAlreadyApplied | EffectAmbiguous

record effect_result =
  er_state :: effect_state
  er_provider :: string

text \<open>What activities and decisions answer. A failure has a kind that says whether to retry.\<close>

datatype failure_kind = FailureInvalidInput | FailurePermanent | FailureTransient | FailureAmbiguousSideEffect

datatype activity_fact = FactBool bool | FactLock lock_state | FactEffect effect_state | FactText string

type_synonym activity_result = "(failure_kind \<times> string) + (string \<times> activity_fact) list"

datatype plan_outcome = OutcomePass | OutcomeHuman | OutcomeRepair | OutcomeFail

section \<open>The interfaces\<close>

record 's door_controller =
  dc_LockState :: "string \<Rightarrow> 's \<Rightarrow> (string + lock_state) \<times> 's"
  dc_SetLockState :: "operation \<Rightarrow> string \<Rightarrow> lock_state \<Rightarrow> 's \<Rightarrow> (string + effect_result) \<times> 's"

record 's siren_controller =
  sc_Enabled :: "string \<Rightarrow> 's \<Rightarrow> (string + bool) \<times> 's"
  sc_SetEnabled :: "operation \<Rightarrow> string \<Rightarrow> bool \<Rightarrow> 's \<Rightarrow> (string + effect_result) \<times> 's"

record 's camera_controller =
  cc_ProbeNetwork :: "string \<Rightarrow> 's \<Rightarrow> (string + bool) \<times> 's"
  cc_ProbeStream :: "string \<Rightarrow> 's \<Rightarrow> (string + bool) \<times> 's"
  cc_Reconnect :: "operation \<Rightarrow> string \<Rightarrow> 's \<Rightarrow> (string + effect_result) \<times> 's"

section \<open>Doors\<close>

fun validateDoorRequest :: "string + door_request \<Rightarrow> activity_result" where
  "validateDoorRequest (Inl e) = Inl (FailureInvalidInput, e)"
| "validateDoorRequest (Inr r) =
     (case door_Validate r of
        Some e \<Rightarrow> Inl (FailureInvalidInput, e)
      | None \<Rightarrow> Inr [(''request_valid'', FactBool True)])"

fun routeDoorRequest :: "string + door_request \<Rightarrow> plan_outcome \<times> string option" where
  "routeDoorRequest (Inl e) = (OutcomeFail, Some e)"
| "routeDoorRequest (Inr r) =
     (case dr_desired r of
        LockLocked \<Rightarrow> (OutcomePass, None)
      | LockUnlocked \<Rightarrow> (OutcomeHuman, None)
      | _ \<Rightarrow> (OutcomeFail, Some ''door action: unsupported desired state''))"

definition applyDesiredState ::
  "'s door_controller option \<Rightarrow> string + door_request \<Rightarrow> operation \<Rightarrow> 's \<Rightarrow> activity_result \<times> 's" where
  "applyDesiredState controller data p s =
     (case controller of
        None \<Rightarrow> (Inl (FailurePermanent, ''door action: controller is not configured''), s)
      | Some c \<Rightarrow>
          (case data of
             Inl e \<Rightarrow> (Inl (FailureInvalidInput, e), s)
           | Inr r \<Rightarrow>
               (case dc_LockState c (dr_door r) s of
                  (Inl e, s) \<Rightarrow> (Inl (FailureTransient, e), s)
                | (Inr before, s) \<Rightarrow>
                    if before = dr_desired r
                    then (Inr [(''door_effect'', FactEffect EffectAlreadyApplied), (''door_state'', FactLock (dr_desired r))], s)
                    else
                      (case dc_SetLockState c p (dr_door r) (dr_desired r) s of
                         (Inl e, s) \<Rightarrow> (Inl (FailureAmbiguousSideEffect, e), s)
                       | (Inr result, s) \<Rightarrow>
                           (case dc_LockState c (dr_door r) s of
                              (Inr after, s) \<Rightarrow>
                                if after = dr_desired r
                                then (Inr [(''door_effect'', FactEffect (er_state result)), (''door_state'', FactLock after),
                                           (''door_provider_id'', FactText (er_provider result))], s)
                                else (Inl (FailureAmbiguousSideEffect, ''door state could not be verified after write''), s)
                            | (Inl e, s) \<Rightarrow>
                                (Inl (FailureAmbiguousSideEffect, ''door state could not be verified after write''), s))))))"

section \<open>Sirens\<close>

fun validateSirenRequest :: "string + siren_request \<Rightarrow> activity_result" where
  "validateSirenRequest (Inl e) = Inl (FailureInvalidInput, e)"
| "validateSirenRequest (Inr r) =
     (case siren_Validate r of
        Some e \<Rightarrow> Inl (FailureInvalidInput, e)
      | None \<Rightarrow> Inr [(''request_valid'', FactBool True)])"

definition setEnabled ::
  "'s siren_controller option \<Rightarrow> bool \<Rightarrow> string + siren_request \<Rightarrow> operation \<Rightarrow> 's \<Rightarrow> activity_result \<times> 's" where
  "setEnabled controller desired data p s =
     (case controller of
        None \<Rightarrow> (Inl (FailurePermanent, ''siren: controller is not configured''), s)
      | Some c \<Rightarrow>
          (case data of
             Inl e \<Rightarrow> (Inl (FailureInvalidInput, e), s)
           | Inr r \<Rightarrow>
               (case sc_Enabled c (sq_siren r) s of
                  (Inl e, s) \<Rightarrow> (Inl (FailureTransient, e), s)
                | (Inr before, s) \<Rightarrow>
                    if before = desired then (Inr [(''siren_enabled'', FactBool desired)], s)
                    else
                      (case sc_SetEnabled c p (sq_siren r) desired s of
                         (Inl e, s) \<Rightarrow> (Inl (FailureAmbiguousSideEffect, e), s)
                       | (Inr result, s) \<Rightarrow>
                           (case sc_Enabled c (sq_siren r) s of
                              (Inl e, s) \<Rightarrow> (Inl (FailureAmbiguousSideEffect, ''siren state verification failed''), s)
                            | (Inr after, s) \<Rightarrow>
                                if after \<noteq> desired
                                then (Inl (FailureAmbiguousSideEffect, ''siren state verification failed''), s)
                                else (Inr [(''siren_enabled'', FactBool desired),
                                           (''siren_provider_id'', FactText (er_provider result))], s))))))"

text \<open>The compensation answers an error or none.\<close>

definition ensureDisabled ::
  "'s siren_controller option \<Rightarrow> string + siren_request \<Rightarrow> operation \<Rightarrow> 's \<Rightarrow> string option \<times> 's" where
  "ensureDisabled controller data p s =
     (case controller of
        None \<Rightarrow> (Some ''siren compensation: controller is not configured'', s)
      | Some c \<Rightarrow>
          (case data of
             Inl e \<Rightarrow> (Some e, s)
           | Inr r \<Rightarrow>
               (case sc_Enabled c (sq_siren r) s of
                  (Inl e, s) \<Rightarrow> (Some e, s)
                | (Inr enabled, s) \<Rightarrow>
                    if \<not> enabled then (None, s)
                    else
                      (case sc_SetEnabled c p (sq_siren r) False s of
                         (Inl e, s) \<Rightarrow> (Some e, s)
                       | (Inr _, s) \<Rightarrow>
                           (case sc_Enabled c (sq_siren r) s of
                              (Inl e, s) \<Rightarrow> (Some e, s)
                            | (Inr enabled, s) \<Rightarrow>
                                if enabled then (Some ''siren compensation: siren is still enabled'', s)
                                else (None, s))))))"

section \<open>Cameras\<close>

fun validateCameraRequest :: "string + camera_request \<Rightarrow> activity_result" where
  "validateCameraRequest (Inl e) = Inl (FailureInvalidInput, e)"
| "validateCameraRequest (Inr r) =
     (case camera_Validate r of
        Some e \<Rightarrow> Inl (FailureInvalidInput, e)
      | None \<Rightarrow> Inr [(''request_valid'', FactBool True)])"

definition probeNetwork ::
  "'s camera_controller option \<Rightarrow> string + camera_request \<Rightarrow> 's \<Rightarrow> activity_result \<times> 's" where
  "probeNetwork controller data s =
     (case controller of
        None \<Rightarrow> (Inl (FailurePermanent, ''camera recovery: controller is not configured''), s)
      | Some c \<Rightarrow>
          (case data of
             Inl e \<Rightarrow> (Inl (FailureInvalidInput, e), s)
           | Inr r \<Rightarrow>
               (case cc_ProbeNetwork c (cr_camera r) s of
                  (Inl e, s) \<Rightarrow> (Inl (FailureTransient, e), s)
                | (Inr up, s) \<Rightarrow> (Inr [(''network_ok'', FactBool up)], s))))"

definition probe_output :: "string \<Rightarrow> string option" where
  "probe_output node =
     (if node = ''probe-stream'' then Some ''stream_ok''
      else if node = ''verify-stream'' then Some ''verify_ok''
      else if node = ''verify-after-operator'' then Some ''verify_final_ok''
      else None)"

definition probeStream ::
  "'s camera_controller option \<Rightarrow> string + camera_request \<Rightarrow> string \<Rightarrow> 's \<Rightarrow> activity_result \<times> 's" where
  "probeStream controller data node s =
     (case controller of
        None \<Rightarrow> (Inl (FailurePermanent, ''camera recovery: controller is not configured''), s)
      | Some c \<Rightarrow>
          (case data of
             Inl e \<Rightarrow> (Inl (FailureInvalidInput, e), s)
           | Inr r \<Rightarrow>
               (case cc_ProbeStream c (cr_camera r) s of
                  (Inl e, s) \<Rightarrow> (Inl (FailureTransient, e), s)
                | (Inr up, s) \<Rightarrow>
                    (case probe_output node of
                       None \<Rightarrow> (Inl (FailurePermanent, ''camera recovery: probe activity used by unexpected node''), s)
                     | Some output \<Rightarrow> (Inr [(output, FactBool up)], s)))))"

definition reconnectCamera ::
  "'s camera_controller option \<Rightarrow> string + camera_request \<Rightarrow> operation \<Rightarrow> 's \<Rightarrow> activity_result \<times> 's" where
  "reconnectCamera controller data p s =
     (case controller of
        None \<Rightarrow> (Inl (FailurePermanent, ''camera recovery: controller is not configured''), s)
      | Some c \<Rightarrow>
          (case data of
             Inl e \<Rightarrow> (Inl (FailureInvalidInput, e), s)
           | Inr r \<Rightarrow>
               (case cc_Reconnect c p (cr_camera r) s of
                  (Inl e, s) \<Rightarrow> (Inl (FailureAmbiguousSideEffect, e), s)
                | (Inr result, s) \<Rightarrow>
                    let success = Inr [(''reconnect_provider_id'', FactText (er_provider result))]
                    in if er_state result = EffectAmbiguous
                       then (case cc_ProbeStream c (cr_camera r) s of
                               (Inr True, s) \<Rightarrow> (success, s)
                             | (_, s) \<Rightarrow> (Inl (FailureAmbiguousSideEffect, ''camera reconnect cannot be verified''), s))
                       else (success, s))))"

text \<open>A fact that a decision reads is missing, not a truth value, or one.\<close>

type_synonym fact_reader = "string \<Rightarrow> (string + bool) option"

definition decideBool :: "string \<Rightarrow> plan_outcome \<Rightarrow> plan_outcome \<Rightarrow> fact_reader \<Rightarrow> plan_outcome \<times> string option" where
  "decideBool key yes no facts =
     (case facts key of
        None \<Rightarrow> (OutcomeFail, Some ''camera recovery: required fact missing'')
      | Some (Inl e) \<Rightarrow> (OutcomeFail, Some e)
      | Some (Inr b) \<Rightarrow> (if b then yes else no, None))"

fun decide_first :: "(string \<times> plan_outcome) list \<Rightarrow> fact_reader \<Rightarrow> plan_outcome \<times> string option" where
  "decide_first [] facts = (OutcomeFail, Some ''camera recovery: no stream probe result'')"
| "decide_first ((key, no) # items) facts =
     (case facts key of
        None \<Rightarrow> decide_first items facts
      | Some (Inl e) \<Rightarrow> (OutcomeFail, Some e)
      | Some (Inr b) \<Rightarrow> (if b then OutcomePass else no, None))"

definition decideStream :: "fact_reader \<Rightarrow> plan_outcome \<times> string option" where
  "decideStream =
     decide_first [(''verify_final_ok'', OutcomeHuman), (''verify_ok'', OutcomeHuman), (''stream_ok'', OutcomeRepair)]"

section \<open>Failing closed\<close>

text \<open>
  C5. A door activity tells the truth and never invites a blind repetition, whatever the controller
  does: it completes only if the last thing it did was to read the desired state from the door;
  it fails as transient only if it has not written; and when it has written and cannot confirm the
  state, it fails as ambiguous.
\<close>

theorem door_fails_closed:
  assumes "applyDesiredState (Some c) (Inr r) p s = (res, s')"
  shows "(case res of
      Inr facts \<Rightarrow> (\<exists>s1. dc_LockState c (dr_door r) s1 = (Inr (dr_desired r), s')) \<and>
        (''door_state'', FactLock (dr_desired r)) \<in> set facts
    | Inl (k, e) \<Rightarrow>
        k = FailureTransient \<and> dc_LockState c (dr_door r) s = (Inl e, s') \<or>
        k = FailureAmbiguousSideEffect \<and>
          (\<exists>before s1 s2 w. dc_LockState c (dr_door r) s = (Inr before, s1) \<and> before \<noteq> dr_desired r \<and>
             dc_SetLockState c p (dr_door r) (dr_desired r) s1 = (w, s2) \<and>
             (isl w \<and> s' = s2 \<or>
              \<not> isl w \<and> (\<exists>x. dc_LockState c (dr_door r) s2 = (x, s') \<and> x \<noteq> Inr (dr_desired r)))))"
  using assms
  by (auto simp: applyDesiredState_def split: prod.splits sum.splits if_splits)

section \<open>The controllers of the gateway\<close>

datatype door_ambiguity = DoorNoAmbiguity | DoorAmbiguousApplied | DoorAmbiguousNotApplied

record fake_doors =
  fd_states :: "string \<rightharpoonup> lock_state"
  fd_seen :: "string \<rightharpoonup> effect_result"
  fd_ambiguity :: door_ambiguity
  fd_calls :: int
  fd_applied :: int

definition NewDoorController :: "(string \<rightharpoonup> lock_state) \<Rightarrow> fake_doors" where
  "NewDoorController initial =
     \<lparr> fd_states = initial, fd_seen = Map.empty, fd_ambiguity = DoorNoAmbiguity, fd_calls = 0, fd_applied = 0 \<rparr>"

definition SetNextAmbiguity :: "door_ambiguity \<Rightarrow> fake_doors \<Rightarrow> fake_doors" where
  "SetNextAmbiguity mode d = d\<lparr> fd_ambiguity := mode \<rparr>"

definition SetObservedState :: "string \<Rightarrow> lock_state \<Rightarrow> fake_doors \<Rightarrow> fake_doors" where
  "SetObservedState door v d = d\<lparr> fd_states := (fd_states d)(door \<mapsto> v) \<rparr>"

definition fake_LockState :: "string \<Rightarrow> fake_doors \<Rightarrow> (string + lock_state) \<times> fake_doors" where
  "fake_LockState door d =
     (case fd_states d door of None \<Rightarrow> (Inl ''fake door: unknown door'', d) | Some v \<Rightarrow> (Inr v, d))"

definition fake_SetLockState ::
  "operation \<Rightarrow> string \<Rightarrow> lock_state \<Rightarrow> fake_doors \<Rightarrow> (string + effect_result) \<times> fake_doors" where
  "fake_SetLockState p door desired d =
     (case operation_Validate p of
        Some e \<Rightarrow> (Inl e, d)
      | None \<Rightarrow>
          let d = d\<lparr> fd_calls := fd_calls d + 1 \<rparr>; key = op_key p
          in (case fd_seen d key of
                Some result \<Rightarrow> (Inr \<lparr> er_state = EffectAlreadyApplied, er_provider = er_provider result \<rparr>, d)
              | None \<Rightarrow>
                  if fd_states d door = Some desired
                  then let result = \<lparr> er_state = EffectAlreadyApplied, er_provider = key \<rparr>
                       in (Inr result, d\<lparr> fd_seen := (fd_seen d)(key \<mapsto> result) \<rparr>)
                  else
                    let mode = fd_ambiguity d; d = d\<lparr> fd_ambiguity := DoorNoAmbiguity \<rparr>;
                        moved = d\<lparr> fd_states := (fd_states d)(door \<mapsto> desired), fd_applied := fd_applied d + 1 \<rparr>;
                        unsure = \<lparr> er_state = EffectAmbiguous, er_provider = key \<rparr>;
                        result = \<lparr> er_state = EffectApplied, er_provider = key \<rparr>
                    in (case mode of
                          DoorAmbiguousApplied \<Rightarrow> (Inr unsure, moved)
                        | DoorAmbiguousNotApplied \<Rightarrow> (Inr unsure, d)
                        | DoorNoAmbiguity \<Rightarrow> (Inr result, moved\<lparr> fd_seen := (fd_seen moved)(key \<mapsto> result) \<rparr>))))"

definition fake_door :: "fake_doors door_controller" where
  "fake_door = \<lparr> dc_LockState = fake_LockState, dc_SetLockState = fake_SetLockState \<rparr>"

record fake_sirens =
  fs_states :: "string \<rightharpoonup> bool"
  fs_seen :: "string \<rightharpoonup> effect_result"
  fs_calls :: int
  fs_applied :: int

definition NewSirenController :: "(string \<rightharpoonup> bool) \<Rightarrow> fake_sirens" where
  "NewSirenController initial = \<lparr> fs_states = initial, fs_seen = Map.empty, fs_calls = 0, fs_applied = 0 \<rparr>"

definition fake_Enabled :: "string \<Rightarrow> fake_sirens \<Rightarrow> (string + bool) \<times> fake_sirens" where
  "fake_Enabled siren d =
     (case fs_states d siren of None \<Rightarrow> (Inl ''fake siren: unknown siren'', d) | Some v \<Rightarrow> (Inr v, d))"

definition fake_SetEnabled ::
  "operation \<Rightarrow> string \<Rightarrow> bool \<Rightarrow> fake_sirens \<Rightarrow> (string + effect_result) \<times> fake_sirens" where
  "fake_SetEnabled p siren desired d =
     (case operation_Validate p of
        Some e \<Rightarrow> (Inl e, d)
      | None \<Rightarrow>
          let d = d\<lparr> fs_calls := fs_calls d + 1 \<rparr>; key = op_key p
          in (case fs_seen d key of
                Some result \<Rightarrow> (Inr \<lparr> er_state = EffectAlreadyApplied, er_provider = er_provider result \<rparr>, d)
              | None \<Rightarrow>
                  (case fs_states d siren of
                     None \<Rightarrow> (Inl ''fake siren: unknown siren'', d)
                   | Some current \<Rightarrow>
                       if current = desired
                       then let result = \<lparr> er_state = EffectAlreadyApplied, er_provider = key \<rparr>
                            in (Inr result, d\<lparr> fs_seen := (fs_seen d)(key \<mapsto> result) \<rparr>)
                       else let result = \<lparr> er_state = EffectApplied, er_provider = key \<rparr>
                            in (Inr result,
                                d\<lparr> fs_states := (fs_states d)(siren \<mapsto> desired), fs_applied := fs_applied d + 1,
                                   fs_seen := (fs_seen d)(key \<mapsto> result) \<rparr>))))"

definition fake_siren :: "fake_sirens siren_controller" where
  "fake_siren = \<lparr> sc_Enabled = fake_Enabled, sc_SetEnabled = fake_SetEnabled \<rparr>"

record fake_cameras =
  fc_network :: "string \<rightharpoonup> bool"
  fc_stream :: "string \<rightharpoonup> bool"
  fc_seen :: "string \<rightharpoonup> effect_result"
  fc_reconnects :: int

definition NewCameraController :: "(string \<rightharpoonup> bool) \<Rightarrow> (string \<rightharpoonup> bool) \<Rightarrow> fake_cameras" where
  "NewCameraController network stream =
     \<lparr> fc_network = network, fc_stream = stream, fc_seen = Map.empty, fc_reconnects = 0 \<rparr>"

definition SetNetwork :: "string \<Rightarrow> bool \<Rightarrow> fake_cameras \<Rightarrow> fake_cameras" where
  "SetNetwork camera v d = d\<lparr> fc_network := (fc_network d)(camera \<mapsto> v) \<rparr>"

definition SetStream :: "string \<Rightarrow> bool \<Rightarrow> fake_cameras \<Rightarrow> fake_cameras" where
  "SetStream camera v d = d\<lparr> fc_stream := (fc_stream d)(camera \<mapsto> v) \<rparr>"

definition fake_ProbeNetwork :: "string \<Rightarrow> fake_cameras \<Rightarrow> (string + bool) \<times> fake_cameras" where
  "fake_ProbeNetwork camera d =
     (case fc_network d camera of None \<Rightarrow> (Inl ''fake camera recovery: unknown camera'', d) | Some v \<Rightarrow> (Inr v, d))"

definition fake_ProbeStream :: "string \<Rightarrow> fake_cameras \<Rightarrow> (string + bool) \<times> fake_cameras" where
  "fake_ProbeStream camera d =
     (case fc_stream d camera of None \<Rightarrow> (Inl ''fake camera recovery: unknown camera'', d) | Some v \<Rightarrow> (Inr v, d))"

definition fake_Reconnect :: "operation \<Rightarrow> string \<Rightarrow> fake_cameras \<Rightarrow> (string + effect_result) \<times> fake_cameras" where
  "fake_Reconnect p camera d =
     (case operation_Validate p of
        Some e \<Rightarrow> (Inl e, d)
      | None \<Rightarrow>
          (case fc_seen d (op_key p) of
             Some result \<Rightarrow> (Inr \<lparr> er_state = EffectAlreadyApplied, er_provider = er_provider result \<rparr>, d)
           | None \<Rightarrow>
               (case fc_network d camera of
                  None \<Rightarrow> (Inl ''fake camera recovery: unknown camera'', d)
                | Some up \<Rightarrow>
                    let result = \<lparr> er_state = EffectApplied, er_provider = op_key p \<rparr>
                    in (Inr result,
                        d\<lparr> fc_reconnects := fc_reconnects d + 1,
                           fc_stream := (if up then (fc_stream d)(camera \<mapsto> True) else fc_stream d),
                           fc_seen := (fc_seen d)(op_key p \<mapsto> result) \<rparr>))))"

definition fake_camera :: "fake_cameras camera_controller" where
  "fake_camera =
     \<lparr> cc_ProbeNetwork = fake_ProbeNetwork, cc_ProbeStream = fake_ProbeStream, cc_Reconnect = fake_Reconnect \<rparr>"

section \<open>Once, whatever the answers\<close>

text \<open>What the activities for doors and sirens have in common: read, write unless it is so, read again.\<close>

datatype drive_end = ReadFailed string | AlreadySo | WriteFailed string | NotConfirmed | Confirmed effect_result

definition drive ::
  "(string \<Rightarrow> 's \<Rightarrow> (string + 'v) \<times> 's) \<Rightarrow> (operation \<Rightarrow> string \<Rightarrow> 'v \<Rightarrow> 's \<Rightarrow> (string + effect_result) \<times> 's) \<Rightarrow>
     string \<Rightarrow> 'v \<Rightarrow> operation \<Rightarrow> 's \<Rightarrow> drive_end \<times> 's" where
  "drive rd wr d v p s =
     (case rd d s of
        (Inl e, s) \<Rightarrow> (ReadFailed e, s)
      | (Inr before, s) \<Rightarrow>
          if before = v then (AlreadySo, s)
          else (case wr p d v s of
                  (Inl e, s) \<Rightarrow> (WriteFailed e, s)
                | (Inr result, s) \<Rightarrow>
                    (case rd d s of
                       (Inl e, s) \<Rightarrow> (NotConfirmed, s)
                     | (Inr after, s) \<Rightarrow> (if after = v then Confirmed result else NotConfirmed, s))))"

text \<open>Attempts in a row, each with its setting and its operation, and their results.\<close>

fun run_attempts :: "('m \<times> operation \<Rightarrow> 's \<Rightarrow> 'r \<times> 's) \<Rightarrow> ('m \<times> operation) list \<Rightarrow> 's \<Rightarrow> 'r list \<times> 's" where
  "run_attempts f [] s = ([], s)"
| "run_attempts f (x # xs) s =
     (case f x s of (r, s') \<Rightarrow> (case run_attempts f xs s' of (rest, s'') \<Rightarrow> (r # rest, s'')))"

lemma run_attempts_map:
  "run_attempts (\<lambda>x s. map_prod g (\<lambda>s. s) (f x s)) xs s = map_prod (map g) (\<lambda>s. s) (run_attempts f xs s)"
  by (induction xs arbitrary: s) (auto split: prod.splits)

fun drive_succeeds :: "drive_end \<Rightarrow> bool" where
  "drive_succeeds AlreadySo \<longleftrightarrow> True"
| "drive_succeeds (Confirmed _) \<longleftrightarrow> True"
| "drive_succeeds _ \<longleftrightarrow> False"

text \<open>
  What such an activity relies on: a device has a state, which reading tells and leaves alone; a
  write changes it to what it should be, and counts, or changes nothing. Between two attempts
  things may happen that do not move the device.
\<close>

locale switched_device =
  fixes rd :: "string \<Rightarrow> 's \<Rightarrow> (string + 'v) \<times> 's"
    and wr :: "operation \<Rightarrow> string \<Rightarrow> 'v \<Rightarrow> 's \<Rightarrow> (string + effect_result) \<times> 's"
    and pos :: "'s \<Rightarrow> string \<Rightarrow> 'v option" and applied :: "'s \<Rightarrow> int" and aside :: "'m \<Rightarrow> 's \<Rightarrow> 's"
  assumes reads: "rd d s = (r, s') \<Longrightarrow> s' = s \<and> (\<forall>v. r = Inr v \<longleftrightarrow> pos s d = Some v)"
    and writes: "wr p d v s = (w, s') \<Longrightarrow>
      pos s' = pos s \<and> applied s' = applied s \<or> pos s' = (pos s)(d \<mapsto> v) \<and> applied s' = applied s + 1"
    and aside: "pos (aside m s) = pos s" "applied (aside m s) = applied s"
begin

lemma drive_moves:
  assumes "drive rd wr d v p s = (x, s')"
  shows "(drive_succeeds x \<longrightarrow> pos s' d = Some v) \<and>
    (pos s' = pos s \<and> applied s' = applied s \<or>
     pos s d \<noteq> Some v \<and> pos s' = (pos s)(d \<mapsto> v) \<and> applied s' = applied s + 1)"
proof -
  obtain r s1 where r: "rd d s = (r, s1)" by fastforce
  with reads have s1: "s1 = s" "\<forall>v. r = Inr v \<longleftrightarrow> pos s d = Some v" by blast+
  show ?thesis
  proof (cases "isl r \<or> r = Inr v")
    case True
    with assms r s1 show ?thesis by (cases r) (auto simp: drive_def)
  next
    case False
    then have other: "pos s d \<noteq> Some v" using s1(2) by auto
    obtain w s2 where w: "wr p d v s1 = (w, s2)" by fastforce
    obtain r3 s3 where r3: "rd d s2 = (r3, s3)" by fastforce
    with reads have s3: "s3 = s2" "\<forall>v. r3 = Inr v \<longleftrightarrow> pos s2 d = Some v" by blast+
    have "s' = s2" "drive_succeeds x \<Longrightarrow> r3 = Inr v"
      using assms False r w r3 s3(1) by (auto simp: drive_def split: sum.splits if_splits)
    with writes [OF w] s3(2) other s1(1) show ?thesis by auto
  qed
qed

lemma attempts_move_once:
  assumes "run_attempts (\<lambda>(m, p) s. drive rd wr d v p (aside m s)) xs s = (res, s')"
  shows "((\<exists>x \<in> set res. drive_succeeds x) \<longrightarrow> pos s' d = Some v) \<and>
    (pos s' = pos s \<and> applied s' = applied s \<or>
     pos s d \<noteq> Some v \<and> pos s' = (pos s)(d \<mapsto> v) \<and> applied s' = applied s + 1)"
  using assms
proof (induction xs arbitrary: s res)
  case (Cons a xs)
  obtain m p where a: "a = (m, p)" by fastforce
  obtain x s1 where x: "drive rd wr d v p (aside m s) = (x, s1)" by fastforce
  obtain rest where rest: "run_attempts (\<lambda>(m, p) s. drive rd wr d v p (aside m s)) xs s1 = (rest, s')" "res = x # rest"
    using Cons.prems x a by (auto split: prod.splits)
  from drive_moves [OF x] Cons.IH [OF rest(1)] rest(2) show ?case by (auto simp: aside)
qed simp

end

interpretation doors: switched_device fake_LockState fake_SetLockState fd_states fd_applied SetNextAmbiguity
  by unfold_locales
    (auto simp: fake_LockState_def fake_SetLockState_def SetNextAmbiguity_def Let_def
      split: option.splits if_splits door_ambiguity.splits)

interpretation sirens: switched_device fake_Enabled fake_SetEnabled fs_states fs_applied "\<lambda>_ s. s"
  by unfold_locales
    (auto simp: fake_Enabled_def fake_SetEnabled_def Let_def split: option.splits if_splits)

text \<open>The activities are drives.\<close>

fun door_answer :: "lock_state \<Rightarrow> drive_end \<Rightarrow> activity_result" where
  "door_answer v (ReadFailed e) = Inl (FailureTransient, e)"
| "door_answer v AlreadySo = Inr [(''door_effect'', FactEffect EffectAlreadyApplied), (''door_state'', FactLock v)]"
| "door_answer v (WriteFailed e) = Inl (FailureAmbiguousSideEffect, e)"
| "door_answer v NotConfirmed = Inl (FailureAmbiguousSideEffect, ''door state could not be verified after write'')"
| "door_answer v (Confirmed x) =
     Inr [(''door_effect'', FactEffect (er_state x)), (''door_state'', FactLock v), (''door_provider_id'', FactText (er_provider x))]"

lemma door_is_drive:
  "applyDesiredState (Some c) (Inr r) p s =
     map_prod (door_answer (dr_desired r)) (\<lambda>s. s) (drive (dc_LockState c) (dc_SetLockState c) (dr_door r) (dr_desired r) p s)"
  by (auto simp: applyDesiredState_def drive_def split: prod.splits sum.splits)

fun siren_answer :: "bool \<Rightarrow> drive_end \<Rightarrow> activity_result" where
  "siren_answer v (ReadFailed e) = Inl (FailureTransient, e)"
| "siren_answer v AlreadySo = Inr [(''siren_enabled'', FactBool v)]"
| "siren_answer v (WriteFailed e) = Inl (FailureAmbiguousSideEffect, e)"
| "siren_answer v NotConfirmed = Inl (FailureAmbiguousSideEffect, ''siren state verification failed'')"
| "siren_answer v (Confirmed x) = Inr [(''siren_enabled'', FactBool v), (''siren_provider_id'', FactText (er_provider x))]"

lemma siren_is_drive:
  "setEnabled (Some c) v (Inr r) p s =
     map_prod (siren_answer v) (\<lambda>s. s) (drive (sc_Enabled c) (sc_SetEnabled c) (sq_siren r) v p s)"
  by (auto simp: setEnabled_def drive_def split: prod.splits sum.splits)

lemma answers_succeed: "isl (door_answer u x) \<longleftrightarrow> \<not> drive_succeeds x" "isl (siren_answer v x) \<longleftrightarrow> \<not> drive_succeeds x"
  by (cases x; simp)+

text \<open>
  C6. A door is moved once: however often the activity is repeated, with whatever operations, and
  whichever of its writes leave open what happened, the door moves at most once, to the desired
  state and only if it was not there; no other door moves; and when one attempt completed, the
  door is in the desired state at the end.
\<close>

theorem door_moved_once:
  assumes "run_attempts (\<lambda>(m, p) s. applyDesiredState (Some fake_door) (Inr r) p (SetNextAmbiguity m s)) xs s = (res, s')"
  shows "(fd_states s' = fd_states s \<and> fd_applied s' = fd_applied s \<or>
      fd_states s (dr_door r) \<noteq> Some (dr_desired r) \<and> fd_states s' = (fd_states s)(dr_door r \<mapsto> dr_desired r) \<and>
        fd_applied s' = fd_applied s + 1) \<and>
    ((\<exists>x \<in> set res. \<not> isl x) \<longrightarrow> fd_states s' (dr_door r) = Some (dr_desired r))"
proof -
  let ?f = "\<lambda>(m, p) s. drive fake_LockState fake_SetLockState (dr_door r) (dr_desired r) p (SetNextAmbiguity m s)"
  have "(\<lambda>(m, p) s. applyDesiredState (Some fake_door) (Inr r) p (SetNextAmbiguity m s)) =
      (\<lambda>x s. map_prod (door_answer (dr_desired r)) (\<lambda>s. s) (?f x s))"
    by (auto simp: fun_eq_iff door_is_drive fake_door_def)
  then obtain ends where "run_attempts ?f xs s = (ends, s')" "res = map (door_answer (dr_desired r)) ends"
    using assms by (cases "run_attempts ?f xs s") (auto simp: run_attempts_map)
  with doors.attempts_move_once [of "dr_door r" "dr_desired r" xs s ends s'] show ?thesis
    by (auto simp: answers_succeed)
qed

text \<open>
  C19. A siren can be silenced: with an operation that is valid and was not used before, the
  compensation of a siren that the controller knows succeeds and leaves the siren off, whatever it
  was before, and so it was if the activity that enables it was repeated any number of times first.
\<close>

theorem siren_silenced:
  assumes "operation_Validate p = None" and "fs_seen s' (op_key p) = None" and "fs_states s (sq_siren r) \<noteq> None"
    and "run_attempts (\<lambda>(_, q) s. setEnabled (Some fake_siren) True (Inr r) q s) (xs :: (unit \<times> operation) list) s = (res, s')"
  shows "fs_applied s' \<le> fs_applied s + 1 \<and>
    (\<exists>s''. ensureDisabled (Some fake_siren) (Inr r) p s' = (None, s'') \<and>
       fs_states s'' = (fs_states s)(sq_siren r \<mapsto> False) \<and> fs_applied s'' \<le> fs_applied s + 2)"
proof -
  let ?f = "\<lambda>(m :: unit, q) s. drive fake_Enabled fake_SetEnabled (sq_siren r) True q s"
  have "(\<lambda>(_ :: unit, q) s. setEnabled (Some fake_siren) True (Inr r) q s) =
      (\<lambda>x s. map_prod (siren_answer True) (\<lambda>s. s) (?f x s))"
    by (auto simp: fun_eq_iff siren_is_drive fake_siren_def)
  then obtain ends where "run_attempts ?f xs s = (ends, s')"
    using assms(4) by (cases "run_attempts ?f xs s") (auto simp: run_attempts_map)
  with sirens.attempts_move_once [of "sq_siren r" True xs s ends s']
  have moved: "fs_states s' = fs_states s \<and> fs_applied s' = fs_applied s \<or>
      fs_states s' = (fs_states s)(sq_siren r \<mapsto> True) \<and> fs_applied s' = fs_applied s + 1" by auto
  then obtain b where b: "fs_states s' (sq_siren r) = Some b" using assms(3) by auto
  show ?thesis
  proof (cases b)
    case True
    with b assms(1,2) moved show ?thesis
      by (auto simp: ensureDisabled_def fake_siren_def fake_Enabled_def fake_SetEnabled_def Let_def)
  next
    case False
    with b moved show ?thesis
      by (auto simp: ensureDisabled_def fake_siren_def fake_Enabled_def fun_eq_iff)
  qed
qed

text \<open>
  A camera recovers when it can: with a valid operation that was not used before, the
  reconnection of a camera that the controller knows completes; the verification after it finds
  the stream exactly if the network was up or the stream was there before, and the decision then
  passes and otherwise asks a person; and repeating the operation reconnects no second time.
\<close>

theorem camera_recovers:
  assumes "operation_Validate p = None" and "fc_seen s (op_key p) = None"
    and "fc_network s (cr_camera r) = Some up" and "fc_stream s (cr_camera r) = Some live"
    and "facts ''verify_final_ok'' = None" and "facts ''verify_ok'' = Some (Inr ok)"
    and "reconnectCamera (Some fake_camera) (Inr r) p s = (res, s1)"
    and "probeStream (Some fake_camera) (Inr r) ''verify-stream'' s1 = (Inr [(''verify_ok'', FactBool ok)], s2)"
  shows "\<not> isl res \<and> (ok \<longleftrightarrow> up \<or> live) \<and>
    decideStream facts = (if up \<or> live then OutcomePass else OutcomeHuman, None) \<and>
    fc_reconnects s1 = fc_reconnects s + 1 \<and> fc_reconnects (snd (reconnectCamera (Some fake_camera) (Inr r) p s2)) = fc_reconnects s1"
  using assms
  by (auto simp: reconnectCamera_def probeStream_def probe_output_def fake_camera_def fake_Reconnect_def
      fake_ProbeStream_def decideStream_def Let_def split: if_splits)

section \<open>A front door, a siren and a camera\<close>

definition open_front :: door_request where
  "open_front = \<lparr> dr_request = ''r-1'', dr_door = ''front'', dr_desired = LockUnlocked, dr_by = [], dr_reason = [] \<rparr>"

definition first_operation :: operation where
  "first_operation = \<lparr> op_execution = ''e-1'', op_key = ''e-1:apply'' \<rparr>"

definition front_doors :: fake_doors where
  "front_doors = NewDoorController [''front'' \<mapsto> LockLocked]"

theorem door_fails_closed_witness:
  "\<exists>facts s'. applyDesiredState (Some fake_door) (Inr open_front) first_operation front_doors = (Inr facts, s') \<and>
     (''door_state'', FactLock LockUnlocked) \<in> set facts"
proof -
  obtain res s' where r: "applyDesiredState (Some fake_door) (Inr open_front) first_operation front_doors = (res, s')"
    by fastforce
  have "\<not> isl (fst (applyDesiredState (Some fake_door) (Inr open_front) first_operation front_doors))" by code_simp
  with r obtain facts where "res = Inr facts" by (cases res) auto
  with door_fails_closed [OF r] r show ?thesis by (auto simp: open_front_def)
qed

theorem door_moved_once_witness:
  "fd_applied (snd (run_attempts (\<lambda>(m, p) s. applyDesiredState (Some fake_door) (Inr open_front) p (SetNextAmbiguity m s))
     [(DoorAmbiguousApplied, first_operation), (DoorNoAmbiguity, first_operation)] front_doors)) \<le> 1"
proof -
  let ?f = "\<lambda>(m, p) s. applyDesiredState (Some fake_door) (Inr open_front) p (SetNextAmbiguity m s)"
  obtain res s' where r: "run_attempts ?f [(DoorAmbiguousApplied, first_operation), (DoorNoAmbiguity, first_operation)]
      front_doors = (res, s')" by fastforce
  have "fd_applied front_doors = 0" by (simp add: front_doors_def NewDoorController_def)
  with door_moved_once [OF r] r show ?thesis by auto
qed

theorem siren_silenced_witness:
  "\<exists>s''. ensureDisabled (Some fake_siren) (Inr \<lparr> sq_request = ''r-2'', sq_siren = ''roof'', sq_by = [], sq_reason = [] \<rparr>)
      first_operation (NewSirenController [''roof'' \<mapsto> True]) = (None, s'') \<and> fs_states s'' ''roof'' = Some False"
proof -
  have "operation_Validate first_operation = None" by code_simp
  then show ?thesis
    using siren_silenced [of first_operation "NewSirenController [''roof'' \<mapsto> True]" "NewSirenController [''roof'' \<mapsto> True]"
        "\<lparr> sq_request = ''r-2'', sq_siren = ''roof'', sq_by = [], sq_reason = [] \<rparr>" "[]" "[]"]
    by (auto simp: NewSirenController_def)
qed

theorem camera_recovers_witness:
  "\<exists>ok. decideStream (\<lambda>k. if k = ''verify_ok'' then Some (Inr ok) else None) = (OutcomePass, None)"
proof -
  let ?r = "\<lparr> cr_request = ''r-3'', cr_camera = ''yard'', cr_reason = [] \<rparr>"
  let ?s = "NewCameraController [''yard'' \<mapsto> True] [''yard'' \<mapsto> False]"
  obtain res s1 where r: "reconnectCamera (Some fake_camera) (Inr ?r) first_operation ?s = (res, s1)" by fastforce
  have "operation_Validate first_operation = None" by code_simp
  moreover from this r have "probeStream (Some fake_camera) (Inr ?r) ''verify-stream'' s1 = (Inr [(''verify_ok'', FactBool True)], s1)"
    by (auto simp: reconnectCamera_def probeStream_def probe_output_def fake_camera_def fake_Reconnect_def
      fake_ProbeStream_def NewCameraController_def Let_def)
  ultimately show ?thesis
    using camera_recovers [of first_operation ?s ?r True False "\<lambda>k. if k = ''verify_ok'' then Some (Inr True) else None" True
        res s1 s1] r
    by (auto simp: NewCameraController_def)
qed

end
