(* ===== verification/EventBus.thy ===== *)
theory EventBus
  imports "HOL-Library.AList" "HOL-Library.Sublist" "HOL-Library.Word"
begin

text \<open>
  The event bus, \<open>events/bus.go\<close>: subscribers with a bounded channel each; an event that finds a
  channel full is dropped and counted.

  A subscription keeps pointers to its subscriber, so subscribers are cells of a heap and the map
  of the bus names some of them. Publishing, subscribing, cancelling and closing exclude each
  other by the lock of the bus, up to publications that run at once, which only append; a receive
  is a step of its own. Sending on a closed channel and closing it twice panic: \<^const>\<open>None\<close>.
\<close>

section \<open>The bus\<close>

record 'e subscriber =
  sb_id :: "64 word"
  sb_cap :: nat
  sb_queue :: "'e list"
  sb_dropped :: "64 word"
  sb_closed :: bool
  sb_cancelled :: bool

record 'e bus =
  bs_subs :: "(64 word \<times> nat) list"
  bs_next :: "64 word"
  bs_closed :: bool
  bs_cells :: "'e subscriber list"

definition NewBus :: "'e bus" where
  "NewBus = \<lparr> bs_subs = [], bs_next = 0, bs_closed = False, bs_cells = [] \<rparr>"

text \<open>A closed bus gives a channel of its own that is closed and belongs to no subscriber.\<close>

definition Subscribe :: "int \<Rightarrow> 'e bus \<Rightarrow> 'e bus" where
  "Subscribe buffer b =
     (let cap = (if buffer < 1 then 1 else buffer)
      in if bs_closed b then b
         else
           let i = bs_next b + 1; a = length (bs_cells b)
           in b\<lparr> bs_next := i, bs_subs := AList.update i a (bs_subs b),
                 bs_cells := bs_cells b @
                   [\<lparr> sb_id = i, sb_cap = nat cap, sb_queue = [], sb_dropped = 0, sb_closed = False,
                      sb_cancelled = False \<rparr>] \<rparr>)"

definition close_channel :: "nat \<Rightarrow> 'e subscriber list \<Rightarrow> 'e subscriber list option" where
  "close_channel a cs = (if sb_closed (cs ! a) then None else Some (cs[a := (cs ! a)\<lparr> sb_closed := True \<rparr>]))"

text \<open>The cancellation of the subscription whose subscriber is the cell \<open>a\<close>.\<close>

definition CancelSubscription :: "nat \<Rightarrow> 'e bus \<Rightarrow> 'e bus option" where
  "CancelSubscription a b =
     (if length (bs_cells b) \<le> a \<or> sb_cancelled (bs_cells b ! a) then Some b
      else
        (let b = b\<lparr> bs_cells := (bs_cells b)[a := (bs_cells b ! a)\<lparr> sb_cancelled := True \<rparr>] \<rparr>;
             i = sb_id (bs_cells b ! a)
         in case map_of (bs_subs b) i of
              None \<Rightarrow> Some b
            | Some old \<Rightarrow>
                map_option (\<lambda>cs. b\<lparr> bs_subs := AList.delete i (bs_subs b), bs_cells := cs \<rparr>)
                  (close_channel old (bs_cells b))))"

definition offer :: "'e \<Rightarrow> 'e subscriber \<Rightarrow> nat \<times> 'e subscriber" where
  "offer e c =
     (if length (sb_queue c) < sb_cap c then (0, c\<lparr> sb_queue := sb_queue c @ [e] \<rparr>)
      else (1, c\<lparr> sb_dropped := sb_dropped c + 1 \<rparr>))"

fun publish_to :: "'e \<Rightarrow> nat list \<Rightarrow> 'e subscriber list \<Rightarrow> (nat \<times> 'e subscriber list) option" where
  "publish_to e [] cs = Some (0, cs)"
| "publish_to e (a # as) cs =
     (if sb_closed (cs ! a) then None
      else (case offer e (cs ! a) of
              (n, c) \<Rightarrow> map_option (\<lambda>(m, cs). (n + m, cs)) (publish_to e as (cs[a := c]))))"

definition Publish :: "'e \<Rightarrow> 'e bus \<Rightarrow> (nat \<times> 'e bus) option" where
  "Publish e b =
     (if bs_closed b then Some (0, b)
      else map_option (\<lambda>(n, cs). (n, b\<lparr> bs_cells := cs \<rparr>)) (publish_to e (map snd (bs_subs b)) (bs_cells b)))"

fun close_all :: "nat list \<Rightarrow> 'e subscriber list \<Rightarrow> 'e subscriber list option" where
  "close_all [] cs = Some cs"
| "close_all (a # as) cs = Option.bind (close_channel a cs) (close_all as)"

definition CloseBus :: "'e bus \<Rightarrow> 'e bus option" where
  "CloseBus b =
     (if bs_closed b then Some b
      else map_option (\<lambda>cs. b\<lparr> bs_closed := True, bs_subs := [], bs_cells := cs \<rparr>)
             (close_all (map snd (bs_subs b)) (bs_cells b)))"

text \<open>A receive takes the oldest event; without one it waits, or it learns that the channel is closed.\<close>

datatype 'e received = Got 'e | Ended | Waits

definition receive :: "nat \<Rightarrow> 'e bus \<Rightarrow> 'e received \<times> 'e bus" where
  "receive a b =
     (if length (bs_cells b) \<le> a then (Ended, b)
      else
        (case sb_queue (bs_cells b ! a) of
           e # q \<Rightarrow> (Got e, b\<lparr> bs_cells := (bs_cells b)[a := (bs_cells b ! a)\<lparr> sb_queue := q \<rparr>] \<rparr>)
         | [] \<Rightarrow> (if sb_closed (bs_cells b ! a) then Ended else Waits, b)))"

section \<open>Runs\<close>

datatype 'e bus_event = SubscribeEvent int | PublishEvent 'e | CancelEvent nat | CloseEvent | ReceiveEvent nat

fun bus_step :: "'e bus_event \<Rightarrow> 'e bus \<Rightarrow> 'e bus option" where
  "bus_step (SubscribeEvent n) b = Some (Subscribe n b)"
| "bus_step (PublishEvent e) b = map_option snd (Publish e b)"
| "bus_step (CancelEvent a) b = CancelSubscription a b"
| "bus_step CloseEvent b = CloseBus b"
| "bus_step (ReceiveEvent a) b = Some (snd (receive a b))"

fun bus_run :: "'e bus_event list \<Rightarrow> 'e bus \<Rightarrow> 'e bus option" where
  "bus_run [] b = Some b"
| "bus_run (x # xs) b = Option.bind (bus_step x b) (bus_run xs)"

text \<open>What is published while a subscriber is registered, and what is received from it.\<close>

fun offered_to :: "nat \<Rightarrow> 'e bus_event list \<Rightarrow> 'e bus \<Rightarrow> 'e list" where
  "offered_to a [] b = []"
| "offered_to a (x # xs) b =
     (case x of PublishEvent e \<Rightarrow> if a \<in> snd ` set (bs_subs b) then [e] else [] | _ \<Rightarrow> []) @
     (case bus_step x b of None \<Rightarrow> [] | Some b' \<Rightarrow> offered_to a xs b')"

fun received_from :: "nat \<Rightarrow> 'e bus_event list \<Rightarrow> 'e bus \<Rightarrow> 'e list" where
  "received_from a [] b = []"
| "received_from a (x # xs) b =
     (case x of
        ReceiveEvent a' \<Rightarrow> (if a' = a then (case fst (receive a b) of Got e \<Rightarrow> [e] | _ \<Rightarrow> []) else [])
      | _ \<Rightarrow> []) @
     (case bus_step x b of None \<Rightarrow> [] | Some b' \<Rightarrow> received_from a xs b')"

section \<open>The invariant\<close>

definition bus_inv :: "'e bus \<Rightarrow> bool" where
  "bus_inv b \<longleftrightarrow>
     distinct (map fst (bs_subs b)) \<and> distinct (map snd (bs_subs b)) \<and> (bs_closed b \<longrightarrow> bs_subs b = []) \<and>
     (\<forall>a \<in> snd ` set (bs_subs b). a < length (bs_cells b) \<and> \<not> sb_closed (bs_cells b ! a)) \<and>
     (\<forall>c \<in> set (bs_cells b). length (sb_queue c) \<le> sb_cap c)"

text \<open>A publication offers the event to each registered cell once.\<close>

lemma publish_to_cells:
  assumes "distinct as" and "\<forall>a \<in> set as. a < length cs \<and> \<not> sb_closed (cs ! a)"
  shows "\<exists>n. publish_to e as cs =
    Some (n, map (\<lambda>a. if a \<in> set as then snd (offer e (cs ! a)) else cs ! a) [0..<length cs])"
  using assms
proof (induction as arbitrary: cs)
  case Nil
  show ?case by (simp add: map_nth)
next
  case (Cons a as)
  let ?cs = "cs[a := snd (offer e (cs ! a))]"
  have "\<forall>x \<in> set as. x < length ?cs \<and> \<not> sb_closed (?cs ! x)" using Cons.prems by (auto simp: nth_list_update)
  with Cons.IH [of ?cs] Cons.prems obtain n where n: "publish_to e as ?cs =
      Some (n, map (\<lambda>x. if x \<in> set as then snd (offer e (?cs ! x)) else ?cs ! x) [0..<length cs])" by auto
  have "map (\<lambda>x. if x \<in> set as then snd (offer e (?cs ! x)) else ?cs ! x) [0..<length cs] =
      map (\<lambda>x. if x \<in> set (a # as) then snd (offer e (cs ! x)) else cs ! x) [0..<length cs]"
    using Cons.prems by (auto simp: nth_list_update)
  with n Cons.prems show ?case by (auto split: prod.splits)
qed

lemma close_all_cells:
  assumes "distinct as" and "\<forall>a \<in> set as. a < length cs \<and> \<not> sb_closed (cs ! a)"
  shows "close_all as cs = Some (map (\<lambda>a. if a \<in> set as then (cs ! a)\<lparr> sb_closed := True \<rparr> else cs ! a) [0..<length cs])"
  using assms
proof (induction as arbitrary: cs)
  case Nil
  show ?case by (simp add: map_nth)
next
  case (Cons a as)
  let ?cs = "cs[a := (cs ! a)\<lparr> sb_closed := True \<rparr>]"
  have "\<forall>x \<in> set as. x < length ?cs \<and> \<not> sb_closed (?cs ! x)" using Cons.prems by (auto simp: nth_list_update)
  with Cons.IH [of ?cs] Cons.prems have n: "close_all as ?cs =
      Some (map (\<lambda>x. if x \<in> set as then (?cs ! x)\<lparr> sb_closed := True \<rparr> else ?cs ! x) [0..<length cs])" by auto
  have "map (\<lambda>x. if x \<in> set as then (?cs ! x)\<lparr> sb_closed := True \<rparr> else ?cs ! x) [0..<length cs] =
      map (\<lambda>x. if x \<in> set (a # as) then (cs ! x)\<lparr> sb_closed := True \<rparr> else cs ! x) [0..<length cs]"
    using Cons.prems by (auto simp: nth_list_update)
  with n Cons.prems show ?case by (simp add: close_channel_def)
qed

lemma update_values:
  "distinct (map snd al) \<Longrightarrow> v \<notin> snd ` set al \<Longrightarrow>
     distinct (map snd (AList.update k v al)) \<and> snd ` set (AList.update k v al) \<subseteq> insert v (snd ` set al)"
proof (induction al)
  case (Cons p al)
  then show ?case by (cases p) auto
qed simp

lemma delete_values:
  "distinct (map fst al) \<Longrightarrow> distinct (map snd al) \<Longrightarrow> map_of al k = Some v \<Longrightarrow>
     distinct (map snd (AList.delete k al)) \<and> snd ` set (AList.delete k al) = snd ` set al - {v}"
proof (induction al)
  case (Cons p al)
  have "map_of al k = Some v \<Longrightarrow> v \<in> snd ` set al" by (force dest: map_of_SomeD)
  with Cons show ?case by (cases p) (auto split: if_splits)
qed simp

lemma bus_invD:
  assumes "bus_inv b"
  shows "distinct (map fst (bs_subs b))" "distinct (map snd (bs_subs b))" "bs_closed b \<Longrightarrow> bs_subs b = []"
    "a \<in> snd ` set (bs_subs b) \<Longrightarrow> a < length (bs_cells b) \<and> \<not> sb_closed (bs_cells b ! a)"
    "a < length (bs_cells b) \<Longrightarrow> length (sb_queue (bs_cells b ! a)) \<le> sb_cap (bs_cells b ! a)"
  using assms nth_mem [of a "bs_cells b"] unfolding bus_inv_def by blast+

lemma bus_invI:
  assumes "distinct (map fst (bs_subs b))" "distinct (map snd (bs_subs b))" "bs_closed b \<Longrightarrow> bs_subs b = []"
    "\<And>a. a \<in> snd ` set (bs_subs b) \<Longrightarrow> a < length (bs_cells b) \<and> \<not> sb_closed (bs_cells b ! a)"
    "\<And>a. a < length (bs_cells b) \<Longrightarrow> length (sb_queue (bs_cells b ! a)) \<le> sb_cap (bs_cells b ! a)"
  shows "bus_inv b"
  using assms unfolding bus_inv_def by (metis in_set_conv_nth)

text \<open>What a step does to a cell: its queue, its count and its capacity.\<close>

definition same_content :: "'e subscriber \<Rightarrow> 'e subscriber \<Rightarrow> bool" where
  "same_content c c' \<longleftrightarrow> sb_queue c' = sb_queue c \<and> sb_dropped c' = sb_dropped c \<and> sb_cap c' = sb_cap c"

fun cell_step :: "'e bus_event \<Rightarrow> 'e bus \<Rightarrow> nat \<Rightarrow> 'e subscriber \<Rightarrow> bool" where
  "cell_step (PublishEvent e) b a c' \<longleftrightarrow>
     (if a \<in> snd ` set (bs_subs b) then c' = snd (offer e (bs_cells b ! a)) else same_content (bs_cells b ! a) c')"
| "cell_step (ReceiveEvent a') b a c' \<longleftrightarrow>
     (if a' = a then (case sb_queue (bs_cells b ! a) of
         e # q \<Rightarrow> c' = (bs_cells b ! a)\<lparr> sb_queue := q \<rparr> | [] \<Rightarrow> same_content (bs_cells b ! a) c')
      else same_content (bs_cells b ! a) c')"
| "cell_step _ b a c' \<longleftrightarrow> same_content (bs_cells b ! a) c'"

definition step_ok :: "'e bus_event \<Rightarrow> 'e bus \<Rightarrow> 'e bus \<Rightarrow> bool" where
  "step_ok x b b' \<longleftrightarrow>
     bus_inv b' \<and> length (bs_cells b) \<le> length (bs_cells b') \<and>
     (\<forall>a < length (bs_cells b). cell_step x b a (bs_cells b' ! a))"

lemma same_content_refl [simp]: "same_content c c"
  by (simp add: same_content_def)

lemma Subscribe_ok:
  assumes "bus_inv b"
  shows "step_ok (SubscribeEvent n) b (Subscribe n b)"
proof (cases "bs_closed b")
  case True
  with assms show ?thesis by (simp add: step_ok_def Subscribe_def Let_def)
next
  case False
  let ?a = "length (bs_cells b)" and ?b = "Subscribe n b"
  note inv = bus_invD [OF assms]
  have cells: "bs_cells ?b = bs_cells b @ [\<lparr> sb_id = bs_next b + 1, sb_cap = nat (if n < 1 then 1 else n), sb_queue = [],
      sb_dropped = 0, sb_closed = False, sb_cancelled = False \<rparr>]"
    and subs: "bs_subs ?b = AList.update (bs_next b + 1) ?a (bs_subs b)" "bs_closed ?b = False"
    using False by (simp_all add: Subscribe_def Let_def)
  have new: "?a \<notin> snd ` set (bs_subs b)" using inv(4) by blast
  have "bus_inv ?b"
  proof (rule bus_invI)
    show "distinct (map fst (bs_subs ?b))" unfolding subs by (rule distinct_update) (rule inv(1))
    show "distinct (map snd (bs_subs ?b))" unfolding subs using update_values [OF inv(2) new] by blast
    show "bs_closed ?b \<Longrightarrow> bs_subs ?b = []" by (simp add: subs)
    fix x assume "x \<in> snd ` set (bs_subs ?b)"
    then have "x = ?a \<or> x \<in> snd ` set (bs_subs b)" unfolding subs using update_values [OF inv(2) new] by blast
    then show "x < length (bs_cells ?b) \<and> \<not> sb_closed (bs_cells ?b ! x)"
      using inv(4) [of x] by (auto simp: cells nth_append)
  next
    fix x assume "x < length (bs_cells ?b)"
    then show "length (sb_queue (bs_cells ?b ! x)) \<le> sb_cap (bs_cells ?b ! x)"
      using inv(5) [of x] by (auto simp: cells nth_append less_Suc_eq)
  qed
  then show ?thesis by (simp add: step_ok_def cells nth_append)
qed

lemma Publish_ok:
  assumes "bus_inv b"
  shows "\<exists>n b'. Publish e b = Some (n, b') \<and> step_ok (PublishEvent e) b b'"
proof (cases "bs_closed b")
  case True
  with assms bus_invD(3) [OF assms] show ?thesis by (simp add: Publish_def step_ok_def)
next
  case False
  note inv = bus_invD [OF assms]
  let ?cs = "map (\<lambda>a. if a \<in> set (map snd (bs_subs b)) then snd (offer e (bs_cells b ! a)) else bs_cells b ! a)
      [0..<length (bs_cells b)]"
  have "\<forall>a \<in> set (map snd (bs_subs b)). a < length (bs_cells b) \<and> \<not> sb_closed (bs_cells b ! a)" using inv(4) by simp
  from publish_to_cells [OF inv(2) this, of e] obtain n where
    "publish_to e (map snd (bs_subs b)) (bs_cells b) = Some (n, ?cs)" by blast
  then have p: "Publish e b = Some (n, b\<lparr> bs_cells := ?cs \<rparr>)" using False by (simp add: Publish_def)
  have "bus_inv (b\<lparr> bs_cells := ?cs \<rparr>)"
    by (rule bus_invI) (use inv in \<open>auto simp: offer_def\<close>)
  then have "step_ok (PublishEvent e) b (b\<lparr> bs_cells := ?cs \<rparr>)" by (simp add: step_ok_def)
  with p show ?thesis by blast
qed

lemma CloseBus_ok:
  assumes "bus_inv b"
  shows "\<exists>b'. CloseBus b = Some b' \<and> step_ok CloseEvent b b'"
proof (cases "bs_closed b")
  case True
  with assms show ?thesis by (simp add: CloseBus_def step_ok_def)
next
  case False
  note inv = bus_invD [OF assms]
  let ?cs = "map (\<lambda>a. if a \<in> set (map snd (bs_subs b)) then (bs_cells b ! a)\<lparr> sb_closed := True \<rparr> else bs_cells b ! a)
      [0..<length (bs_cells b)]"
  have "\<forall>a \<in> set (map snd (bs_subs b)). a < length (bs_cells b) \<and> \<not> sb_closed (bs_cells b ! a)" using inv(4) by simp
  from close_all_cells [OF inv(2) this]
  have p: "CloseBus b = Some (b\<lparr> bs_closed := True, bs_subs := [], bs_cells := ?cs \<rparr>)"
    using False by (simp add: CloseBus_def)
  have "bus_inv (b\<lparr> bs_closed := True, bs_subs := [], bs_cells := ?cs \<rparr>)"
    by (rule bus_invI) (use inv in auto)
  then have "step_ok CloseEvent b (b\<lparr> bs_closed := True, bs_subs := [], bs_cells := ?cs \<rparr>)"
    by (simp add: step_ok_def same_content_def)
  with p show ?thesis by blast
qed

lemma CancelSubscription_ok:
  assumes "bus_inv b"
  shows "\<exists>b'. CancelSubscription a b = Some b' \<and> step_ok (CancelEvent a) b b'"
proof (cases "length (bs_cells b) \<le> a \<or> sb_cancelled (bs_cells b ! a)")
  case True
  with assms show ?thesis by (auto simp: CancelSubscription_def step_ok_def)
next
  case False
  note inv = bus_invD [OF assms]
  let ?cs = "(bs_cells b)[a := (bs_cells b ! a)\<lparr> sb_cancelled := True \<rparr>]" and ?i = "sb_id (bs_cells b ! a)"
  have flag: "length (sb_queue (?cs ! x)) = length (sb_queue (bs_cells b ! x)) \<and> sb_cap (?cs ! x) = sb_cap (bs_cells b ! x) \<and>
      sb_closed (?cs ! x) = sb_closed (bs_cells b ! x) \<and> same_content (bs_cells b ! x) (?cs ! x)"
    if "x < length (bs_cells b)" for x
    using that False by (auto simp: nth_list_update same_content_def)
  show ?thesis
  proof (cases "map_of (bs_subs b) ?i")
    case None
    have "bus_inv (b\<lparr> bs_cells := ?cs \<rparr>)"
      by (rule bus_invI) (use inv flag in auto)
    then have "step_ok (CancelEvent a) b (b\<lparr> bs_cells := ?cs \<rparr>)" using flag by (simp add: step_ok_def)
    moreover have "CancelSubscription a b = Some (b\<lparr> bs_cells := ?cs \<rparr>)"
      using None False by (simp add: CancelSubscription_def Let_def)
    ultimately show ?thesis by blast
  next
    case (Some old)
    then have old: "old \<in> snd ` set (bs_subs b)" by (force dest: map_of_SomeD)
    note del = delete_values [OF inv(1,2) Some]
    let ?ds = "?cs[old := (?cs ! old)\<lparr> sb_closed := True \<rparr>]"
    have close: "close_channel old ?cs = Some ?ds" using inv(4) [OF old] flag by (simp add: close_channel_def)
    have content: "same_content (bs_cells b ! x) (?ds ! x)" "length (sb_queue (?ds ! x)) \<le> sb_cap (?ds ! x)"
      if "x < length (bs_cells b)" for x
      using flag [OF that] inv(5) [OF that] that by (cases "x = old"; simp add: same_content_def)+
    have "bus_inv (b\<lparr> bs_subs := AList.delete ?i (bs_subs b), bs_cells := ?ds \<rparr>)"
    proof (rule bus_invI; simp del: map_map)
      show "distinct (map fst (AList.delete ?i (bs_subs b)))" by (rule distinct_delete) (rule inv(1))
      show "distinct (map snd (AList.delete ?i (bs_subs b)))" using del by blast
      show "bs_closed b \<Longrightarrow> AList.delete ?i (bs_subs b) = []" using inv(3) by simp
    next
      fix x assume "x \<in> snd ` set (AList.delete ?i (bs_subs b))"
      then have "x \<noteq> old" "x \<in> snd ` set (bs_subs b)" using del by auto
      then show "x < length (bs_cells b) \<and> \<not> sb_closed (?ds ! x)" using inv(4) [of x] flag [of x] by simp
    qed (use content in simp)
    then have "step_ok (CancelEvent a) b (b\<lparr> bs_subs := AList.delete ?i (bs_subs b), bs_cells := ?ds \<rparr>)"
      using content by (simp add: step_ok_def)
    moreover have "CancelSubscription a b = Some (b\<lparr> bs_subs := AList.delete ?i (bs_subs b), bs_cells := ?ds \<rparr>)"
      using Some False close by (simp add: CancelSubscription_def Let_def)
    ultimately show ?thesis by blast
  qed
qed

lemma receive_ok:
  assumes "bus_inv b"
  shows "step_ok (ReceiveEvent a) b (snd (receive a b))"
proof (cases "a < length (bs_cells b) \<and> sb_queue (bs_cells b ! a) \<noteq> []")
  case True
  then obtain e q where q: "sb_queue (bs_cells b ! a) = e # q" by (cases "sb_queue (bs_cells b ! a)") auto
  let ?cs = "(bs_cells b)[a := (bs_cells b ! a)\<lparr> sb_queue := q \<rparr>]"
  have cell: "length (sb_queue (?cs ! x)) \<le> sb_cap (?cs ! x) \<and> sb_closed (?cs ! x) = sb_closed (bs_cells b ! x)"
    if "x < length (bs_cells b)" for x
    using bus_invD(5) [OF assms that] q that by (cases "x = a") simp_all
  have "bus_inv (b\<lparr> bs_cells := ?cs \<rparr>)"
    by (rule bus_invI) (use bus_invD [OF assms] cell in simp_all)
  with True q show ?thesis by (auto simp: receive_def step_ok_def nth_list_update)
next
  case False
  then have "snd (receive a b) = b" by (auto simp: receive_def split: list.split)
  with False assms show ?thesis by (auto simp: step_ok_def split: list.split)
qed

lemma bus_step_ok: "bus_inv b \<Longrightarrow> \<exists>b'. bus_step x b = Some b' \<and> step_ok x b b'"
proof (cases x)
  case (PublishEvent e)
  then show "bus_inv b \<Longrightarrow> ?thesis" using Publish_ok [of b e] by auto
qed (auto intro: Subscribe_ok CancelSubscription_ok CloseBus_ok receive_ok)

section \<open>Nothing panics, nothing is lost without a count\<close>

lemma NewBus_inv [simp]: "bus_inv NewBus"
  by (simp add: bus_inv_def NewBus_def)

lemma bus_run_ok: "bus_inv b \<Longrightarrow> \<exists>b'. bus_run xs b = Some b' \<and> bus_inv b'"
proof (induction xs arbitrary: b)
  case (Cons x xs)
  from bus_step_ok [OF Cons.prems] obtain b1 where "bus_step x b = Some b1" "bus_inv b1" by (auto simp: step_ok_def)
  with Cons.IH show ?case by auto
qed simp

text \<open>
  The bus never panics: no sequence of subscriptions, publications, cancellations, receptions
  and closings sends on a closed channel or closes a channel twice, even when the numbers of the
  subscriptions wrap around.
\<close>

theorem bus_never_panics: "bus_run xs NewBus \<noteq> (None :: 'e bus option)"
  using bus_run_ok [of NewBus xs] by auto

lemma cell_accounts:
  assumes "cell_step x b a c'" and "length (sb_queue (bs_cells b ! a)) \<le> sb_cap (bs_cells b ! a)" and "a < length (bs_cells b)"
  defines "e \<equiv> (case x of PublishEvent e \<Rightarrow> if a \<in> snd ` set (bs_subs b) then [e] else [] | _ \<Rightarrow> [])"
    and "r \<equiv> (case x of ReceiveEvent a' \<Rightarrow> (if a' = a then (case fst (receive a b) of Got e \<Rightarrow> [e] | _ \<Rightarrow> []) else []) | _ \<Rightarrow> [])"
  shows "subseq (r @ sb_queue c') (sb_queue (bs_cells b ! a) @ e) \<and> sb_cap c' = sb_cap (bs_cells b ! a) \<and>
    of_nat (length (r @ sb_queue c')) + sb_dropped c' =
      of_nat (length (sb_queue (bs_cells b ! a) @ e)) + sb_dropped (bs_cells b ! a) \<and>
    (length (sb_queue (bs_cells b ! a) @ e) \<le> sb_cap (bs_cells b ! a) \<longrightarrow> r @ sb_queue c' = sb_queue (bs_cells b ! a) @ e)"
proof (cases x)
  case (PublishEvent y)
  with assms(1,2) show ?thesis
    by (cases "a \<in> snd ` set (bs_subs b)") (auto simp: e_def r_def offer_def same_content_def)
next
  case (ReceiveEvent a')
  with assms(1,3) show ?thesis
    by (cases "a' = a"; cases "sb_queue (bs_cells b ! a)") (auto simp: e_def r_def receive_def same_content_def)
qed (use assms(1) in \<open>auto simp: e_def r_def same_content_def\<close>)

lemma run_accounts:
  assumes "bus_inv b" and "a < length (bs_cells b)" and "bus_run xs b = Some b'"
  shows "subseq (received_from a xs b @ sb_queue (bs_cells b' ! a)) (sb_queue (bs_cells b ! a) @ offered_to a xs b) \<and>
    of_nat (length (received_from a xs b @ sb_queue (bs_cells b' ! a))) + sb_dropped (bs_cells b' ! a) =
      of_nat (length (sb_queue (bs_cells b ! a) @ offered_to a xs b)) + sb_dropped (bs_cells b ! a) \<and>
    length (sb_queue (bs_cells b' ! a)) \<le> sb_cap (bs_cells b ! a)"
  using assms
proof (induction xs arbitrary: b)
  case Nil
  then show ?case using bus_invD(5) by auto
next
  case (Cons x xs)
  obtain b1 where b1: "bus_step x b = Some b1" "bus_inv b1" "length (bs_cells b) \<le> length (bs_cells b1)"
    "cell_step x b a (bs_cells b1 ! a)"
    using bus_step_ok [OF Cons.prems(1), of x] Cons.prems(2) by (auto simp: step_ok_def)
  define e where "e = (case x of PublishEvent e \<Rightarrow> if a \<in> snd ` set (bs_subs b) then [e] else [] | _ \<Rightarrow> [])"
  define r where "r = (case x of ReceiveEvent a' \<Rightarrow> (if a' = a then (case fst (receive a b) of Got e \<Rightarrow> [e] | _ \<Rightarrow> []) else []) | _ \<Rightarrow> [])"
  have lists: "offered_to a (x # xs) b = e @ offered_to a xs b1" "received_from a (x # xs) b = r @ received_from a xs b1"
    by (simp_all add: b1(1) e_def r_def)
  note one = cell_accounts [OF b1(4) bus_invD(5) [OF Cons.prems(1,2)] Cons.prems(2), folded e_def r_def]
  have run: "bus_run xs b1 = Some b'" using Cons.prems(3) b1(1) by simp
  have rest: "subseq (received_from a xs b1 @ sb_queue (bs_cells b' ! a)) (sb_queue (bs_cells b1 ! a) @ offered_to a xs b1)"
    "of_nat (length (received_from a xs b1 @ sb_queue (bs_cells b' ! a))) + sb_dropped (bs_cells b' ! a) =
      of_nat (length (sb_queue (bs_cells b1 ! a) @ offered_to a xs b1)) + sb_dropped (bs_cells b1 ! a)"
    "length (sb_queue (bs_cells b' ! a)) \<le> sb_cap (bs_cells b1 ! a)"
    using Cons.IH [OF b1(2) _ run] b1(3) Cons.prems(2) by auto
  have "subseq (r @ received_from a xs b1 @ sb_queue (bs_cells b' ! a)) (r @ sb_queue (bs_cells b1 ! a) @ offered_to a xs b1)"
    using rest(1) by (simp add: subseq_append')
  also have "subseq \<dots> ((sb_queue (bs_cells b ! a) @ e) @ offered_to a xs b1)"
    using one list_emb_append_mono [of "(=)" "r @ sb_queue (bs_cells b1 ! a)" "sb_queue (bs_cells b ! a) @ e" "offered_to a xs b1"]
    by simp
  finally have "subseq (received_from a (x # xs) b @ sb_queue (bs_cells b' ! a)) (sb_queue (bs_cells b ! a) @ offered_to a (x # xs) b)"
    by (simp only: lists append_assoc)
  moreover have "of_nat (length (received_from a (x # xs) b @ sb_queue (bs_cells b' ! a))) + sb_dropped (bs_cells b' ! a) =
      of_nat (length (sb_queue (bs_cells b ! a) @ offered_to a (x # xs) b)) + sb_dropped (bs_cells b ! a)"
    using one rest(2) unfolding lists by (simp add: algebra_simps)
  ultimately show ?case using one rest(3) by simp
qed

text \<open>
  C23. A subscriber gets what is published, in order, and knows how much it missed: after any run
  since its subscription, what it has received and what waits in its channel are a part of the
  events published while it was registered, in their order; the number of the others is its count
  of dropped events, as a 64-bit number; and no more events wait than the channel holds.
\<close>

theorem events_delivered_or_counted:
  assumes "bus_run before NewBus = Some b0" and "\<not> bs_closed b0"
    and "bus_run xs (Subscribe buffer b0) = Some b" and "a = length (bs_cells b0)"
  shows "let got = received_from a xs (Subscribe buffer b0); wait = sb_queue (bs_cells b ! a);
      all = offered_to a xs (Subscribe buffer b0)
    in subseq (got @ wait) all \<and> length wait \<le> nat (max 1 buffer) \<and>
      sb_dropped (bs_cells b ! a) = of_nat (length all) - of_nat (length got + length wait)"
proof -
  have inv: "bus_inv b0" using bus_run_ok [of NewBus before] assms(1) by auto
  then have inv': "bus_inv (Subscribe buffer b0)" using Subscribe_ok by (auto simp: step_ok_def)
  have cell: "bs_cells (Subscribe buffer b0) ! a =
      \<lparr> sb_id = bs_next b0 + 1, sb_cap = nat (max 1 buffer), sb_queue = [], sb_dropped = 0, sb_closed = False,
        sb_cancelled = False \<rparr>" "a < length (bs_cells (Subscribe buffer b0))"
    using assms(2,4) by (auto simp: Subscribe_def Let_def max_def)
  from run_accounts [OF inv' cell(2) assms(3)] show ?thesis by (simp add: cell(1) Let_def algebra_simps)
qed

text \<open>Three events for a channel of two.\<close>

theorem events_delivered_or_counted_witness:
  "\<exists>b. bus_run [PublishEvent 1, PublishEvent 2, PublishEvent (3 :: nat)] (Subscribe 2 NewBus) = Some b \<and>
     sb_dropped (bs_cells b ! 0) = 1"
proof -
  let ?xs = "[PublishEvent 1, PublishEvent 2, PublishEvent (3 :: nat)]"
  obtain b where b: "bus_run ?xs (Subscribe 2 NewBus) = Some b" using bus_run_ok [of "Subscribe 2 NewBus" ?xs] Subscribe_ok [of NewBus 2]
    by (auto simp: step_ok_def)
  moreover have "bus_run [] (NewBus :: nat bus) = Some NewBus" "\<not> bs_closed (NewBus :: nat bus)" "0 = length (bs_cells (NewBus :: nat bus))"
    by (simp_all add: NewBus_def)
  moreover have "received_from 0 ?xs (Subscribe 2 NewBus) = []" "offered_to 0 ?xs (Subscribe 2 NewBus) = [1, 2, 3]"
    "map_option (\<lambda>b. sb_queue (bs_cells b ! 0)) (bus_run ?xs (Subscribe 2 NewBus)) = Some [1, 2]"
    by (simp_all add: Subscribe_def NewBus_def Publish_def offer_def)
  ultimately show ?thesis
    using events_delivered_or_counted [of "[]" NewBus ?xs 2 b 0] by (simp add: Let_def)
qed

end
