(* ===== verification/LogBuffer.thy ===== *)
theory LogBuffer
  imports Values
begin

text \<open>
  The log that the user interface shows, \<open>telemetry/logbuffer.go\<close>: a ring of lines that are stored
  without secrets.

  Strings are their bytes. Reading and printing JSON and the two regular expressions of
  \<open>redactText\<close> are parameters. A write is one step, because the lock is held throughout; limits
  are far below the range of an \<open>int\<close>.
\<close>

section \<open>Secrets\<close>

definition underscored :: "char \<Rightarrow> char" where
  "underscored ch = (if ch = CHR ''-'' \<or> ch = CHR ''.'' then CHR ''_'' else ch)"

definition sensitiveLogKey :: "string \<Rightarrow> bool" where
  "sensitiveLogKey key =
     (let key = map underscored (ToLower (TrimSpace key))
      in key = ''key'' \<or>
         list_ex (contains_str key)
           [''password'', ''passwd'', ''token'', ''secret'', ''authorization'', ''cookie'', ''credential'', ''api_key'',
            ''apikey'', ''private_key'', ''access_key''])"

definition redacted :: json where
  "redacted = JStr ''[REDACTED]''"

fun redactLogValue :: "(string \<Rightarrow> string) \<Rightarrow> json \<Rightarrow> json" where
  "redactLogValue text (JObj ps) =
     JObj (map (\<lambda>(k, v).
       (k, if sensitiveLogKey k then redacted
           else case v of JStr s \<Rightarrow> JStr (text s) | _ \<Rightarrow> redactLogValue text v)) ps)"
| "redactLogValue text (JArr vs) =
     JArr (map (\<lambda>v. case v of JStr s \<Rightarrow> JStr (text s) | _ \<Rightarrow> redactLogValue text v) vs)"
| "redactLogValue text v = v"

definition sanitizeLogLine ::
  "(string \<Rightarrow> string) \<Rightarrow> (string \<Rightarrow> json option) \<Rightarrow> (json \<Rightarrow> string option) \<Rightarrow> string \<Rightarrow> string" where
  "sanitizeLogLine text decode encode line =
     (case decode line of
        None \<Rightarrow> text line
      | Some v \<Rightarrow> (case encode (redactLogValue text v) of None \<Rightarrow> text line | Some s \<Rightarrow> s))"

section \<open>The ring\<close>

record log_buffer =
  lb_lines :: "string list"
  lb_next :: nat
  lb_full :: bool
  lb_pending :: string
  lb_max :: int

record log_snapshot =
  ls_lines :: "string list"
  ls_retained :: nat
  ls_capacity :: nat

definition log_capacity :: "int \<Rightarrow> nat" where
  "log_capacity capacity = nat (if capacity \<le> 0 then 4096 else capacity)"

definition log_max :: "int \<Rightarrow> int" where
  "log_max maxLineBytes = (if maxLineBytes \<le> 0 then 8192 else maxLineBytes)"

definition NewLogBuffer :: "int \<Rightarrow> int \<Rightarrow> log_buffer" where
  "NewLogBuffer capacity maxLineBytes =
     \<lparr> lb_lines = replicate (log_capacity capacity) [], lb_next = 0, lb_full = False,
       lb_pending = [], lb_max = log_max maxLineBytes \<rparr>"

definition truncation_mark :: string where
  "truncation_mark = CHR '' '' # CHR 0xE2 # CHR 0x80 # CHR 0xA6 # ''[truncated]''"

definition rune_start :: "char \<Rightarrow> bool" where
  "rune_start ch \<longleftrightarrow> \<not> (CHR 0x80 \<le> ch \<and> ch < CHR 0xC0)"

fun rune_cut :: "string \<Rightarrow> nat \<Rightarrow> nat" where
  "rune_cut line 0 = 0"
| "rune_cut line (Suc n) =
     (if Suc n < length line \<and> \<not> rune_start (line ! Suc n) then rune_cut line n else Suc n)"

definition storeLocked :: "(string \<Rightarrow> string) \<Rightarrow> string \<Rightarrow> log_buffer \<Rightarrow> log_buffer" where
  "storeLocked sanitize line b =
     (let line = TrimSpace line
      in if line = [] \<or> lb_lines b = [] then b
         else
           let line = sanitize line;
               line = (if lb_max b < int (length line)
                       then take (rune_cut line (nat (lb_max b))) line @ truncation_mark else line);
               b = b\<lparr> lb_lines := (lb_lines b)[lb_next b := line], lb_next := lb_next b + 1 \<rparr>
           in if lb_next b = length (lb_lines b) then b\<lparr> lb_next := 0, lb_full := True \<rparr> else b)"

text \<open>The loop over the lines of what is pending.\<close>

definition trim_cr :: "string \<Rightarrow> string" where
  "trim_cr s = (if s \<noteq> [] \<and> last s = CHR 0x0D then butlast s else s)"

lemma storeLocked_pending [simp]: "lb_pending (storeLocked sanitize line b) = lb_pending b"
  "lb_max (storeLocked sanitize line b) = lb_max b"
  by (simp_all add: storeLocked_def Let_def)

function store_pending :: "(string \<Rightarrow> string) \<Rightarrow> log_buffer \<Rightarrow> log_buffer" where
  "store_pending sanitize b =
     (if CHR 0x0A \<in> set (lb_pending b)
      then let i = length (takeWhile (\<lambda>ch. ch \<noteq> CHR 0x0A) (lb_pending b)); line = trim_cr (take i (lb_pending b))
        in store_pending sanitize (storeLocked sanitize line (b\<lparr> lb_pending := drop (i + 1) (lb_pending b) \<rparr>))
      else b)"
  by pat_completeness auto

termination
  by (relation "measure (\<lambda>(_, b). length (lb_pending b))") (auto simp: Let_def dest: length_pos_if_in_set)

declare store_pending.simps [simp del]

definition Write :: "(string \<Rightarrow> string) \<Rightarrow> string \<Rightarrow> log_buffer \<Rightarrow> log_buffer" where
  "Write sanitize p b =
     (if p = [] then b
      else
        let b = store_pending sanitize (b\<lparr> lb_pending := lb_pending b @ p \<rparr>)
        in if lb_max b * 2 < int (length (lb_pending b))
           then (storeLocked sanitize (take (nat (lb_max b)) (lb_pending b) @ truncation_mark) b)\<lparr> lb_pending := [] \<rparr>
           else b)"

definition log_Snapshot :: "int \<Rightarrow> log_buffer \<Rightarrow> log_snapshot" where
  "log_Snapshot limit b =
     (let count = (if lb_full b then length (lb_lines b) else lb_next b);
          ordered = (if lb_full b then drop (lb_next b) (lb_lines b) @ take (lb_next b) (lb_lines b)
                     else take (lb_next b) (lb_lines b))
      in \<lparr> ls_lines = (if 0 < limit \<and> limit < int (length ordered) then drop (length ordered - nat limit) ordered else ordered),
           ls_retained = count, ls_capacity = length (lb_lines b) \<rparr>)"

section \<open>What is shown of an object\<close>

text \<open>All keys with their values, and all texts, in the objects and lists of a value.\<close>

fun json_fields :: "json \<Rightarrow> (string \<times> json) list" where
  "json_fields (JObj ps) = concat (map (\<lambda>(k, v). (k, v) # json_fields v) ps)"
| "json_fields (JArr vs) = concat (map json_fields vs)"
| "json_fields v = []"

fun json_texts :: "json \<Rightarrow> string list" where
  "json_texts (JObj ps) = concat (map (\<lambda>(k, v). json_texts v) ps)"
| "json_texts (JArr vs) = concat (map json_texts vs)"
| "json_texts (JStr s) = [s]"
| "json_texts v = []"

definition fields_safe :: "(string \<Rightarrow> string) \<Rightarrow> json \<Rightarrow> bool" where
  "fields_safe veil v \<longleftrightarrow>
     (\<forall>(k, x) \<in> set (json_fields v). sensitiveLogKey k \<longrightarrow> x = redacted) \<and>
     set (json_texts v) \<subseteq> range veil \<union> {''[REDACTED]''}"

definition shown_value :: "(string \<Rightarrow> string) \<Rightarrow> json \<Rightarrow> json" where
  "shown_value veil v = (case v of JStr s \<Rightarrow> JStr (veil s) | _ \<Rightarrow> redactLogValue veil v)"

lemma fields_safe_simps:
  "fields_safe veil (JObj ps) \<longleftrightarrow>
     (\<forall>(k, x) \<in> set ps. (sensitiveLogKey k \<longrightarrow> x = redacted) \<and> fields_safe veil x)"
  "fields_safe veil (JArr vs) \<longleftrightarrow> (\<forall>x \<in> set vs. fields_safe veil x)"
  "fields_safe veil (JStr (veil s))" "fields_safe veil redacted"
  by (auto simp: fields_safe_def redacted_def) blast+

lemma shown_value_safe: "fields_safe veil (shown_value veil v)"
proof (induction v)
  case (JArr vs)
  then have "\<forall>x \<in> set vs. fields_safe veil (shown_value veil x)" by blast
  then show ?case by (simp add: shown_value_def [of veil "JArr vs"] fields_safe_simps) (simp add: shown_value_def)
next
  case (JObj ps)
  then have "\<forall>(k, x) \<in> set ps. fields_safe veil (shown_value veil x)" by (auto simp: snds.simps)
  then show ?case
    by (auto simp: shown_value_def [of veil "JObj ps"] fields_safe_simps) (auto simp: shown_value_def)
qed (simp_all add: shown_value_def fields_safe_simps, simp_all add: fields_safe_def)

text \<open>
  C12. No secret is shown of an object or a list: however deep it lies, the value of a key that
  names a secret is shown as redacted, and every other text has gone through the redaction of
  texts.
\<close>

theorem no_secret_shown:
  assumes "\<nexists>s. v = JStr s"
  shows "(\<forall>(k, x) \<in> set (json_fields (redactLogValue veil v)). sensitiveLogKey k \<longrightarrow> x = redacted) \<and>
    set (json_texts (redactLogValue veil v)) \<subseteq> range veil \<union> {''[REDACTED]''}"
proof -
  have "shown_value veil v = redactLogValue veil v" using assms by (cases v) (simp_all add: shown_value_def)
  with shown_value_safe [of veil v] show ?thesis by (simp add: fields_safe_def)
qed

theorem no_secret_shown_witness:
  "\<exists>veil v. (\<nexists>s. v = JStr s) \<and> (''Api-Key'', redacted) \<in> set (json_fields (redactLogValue veil v)) \<and>
     (\<forall>(k, x) \<in> set (json_fields (redactLogValue veil v)). sensitiveLogKey k \<longrightarrow> x = redacted)"
proof -
  let ?v = "JArr [JObj [(''Api-Key'', JStr ''k1''), (''level'', JStr ''info'')]]"
  have "(''Api-Key'', redacted) \<in> set (json_fields (redactLogValue (\<lambda>s. s) ?v))" by code_simp
  moreover have "\<nexists>s. ?v = JStr s" by simp
  ultimately show ?thesis using no_secret_shown [of ?v "\<lambda>s. s"] by blast
qed

text \<open>A line that is one JSON text is shown as it is, although the same text without quotes is redacted.\<close>

lemma quoted_line_shown:
  "decode line = Some (JStr s) \<Longrightarrow> encode (JStr s) = Some line \<Longrightarrow> sanitizeLogLine veil decode encode line = line"
  by (simp add: sanitizeLogLine_def)

section \<open>The last lines are kept\<close>

text \<open>The lines of a text that are complete, and the rest after the last of them.\<close>

fun lines_of :: "string \<Rightarrow> string \<Rightarrow> string list \<times> string" where
  "lines_of cur [] = ([], cur)"
| "lines_of cur (ch # s) =
     (if ch = CHR 0x0A then (let (ls, r) = lines_of [] s in (trim_cr cur # ls, r)) else lines_of (cur @ [ch]) s)"

definition shown_line :: "(string \<Rightarrow> string) \<Rightarrow> int \<Rightarrow> string \<Rightarrow> string list" where
  "shown_line sanitize limit line =
     (if TrimSpace line = [] then []
      else let line = sanitize (TrimSpace line)
        in [if limit < int (length line) then take (rune_cut line (nat limit)) line @ truncation_mark else line])"

definition newest :: "nat \<Rightarrow> 'a list \<Rightarrow> 'a list" where
  "newest n xs = drop (length xs - n) xs"

definition ring_lines :: "log_buffer \<Rightarrow> string list" where
  "ring_lines b =
     (if lb_full b then drop (lb_next b) (lb_lines b) @ take (lb_next b) (lb_lines b) else take (lb_next b) (lb_lines b))"

definition ring_ok :: "log_buffer \<Rightarrow> bool" where
  "ring_ok b \<longleftrightarrow> lb_next b < length (lb_lines b)"

lemma ring_pending_update [simp]:
  "ring_ok (b\<lparr> lb_pending := p \<rparr>) = ring_ok b" "ring_lines (b\<lparr> lb_pending := p \<rparr>) = ring_lines b"
  by (simp_all add: ring_ok_def ring_lines_def)

lemma lines_of_append:
  "lines_of cur (s @ t) =
     (fst (lines_of cur s) @ fst (lines_of (snd (lines_of cur s)) t), snd (lines_of (snd (lines_of cur s)) t))"
  by (induction cur s rule: lines_of.induct) (simp_all add: case_prod_beta)

lemma lines_of_last_part: "CHR 0x0A \<notin> set p \<Longrightarrow> lines_of cur p = ([], cur @ p)"
  by (induction p arbitrary: cur) auto

lemma lines_of_first_line:
  "CHR 0x0A \<in> set p \<Longrightarrow>
     lines_of cur p =
       (let i = length (takeWhile (\<lambda>ch. ch \<noteq> CHR 0x0A) p); r = lines_of [] (drop (i + 1) p)
        in (trim_cr (cur @ take i p) # fst r, snd r))"
  by (induction p arbitrary: cur) (auto simp: case_prod_beta Let_def)

lemma newest_append: "newest n (newest n xs @ ys) = newest n (xs @ ys)"
  by (cases "length xs \<le> n") (simp_all add: newest_def add.commute)

lemma storeLocked_pending_update:
  "storeLocked sanitize line (b\<lparr> lb_pending := p \<rparr>) = (storeLocked sanitize line b)\<lparr> lb_pending := p \<rparr>"
  by (simp add: storeLocked_def Let_def)

lemma fold_storeLocked_pending_update:
  "fold (storeLocked sanitize) ls (b\<lparr> lb_pending := p \<rparr>) = (fold (storeLocked sanitize) ls b)\<lparr> lb_pending := p \<rparr>"
  by (induction ls arbitrary: b) (simp_all add: storeLocked_pending_update)

lemma store_pending_fold:
  "store_pending sanitize b =
     (fold (storeLocked sanitize) (fst (lines_of [] (lb_pending b))) b)
       \<lparr> lb_pending := snd (lines_of [] (lb_pending b)) \<rparr>"
proof (induction sanitize b rule: store_pending.induct)
  case (1 sanitize b)
  show ?case
  proof (cases "CHR 0x0A \<in> set (lb_pending b)")
    case True
    show ?thesis
      using 1 [OF True refl refl] True
      by (subst store_pending.simps)
        (simp add: Let_def lines_of_first_line [of "lb_pending b" "[]"] storeLocked_pending_update
          fold_storeLocked_pending_update)
  next
    case False
    then show ?thesis by (subst store_pending.simps) (simp add: lines_of_last_part)
  qed
qed

lemma ring_update:
  assumes "n < length xs"
  shows "newest (length xs) ((if full then drop n xs @ take n xs else take n xs) @ [x]) =
      (if Suc n = length xs then xs[n := x]
       else if full then drop (Suc n) (xs[n := x]) @ take (Suc n) (xs[n := x]) else take (Suc n) (xs[n := x]))"
proof -
  obtain a y z where xs: "xs = a @ y # z" and n: "n = length a"
    using assms by (metis id_take_nth_drop length_take min.absorb4)
  show ?thesis unfolding xs n by (simp add: newest_def)
qed

lemma storeLocked_ring:
  assumes "ring_ok b"
  shows "ring_ok (storeLocked sanitize line b)"
    "length (lb_lines (storeLocked sanitize line b)) = length (lb_lines b)"
    "ring_lines (storeLocked sanitize line b) =
       newest (length (lb_lines b)) (ring_lines b @ shown_line sanitize (lb_max b) line)"
proof -
  show "ring_ok (storeLocked sanitize line b)"
    and "length (lb_lines (storeLocked sanitize line b)) = length (lb_lines b)"
    using assms by (auto simp: storeLocked_def Let_def ring_ok_def)
  have keep: "newest (length (lb_lines b)) (ring_lines b) = ring_lines b"
    by (auto simp: newest_def ring_lines_def)
  show "ring_lines (storeLocked sanitize line b) =
       newest (length (lb_lines b)) (ring_lines b @ shown_line sanitize (lb_max b) line)"
  proof (cases "TrimSpace line = []")
    case True
    then show ?thesis by (simp add: storeLocked_def shown_line_def keep)
  next
    case False
    have "lb_next b < length (lb_lines b)" using assms by (simp add: ring_ok_def)
    from ring_update [OF this, of "lb_full b"] False this show ?thesis
      by (auto simp: storeLocked_def shown_line_def Let_def ring_lines_def)
  qed
qed

lemma fold_storeLocked_ring:
  assumes "ring_ok b"
  shows "ring_ok (fold (storeLocked sanitize) ls b) \<and>
    length (lb_lines (fold (storeLocked sanitize) ls b)) = length (lb_lines b) \<and>
    lb_max (fold (storeLocked sanitize) ls b) = lb_max b \<and>
    ring_lines (fold (storeLocked sanitize) ls b) =
      newest (length (lb_lines b)) (ring_lines b @ concat (map (shown_line sanitize (lb_max b)) ls))"
  using assms
proof (induction ls arbitrary: b)
  case Nil
  then show ?case by (auto simp: newest_def ring_lines_def)
next
  case (Cons l ls)
  with Cons.IH [of "storeLocked sanitize l b"] show ?case by (simp add: storeLocked_ring newest_append)
qed

text \<open>What a buffer holds after some text was written.\<close>

definition holds_text :: "(string \<Rightarrow> string) \<Rightarrow> nat \<Rightarrow> int \<Rightarrow> string \<Rightarrow> log_buffer \<Rightarrow> bool" where
  "holds_text sanitize cap limit written b \<longleftrightarrow>
     ring_ok b \<and> length (lb_lines b) = cap \<and> lb_max b = limit \<and>
     lb_pending b = snd (lines_of [] written) \<and>
     ring_lines b = newest cap (concat (map (shown_line sanitize limit) (fst (lines_of [] written))))"

lemma holds_text_Write:
  assumes "holds_text sanitize cap limit written b" "int (length (snd (lines_of [] (written @ p)))) \<le> 2 * limit"
  shows "holds_text sanitize cap limit (written @ p) (Write sanitize p b)"
proof (cases "p = []")
  case True
  with assms show ?thesis by (simp add: Write_def)
next
  case False
  let ?b = "fold (storeLocked sanitize) (fst (lines_of [] (lb_pending b @ p))) b"
  have rest: "lines_of [] (lb_pending b) = ([], lb_pending b)"
  proof -
    have "CHR 0x0A \<notin> set (snd (lines_of cur s))" if "CHR 0x0A \<notin> set cur" for cur s
      using that by (induction cur s rule: lines_of.induct) (simp_all add: case_prod_beta)
    then have "CHR 0x0A \<notin> set (lb_pending b)" using assms(1) by (simp add: holds_text_def)
    then show ?thesis by (simp add: lines_of_last_part)
  qed
  have l: "lines_of [] (written @ p) = (fst (lines_of [] written) @ fst (lines_of [] (lb_pending b @ p)), snd (lines_of [] (lb_pending b @ p)))"
    using assms(1) rest by (simp add: lines_of_append holds_text_def)
  have st: "store_pending sanitize (b\<lparr> lb_pending := lb_pending b @ p \<rparr>) =
      ?b\<lparr> lb_pending := snd (lines_of [] (lb_pending b @ p)) \<rparr>"
    by (subst store_pending_fold) (simp add: fold_storeLocked_pending_update)
  have "ring_ok b" using assms(1) by (simp add: holds_text_def)
  note ring = fold_storeLocked_ring [OF this, of sanitize "fst (lines_of [] (lb_pending b @ p))"]
  have "Write sanitize p b = ?b\<lparr> lb_pending := snd (lines_of [] (lb_pending b @ p)) \<rparr>"
    using ring assms False by (simp add: Write_def st l Let_def) (simp add: holds_text_def)
  with ring assms(1) show ?thesis by (simp add: l holds_text_def newest_append)
qed

lemma Snapshot_newest:
  "ls_lines (log_Snapshot limit b) = (if 0 < limit then newest (nat limit) (ring_lines b) else ring_lines b)"
  by (auto simp: log_Snapshot_def ring_lines_def newest_def Let_def)

lemma newest_newest: "newest k (newest n xs) = newest (min k n) xs"
  by (cases "length xs \<le> n"; cases "n \<le> k") (simp_all add: newest_def min_def)

text \<open>
  C31. The log keeps the last lines: as long as no line is left open for more than twice the longest
  line, the log that is shown does not depend on how the text was cut into writes. It is the last lines
  of the whole text, as many as were asked for and the buffer holds, each without secrets.
\<close>

theorem log_keeps_last:
  assumes "\<forall>k \<le> length ps. int (length (snd (lines_of [] (concat (take k ps))))) \<le> 2 * log_max m"
  shows "ls_lines (log_Snapshot limit (fold (Write sanitize) ps (NewLogBuffer c m))) =
    newest (if 0 < limit then min (nat limit) (log_capacity c) else log_capacity c)
      (concat (map (shown_line sanitize (log_max m)) (fst (lines_of [] (concat ps)))))"
proof -
  let ?c = "log_capacity c" and ?m = "log_max m"
  have "holds_text sanitize ?c ?m (concat ps) (fold (Write sanitize) ps (NewLogBuffer c m))"
    using assms
  proof (induction ps rule: rev_induct)
    case Nil
    show ?case by (simp add: holds_text_def NewLogBuffer_def ring_ok_def ring_lines_def newest_def log_capacity_def log_max_def)
  next
    case (snoc p ps)
    have "holds_text sanitize ?c ?m (concat ps) (fold (Write sanitize) ps (NewLogBuffer c m))"
    proof (rule snoc.IH, intro allI impI)
      fix k assume "k \<le> length ps"
      with snoc.prems show "int (length (snd (lines_of [] (concat (take k ps))))) \<le> 2 * ?m" by (auto dest: spec [of _ k])
    qed
    moreover have "int (length (snd (lines_of [] (concat ps @ p)))) \<le> 2 * ?m"
      using spec [OF snoc.prems, of "Suc (length ps)"] by simp
    ultimately show ?case by (simp add: holds_text_Write)
  qed
  then show ?thesis
    by (simp add: holds_text_def Snapshot_newest newest_newest)
qed

theorem log_keeps_last_witness:
  "ls_lines (log_Snapshot 0 (fold (Write (\<lambda>s. s)) [''a'', ''b'' @ [CHR 0x0A] @ ''c'' @ [CHR 0x0A], ''d'' @ [CHR 0x0A]]
     (NewLogBuffer 2 80))) = [''c'', ''d'']"
proof -
  let ?ps = "[''a'', ''b'' @ [CHR 0x0A] @ ''c'' @ [CHR 0x0A], ''d'' @ [CHR 0x0A]]"
  have "\<forall>k \<le> length ?ps. int (length (snd (lines_of [] (concat (take k ?ps))))) \<le> 2 * log_max 80"
    by (auto simp: log_max_def le_Suc_eq trim_cr_def)
  from log_keeps_last [OF this, of 0 "\<lambda>s. s" 2] show ?thesis
    by (simp add: log_max_def log_capacity_def newest_def shown_line_def trim_cr_def) (code_simp)
qed

end
