(* ===== verification/Reservations.thy ===== *)
theory Reservations
  imports Devices
begin

text \<open>
  One execution at a time for each device: the guard of \<open>orchestration/resourceguard/guard.go\<close> and
  the way in which the services for doors, sirens and cameras start executions
  (\<open>orchestration/action/door/service.go\<close>, \<open>orchestration/action/siren/service.go\<close>,
  \<open>orchestration/recovery/camera/service.go\<close>).

  The store and the engine are not part of the repository: they are a record of functions over a
  state of any type. Each call passes the state on, so that workers may go on with executions
  while a request is being checked. Decoding of JSON and the hash that makes an execution id are
  parameters.
\<close>

section \<open>Executions and their store\<close>

datatype execution_status = StatusCompleted | StatusFailed | StatusCanceled | StatusDeadlocked | StatusOther string

record execution =
  ex_id :: string
  ex_plan :: string
  ex_version :: string
  ex_digest :: string
  ex_status :: execution_status
  ex_data :: "string \<rightharpoonup> string"

fun terminal :: "execution_status \<Rightarrow> bool" where
  "terminal StatusCompleted \<longleftrightarrow> True"
| "terminal StatusFailed \<longleftrightarrow> True"
| "terminal StatusCanceled \<longleftrightarrow> True"
| "terminal StatusDeadlocked \<longleftrightarrow> True"
| "terminal (StatusOther _) \<longleftrightarrow> False"

datatype load_error = ErrExecutionNotFound | LoadError string

text \<open>\<open>es_List\<close> is there if the store has a catalog of its executions.\<close>

record ('s, 'r) execution_store =
  es_List :: "('s \<Rightarrow> (string + string list) \<times> 's) option"
  es_Load :: "string \<Rightarrow> 's \<Rightarrow> (load_error + execution) \<times> 's"
  es_StartOrLoad :: "string \<Rightarrow> 'r \<Rightarrow> 's \<Rightarrow> (string + execution) \<times> 's"

section \<open>The guard\<close>

datatype guard_error =
  GuardStoreRequired | GuardFieldsRequired | GuardResolverRequired | ErrCatalogUnsupported
  | GuardListFailed string | GuardLoadFailed string string | GuardResolveFailed string string
  | ErrBusy string string

fun check_ids ::
  "('s, 'r) execution_store \<Rightarrow> string \<Rightarrow> string \<Rightarrow> string \<Rightarrow> (execution \<Rightarrow> string + string) \<Rightarrow> string list \<Rightarrow> 's \<Rightarrow>
   guard_error option \<times> 's" where
  "check_ids store plan candidate resource resolve [] s = (None, s)"
| "check_ids store plan candidate resource resolve (i # ids) s =
     (if i = candidate then check_ids store plan candidate resource resolve ids s
      else
        (case es_Load store i s of
           (Inl ErrExecutionNotFound, s) \<Rightarrow> check_ids store plan candidate resource resolve ids s
         | (Inl (LoadError e), s) \<Rightarrow> (Some (GuardLoadFailed i e), s)
         | (Inr x, s) \<Rightarrow>
             if ex_plan x \<noteq> plan \<or> terminal (ex_status x) then check_ids store plan candidate resource resolve ids s
             else
               (case resolve x of
                  Inl e \<Rightarrow> (Some (GuardResolveFailed i e), s)
                | Inr owned \<Rightarrow>
                    if owned = resource then (Some (ErrBusy resource i), s)
                    else check_ids store plan candidate resource resolve ids s)))"

definition Check ::
  "('s, 'r) execution_store option \<Rightarrow> string \<Rightarrow> string \<Rightarrow> string \<Rightarrow> (execution \<Rightarrow> string + string) option \<Rightarrow> 's \<Rightarrow>
   guard_error option \<times> 's" where
  "Check store plan candidate resource resolve s =
     (case store of
        None \<Rightarrow> (Some GuardStoreRequired, s)
      | Some st \<Rightarrow>
          if TrimSpace plan = [] \<or> TrimSpace candidate = [] \<or> TrimSpace resource = [] then (Some GuardFieldsRequired, s)
          else
            (case resolve of
               None \<Rightarrow> (Some GuardResolverRequired, s)
             | Some res \<Rightarrow>
                 (case es_List st of
                    None \<Rightarrow> (Some ErrCatalogUnsupported, s)
                  | Some list_ids \<Rightarrow>
                      (case list_ids s of
                         (Inl e, s) \<Rightarrow> (Some (GuardListFailed e), s)
                       | (Inr ids, s) \<Rightarrow> check_ids st plan candidate resource res ids s))))"

section \<open>The services\<close>

text \<open>A bundle is a plan with the engine that runs its executions.\<close>

record execution_bundle =
  eb_plan :: string
  eb_version :: string
  eb_digest :: string
  eb_engine :: bool

datatype bundle_error = ErrUnknownExecutionBundle | ErrExecutionBundleMismatch | BundleEngineMissing

definition bundleForExecution :: "(string \<rightharpoonup> execution_bundle) \<Rightarrow> execution \<Rightarrow> bundle_error + execution_bundle" where
  "bundleForExecution bundles x =
     (case bundles (ex_digest x) of
        None \<Rightarrow> Inl ErrUnknownExecutionBundle
      | Some b \<Rightarrow>
          if ex_plan x \<noteq> eb_plan b \<or> ex_version x \<noteq> eb_version b \<or> ex_digest x \<noteq> eb_digest b
          then Inl ErrExecutionBundleMismatch
          else if \<not> eb_engine b then Inl BundleEngineMissing
          else Inr b)"

text \<open>The service for sirens asks for the engine first.\<close>

definition sirenBundleForExecution :: "(string \<rightharpoonup> execution_bundle) \<Rightarrow> execution \<Rightarrow> bundle_error + execution_bundle" where
  "sirenBundleForExecution bundles x =
     (case bundles (ex_digest x) of
        None \<Rightarrow> Inl ErrUnknownExecutionBundle
      | Some b \<Rightarrow>
          if \<not> eb_engine b then Inl ErrUnknownExecutionBundle
          else if ex_plan x \<noteq> eb_plan b \<or> ex_version x \<noteq> eb_version b \<or> ex_digest x \<noteq> eb_digest b
          then Inl ErrExecutionBundleMismatch
          else Inr b)"

type_synonym bundle_check = "(string \<rightharpoonup> execution_bundle) \<Rightarrow> execution \<Rightarrow> bundle_error + execution_bundle"

datatype start_error =
  StartInvalid string | StartBusy guard_error | StartBundle bundle_error | StartStore string

text \<open>
  What a service that is open has: its store, its bundles, the name of its plan, how an
  execution id is made, and how the data of a request are decoded.
\<close>

record ('s, 'r) device_service =
  ds_store :: "('s, 'r) execution_store"
  ds_bundles :: "string \<rightharpoonup> execution_bundle"
  ds_plan :: string
  ds_id :: "'r \<Rightarrow> string"
  ds_decode :: "string \<Rightarrow> string + 'r"

definition start_execution ::
  "bundle_check \<Rightarrow> ('r \<Rightarrow> string option) \<Rightarrow> ('r \<Rightarrow> string) \<Rightarrow> ((string \<Rightarrow> string + 'r) \<Rightarrow> execution \<Rightarrow> string + string) \<Rightarrow>
   ('s, 'r) device_service \<Rightarrow> 'r \<Rightarrow> 's \<Rightarrow> (start_error + execution) \<times> 's" where
  "start_execution bundle_of validate resource persisted d request s =
     (case validate request of
        Some e \<Rightarrow> (Inl (StartInvalid e), s)
      | None \<Rightarrow>
          let i = ds_id d request
          in (case Check (Some (ds_store d)) (ds_plan d) i (resource request) (Some (persisted (ds_decode d))) s of
                (Some e, s) \<Rightarrow> (Inl (StartBusy e), s)
              | (None, s) \<Rightarrow>
                  (case es_Load (ds_store d) i s of
                     (Inr existing, s) \<Rightarrow>
                       if \<not> terminal (ex_status existing)
                       then (case bundle_of (ds_bundles d) existing of
                               Inl e \<Rightarrow> (Inl (StartBundle e), s)
                             | Inr _ \<Rightarrow> (Inr existing, s))
                       else (Inr existing, s)
                   | (Inl (LoadError e), s) \<Rightarrow> (Inl (StartStore e), s)
                   | (Inl ErrExecutionNotFound, s) \<Rightarrow>
                       (case es_StartOrLoad (ds_store d) i request s of
                          (Inl e, s) \<Rightarrow> (Inl (StartStore e), s)
                        | (Inr x, s) \<Rightarrow> (Inr x, s)))))"

definition persisted_resource ::
  "('r \<Rightarrow> string) \<Rightarrow> string \<Rightarrow> (string \<Rightarrow> string + 'r) \<Rightarrow> execution \<Rightarrow> string + string" where
  "persisted_resource device kind decode x =
     (case ex_data x ''request'' of
        None \<Rightarrow> Inl ''persisted request is missing''
      | Some raw \<Rightarrow>
          (case decode raw of
             Inl e \<Rightarrow> Inl e
           | Inr r \<Rightarrow>
               if TrimSpace (device r) = [] then Inl ''persisted device id is empty''
               else Inr (kind @ TrimSpace (device r))))"


definition sirenResourceKey :: "string \<Rightarrow> string" where
  "sirenResourceKey siren = ''siren:'' @ TrimSpace siren"

definition cameraResourceKey :: "string \<Rightarrow> string" where
  "cameraResourceKey camera = ''camera-recovery:'' @ TrimSpace camera"


definition persistedSirenResource :: "(string \<Rightarrow> string + siren_request) \<Rightarrow> execution \<Rightarrow> string + string" where
  "persistedSirenResource = persisted_resource sq_siren ''siren:''"

definition persistedCameraResource :: "(string \<Rightarrow> string + camera_request) \<Rightarrow> execution \<Rightarrow> string + string" where
  "persistedCameraResource = persisted_resource cr_camera ''camera-recovery:''"


definition startSiren :: "('s, siren_request) device_service \<Rightarrow> siren_request \<Rightarrow> 's \<Rightarrow> (start_error + execution) \<times> 's" where
  "startSiren = start_execution sirenBundleForExecution siren_Validate (\<lambda>r. sirenResourceKey (sq_siren r)) persistedSirenResource"

definition startCamera :: "('s, camera_request) device_service \<Rightarrow> camera_request \<Rightarrow> 's \<Rightarrow> (start_error + execution) \<times> 's" where
  "startCamera = start_execution bundleForExecution camera_Validate (\<lambda>r. cameraResourceKey (cr_camera r)) persistedCameraResource"

text \<open>The check of the executions that are found when a service opens.\<close>

fun validate_ids ::
  "('s, 'r) execution_store \<Rightarrow> (string \<rightharpoonup> execution_bundle) \<Rightarrow> string list \<Rightarrow> 's \<Rightarrow> start_error option \<times> 's" where
  "validate_ids store bundles [] s = (None, s)"
| "validate_ids store bundles (i # ids) s =
     (case es_Load store i s of
        (Inl ErrExecutionNotFound, s) \<Rightarrow> validate_ids store bundles ids s
      | (Inl (LoadError e), s) \<Rightarrow> (Some (StartStore e), s)
      | (Inr x, s) \<Rightarrow>
          if terminal (ex_status x) then validate_ids store bundles ids s
          else (case bundleForExecution bundles x of
                  Inl e \<Rightarrow> (Some (StartBundle e), s)
                | Inr _ \<Rightarrow> validate_ids store bundles ids s))"

definition validatePersistedExecutions ::
  "('s, 'r) execution_store \<Rightarrow> (string \<rightharpoonup> execution_bundle) \<Rightarrow> 's \<Rightarrow> start_error option \<times> 's" where
  "validatePersistedExecutions store bundles s =
     (case es_List store of
        None \<Rightarrow> (Some (StartStore ''durable store does not expose an execution catalog''), s)
      | Some list_ids \<Rightarrow>
          (case list_ids s of
             (Inl e, s) \<Rightarrow> (Some (StartStore e), s)
           | (Inr ids, s) \<Rightarrow> validate_ids store bundles ids s))"

section \<open>What the store promises\<close>

text \<open>
  What may happen to the executions of a plan while a service works: they may go on, end, and be
  forgotten. Executions of other plans may come.
\<close>

definition goes_on :: "string \<Rightarrow> (string \<rightharpoonup> execution) \<Rightarrow> (string \<rightharpoonup> execution) \<Rightarrow> bool" where
  "goes_on plan m m' \<longleftrightarrow>
     (\<forall>i x'. m' i = Some x' \<longrightarrow> ex_plan x' = plan \<longrightarrow>
        (\<exists>x. m i = Some x \<and> ex_plan x = plan \<and> ex_data x' = ex_data x \<and>
           (terminal (ex_status x) \<longrightarrow> terminal (ex_status x'))))"

text \<open>
  The contract of the store, whose executions in a state are \<open>E s\<close>: what it lists and loads is
  there, and starting adds no execution of the plan but the one it was asked for, with the request
  as its data.
\<close>

definition store_keeps ::
  "('s \<Rightarrow> string \<rightharpoonup> execution) \<Rightarrow> ('s, 'r) device_service \<Rightarrow> bool" where
  "store_keeps E d \<longleftrightarrow>
     (\<forall>list_ids s r s'. es_List (ds_store d) = Some list_ids \<longrightarrow> list_ids s = (r, s') \<longrightarrow>
        goes_on (ds_plan d) (E s) (E s') \<and> (\<forall>ids. r = Inr ids \<longrightarrow> dom (E s') \<subseteq> set ids)) \<and>
     (\<forall>i s r s'. es_Load (ds_store d) i s = (r, s') \<longrightarrow>
        goes_on (ds_plan d) (E s) (E s') \<and> (\<forall>x. r = Inr x \<longrightarrow> E s' i = Some x) \<and>
        (r = Inl ErrExecutionNotFound \<longrightarrow> E s' i = None)) \<and>
     (\<forall>i q s r s'. es_StartOrLoad (ds_store d) i q s = (r, s') \<longrightarrow>
        (goes_on (ds_plan d) (E s) (E s') \<or>
         (\<exists>x raw. ex_data x ''request'' = Some raw \<and> ds_decode d raw = Inr q \<and>
            goes_on (ds_plan d) ((E s)(i \<mapsto> x)) (E s'))))"

text \<open>A service at work: requests are started one after the other, executions go on in between.\<close>

inductive service_reachable ::
  "('r \<Rightarrow> 's \<Rightarrow> 'x \<times> 's) \<Rightarrow> string \<Rightarrow> ('s \<Rightarrow> string \<rightharpoonup> execution) \<Rightarrow> 's \<Rightarrow> bool"
  for start plan E where
  open_empty: "E s = Map.empty \<Longrightarrow> service_reachable start plan E s"
| start_request: "service_reachable start plan E s \<Longrightarrow> start r s = (x, s') \<Longrightarrow> service_reachable start plan E s'"
| work: "service_reachable start plan E s \<Longrightarrow> goes_on plan (E s) (E s') \<Longrightarrow> service_reachable start plan E s'"

definition owns ::
  "((string \<Rightarrow> string + 'r) \<Rightarrow> execution \<Rightarrow> string + string) \<Rightarrow> ('s, 'r) device_service \<Rightarrow> execution \<Rightarrow> string \<Rightarrow> bool" where
  "owns persisted d x a \<longleftrightarrow>
     ex_plan x = ds_plan d \<and> \<not> terminal (ex_status x) \<and> persisted (ds_decode d) x = Inr a"

lemma goes_on_refl: "goes_on plan m m"
  by (auto simp: goes_on_def)

lemma goes_on_trans: "goes_on plan m m1 \<Longrightarrow> goes_on plan m1 m2 \<Longrightarrow> goes_on plan m m2"
  unfolding goes_on_def by metis

lemma store_keeps_list:
  "store_keeps E d \<Longrightarrow> es_List (ds_store d) = Some list_ids \<Longrightarrow> list_ids s = (r, s') \<Longrightarrow>
     goes_on (ds_plan d) (E s) (E s') \<and> (\<forall>ids. r = Inr ids \<longrightarrow> dom (E s') \<subseteq> set ids)"
  unfolding store_keeps_def by (drule conjunct1) (elim allE impE, assumption+)

lemma store_keeps_load:
  "store_keeps E d \<Longrightarrow> es_Load (ds_store d) i s = (l, s') \<Longrightarrow>
     goes_on (ds_plan d) (E s) (E s') \<and> (\<forall>x. l = Inr x \<longrightarrow> E s' i = Some x) \<and>
     (l = Inl ErrExecutionNotFound \<longrightarrow> E s' i = None)"
  unfolding store_keeps_def by (drule conjunct2, drule conjunct1) (elim allE impE, assumption)

lemma store_keeps_start:
  "store_keeps E d \<Longrightarrow> es_StartOrLoad (ds_store d) i q s = (z, s') \<Longrightarrow>
     goes_on (ds_plan d) (E s) (E s') \<or>
     (\<exists>x raw. ex_data x ''request'' = Some raw \<and> ds_decode d raw = Inr q \<and>
        goes_on (ds_plan d) ((E s)(i \<mapsto> x)) (E s'))"
  unfolding store_keeps_def by (drule conjunct2, drule conjunct2) (elim allE impE, assumption)

text \<open>
  The contract of a kind of device: what is read from the data of an execution that was started
  for a valid request is the resource of the request, and nothing but the data is read.
\<close>

locale device_kind =
  fixes validate :: "'r \<Rightarrow> string option"
    and resource :: "'r \<Rightarrow> string"
    and persisted :: "(string \<Rightarrow> string + 'r) \<Rightarrow> execution \<Rightarrow> string + string"
  assumes persisted_started:
      "validate r = None \<Longrightarrow> ex_data x ''request'' = Some raw \<Longrightarrow> decode raw = Inr r \<Longrightarrow>
       persisted decode x = Inr (resource r)"
    and persisted_data: "ex_data x = ex_data y \<Longrightarrow> persisted decode x = persisted decode y"
begin

lemma goes_on_owner:
  assumes "goes_on (ds_plan d) m m'" and "m' i = Some x'" and "owns persisted d x' a"
  shows "\<exists>x. m i = Some x \<and> owns persisted d x a"
proof -
  obtain x where "m i = Some x" "ex_plan x = ds_plan d" "ex_data x' = ex_data x"
      "terminal (ex_status x) \<longrightarrow> terminal (ex_status x')"
    using assms unfolding goes_on_def owns_def by blast
  then show ?thesis using assms(3) persisted_data [of x' x] by (auto simp: owns_def)
qed

lemma check_ids_free:
  assumes "store_keeps E d"
    and "check_ids (ds_store d) (ds_plan d) c a (persisted (ds_decode d)) ids s = (e, s')"
  shows "goes_on (ds_plan d) (E s) (E s') \<and>
    (e = None \<longrightarrow> (\<forall>i x. i \<in> set ids \<longrightarrow> i \<noteq> c \<longrightarrow> E s' i = Some x \<longrightarrow> \<not> owns persisted d x a))"
  using assms(2)
proof (induction ids arbitrary: s)
  case Nil
  then show ?case by (simp add: goes_on_refl)
next
  case (Cons i ids)
  let ?rest = "check_ids (ds_store d) (ds_plan d) c a (persisted (ds_decode d)) ids"
  show ?case
  proof (cases "i = c")
    case True
    with Cons show ?thesis by auto
  next
    case False
    obtain l s1 where l: "es_Load (ds_store d) i s = (l, s1)" by fastforce
    note kept = store_keeps_load [OF assms(1) l]
    have "?rest s1 = (e, s') \<and> (\<forall>x. E s1 i = Some x \<longrightarrow> \<not> owns persisted d x a) \<or> e \<noteq> None \<and> s' = s1"
      using Cons.prems False l kept by (auto simp: owns_def split: sum.splits load_error.splits if_splits)
    then show ?thesis
    proof
      assume r: "?rest s1 = (e, s') \<and> (\<forall>x. E s1 i = Some x \<longrightarrow> \<not> owns persisted d x a)"
      with Cons.IH [of s1] kept goes_on_owner [of d "E s1" "E s'" i] show ?thesis by (auto intro: goes_on_trans)
    qed (use kept in auto)
  qed
qed

lemma Check_free:
  assumes "store_keeps E d"
    and "Check (Some (ds_store d)) (ds_plan d) c a (Some (persisted (ds_decode d))) s = (e, s')"
  shows "goes_on (ds_plan d) (E s) (E s') \<and>
    (e = None \<longrightarrow> (\<forall>i x. i \<noteq> c \<longrightarrow> E s' i = Some x \<longrightarrow> \<not> owns persisted d x a))"
proof (cases "\<exists>list_ids. es_List (ds_store d) = Some list_ids \<and> (\<exists>ids s1. list_ids s = (Inr ids, s1) \<and>
    check_ids (ds_store d) (ds_plan d) c a (persisted (ds_decode d)) ids s1 = (e, s'))")
  case True
  then obtain list_ids ids s1 where l: "es_List (ds_store d) = Some list_ids" "list_ids s = (Inr ids, s1)"
      "check_ids (ds_store d) (ds_plan d) c a (persisted (ds_decode d)) ids s1 = (e, s')" by blast
  note kept = store_keeps_list [OF assms(1) l(1,2)] and free = check_ids_free [OF assms(1) l(3)]
  have "\<not> owns persisted d x a" if x: "e = None" "i \<noteq> c" "E s' i = Some x" for i x
  proof
    assume o: "owns persisted d x a"
    then obtain x1 where "E s1 i = Some x1" using goes_on_owner [of d "E s1" "E s'" i x a] free x(3) by blast
    then have "i \<in> set ids" using kept by auto
    with free x o show False by blast
  qed
  moreover have "goes_on (ds_plan d) (E s) (E s')"
    by (rule goes_on_trans [OF kept [THEN conjunct1] free [THEN conjunct1]])
  ultimately show ?thesis by simp
next
  case False
  then have "e \<noteq> None \<and> goes_on (ds_plan d) (E s) (E s')"
    using assms(2) store_keeps_list [OF assms(1)]
    by (auto simp: Check_def goes_on_refl split: if_splits option.splits prod.splits sum.splits)
  then show ?thesis by auto
qed

definition one_owner :: "('s, 'r) device_service \<Rightarrow> (string \<rightharpoonup> execution) \<Rightarrow> bool" where
  "one_owner d m \<longleftrightarrow>
     (\<forall>i j x y a. m i = Some x \<longrightarrow> m j = Some y \<longrightarrow> owns persisted d x a \<longrightarrow> owns persisted d y a \<longrightarrow> i = j)"

lemma goes_on_one_owner:
  assumes "goes_on (ds_plan d) m m'" and "one_owner d m"
  shows "one_owner d m'"
  unfolding one_owner_def
proof (intro allI impI)
  fix i j x y a
  assume "m' i = Some x" "m' j = Some y" "owns persisted d x a" "owns persisted d y a"
  with goes_on_owner [OF assms(1)] obtain x' y' where
    "m i = Some x'" "m j = Some y'" "owns persisted d x' a" "owns persisted d y' a" by blast
  with assms(2) show "i = j" unfolding one_owner_def by blast
qed

lemma add_one_owner:
  assumes "one_owner d m" and new: "\<And>a. owns persisted d x a \<Longrightarrow> a = b"
    and other: "\<And>j y. j \<noteq> i \<Longrightarrow> m j = Some y \<Longrightarrow> \<not> owns persisted d y b"
  shows "one_owner d (m(i \<mapsto> x))"
  unfolding one_owner_def
proof (intro allI impI)
  fix j k y z a
  assume y: "(m(i \<mapsto> x)) j = Some y" and z: "(m(i \<mapsto> x)) k = Some z"
    and o: "owns persisted d y a" "owns persisted d z a"
  consider "j = i" "k = i" | "j = i" "k \<noteq> i" | "j \<noteq> i" "k = i" | "j \<noteq> i" "k \<noteq> i" by blast
  then show "j = k"
  proof cases
    case 2
    with y z o new [of a] other [of k z] show ?thesis by simp
  next
    case 3
    with y z o new [of a] other [of j y] show ?thesis by simp
  next
    case 4
    with y z have "m j = Some y" "m k = Some z" by simp_all
    with assms(1) o show ?thesis unfolding one_owner_def by blast
  qed simp
qed

lemma start_one_owner:
  assumes "store_keeps E d" and "one_owner d (E s)"
    and "start_execution bundle_of validate resource persisted d r s = (res, s')"
  shows "one_owner d (E s')"
proof (cases "validate r")
  case (Some e)
  with assms show ?thesis by (simp add: start_execution_def)
next
  case None
  let ?i = "ds_id d r"
  obtain c s1 where c: "Check (Some (ds_store d)) (ds_plan d) ?i (resource r) (Some (persisted (ds_decode d))) s = (c, s1)"
    by fastforce
  note free = Check_free [OF assms(1) c]
  then have one1: "one_owner d (E s1)" using assms(2) goes_on_one_owner by blast
  obtain l s2 where l: "es_Load (ds_store d) ?i s1 = (l, s2)" by fastforce
  note kept = store_keeps_load [OF assms(1) l]
  then have one2: "one_owner d (E s2)" using one1 goes_on_one_owner by blast
  obtain z s3 where z: "es_StartOrLoad (ds_store d) ?i r s2 = (z, s3)" by fastforce
  have cases: "s' = s1 \<or> s' = s2 \<or> c = None \<and> s' = s3"
    using assms(3)
    by (simp add: start_execution_def None c l z Let_def split: option.splits sum.splits load_error.splits if_splits)
  have "one_owner d (E s3)" if "c = None"
    using store_keeps_start [OF assms(1) z]
  proof
    assume "goes_on (ds_plan d) (E s2) (E s3)"
    with one2 show ?thesis using goes_on_one_owner by blast
  next
    assume "\<exists>x raw. ex_data x ''request'' = Some raw \<and> ds_decode d raw = Inr r \<and> goes_on (ds_plan d) ((E s2)(?i \<mapsto> x)) (E s3)"
    then obtain x raw where x: "ex_data x ''request'' = Some raw" "ds_decode d raw = Inr r"
        "goes_on (ds_plan d) ((E s2)(?i \<mapsto> x)) (E s3)" by blast
    have "persisted (ds_decode d) x = Inr (resource r)" using None x(1,2) by (rule persisted_started)
    then have new: "a = resource r" if "owns persisted d x a" for a using that by (simp add: owns_def)
    have other: "\<not> owns persisted d y (resource r)" if "j \<noteq> ?i" "E s2 j = Some y" for j y
    proof
      assume "owns persisted d y (resource r)"
      from goes_on_owner [OF conjunct1 [OF kept] that(2) this] free that(1) \<open>c = None\<close> show False by blast
    qed
    have "one_owner d ((E s2)(?i \<mapsto> x))"
      by (rule add_one_owner [OF one2 new other])
    with x(3) show ?thesis using goes_on_one_owner by blast
  qed
  with cases one1 one2 show ?thesis by blast
qed

lemma check_ids_busy:
  assumes "store_keeps E d"
    and "check_ids (ds_store d) (ds_plan d) c a (persisted (ds_decode d)) ids s = (Some (ErrBusy b k), s')"
  shows "b = a \<and> k \<noteq> c \<and> (\<exists>x. E s' k = Some x \<and> owns persisted d x a)"
  using assms(2)
proof (induction ids arbitrary: s)
  case (Cons i ids)
  show ?case
  proof (cases "i = c")
    case True
    with Cons show ?thesis by auto
  next
    case False
    obtain l s1 where l: "es_Load (ds_store d) i s = (l, s1)" by fastforce
    from Cons.prems False l store_keeps_load [OF assms(1) l] Cons.IH [of s1] show ?thesis
      by (auto simp: owns_def split: sum.splits load_error.splits if_splits)
  qed
qed simp

lemma start_busy:
  assumes "store_keeps E d"
    and "start_execution bundle_of validate resource persisted d r s = (Inl (StartBusy (ErrBusy b k)), s')"
  shows "b = resource r \<and> k \<noteq> ds_id d r \<and> (\<exists>x. E s' k = Some x \<and> owns persisted d x (resource r))"
proof -
  obtain ids s1 where "check_ids (ds_store d) (ds_plan d) (ds_id d r) (resource r) (persisted (ds_decode d)) ids s1 =
      (Some (ErrBusy b k), s')"
    using assms(2)
    by (auto simp: start_execution_def Check_def Let_def
        split: if_splits option.splits prod.splits sum.splits load_error.splits)
  from check_ids_busy [OF assms(1) this] show ?thesis .
qed

lemma reachable_one_owner:
  assumes "store_keeps E d" and "service_reachable (start_execution bundle_of validate resource persisted d) (ds_plan d) E s"
  shows "one_owner d (E s)"
  using assms(2)
proof induction
  case (open_empty s)
  then show ?case by (simp add: one_owner_def)
next
  case (start_request s r x s')
  with start_one_owner [OF assms(1)] show ?case by blast
next
  case (work s s')
  with goes_on_one_owner show ?case by blast
qed

end


interpretation siren_kind: device_kind siren_Validate "\<lambda>r. sirenResourceKey (sq_siren r)" persistedSirenResource
  by unfold_locales
    (auto simp: siren_Validate_def persistedSirenResource_def persisted_resource_def sirenResourceKey_def checks_None split: if_splits)

interpretation camera_kind: device_kind camera_Validate "\<lambda>r. cameraResourceKey (cr_camera r)" persistedCameraResource
  by unfold_locales
    (auto simp: camera_Validate_def persistedCameraResource_def persisted_resource_def cameraResourceKey_def checks_None split: if_splits)


lemma one_execution_per_siren:
  "store_keeps E d \<Longrightarrow> service_reachable (startSiren d) (ds_plan d) E s \<Longrightarrow> siren_kind.one_owner d (E s)"
  unfolding startSiren_def by (rule siren_kind.reachable_one_owner)

lemma one_execution_per_camera:
  "store_keeps E d \<Longrightarrow> service_reachable (startCamera d) (ds_plan d) E s \<Longrightarrow> camera_kind.one_owner d (E s)"
  unfolding startCamera_def by (rule camera_kind.reachable_one_owner)














end
