(* ===== verification/Rollout.thy ===== *)
theory Rollout
  imports Prelude
begin

text \<open>
  Changes that are undone when they fail: the coordinator of \<open>apply/coordinator.go\<close>, and the roll-out
  of a configuration to Frigate, \<open>integrations/frigate/apply.go\<close>.

  The flag of \<open>SaveConfig\<close> is always set and is left out. The target of a change, the control
  interface of Frigate, the clock and the encoding of JSON are outside: records of functions that pass the state of the world on. The loop that waits for
  Frigate takes fuel, with \<^const>\<open>None\<close> when it runs out.
\<close>

section \<open>The coordinator\<close>


















section \<open>The roll-out to Frigate\<close>

record ('c, 's) frigate_control =
  fk_Version :: "'s \<Rightarrow> (string + string) \<times> 's"
  fk_Config :: "'s \<Rightarrow> (string + 'c) \<times> 's"
  fk_SaveConfig :: "string \<Rightarrow> 's \<Rightarrow> string option \<times> 's"
  fk_Restart :: "'s \<Rightarrow> string option \<times> 's"
  fk_Streams :: "'s \<Rightarrow> (string + string list) \<times> 's"


record frigate_result =
  fr_applied :: bool
  fr_rolled_back :: bool
  fr_checksum :: string
  fr_version :: string

datatype frigate_error =
  ControlUnavailable | InvalidConfig | SecretSinkRequired | SecretsFailed string | SnapshotFailed string
  | EncodeFailed | ConfigRejected string | RestartFailed string | NotReady string | WaitCancelled string
  | RolledBack frigate_error | RollbackAlsoFailed frigate_error string | RollbackNotHealthy frigate_error frigate_error

text \<open>The applier, with the clock, the wait that a context may end, and the functions of libraries.\<close>

record ('c, 's) applier =
  ap_control :: "('c, 's) frigate_control option"
  ap_secrets :: "((string \<times> string) list \<Rightarrow> 's \<Rightarrow> string option \<times> 's) option"
  ap_poll :: int
  ap_now :: "'s \<Rightarrow> int"
  ap_wait :: "int \<Rightarrow> 's \<Rightarrow> string option \<times> 's"
  ap_valid :: "string \<Rightarrow> bool"
  ap_encode :: "'c \<Rightarrow> string option"
  ap_sum :: "string \<Rightarrow> string"

text \<open>
  One reading: the version if Frigate is ready, and otherwise what is missing. No name stands for
  no missing stream, so that a stream without a name is not missed.
\<close>

definition read_ready :: "('c, 's) frigate_control \<Rightarrow> string list \<Rightarrow> 's \<Rightarrow> (string + string) \<times> 's" where
  "read_ready c expected s =
     (case fk_Version c s of
        (Inl e, s) \<Rightarrow> (Inl e, s)
      | (Inr v, s) \<Rightarrow>
          (case fk_Streams c s of
             (Inl e, s) \<Rightarrow> (Inl e, s)
           | (Inr streams, s) \<Rightarrow>
               (case find (\<lambda>n. n \<notin> set streams) expected of
                  None \<Rightarrow> (Inr v, s)
                | Some n \<Rightarrow> if n = [] then (Inr v, s) else (Inl (''expected go2rtc stream '' @ n @ '' not active''), s))))"

fun poll_ready ::
  "nat \<Rightarrow> ('c, 's) applier \<Rightarrow> ('c, 's) frigate_control \<Rightarrow> int \<Rightarrow> string list \<Rightarrow> 's \<Rightarrow>
   ((frigate_error + string) \<times> 's) option" where
  "poll_ready 0 a c deadline expected s = None"
| "poll_ready (Suc n) a c deadline expected s =
     (case read_ready c expected s of
        (Inr v, s) \<Rightarrow> Some (Inr v, s)
      | (Inl e, s) \<Rightarrow>
          if deadline < ap_now a s then Some (Inl (NotReady e), s)
          else
            (case ap_wait a (if ap_poll a \<le> 0 then 500 * 10 ^ 6 else ap_poll a) s of
               (Some e, s) \<Rightarrow> Some (Inl (WaitCancelled e), s)
             | (None, s) \<Rightarrow> poll_ready n a c deadline expected s))"

definition waitReady ::
  "nat \<Rightarrow> ('c, 's) applier \<Rightarrow> ('c, 's) frigate_control \<Rightarrow> int \<Rightarrow> string list \<Rightarrow> 's \<Rightarrow>
   ((frigate_error + string) \<times> 's) option" where
  "waitReady fuel a c timeout expected s =
     (let timeout = (if timeout \<le> 0 then 30 * 10 ^ 9 else timeout)
      in poll_ready fuel a c (ap_now a s + timeout) expected s)"

definition frigate_rollback ::
  "nat \<Rightarrow> ('c, 's) applier \<Rightarrow> ('c, 's) frigate_control \<Rightarrow> string \<Rightarrow> frigate_result \<Rightarrow> frigate_error \<Rightarrow> 's \<Rightarrow>
   ((frigate_result \<times> frigate_error option) \<times> 's) option" where
  "frigate_rollback fuel a c previous r cause s =
     (let r = r\<lparr> fr_rolled_back := True \<rparr>;
          restored = (case fk_SaveConfig c previous s of (Some e, s) \<Rightarrow> (Some e, s) | (None, s) \<Rightarrow> fk_Restart c s)
      in (case restored of
            (Some e, s) \<Rightarrow> Some ((r, Some (RollbackAlsoFailed cause e)), s)
          | (None, s) \<Rightarrow>
              map_option (\<lambda>(x, s).
                 (case x of
                    Inl e \<Rightarrow> ((r, Some (RollbackNotHealthy cause e)), s)
                  | Inr _ \<Rightarrow> ((r, Some (RolledBack cause)), s)))
                (waitReady fuel a c (15 * 10 ^ 9) [] s)))"


















text \<open>A rollback that fails is reported as a rollback all the same.\<close>

lemma failed_rollback_claimed:
  "fk_SaveConfig c previous s = (Some e, s') \<Longrightarrow>
     frigate_rollback fuel a c previous r cause s = Some ((r\<lparr> fr_rolled_back := True \<rparr>, Some (RollbackAlsoFailed cause e)), s')"
  by (simp add: frigate_rollback_def Let_def)

text \<open>A stream without a name hides the streams that are missing after it.\<close>

lemma nameless_stream_hides:
  "fk_Version c s = (Inr v, s1) \<Longrightarrow> fk_Streams c s1 = (Inr [], s2) \<Longrightarrow> read_ready c [[], ''yard''] s = (Inr v, s2)"
  by (simp add: read_ready_def)

section \<open>A file, and a Frigate with one camera\<close>







end
