(* ===== verification/IncidentEngine.thy ===== *)
theory IncidentEngine
  imports Ingress Observations "HOL-Library.Multiset"
begin

text \<open>
  Incidents from events: the engine of \<open>incidents/correlation.go\<close>, with the incidents of
  \<open>incidents/model.go\<close> and the envelopes of \<open>events/envelope.go\<close>.

  The engine keeps pointers to its incidents and copies of them. An incident has one pointer, so
  the incidents that are pointed to are a list that is updated in place. Reading the payload as an
  object and making an id are parameters: the first gives the texts among the fields of the object,
  the second is what the n-th call answers. Times are nanoseconds.
\<close>

section \<open>Envelopes and incidents\<close>

record envelope =
  ve_schema :: int
  ve_id :: string
  ve_type :: string
  ve_source :: string
  ve_occurred :: int
  ve_received :: int
  ve_correlation :: string
  ve_causation :: string
  ve_severity :: string
  ve_payload :: string

definition envelope_Validate :: "(string \<Rightarrow> bool) \<Rightarrow> envelope \<Rightarrow> string option" where
  "envelope_Validate json_ok e =
     checks
       [fails_if (ve_schema e \<noteq> 1) ''unsupported event schema'',
        fails_if (\<not> ValidFor ''evt'' (ve_id e)) ''invalid event id'',
        fails_if (ve_type e = [] \<or> ve_source e = []) ''event type/source required'',
        fails_if (ve_occurred e = zero_time \<or> ve_received e = zero_time) ''event timestamps required'',
        fails_if (\<not> ValidFor ''cor'' (ve_correlation e)) ''invalid correlation id'',
        fails_if (ve_severity e = []) ''severity required'',
        fails_if (\<not> json_ok (ve_payload e)) ''payload must be valid json'']"

datatype incident_state = IncidentOpen | IncidentClosed

record incident =
  in_id :: string
  in_state :: incident_state
  in_opened :: int
  in_last :: int
  in_location :: string
  in_camera :: string
  in_correlations :: "string list"
  in_objects :: "string list"
  in_events :: "string list"

record clues =
  cl_location :: string
  cl_camera :: string
  cl_object :: string
  cl_door :: bool

fun first_text :: "(string \<rightharpoonup> string) \<Rightarrow> string list \<Rightarrow> string" where
  "first_text m [] = []"
| "first_text m (k # ks) =
     (case m k of Some v \<Rightarrow> if v \<noteq> [] then v else first_text m ks | None \<Rightarrow> first_text m ks)"

definition door_types :: "string list" where
  "door_types = [''intercom.button.pressed'', ''door.opened'', ''door.closed'', ''door.unlock.requested'', ''door.unlock.completed'']"

definition extractClues :: "(string \<Rightarrow> (string \<rightharpoonup> string) option) \<Rightarrow> envelope \<Rightarrow> clues" where
  "extractClues decode e =
     (case decode (ve_payload e) of
        None \<Rightarrow> \<lparr> cl_location = [], cl_camera = [], cl_object = [], cl_door = False \<rparr>
      | Some m \<Rightarrow>
          let camera = first_text m [''camera_id'', ''camera'']; location = first_text m [''location''];
              object = first_text m [''object_id'', ''event_id'']; door = ve_type e \<in> set door_types
          in \<lparr> cl_location = (if location = [] then camera else location), cl_camera = camera,
               cl_object = (if door then [] else object), cl_door = door \<rparr>)"

definition exactCorrelation :: "incident \<Rightarrow> string \<Rightarrow> bool" where
  "exactCorrelation i c \<longleftrightarrow> ValidFor ''cor'' c \<and> c \<in> set (in_correlations i)"

definition samePlace :: "incident \<Rightarrow> clues \<Rightarrow> bool" where
  "samePlace i c \<longleftrightarrow>
     (if cl_location c \<noteq> [] \<and> in_location i \<noteq> [] then cl_location c = in_location i
      else if cl_camera c \<noteq> [] \<and> in_camera i \<noteq> [] then cl_camera c = in_camera i
      else False)"

definition add_new :: "'a \<Rightarrow> 'a list \<Rightarrow> 'a list" where
  "add_new x xs = (if x \<in> set xs then xs else xs @ [x])"

definition attach :: "envelope \<Rightarrow> clues \<Rightarrow> incident \<Rightarrow> incident" where
  "attach e c i =
     i\<lparr> in_opened := (if ve_occurred e < in_opened i then ve_occurred e else in_opened i),
        in_last := (if in_last i < ve_occurred e then ve_occurred e else in_last i),
        in_location := (if in_location i = [] then cl_location c else in_location i),
        in_camera := (if in_camera i = [] then cl_camera c else in_camera i),
        in_events := add_new (ve_id e) (in_events i),
        in_correlations :=
          (if ValidFor ''cor'' (ve_correlation e) then add_new (ve_correlation e) (in_correlations i) else in_correlations i),
        in_objects := (if cl_object c \<noteq> [] then add_new (cl_object c) (in_objects i) else in_objects i) \<rparr>"

section \<open>The engine\<close>

record incident_engine =
  en_window :: int
  en_drawn :: nat
  en_active :: "incident list"
  en_all :: "incident list"

definition NewEngine :: "int \<Rightarrow> incident_engine" where
  "NewEngine window =
     \<lparr> en_window = (if window \<le> 0 then 45 * 10 ^ 9 else window), en_drawn = 0, en_active = [], en_all = [] \<rparr>"

definition in_reach :: "int \<Rightarrow> int \<Rightarrow> incident \<Rightarrow> bool" where
  "in_reach window now i \<longleftrightarrow>
     \<not> (in_state i \<noteq> IncidentOpen \<or> window < time_Sub now (in_last i) \<or> window < time_Sub (in_last i) now)"

text \<open>The loop over the active incidents: the place of the best one.\<close>

fun find_best :: "int \<Rightarrow> envelope \<Rightarrow> clues \<Rightarrow> nat \<Rightarrow> (nat \<times> incident) option \<Rightarrow> incident list \<Rightarrow> nat option" where
  "find_best window e c n best [] = map_option fst best"
| "find_best window e c n best (i # is) =
     (if \<not> in_reach window (ve_occurred e) i then find_best window e c (Suc n) best is
      else if exactCorrelation i (ve_correlation e) then Some n
      else if \<not> samePlace i c then find_best window e c (Suc n) best is
      else if cl_object c \<noteq> [] \<and> in_objects i \<noteq> [] \<and> cl_object c \<notin> set (in_objects i) \<and> \<not> cl_door c
      then find_best window e c (Suc n) best is
      else find_best window e c (Suc n)
             (case best of
                None \<Rightarrow> Some (n, i)
              | Some (m, b) \<Rightarrow> if in_last b < in_last i then Some (n, i) else Some (m, b)) is)"

fun syncAll :: "incident \<Rightarrow> incident list \<Rightarrow> incident list" where
  "syncAll x [] = [x]"
| "syncAll x (i # is) = (if in_id i = in_id x then x # is else i # syncAll x is)"

record incident_services =
  iv_json :: "string \<Rightarrow> bool"
  iv_decode :: "string \<Rightarrow> (string \<rightharpoonup> string) option"
  iv_ids :: "nat \<Rightarrow> string + string"

definition Process :: "incident_services \<Rightarrow> envelope \<Rightarrow> incident_engine \<Rightarrow> (string + incident) \<times> incident_engine" where
  "Process v e g =
     (case envelope_Validate (iv_json v) e of
        Some err \<Rightarrow> (Inl err, g)
      | None \<Rightarrow>
          let c = extractClues (iv_decode v) e; now = ve_occurred e
          in (case find_best (en_window g) e c 0 None (en_active g) of
                Some n \<Rightarrow>
                  let i = attach e c (en_active g ! n)
                  in (Inr i, g\<lparr> en_active := (en_active g)[n := i], en_all := syncAll i (en_all g) \<rparr>)
              | None \<Rightarrow>
                  let g = g\<lparr> en_drawn := Suc (en_drawn g) \<rparr>
                  in (case iv_ids v (en_drawn g - 1) of
                        Inl err \<Rightarrow> (Inl err, g)
                      | Inr x \<Rightarrow>
                          let i = attach e c
                            \<lparr> in_id = x, in_state = IncidentOpen, in_opened = now, in_last = now,
                              in_location = cl_location c, in_camera = cl_camera c, in_correlations = [],
                              in_objects = [], in_events = [] \<rparr>
                          in (Inr i, g\<lparr> en_active := en_active g @ [i], en_all := syncAll i (en_all g) \<rparr>))))"

definition stale :: "int \<Rightarrow> int \<Rightarrow> incident \<Rightarrow> bool" where
  "stale window now i \<longleftrightarrow> in_state i = IncidentOpen \<and> window < time_Sub now (in_last i)"

definition close_incident :: "incident \<Rightarrow> incident" where
  "close_incident i = i\<lparr> in_state := IncidentClosed \<rparr>"

definition CloseStale :: "int \<Rightarrow> incident_engine \<Rightarrow> incident list \<times> incident_engine" where
  "CloseStale now g =
     (let closed = map close_incident (filter (stale (en_window g) now) (en_active g))
      in (closed,
          g\<lparr> en_active := map (\<lambda>i. if stale (en_window g) now i then close_incident i else i) (en_active g),
             en_all := fold syncAll closed (en_all g) \<rparr>))"

definition Incidents :: "incident_engine \<Rightarrow> incident list" where
  "Incidents g = sort_key in_opened (en_all g)"

fun process_all :: "incident_services \<Rightarrow> envelope list \<Rightarrow> incident_engine \<Rightarrow> string + incident_engine" where
  "process_all v [] g = Inr g"
| "process_all v (e # es) g =
     (case Process v e g of
        (Inl err, _) \<Rightarrow> Inl err
      | (Inr _, g) \<Rightarrow> process_all v es g)"

definition Correlate :: "incident_services \<Rightarrow> envelope list \<Rightarrow> int \<Rightarrow> string + incident list" where
  "Correlate v es window =
     (if es = [] then Inl ''no events''
      else
        (let es = sort_key ve_occurred es
         in (case process_all v es (NewEngine window) of
               Inl err \<Rightarrow> Inl err
             | Inr g \<Rightarrow> Inr (Incidents (snd (CloseStale (ve_occurred (last es) + wrap64 (window + 1)) g))))))"

section \<open>Joining\<close>

text \<open>An incident that an event may join.\<close>

definition joins :: "int \<Rightarrow> envelope \<Rightarrow> clues \<Rightarrow> incident \<Rightarrow> bool" where
  "joins window e c i \<longleftrightarrow>
     in_reach window (ve_occurred e) i \<and>
     (exactCorrelation i (ve_correlation e) \<or>
      samePlace i c \<and> (cl_object c \<in> {[]} \<union> set (in_objects i) \<or> in_objects i = [] \<or> cl_door c))"

lemma find_best_joins:
  "find_best window e c n best is = Some k \<Longrightarrow>
     (\<exists>b. best = Some (k, b)) \<or> n \<le> k \<and> k < n + length is \<and> joins window e c (is ! (k - n))"
proof (induction "is" arbitrary: n best)
  case (Cons i "is")
  have step: "joins window e c ((i # is) ! (k - n)) \<and> n \<le> k \<and> k < n + length (i # is)"
    if "Suc n \<le> k" "k < Suc n + length is" "joins window e c (is ! (k - Suc n))"
    using that by (simp add: nth_Cons' Suc_diff_Suc)
  show ?case
  proof (cases "joins window e c i")
    case False
    then have "find_best window e c (Suc n) best is = Some k"
      using Cons.prems by (auto simp: joins_def split: if_splits)
    from Cons.IH [OF this] step show ?thesis by blast
  next
    case True
    then have "k = n \<or> (\<exists>best'. find_best window e c (Suc n) best' is = Some k \<and> (best' = Some (n, i) \<or> best' = best))"
      using Cons.prems by (auto simp: joins_def split: if_splits option.splits)
    then show ?thesis
    proof
      assume "k = n"
      with True show ?thesis by simp
    next
      assume "\<exists>best'. find_best window e c (Suc n) best' is = Some k \<and> (best' = Some (n, i) \<or> best' = best)"
      then obtain best' where b: "find_best window e c (Suc n) best' is = Some k" "best' = Some (n, i) \<or> best' = best" by blast
      from Cons.IH [OF b(1)] step True b(2) show ?thesis by auto
    qed
  qed
qed auto

lemma find_best_none:
  "find_best window e c n best is = None \<Longrightarrow> best = None \<and> (\<forall>i \<in> set is. \<not> joins window e c i)"
proof (induction "is" arbitrary: n best)
  case (Cons i "is")
  then show ?case
    by (auto simp: joins_def split: if_splits option.splits) blast+
qed simp

lemma syncAll_new: "in_id x \<notin> in_id ` set xs \<Longrightarrow> syncAll x xs = xs @ [x]"
  by (induction xs) auto

lemma syncAll_update:
  "distinct (map in_id xs) \<Longrightarrow> n < length xs \<Longrightarrow> in_id (xs ! n) = in_id x \<Longrightarrow> syncAll x xs = xs[n := x]"
proof (induction xs arbitrary: n)
  case (Cons i xs)
  show ?case
  proof (cases n)
    case (Suc m)
    with Cons.prems have "in_id x \<in> in_id ` set xs" by (metis image_eqI length_Cons nth_Cons_Suc nth_mem Suc_less_eq)
    with Cons Suc show ?thesis by auto
  qed (use Cons.prems in simp)
qed simp

lemma attach_same [simp]: "in_id (attach e c i) = in_id i" "in_state (attach e c i) = in_state i"
  by (simp_all add: attach_def)

section \<open>What the engine holds\<close>

text \<open>The events of an incident are some, and its times are the first and the last of theirs.\<close>

definition times_ok :: "(string \<Rightarrow> int) \<Rightarrow> incident \<Rightarrow> bool" where
  "times_ok t i \<longleftrightarrow>
     in_events i \<noteq> [] \<and> in_opened i = Min (t ` set (in_events i)) \<and> in_last i = Max (t ` set (in_events i))"

definition engine_inv :: "incident_services \<Rightarrow> (string \<Rightarrow> int) \<Rightarrow> string list \<Rightarrow> incident_engine \<Rightarrow> bool" where
  "engine_inv v t taken g \<longleftrightarrow>
     en_all g = en_active g \<and> distinct (map in_id (en_active g)) \<and>
     (\<forall>i \<in> set (en_active g). \<exists>n < en_drawn g. iv_ids v n = Inr (in_id i)) \<and>
     mset (concat (map in_events (en_active g))) = mset taken \<and>
     (\<forall>i \<in> set (en_active g). times_ok t i)"

lemma attach_times:
  assumes "times_ok t i \<or> in_events i = [] \<and> in_opened i = ve_occurred e \<and> in_last i = ve_occurred e"
    and "t (ve_id e) = ve_occurred e" and "ve_id e \<notin> set (in_events i)"
  shows "times_ok t (attach e c i)" "in_events (attach e c i) = in_events i @ [ve_id e]"
proof -
  show ev: "in_events (attach e c i) = in_events i @ [ve_id e]" using assms(3) by (simp add: attach_def add_new_def)
  show "times_ok t (attach e c i)"
    using assms(1)
  proof
    assume i: "times_ok t i"
    then have "finite (t ` set (in_events i))" "t ` set (in_events i) \<noteq> {}" by (auto simp: times_ok_def)
    note ends = Min_insert [OF this, of "ve_occurred e"] Max_insert [OF this, of "ve_occurred e"]
    have "t ` set (in_events i @ [ve_id e]) = insert (ve_occurred e) (t ` set (in_events i))" using assms(2) by auto
    moreover have "in_opened (attach e c i) = min (ve_occurred e) (in_opened i)"
      "in_last (attach e c i) = max (ve_occurred e) (in_last i)"
      by (simp_all add: attach_def min_def max_def)
    ultimately show ?thesis
      using i ends unfolding times_ok_def ev by simp
  next
    assume "in_events i = [] \<and> in_opened i = ve_occurred e \<and> in_last i = ve_occurred e"
    then show ?thesis unfolding times_ok_def ev by (simp add: attach_def assms(2))
  qed
qed

text \<open>What processing does: an incident is joined if the event joins any, or else one is opened.\<close>

lemma Process_cases:
  assumes "Process v e g = (Inr i, g')"
  obtains (join) n where "n < length (en_active g)" "joins (en_window g) e (extractClues (iv_decode v) e) (en_active g ! n)"
      "i = attach e (extractClues (iv_decode v) e) (en_active g ! n)"
      "g' = g\<lparr> en_active := (en_active g)[n := i], en_all := syncAll i (en_all g) \<rparr>"
    | (opens) x i0 where "\<forall>j \<in> set (en_active g). \<not> joins (en_window g) e (extractClues (iv_decode v) e) j"
      "iv_ids v (en_drawn g) = Inr x" "in_id i0 = x" "in_events i0 = []" "in_opened i0 = ve_occurred e"
      "in_last i0 = ve_occurred e" "in_state i0 = IncidentOpen" "i = attach e (extractClues (iv_decode v) e) i0"
      "g' = g\<lparr> en_drawn := Suc (en_drawn g), en_active := en_active g @ [i], en_all := syncAll i (en_all g) \<rparr>"
proof (cases "find_best (en_window g) e (extractClues (iv_decode v) e) 0 None (en_active g)")
  case (Some n)
  have "n < length (en_active g) \<and> joins (en_window g) e (extractClues (iv_decode v) e) (en_active g ! n)"
    using find_best_joins [OF Some] by simp
  with assms Some show thesis by (intro join [of n]) (auto simp: Process_def Let_def split: option.splits)
next
  case None
  let ?c = "extractClues (iv_decode v) e"
  obtain x where x: "iv_ids v (en_drawn g) = Inr x"
    using assms None by (auto simp: Process_def Let_def split: option.splits sum.splits)
  show thesis
    using assms None x find_best_none [OF None]
    by (intro opens [of x "\<lparr> in_id = x, in_state = IncidentOpen, in_opened = ve_occurred e, in_last = ve_occurred e,
          in_location = cl_location ?c, in_camera = cl_camera ?c, in_correlations = [], in_objects = [], in_events = [] \<rparr>"])
      (auto simp: Process_def Let_def split: option.splits)
qed

lemma Process_inv:
  assumes "engine_inv v t taken g" and "Process v e g = (Inr i, g')" and "t (ve_id e) = ve_occurred e"
    and "ve_id e \<notin> set taken" and "\<And>m n x. iv_ids v m = Inr x \<Longrightarrow> iv_ids v n = Inr x \<Longrightarrow> m = n"
  shows "engine_inv v t (taken @ [ve_id e]) g'"
proof -
  note inv = assms(1) [unfolded engine_inv_def]
  have fresh: "ve_id e \<notin> set (in_events j)" if "j \<in> set (en_active g)" for j
  proof -
    have "set_mset (mset (concat (map in_events (en_active g)))) = set taken" using inv by simp
    with that assms(4) show ?thesis by auto
  qed
  show ?thesis
    using assms(2)
  proof (cases rule: Process_cases)
    case (join n)
    let ?j = "en_active g ! n"
    have j: "?j \<in> set (en_active g)" using join(1) by simp
    have "times_ok t ?j" using inv j by blast
    note a = attach_times [OF disjI1 [OF this] assms(3) fresh [OF j], of "extractClues (iv_decode v) e"]
    have all: "syncAll i (en_all g) = (en_active g)[n := i]"
      using inv join(1,3) by (simp add: syncAll_update)
    have split: "en_active g = take n (en_active g) @ ?j # drop (Suc n) (en_active g)"
      using join(1) by (rule id_take_nth_drop)
    have upd: "(en_active g)[n := i] = take n (en_active g) @ i # drop (Suc n) (en_active g)"
      using join(1) by (simp add: upd_conv_take_nth_drop)
    have "mset (concat (map in_events ((en_active g)[n := i]))) =
        mset (concat (map in_events (en_active g))) + {#ve_id e#}"
      unfolding upd using arg_cong [OF split, of "\<lambda>xs. mset (concat (map in_events xs))"] a(2) join(3) by simp
    moreover have "map in_id ((en_active g)[n := i]) = map in_id (en_active g)"
      using join(1,3) by (simp add: map_update list_update_same_conv)
    moreover have "(\<exists>k < en_drawn g. iv_ids v k = Inr (in_id x)) \<and> times_ok t x" if "x \<in> set ((en_active g)[n := i])" for x
    proof -
      have "x = i \<or> x \<in> set (en_active g)" using that set_update_subset_insert by fastforce
      then show ?thesis
      proof
        assume "x = i"
        with inv j a(1) join(3) show ?thesis by simp
      qed (use inv in blast)
    qed
    ultimately show ?thesis
      using inv all join(4) unfolding engine_inv_def by simp
  next
    case (opens x i0)
    have "times_ok t i0 \<or> in_events i0 = [] \<and> in_opened i0 = ve_occurred e \<and> in_last i0 = ve_occurred e" using opens by simp
    note a = attach_times [OF this assms(3), of "extractClues (iv_decode v) e"]
    have new: "in_id i \<notin> in_id ` set (en_active g)"
    proof
      assume "in_id i \<in> in_id ` set (en_active g)"
      then obtain j where "j \<in> set (en_active g)" "in_id j = x" using opens by auto
      then obtain m where "m < en_drawn g" "iv_ids v m = Inr x" using inv by auto
      with assms(5) [OF this(2) opens(2)] show False by simp
    qed
    with inv a opens show ?thesis
      unfolding engine_inv_def by (auto simp: syncAll_new less_Suc_eq)
  qed
qed

text \<open>When events come in the order of time, those of an incident follow each other within the window.\<close>

definition chain_ok :: "int \<Rightarrow> (string \<Rightarrow> int) \<Rightarrow> incident \<Rightarrow> bool" where
  "chain_ok window t i \<longleftrightarrow>
     in_events i \<noteq> [] \<and> in_opened i = t (hd (in_events i)) \<and> in_last i = t (last (in_events i)) \<and>
     successively (\<lambda>a b. t a \<le> t b \<and> t b \<le> t a + window) (in_events i)"

definition chains_inv :: "(string \<Rightarrow> int) \<Rightarrow> int \<Rightarrow> incident_engine \<Rightarrow> bool" where
  "chains_inv t now g \<longleftrightarrow>
     0 < en_window g \<and> en_window g < 2 ^ 63 - 1 \<and>
     (\<forall>i \<in> set (en_active g). chain_ok (en_window g) t i \<and> in_last i \<le> now)"

lemma Process_chains:
  assumes "engine_inv v t taken g" and "chains_inv t before g" and "Process v e g = (Inr i, g')"
    and "t (ve_id e) = ve_occurred e" and "ve_id e \<notin> set taken" and "before \<le> ve_occurred e"
  shows "chains_inv t (ve_occurred e) g'"
proof -
  note inv = assms(2) [unfolded chains_inv_def]
  let ?c = "extractClues (iv_decode v) e"
  have fresh: "ve_id e \<notin> set (in_events j)" if "j \<in> set (en_active g)" for j
  proof -
    have "set_mset (mset (concat (map in_events (en_active g)))) = set taken" using assms(1) by (simp add: engine_inv_def)
    with that assms(5) show ?thesis by auto
  qed
  have keep: "chain_ok (en_window g) t j \<and> in_last j \<le> ve_occurred e" if "j \<in> set (en_active g)" for j
    using inv that assms(6) by fastforce
  show ?thesis
    using assms(3)
  proof (cases rule: Process_cases)
    case (join n)
    let ?j = "en_active g ! n"
    have j: "?j \<in> set (en_active g)" using join(1) by simp
    have ev: "in_events i = in_events ?j @ [ve_id e]" using fresh [OF j] join(3) by (simp add: attach_def add_new_def)
    have "time_Sub (ve_occurred e) (in_last ?j) \<le> en_window g" using join(2) by (simp add: joins_def in_reach_def)
    then have "ve_occurred e \<le> in_last ?j + en_window g" using inv by (auto simp: time_Sub_def min_def max_def split: if_splits)
    moreover have "in_opened ?j \<le> in_last ?j"
    proof -
      have "times_ok t ?j" using assms(1) j by (simp add: engine_inv_def)
      then have "in_opened ?j \<le> t (hd (in_events ?j))" "t (hd (in_events ?j)) \<le> in_last ?j"
        by (simp_all add: times_ok_def)
      then show ?thesis by simp
    qed
    ultimately have "chain_ok (en_window g) t i \<and> in_last i \<le> ve_occurred e"
      using keep [OF j] join(3) unfolding chain_ok_def ev
      by (auto simp: successively_append_iff assms(4) attach_def)
    with keep join(4) inv show ?thesis
      unfolding chains_inv_def by (auto dest!: set_update_subset_insert [THEN subsetD])
  next
    case (opens x i0)
    then have "chain_ok (en_window g) t i \<and> in_last i \<le> ve_occurred e"
      by (simp add: chain_ok_def attach_def add_new_def assms(4))
    with keep opens inv show ?thesis unfolding chains_inv_def by auto
  qed
qed

lemma process_all_inv:
  assumes "process_all v es g = Inr g'" and "engine_inv v t taken g" and "chains_inv t before g"
    and "\<forall>e \<in> set es. t (ve_id e) = ve_occurred e" and "distinct (taken @ map ve_id es)"
    and "sorted (before # map ve_occurred es)"
    and "\<And>m n x. iv_ids v m = Inr x \<Longrightarrow> iv_ids v n = Inr x \<Longrightarrow> m = n"
  shows "engine_inv v t (taken @ map ve_id es) g' \<and> chains_inv t (last (before # map ve_occurred es)) g' \<and>
    en_window g' = en_window g"
  using assms(1-6)
proof (induction es arbitrary: g taken before)
  case (Cons e es)
  obtain i g1 where p: "Process v e g = (Inr i, g1)" "process_all v es g1 = Inr g'"
    using Cons.prems(1) by (auto split: prod.splits sum.splits)
  have w: "en_window g1 = en_window g" using p(1) by (cases rule: Process_cases) simp_all
  have e: "t (ve_id e) = ve_occurred e" "ve_id e \<notin> set taken" "before \<le> ve_occurred e" using Cons.prems by auto
  have "engine_inv v t (taken @ [ve_id e]) g1"
    by (rule Process_inv [OF Cons.prems(2) p(1) e(1,2) assms(7)])
  moreover have "chains_inv t (ve_occurred e) g1"
    by (rule Process_chains [OF Cons.prems(2,3) p(1) e])
  ultimately show ?case using Cons.IH [OF p(2), of "taken @ [ve_id e]" "ve_occurred e"] Cons.prems w by auto
qed simp

lemma sync_closed:
  "distinct (map in_id (pre @ is)) \<Longrightarrow>
     fold syncAll (map close_incident (filter P is)) (pre @ is) = pre @ map (\<lambda>i. if P i then close_incident i else i) is"
proof (induction "is" arbitrary: pre)
  case (Cons i "is")
  have c: "in_id (close_incident i) = in_id i" by (simp add: close_incident_def)
  have "syncAll (close_incident i) (pre @ i # is) = (pre @ i # is)[length pre := close_incident i]"
    using Cons.prems by (intro syncAll_update) (auto simp: c)
  with Cons.IH [of "pre @ [close_incident i]"] Cons.IH [of "pre @ [i]"] Cons.prems show ?case by (auto simp: c)
qed simp

lemma close_incident_same [simp]:
  "in_events (close_incident i) = in_events i" "in_opened (close_incident i) = in_opened i"
  "in_last (close_incident i) = in_last i" "in_state (close_incident i) = IncidentClosed"
  by (simp_all add: close_incident_def)

lemma mset_concat_map: "mset (concat (map f xs)) = (\<Sum>x\<in>#mset xs. mset (f x))"
  by (induction xs) simp_all

text \<open>
  C22. Every event is in one incident: when events with different ids are correlated, each of
  them is in exactly one incident and nothing else is; every incident begins with its first event
  and ends with its last, and each of its events follows the one before within the window; all
  incidents are closed at the end, and they are in the order in which they began.
\<close>

theorem incidents_partition_events:
  assumes "Correlate v es window = Inr incs" and "0 < window" and "window < 2 ^ 63 - 1"
    and "distinct (map ve_id es)" and "\<And>e. e \<in> set es \<Longrightarrow> t (ve_id e) = ve_occurred e"
    and "\<And>m n x. iv_ids v m = Inr x \<Longrightarrow> iv_ids v n = Inr x \<Longrightarrow> m = n"
  shows "mset (concat (map in_events incs)) = mset (map ve_id es) \<and> sorted (map in_opened incs) \<and>
    (\<forall>i \<in> set incs. in_events i \<noteq> [] \<and> in_opened i = t (hd (in_events i)) \<and> in_last i = t (last (in_events i)) \<and>
       successively (\<lambda>a b. t a \<le> t b \<and> t b \<le> t a + window) (in_events i) \<and> in_state i = IncidentClosed)"
proof -
  let ?es = "sort_key ve_occurred es"
  obtain g where g: "process_all v ?es (NewEngine window) = Inr g"
      "incs = Incidents (snd (CloseStale (ve_occurred (last ?es) + wrap64 (window + 1)) g))" and ne: "es \<noteq> []"
    using assms(1) by (auto simp: Correlate_def Let_def split: if_splits sum.splits)
  obtain e0 es0 where es0: "?es = e0 # es0" using ne by (cases ?es) (auto dest: arg_cong [where f = length])
  have w: "en_window (NewEngine window) = window" using assms(2) by (simp add: NewEngine_def)
  have "engine_inv v t ([] @ map ve_id ?es) g \<and> chains_inv t (last (ve_occurred e0 # map ve_occurred ?es)) g \<and> en_window g = window"
  proof (subst w [symmetric], rule process_all_inv [OF g(1)])
    show "engine_inv v t [] (NewEngine window)" by (simp add: engine_inv_def NewEngine_def)
    show "chains_inv t (ve_occurred e0) (NewEngine window)" using assms(2,3) by (simp add: chains_inv_def NewEngine_def)
    show "distinct ([] @ map ve_id ?es)" using assms(4) by (simp add: distinct_map)
    show "sorted (ve_occurred e0 # map ve_occurred ?es)" using sorted_sort_key [of ve_occurred es] es0 by simp
  qed (use assms(5,6) in auto)
  then have inv: "engine_inv v t (map ve_id ?es) g" "chains_inv t (ve_occurred (last ?es)) g" "en_window g = window"
    by (cases "es0 = []"; simp add: es0 last_map)+
  let ?now = "ve_occurred (last ?es) + wrap64 (window + 1)"
  have "wrap64 (window + 1) = window + 1" using assms(2,3) by (simp add: wrap64_def)
  then have old: "in_state i = IncidentOpen \<Longrightarrow> stale window ?now i" if "i \<in> set (en_active g)" for i
    using inv(2,3) that assms(3) by (auto simp: chains_inv_def stale_def time_Sub_def min_def max_def)
  let ?f = "\<lambda>i. if stale window ?now i then close_incident i else i"
  have all: "en_all (snd (CloseStale ?now g)) = map ?f (en_active g)"
    using inv(1,3) sync_closed [of "[]" "en_active g" "stale window ?now"]
    by (simp add: CloseStale_def engine_inv_def Let_def)
  have ev: "map in_events (map ?f (en_active g)) = map in_events (en_active g)" by (simp add: comp_def if_distrib cong: if_cong)
  have "mset (concat (map in_events incs)) = mset (concat (map in_events (map ?f (en_active g))))"
    unfolding g(2) Incidents_def all by (simp only: mset_concat_map mset_sort)
  also have "\<dots> = mset (map ve_id es)" unfolding ev using inv(1) by (simp add: engine_inv_def)
  finally have "mset (concat (map in_events incs)) = mset (map ve_id es)" .
  moreover have "sorted (map in_opened incs)" unfolding g(2) Incidents_def by simp
  moreover have "chain_ok window t i \<and> in_state i = IncidentClosed" if "i \<in> set incs" for i
  proof -
    have "i \<in> ?f ` set (en_active g)" using that [unfolded g(2) Incidents_def all] by simp
    then obtain j where j: "j \<in> set (en_active g)" "i = ?f j" by blast
    then have "chain_ok window t j" using inv(2,3) by (simp add: chains_inv_def)
    moreover have "in_state i = IncidentClosed"
      using old [OF j(1)] j(2) by (cases "in_state j") (auto simp: stale_def)
    ultimately show ?thesis using j(2) by (auto simp: chain_ok_def)
  qed
  ultimately show ?thesis unfolding chain_ok_def by blast
qed

section \<open>A visitor\<close>

definition sighted :: "string \<Rightarrow> int \<Rightarrow> envelope" where
  "sighted i time =
     \<lparr> ve_schema = 1, ve_id = ''evt_0000000000000000000000000'' @ i, ve_type = ''frigate.review.updated'', ve_source = ''frigate'',
       ve_occurred = time * 10 ^ 9, ve_received = time * 10 ^ 9, ve_correlation = ''cor_0000000000000000000000000'' @ i,
       ve_causation = [], ve_severity = ''INFO'', ve_payload = [] \<rparr>"

definition front_camera :: incident_services where
  "front_camera =
     \<lparr> iv_json = (\<lambda>_. True), iv_decode = (\<lambda>_. Some [''camera_id'' \<mapsto> ''front'']), iv_ids = (\<lambda>n. Inr (replicate n (CHR ''i''))) \<rparr>"

theorem incidents_partition_events_witness:
  "\<exists>incs. Correlate front_camera [sighted ''1'' 1000, sighted ''2'' 1003, sighted ''3'' 2000] (45 * 10 ^ 9) = Inr incs \<and>
     mset (concat (map in_events incs)) = {#ve_id (sighted ''1'' 0), ve_id (sighted ''2'' 0), ve_id (sighted ''3'' 0)#} \<and>
     length incs = 2"
proof -
  let ?es = "[sighted ''1'' 1000, sighted ''2'' 1003, sighted ''3'' 2000]"
  let ?t = "\<lambda>i. if i = ve_id (sighted ''1'' 0) then 1000 * 10 ^ 9 else if i = ve_id (sighted ''2'' 0) then 1003 * 10 ^ 9 else 2000 * 10 ^ 9"
  have "map_sum (\<lambda>_. ()) length (Correlate front_camera ?es (45 * 10 ^ 9)) = Inr 2" by code_simp
  then obtain incs where c: "Correlate front_camera ?es (45 * 10 ^ 9) = Inr incs" "length incs = 2"
    by (cases "Correlate front_camera ?es (45 * 10 ^ 9)") auto
  have "?t (ve_id e) = ve_occurred e" if "e \<in> set ?es" for e
    using that by (auto simp: sighted_def)
  moreover have "distinct (map ve_id ?es)" by (simp add: sighted_def)
  moreover have "iv_ids front_camera m = Inr x \<Longrightarrow> iv_ids front_camera n = Inr x \<Longrightarrow> m = n" for m n x
    by (auto simp: front_camera_def dest: arg_cong [where f = length])
  ultimately have "mset (concat (map in_events incs)) = mset (map ve_id ?es)"
    by (intro incidents_partition_events [OF c(1), THEN conjunct1]) simp_all
  with c show ?thesis by (simp add: sighted_def)
qed

text \<open>
  Without a window the engine takes one of 45 seconds, but the incidents are closed as if there
  were none, and none is.
\<close>

lemma default_window_closes_nothing:
  "map_sum (\<lambda>_. ()) (map in_state) (Correlate front_camera [sighted ''1'' 1000] 0) = Inr [IncidentOpen]"
  by code_simp

end
