(* ===== verification/Spec2Isabelle.thy ===== *)
theory Spec2Isabelle
  imports Catalog Simulator Ingress IncidentIntake LockManager RateLimit Health Devices EventBus
    LogBuffer Reservations Rollout IncidentEngine
begin

text \<open>
  Home Sentinel: the scenario language, its compiler, catalog and simulator, the path of an
  incident from the sensors to the owner, and the services that both rest on.

  Three parts of the program carry its own logic, and all are modelled here.

  The scenario part (\<open>src/internal/scenario/\<close>) turns what a user writes, a trigger, a condition
  and a flow of steps over the capabilities of devices, into a plan for one of two runtimes. The
  \<open>model\<close> package validates and normalises a scenario, the \<open>capability\<close> registry says what the
  devices offer, the \<open>compiler\<close> resolves, checks, guards and lowers the scenario, the
  \<open>simulator\<close> runs it without effects, and the \<open>catalog\<close> keeps its revisions, publishes what
  compiles and indexes what is in use, so that nothing in use is removed.

  The incident part (\<open>correlation\<close>, \<open>policy/risk\<close>, \<open>orchestration/incident\<close> and
  \<open>security/callback\<close> under \<open>src/internal/\<close>) groups observations into candidates, assesses
  their risk and routes them; the owner answers by a signed callback, which the ingress checks
  for signature, binding, replay and role before it signals the workflow.

  The services act on the world and watch over it: activities on doors, sirens and cameras, with
  one execution for each device, changes of configurations that are undone when they fail, locks,
  the limit on requests, the health of components, the event bus, the incidents made from its
  events, and the log.

  The theories, bottom up. Definitions have the names of the code where there is one; a record
  has a prefix of its own for the fields, as \<open>rv_\<close> for the fields of a revision.

  \<^item> \<open>Prelude\<close>: Go strings, validator chains (\<open>checks\<close>), errors as format and arguments,
    decimal numbers; the collections \<open>go_simps\<close> and \<open>check_simps\<close>.
  \<^item> \<open>TypeSystem\<close>: identifiers, risk levels, types (\<open>model/id.go\<close>, \<open>safety.go\<close>, \<open>type.go\<close>).
  \<^item> \<open>ClockTime\<close>, \<open>Timestamps\<close>, \<open>GoFloat\<close>, \<open>FloatOrder\<close>: times of day and wall clocks
    (\<open>model/temporal.go\<close>), the part of package \<open>time\<close> that typed values use, and finite
    \<open>float64\<close> numbers as the rationals they denote, with rounding, its order and its error.
  \<^item> \<open>Values\<close>, \<open>Expressions\<close>, \<open>Flows\<close>, \<open>Scenarios\<close>: the data model
    (\<open>model/value.go\<close>, \<open>expression.go\<close>, \<open>step.go\<close>, \<open>flow.go\<close>, \<open>trigger.go\<close>, \<open>validate.go\<close>,
    \<open>normalize.go\<close>, \<open>typecheck.go\<close>); \<open>Flows\<close> has the one traversal that all passes share.
  \<^item> \<open>Versions\<close>, \<open>Capabilities\<close>, \<open>Registry\<close>: package \<open>capability\<close>; a registry is the record
    of its maps, each operation one function to an error or the new registry.
  \<^item> \<open>Diagnostics\<close>, \<open>Resolution\<close>, \<open>TypeCheck\<close>, \<open>TemporalAnalysis\<close>, \<open>SafetyPass\<close>,
    \<open>StaticAnalysis\<close>, \<open>RuntimeClass\<close>, \<open>Compilation\<close>: package \<open>compiler\<close>, one theory for
    each pass, and \<open>Compile\<close>, which runs them in the order of \<open>compiler.go\<close>.
  \<^item> \<open>Evaluation\<close>, \<open>Simulator\<close>: package \<open>simulator\<close>; a panic is \<^const>\<open>None\<close>.
  \<^item> \<open>Dependencies\<close>, \<open>Catalog\<close>: package \<open>catalog\<close>; \<open>catalog_reachable\<close> are the states that
    any sequence of calls leads to, under whatever registries the compiler ran.
  \<^item> \<open>Admission\<close>, \<open>Tokens\<close>, \<open>Callbacks\<close>, \<open>Ingress\<close>: callbacks
    (\<open>security/callback/token.go\<close>, \<open>replay.go\<close>, \<open>accept.go\<close>, \<open>runtime.go\<close>;
    \<open>orchestration/incident/callback_ingress.go\<close>, \<open>authz/rbac.go\<close>, \<open>domain/id.go\<close>).
  \<^item> \<open>Observations\<close>, \<open>Correlator\<close>, \<open>Risk\<close>, \<open>IncidentIntake\<close>: from observations to a
    route (\<open>domain/observation\<close>, \<open>domain/incident\<close>, \<open>domain/artifact\<close>,
    \<open>correlation/correlator.go\<close>, \<open>policy/risk/risk.go\<close>, \<open>orchestration/incident/handlers.go\<close>).
  \<^item> \<open>Devices\<close>, \<open>Reservations\<close>: activities on devices and the reservation of a device by an
    execution (\<open>domain/action\<close>, \<open>domain/recovery\<close>, \<open>gateway/contracts.go\<close>, \<open>gateway/fake\<close>;
    under \<open>orchestration/\<close>, the handlers and services of \<open>action/door\<close>, \<open>action/siren\<close> and
    \<open>recovery/camera\<close>, and \<open>resourceguard/guard.go\<close>).
  \<^item> \<open>Rollout\<close>: changes that are undone when they fail (\<open>apply/coordinator.go\<close>,
    \<open>integrations/frigate/apply.go\<close>).
  \<^item> \<open>LockManager\<close>, \<open>EventBus\<close>: locks by name and the event bus (\<open>locks/manager.go\<close>,
    \<open>events/bus.go\<close>), as relations of the steps of goroutines over a heap of cells.
  \<^item> \<open>RateLimit\<close>, \<open>Health\<close>, \<open>LogBuffer\<close>: the limit on requests
    (\<open>httpserver/ratelimit.go\<close>), the health of components and its probes (\<open>health/\<close>,
    \<open>watchdog/watchdog.go\<close>) and the log without secrets (\<open>telemetry/logbuffer.go\<close>).
  \<^item> \<open>IncidentEngine\<close>: incidents from the events of the bus (\<open>incidents/model.go\<close>,
    \<open>incidents/correlation.go\<close>, \<open>events/envelope.go\<close>).

  The interfaces are locales, each interpreted on the model of its provider: \<open>capability_source\<close>
  (what the compiler needs of a registry), \<open>compiler_service\<close> (what the catalog needs of the
  compiler), \<open>reverse_index\<close> (the dependency graph), \<open>dry_run_invariant\<close> (what every step of a
  simulation keeps; two interpretations), \<open>replay_filter\<close> (a bounded memory that lets an item
  through once: the replay guard and the memory of the correlator), \<open>callback_authority\<close>
  (what the ingress needs of the acceptor), \<open>switched_device\<close> (an activity that reads, switches
  and reads again: doors and sirens) and \<open>device_kind\<close> (what the start of an execution needs of
  the kind of a device: doors, sirens and cameras).

  What the lemmas show.

  \<^item> Data: canonical values, expressions and scenarios are fixed points, keep their types and
    digests, and accepted scenarios are closed and typed; times of day are printed and read back.
  \<^item> Compiler: it always answers; what it accepts is resolved, declared in the manifest and well
    typed; unlocks are gated, sirens bounded, and the reactive runtime gets harmless plans only.
  \<^item> Catalog and registry: published revisions were compiled and do not change by editing,
    history only grows, stale editors are refused, what is in use cannot be removed.
  \<^item> Simulator: it terminates and answers on compiled scenarios, in the order of its clock, and
    well-typed expressions of its operators evaluate.
  \<^item> Callbacks: signed tokens verify, a good token is accepted and accepted once, and the
    workflow is signalled only for an authorised user with an entry in the audit before it.
  \<^item> Incidents: groups are sorted, close in time and bounded, an observation counts once, the
    score is exact up to rounding and monotone, and an intruder is brought before a person.
  \<^item> Services: a lock has one holder and is handed back, a door fails closed and is moved once,
    a device has one execution, a siren is silenced; a change is made or undone, and Frigate is
    rolled out or has its old configuration back; an event is delivered or counted as dropped, and
    is in one incident; requests are limited, failures have causes, and the log keeps its last
    lines without secrets.

  Code that is not in the repository, and what the machine decides, is a parameter: \<open>tz\<close> (known
  time zones), \<open>enc\<close>, \<open>hash\<close>, \<open>plan_hash\<close> and \<open>etag\<close> (the JSON text and the SHA-256 of it), \<open>mac\<close>
  (HMAC-SHA256, of 32 bytes), the JSON of claims in both directions, \<open>uri_ok\<close> (whether
  \<open>net/url\<close> parses a text), the order in which a Go map is walked, the readings of the clocks, the
  user store, the audit store and the workflow of the ingress, the store and the engine of
  executions, the controllers of devices, the target of a change, the control interface of
  Frigate, decoders of JSON and the ids that calls draw. A theorem that relies on one of
  them names it as a hypothesis and has a witness with a concrete instance.

  Bounds. The recursions are structural or on the size of a flow, a list or a text, each with its
  measure. The one loop that depends on a clock, the wait for Frigate in \<open>Rollout\<close>, takes fuel: a
  round takes a nanosecond or more, so that more rounds than the longest wait has nanoseconds are
  enough, which \<open>frigate_rolled_out_or_back\<close> shows. The tree of a program value is finite, as a value
  decoded from JSON is. Numbers of Go's \<open>int\<close> that only count or compare are \<^typ>\<open>int\<close>; where a
  wrap-around shows, as in the times of tokens and in timeouts, it is written out or a word is
  used. Times are nanoseconds, so that two times are equal when Go's \<open>Equal\<close> says so. An
  operation under a lock that it holds throughout is one step; the removal from the registry,
  which takes its lock twice, is two.

  Not modelled. The scenario packages leave out: decoding and cloning through JSON, ids drawn
  from random bytes, the texts of diagnostics and explanations, the timestamp and artifact
  constructors. \<open>NaN\<close> and the infinities are no values of the model: JSON has none of them. Of the
  incidents, the notification, the service and its read model run on the engine \<open>adgo\<close>, which is
  not in the repository; the plans of doors, sirens and cameras are data for that engine, whose
  activities are modelled. Of goroutines and channels, the steps of the locks and of the bus are
  modelled, and no scheduler. HTTP handlers, SQL stores, files, processes, clients of cameras,
  brokers, messengers and model servers, metrics, configuration files and the command line are
  input and output around the logic above.
\<close>

section \<open>The compiler from end to end\<close>

text \<open>
  C34. The compiler never gives up silently, and what it cannot compile is malformed: for a source
  without timestamp values it delivers a manifest if and only if the source normalises, and
  otherwise it reports the one error of a malformed structure. Its own check of the digest never fails.
\<close>

theorem compile_total:
  assumes "scenario_no_timestamp source"
  shows "case Normalize tz enc source of
    Inl e \<Rightarrow> Compile tz enc hash plan_hash reg source =
      (None, [Diag CodeMalformedStructure SeverityError ''scenario''])
  | Inr s \<Rightarrow> \<exists>m ds. Compile tz enc hash plan_hash reg source = (Some m, ds) \<and>
      mf_semantic_digest m = ''sha256:'' @ hash (semantic_part s) \<and>
      SemanticDigest tz enc hash source = Inr (mf_semantic_digest m)"
proof (cases "Normalize tz enc source")
  case (Inl e)
  then show ?thesis by (simp add: Compile_def)
next
  case (Inr s)
  let ?h = "''sha256:'' @ hash (semantic_part s)"
  have "Normalize tz enc s = Inr s" using normalize_idem [OF Inr assms] .
  then have d: "SemanticDigest tz enc hash s = Inr ?h" "SemanticDigest tz enc hash source = Inr ?h"
    using Inr by (simp_all add: SemanticDigest_def)
  obtain env eds where e: "BuildTypeEnvironment s reg = (env, eds)" by fastforce
  obtain resolved rds where r: "ResolveCapabilities s reg = (resolved, rds)" by fastforce
  have "mf_semantic_digest (assemble s ?h reg) = ?h" by (rule assemble_fields(7) [OF e r])
  then show ?thesis using Inr d by (auto simp: Compile_def Let_def split: sum.splits)
qed

theorem compile_total_witness:
  "\<exists>m ds. Compile (\<lambda>_. True) ex_ref trigger_names (\<lambda>_. Inr ''plan'') None unlock_scenario = (Some m, ds) \<and>
     mf_semantic_digest m = ''sha256:t1''"
proof -
  have "scenario_no_timestamp unlock_scenario" by code_simp
  moreover have "trigger_names (semantic_part unlock_scenario) = ''t1''" by code_simp
  ultimately show ?thesis
    using compile_total [of unlock_scenario "\<lambda>_. True" ex_ref trigger_names "\<lambda>_. Inr ''plan''" None]
    by (auto simp: unlock_scenario_normal)
qed

text \<open>
  C15. An accepted scenario declares everything it uses: when the compiler reports no error, every
  action of the flow, at any depth, was resolved to a compatible capability of the registry whose
  permission the manifest requires, and the entity it acts on is listed as a physical resource.
\<close>

theorem manifest_declares_uses:
  assumes "Compile tz enc hash plan_hash (Some r) source = (Some m, ds)" and "\<not> HasErrors ds"
    and "Normalize tz enc source = Inr s"
    and "st \<in> set (all_steps (scn_flow s))" and "st_action st = Some a"
  shows "(\<exists>d. ResolveCompatible r (cr_id (ac_capability a)) (cr_version (ac_capability a)) = Some d \<and>
      IsBackwardCompatible (cr_version (ac_capability a)) (d_version d) \<and>
      (d_permission d = [] \<or> d_permission d \<in> set (mf_permissions m))) \<and>
    (\<forall>e. cr_entity (ac_capability a) = Some e \<longrightarrow> er_id e \<noteq> [] \<longrightarrow> resource_key e \<in> set (mf_resources m))"
proof -
  from assms(1) obtain digest d es where m: "m = (assemble s digest (Some r))\<lparr>mf_plan_digest := d\<rparr>"
    and ds: "ds = mf_diagnostics (assemble s digest (Some r)) @ es"
    using assms(3) by (auto elim!: Compile_Some)
  obtain env eds where e: "BuildTypeEnvironment s (Some r) = (env, eds)" by fastforce
  obtain resolved rds where rs: "ResolveCapabilities s (Some r) = (resolved, rds)" by fastforce
  have "\<not> HasErrors rds" using assms(2) by (simp add: ds assemble_fields(1) [OF e rs])
  from actions_are_resolved [OF rs this assms(4,5)] obtain d' where
    d': "ResolveCompatible r (cr_id (ac_capability a)) (cr_version (ac_capability a)) = Some d'" and
    u: "use_noted (ac_capability a) d' resolved" .
  have "mf_permissions m = rs_permissions resolved" "mf_resources m = rs_resources resolved"
    by (simp_all add: m assemble_fields [OF e rs])
  with u d' registry_source.resolve_version [OF d'] show ?thesis by (auto simp: use_noted_def)
qed

theorem manifest_declares_uses_witness:
  "\<exists>m ds. Compile (\<lambda>_. True) ex_ref trigger_names (\<lambda>_. Inr ''plan'') (Some siren_registry) siren_scenario =
     (Some m, ds) \<and> ''siren:siren-1'' \<in> set (mf_resources m)"
proof -
  from siren_scenario_compiles obtain m ds where
    c: "Compile (\<lambda>_. True) ex_ref trigger_names (\<lambda>_. Inr ''plan'') (Some siren_registry) siren_scenario = (Some m, ds)"
    and d: "\<not> HasErrors ds" by blast
  have "siren_step \<in> set (all_steps (scn_flow siren_scenario))" by code_simp
  moreover have "st_action siren_step =
      Some (ActionStep (CapabilityRef ''siren.sound'' ''1.1.0'' (Some (EntityRef ''siren-1'' ''siren'')))
        [(''seconds'', Literal (Value (plain_type TypeInt) (Some (JInt 30))))] None)"
    by (simp add: siren_step_def act_def)
  ultimately have "resource_key (EntityRef ''siren-1'' ''siren'') \<in> set (mf_resources m)"
    using manifest_declares_uses [OF c d siren_scenario_normal] by fastforce
  with c show ?thesis by (auto simp: resource_key_def)
qed






text \<open>
  A manifest carries the plan of its runtime and no other: a compiled scenario that is
  accepted for Axiom has an Axiom plan for its first trigger, and any other an ADGO plan.
\<close>

theorem one_plan:
  assumes "Compile tz enc hash plan_hash reg source = (Some m, ds)"
  shows "(mf_runtime m = RuntimeAxiom \<longleftrightarrow> mf_axiom m \<noteq> None) \<and>
    (mf_runtime m = RuntimeADGO \<longleftrightarrow> mf_adgo m \<noteq> None)"
proof -
  from assms obtain s digest d where n: "Normalize tz enc source = Inr s"
    and m: "m = (assemble s digest reg)\<lparr>mf_plan_digest := d\<rparr>" by (auto elim!: Compile_Some)
  obtain env eds where e: "BuildTypeEnvironment s reg = (env, eds)" by fastforce
  obtain resolved rds where rs: "ResolveCapabilities s reg = (resolved, rds)" by fastforce
  note f = assemble_fields [OF e rs, of digest]
  have "scn_triggers s \<noteq> []" using scenario_validate_None(1) [OF Normalize_valid [OF n]] .
  then have "fst (LowerToAxiom s) \<noteq> None" by (cases "scn_triggers s") (simp_all add: LowerToAxiom_def Let_def)
  then show ?thesis
    using f(8,9) by (cases "mf_runtime (assemble s digest reg)") (simp_all add: m LowerToADGO_def)
qed

theorem one_plan_witness:
  "mf_runtime unlock_manifest = RuntimeADGO \<longleftrightarrow> mf_adgo unlock_manifest \<noteq> None"
  using one_plan [OF unlock_compiled] by blast

text \<open>
  Compiling does not depend on the order in which triggers and parameters are listed: the
  manifest, its digests and all diagnostics are the same.
\<close>

theorem compile_order_independent:
  assumes "Normalize tz enc source = Inr s"
    and "mset ts = mset (scn_triggers source)" and "mset ps = mset (scn_parameters source)"
  shows "Compile tz enc hash plan_hash reg (source\<lparr>scn_triggers := ts, scn_parameters := ps\<rparr>) =
    Compile tz enc hash plan_hash reg source"
  using assms(1) normalize_permuted [OF assms] by (simp add: Compile_def)

theorem compile_order_independent_witness:
  "Compile (\<lambda>_. True) ex_ref trigger_names (\<lambda>_. Inr ''plan'') None
     (button_scenario\<lparr>scn_triggers := [button_trigger ''t1'' [], button_trigger ''t2'' [after_spec ''t1'']],
        scn_parameters := [Parameter ''level'' (plain_type TypeInt) False None]\<rparr>) =
   Compile (\<lambda>_. True) ex_ref trigger_names (\<lambda>_. Inr ''plan'') None button_scenario"
  by (rule compile_order_independent [OF normalized_button]) (simp_all add: sample_scenario_def)

end
